(* ===== verification/Muse_Prelude.thy ===== *)
theory Muse_Prelude
  imports "HOL-Library.Word"
begin

unbundle bit_operations_syntax

text \<open>
  Shared vocabulary of the development: the machine integers of the i686 target, the byte
  store that C pointers index, results of code that can stop, the page arithmetic of
  \<^verbatim>\<open>include/muse/paging.h\<close>, the helpers of \<^verbatim>\<open>include/muse/utils.h\<close>, and the generic lemmas on
  words and byte stores that the component theories use.
\<close>

section \<open>Machine integers and results\<close>

type_synonym u8 = "8 word"
type_synonym u16 = "16 word"
type_synonym u32 = "32 word"
type_synonym u64 = "64 word"

text \<open>A C pointer into a byte-addressed 32-bit address space, and that space.\<close>

type_synonym addr = u32
type_synonym bmem = "addr \<Rightarrow> u8"

text \<open>
  What stops a kernel routine other than returning: \<open>Halted\<close> is \<^verbatim>\<open>cli; hlt\<close>, \<open>PageFault\<close> an
  access the MMU refuses, \<open>OutOfBounds\<close> an access outside a C object (undefined behaviour in
  the source), \<open>Spins\<close> a wait loop that only another context can end, \<open>DivideError\<close> a division by 0.
\<close>

datatype kerror = Halted | PageFault addr | OutOfBounds | Spins | DivideError

type_synonym 'a result = "kerror + 'a"

definition rbind :: "'a result \<Rightarrow> ('a \<Rightarrow> 'b result) \<Rightarrow> 'b result" where
  "rbind r f = (case r of Inl e \<Rightarrow> Inl e | Inr x \<Rightarrow> f x)"

lemma rbind_simps [simp]:
  "rbind (Inl e) f = Inl e"
  "rbind (Inr x) f = f x"
  by (simp_all add: rbind_def)

lemma rbind_Inr_iff: "rbind r f = Inr y \<longleftrightarrow> (\<exists>x. r = Inr x \<and> f x = Inr y)"
  by (cases r) auto

lemma rbind_InrE [elim!]:
  assumes "rbind r f = Inr y"
  obtains x where "r = Inr x" and "f x = Inr y"
  using assms by (cases r) auto

lemma rbind_cong [fundef_cong]:
  "r = r' \<Longrightarrow> (\<And>x. r' = Inr x \<Longrightarrow> f x = g x) \<Longrightarrow> rbind r f = rbind r' g"
  by (cases r') auto

lemma rbind_Inr_right [simp]: "rbind r Inr = r"
  by (cases r) simp_all

text \<open>A loop over a list of steps that stops at the first failure.\<close>

fun rfold :: "('x \<Rightarrow> 's \<Rightarrow> 's result) \<Rightarrow> 'x list \<Rightarrow> 's \<Rightarrow> 's result" where
  "rfold f [] s = Inr s"
| "rfold f (x # xs) s = rbind (f x s) (rfold f xs)"

lemma rfold_unfold: "rfold f [] = Inr" "rfold f (x # xs) = (\<lambda>s. rbind (f x s) (rfold f xs))"
  by (simp_all add: fun_eq_iff)

lemma rbind_assoc: "rbind (rbind r f) g = rbind r (\<lambda>x. rbind (f x) g)"
  by (cases r) auto

lemma rfold_append: "rfold f (xs @ ys) s = rbind (rfold f xs s) (rfold f ys)"
proof (induction xs arbitrary: s)
  case (Cons x xs)
  then have "rfold f (xs @ ys) = (\<lambda>s. rbind (rfold f xs s) (rfold f ys))" by blast
  then show ?case by (simp add: rbind_assoc)
qed simp

lemma rfold_inv:
  assumes "I s" and "\<And>x s. x \<in> set xs \<Longrightarrow> I s \<Longrightarrow> \<exists>s'. f x s = Inr s' \<and> I s'"
  shows "\<exists>s'. rfold f xs s = Inr s' \<and> I s'"
  using assms
proof (induction xs arbitrary: s)
  case (Cons x xs)
  from Cons.prems(2) [of x s] Cons.prems(1) obtain t where "f x s = Inr t" "I t" by auto
  with Cons.IH [of t] Cons.prems(2) show ?case by auto
qed auto

lemma concat_take_drop:
  "length bs = s * n \<Longrightarrow> concat (map (\<lambda>i. take s (drop (s * i) bs)) [0..<n]) = bs"
proof (induction n arbitrary: bs)
  case (Suc n)
  have "map (\<lambda>i. take s (drop (s * i) bs)) [0..<Suc n] = take s bs # map (\<lambda>i. take s (drop (s * i) (drop s bs))) [0..<n]"
    unfolding upt_conv_Cons [OF zero_less_Suc] by (simp add: map_Suc_upt [symmetric] add.commute del: upt_Suc)
  with Suc.IH [of "drop s bs"] Suc.prems show ?case by simp
qed simp

lemma find_append_case:
  "find P (xs @ ys) = (case find P xs of Some x \<Rightarrow> Some x | None \<Rightarrow> find P ys)"
  by (induction xs) auto

section \<open>Word arithmetic\<close>

named_theorems word_bounds \<open>conversions between word and natural-number comparisons\<close>

lemma word_less_succ_unat: "(i :: 'a::len word) < n \<Longrightarrow> unat (i + 1) = Suc (unat i)"
  by unat_arith

lemma drop_bit_zero_not_bit: "drop_bit n (b :: 'a::len word) = 0 \<Longrightarrow> \<not> bit b n"
proof -
  have "bit (drop_bit n b) 0 = bit b n" by (simp only: bit_drop_bit_eq comp_apply add_0_right)
  then show "drop_bit n b = 0 \<Longrightarrow> \<not> bit b n" by simp
qed

lemma word_loop_measure:
  "(i :: 'a::len word) < n \<Longrightarrow> unat n - unat (i + 1) < unat n - unat i"
  by (simp add: word_less_succ_unat word_less_nat_alt)

lemma unat_u32_lt [simp]: "unat (x :: u32) < 4294967296"
  using unsigned_less [of x] by simp

lemma unat_u8_lt [simp]: "unat (x :: u8) < 256"
  using unsigned_less [of x] by simp

lemma word_less_succ_iff: "(i :: 'a::len word) < n \<Longrightarrow> k < i + 1 \<longleftrightarrow> k < i \<or> k = i"
  by (auto simp: word_less_nat_alt word_less_succ_unat less_Suc_eq word_unat_eq_iff)

lemma unat_sub_u32:
  "unat (a - b :: u32) = (if unat b \<le> unat a then unat a - unat b else unat a + 4294967296 - unat b)"
  by (simp add: unat_sub_if' word_le_nat_alt)

lemma unat_add_u32:
  "unat (a + b :: u32) =
     (if unat a + unat b < 4294967296 then unat a + unat b else unat a + unat b - 4294967296)"
  by (simp add: unat_plus_if')

lemma unat_of_nat_u32: "n < 4294967296 \<Longrightarrow> unat (of_nat n :: u32) = n"
  by (simp add: unat_of_nat take_bit_nat_eq_self)

text \<open>Reading a goal about \<^typ>\<open>u32\<close> as one about natural numbers.\<close>

lemmas u32_nat = word_less_nat_alt word_le_nat_alt word_unat_eq_iff unat_sub_u32 unat_add_u32

section \<open>Loading and storing 32-bit little-endian words\<close>

definition load32 :: "bmem \<Rightarrow> addr \<Rightarrow> u32" where
  "load32 m a = ucast (m a) OR push_bit 8 (ucast (m (a + 1))) OR
     push_bit 16 (ucast (m (a + 2))) OR push_bit 24 (ucast (m (a + 3)))"

definition store32 :: "bmem \<Rightarrow> addr \<Rightarrow> u32 \<Rightarrow> bmem" where
  "store32 m a w = m(a := ucast w, a + 1 := ucast (drop_bit 8 w),
     a + 2 := ucast (drop_bit 16 w), a + 3 := ucast (drop_bit 24 w))"

lemma byte_bounds: "n < 32 \<Longrightarrow> n < 8 \<or> 8 \<le> n \<and> n - 8 < 8 \<or> 16 \<le> n \<and> n - 16 < 8 \<or> 24 \<le> n \<and> n - 24 < 8"
  for n :: nat
  by linarith

lemma bytes_join:
  "(ucast (ucast w :: u8) OR push_bit 8 (ucast (ucast (drop_bit 8 w) :: u8)) OR
     push_bit 16 (ucast (ucast (drop_bit 16 w) :: u8)) OR
     push_bit 24 (ucast (ucast (drop_bit 24 w) :: u8))) = (w :: u32)"
proof (rule bit_word_eqI)
  fix n assume "n < LENGTH(32)"
  then have "n < 32" by simp
  then show "bit (ucast (ucast w :: u8) OR push_bit 8 (ucast (ucast (drop_bit 8 w) :: u8)) OR
     push_bit 16 (ucast (ucast (drop_bit 16 w) :: u8)) OR
     push_bit 24 (ucast (ucast (drop_bit 24 w) :: u8)) :: u32) n = bit w n"
    using byte_bounds [of n] by (auto simp: bit_simps)
qed

lemma load32_store32_same [simp]: "load32 (store32 m a w) a = w"
  by (simp add: load32_def store32_def bytes_join)

text \<open>Two 4-byte words at \<open>a\<close> and \<open>b\<close> share no byte.\<close>

definition apart32 :: "addr \<Rightarrow> addr \<Rightarrow> bool" where
  "apart32 a b \<longleftrightarrow> 4 \<le> a - b \<and> 4 \<le> b - a"

lemma apart32_commute: "apart32 a b \<longleftrightarrow> apart32 b a"
  by (auto simp: apart32_def)

lemma store32_outside: "4 \<le> c - a \<Longrightarrow> store32 m a w c = m c"
  by (auto simp: store32_def word_le_nat_alt)

lemma apart32_outside:
  assumes "apart32 a b" and "i < 4"
  shows "4 \<le> (b + i) - a"
  using assms unfolding apart32_def by unat_arith

lemma load32_store32_apart [simp]: "apart32 a b \<Longrightarrow> load32 (store32 m a w) b = load32 m b"
  using apart32_outside [of a b 0] apart32_outside [of a b 1] apart32_outside [of a b 2]
    apart32_outside [of a b 3]
  by (simp add: load32_def store32_outside)

text \<open>Distinct 4-aligned words are apart.\<close>

lemma apart32_aligned:
  assumes "a mod 4 = 0" and "b mod 4 = 0" and "a \<noteq> b"
  shows "apart32 a b"
proof -
  have "unat a mod 4 = 0" and "unat b mod 4 = 0"
    using assms(1,2) by (simp_all add: word_unat_eq_iff unat_mod)
  moreover have "unat a \<noteq> unat b" using assms(3) by (simp add: word_unat_eq_iff)
  ultimately show ?thesis
    using unat_u32_lt [of a] unat_u32_lt [of b]
    unfolding apart32_def word_le_nat_alt unat_sub_u32 by (simp; presburger)
qed

section \<open>C strings in a byte store\<close>

text \<open>The bytes \<open>cs\<close>, none of them NUL, stand at \<open>p\<close> and a NUL follows them.\<close>

primrec cstr :: "bmem \<Rightarrow> addr \<Rightarrow> u8 list \<Rightarrow> bool" where
  "cstr m p [] \<longleftrightarrow> m p = 0"
| "cstr m p (c # cs) \<longleftrightarrow> c \<noteq> 0 \<and> m p = c \<and> cstr m (p + 1) cs"

lemma cstr_iff:
  "cstr m p cs \<longleftrightarrow> (\<forall>i < length cs. m (p + of_nat i) = cs ! i) \<and> 0 \<notin> set cs \<and>
     m (p + of_nat (length cs)) = 0"
proof (induction cs arbitrary: p)
  case (Cons c cs)
  have "(\<forall>i < Suc (length cs). m (p + of_nat i) = (c # cs) ! i) \<longleftrightarrow>
      m p = c \<and> (\<forall>i < length cs. m (p + 1 + of_nat i) = cs ! i)"
    by (auto simp: All_less_Suc2 add.assoc)
  with Cons show ?case by (auto simp: add.assoc)
qed simp

lemma cstr_nth: "cstr m p cs \<Longrightarrow> i < length cs \<Longrightarrow> m (p + of_nat i) = cs ! i \<and> cs ! i \<noteq> 0"
  by (metis cstr_iff nth_mem)

lemma cstr_end: "cstr m p cs \<Longrightarrow> m (p + of_nat (length cs)) = 0"
  by (simp add: cstr_iff)

lemma cstr_length:
  assumes "cstr m p cs"
  shows "length cs < 2 ^ 32"
proof (rule ccontr)
  assume "\<not> length cs < 2 ^ 32"
  then have le: "2 ^ 32 \<le> length cs" by simp
  define i where "i = length cs - 2 ^ 32"
  have "(of_nat (length cs) :: u32) = of_nat i"
    using le by (simp add: i_def of_nat_diff)
  moreover have "i < length cs" using le by (simp add: i_def)
  ultimately show False
    using cstr_nth [OF assms, of i] cstr_end [OF assms] by simp
qed

lemma cstr_cong:
  "(\<And>i. i \<le> length cs \<Longrightarrow> m' (q + of_nat i) = m (p + of_nat i)) \<Longrightarrow> cstr m p cs \<Longrightarrow> cstr m' q cs"
  by (simp add: cstr_iff)

section \<open>Interface: copying a block of bytes\<close>

text \<open>
  What both \<^verbatim>\<open>memcpy\<close> routines of the repository promise: if the destination does not start inside
  the source, the destination receives the source and nothing else changes. The condition
  \<open>unat (s2 - s1) + unat n \<le> 2 ^ 32\<close> says that going up from \<open>s1\<close> the source at \<open>s2\<close> ends before
  \<open>s1\<close> comes round again; it holds for disjoint ranges and for a destination below an overlapping
  source.
\<close>

locale mem_copy =
  fixes cp :: "bmem \<Rightarrow> addr \<Rightarrow> addr \<Rightarrow> u32 \<Rightarrow> bmem"
  assumes cp_spec: "unat (s2 - s1) + unat n \<le> 2 ^ 32 \<Longrightarrow>
    cp m s1 s2 n a = (if a - s1 < n then m (s2 + (a - s1)) else m a)"
begin

lemma cp_inside:
  "unat (s2 - s1) + unat n \<le> 2 ^ 32 \<Longrightarrow> i < n \<Longrightarrow> cp m s1 s2 n (s1 + i) = m (s2 + i)"
  by (simp add: cp_spec)

lemma cp_outside: "unat (s2 - s1) + unat n \<le> 2 ^ 32 \<Longrightarrow> n \<le> a - s1 \<Longrightarrow> cp m s1 s2 n a = m a"
  by (simp add: cp_spec leD)

lemma cp_self: "cp m s s n = m"
  by (rule ext) (simp add: cp_spec order_less_imp_le [OF unat_u32_lt])

lemma cp_load32:
  assumes "unat (s2 - s1) + unat n \<le> 2 ^ 32" and "unat i + 4 \<le> unat n"
  shows "load32 (cp m s1 s2 n) (s1 + i) = load32 m (s2 + i)"
proof -
  have "i + k < n" if "unat k < 4" for k
    using assms(2) that by (auto simp: word_less_nat_alt unat_plus_if')
  from this [of 0] this [of 1] this [of 2] this [of 3] show ?thesis
    using cp_inside [OF assms(1)] by (simp add: load32_def add.assoc)
qed

lemma cp_cstr:
  assumes "cstr m s2 cs" and "unat (s2 - s1) + length cs + 1 \<le> 2 ^ 32" and "length cs + 1 < 2 ^ 32"
  shows "cstr (cp m s1 s2 (of_nat (length cs + 1))) s1 cs"
proof (rule cstr_cong [OF _ assms(1)])
  fix i assume i: "i \<le> length cs"
  have n: "unat (of_nat (length cs + 1) :: u32) = length cs + 1"
    using assms(3) by (intro unat_of_nat_u32) simp
  have "(of_nat i :: u32) < of_nat (length cs + 1)"
    using assms(3) i n by (simp add: word_less_nat_alt unat_of_nat_u32 del: of_nat_add of_nat_Suc)
  then show "cp m s1 s2 (of_nat (length cs + 1)) (s1 + of_nat i) = m (s2 + of_nat i)"
    by (intro cp_inside) (use n assms(2) in simp_all)
qed

end

end
