(* ===== verification/Libc_String.thy ===== *)
theory Libc_String
  imports Muse_Prelude
begin

unbundle bit_operations_syntax

text \<open>
  \<^verbatim>\<open>libc/lib/string.c\<close>: the string and memory routines of the user-space C library, over the byte
  store \<^typ>\<open>bmem\<close>. A \<^verbatim>\<open>size_t\<close> is a \<^typ>\<open>u32\<close>; pointer arithmetic wraps as the hardware's does.
  A counted loop is a total recursion; a loop that runs until a NUL byte is a
  \<^theory_text>\<open>partial_function (option)\<close>, \<^term>\<open>None\<close> meaning that it never returns. \<^verbatim>\<open>char\<close> is signed on
  this target, so a plain \<^verbatim>\<open>char\<close> compared with an \<^verbatim>\<open>int\<close> is sign-extended (\<^term>\<open>scast\<close>).
\<close>

section \<open>The routines\<close>

function memcpy_loop :: "bmem \<Rightarrow> addr \<Rightarrow> addr \<Rightarrow> u32 \<Rightarrow> u32 \<Rightarrow> bmem" where
  "memcpy_loop m s1 s2 n i =
     (if i < n then memcpy_loop (m(s1 + i := m (s2 + i))) s1 s2 n (i + 1) else m)"
  by pat_completeness auto
termination
  by (relation "measure (\<lambda>(m, s1, s2, n, i). unat n - unat i)") (auto intro: word_loop_measure)

definition memcpy :: "bmem \<Rightarrow> addr \<Rightarrow> addr \<Rightarrow> u32 \<Rightarrow> bmem \<times> addr" where
  "memcpy m s1 s2 n = (memcpy_loop m s1 s2 n 0, s1)"

function memmove_loop :: "bmem \<Rightarrow> addr \<Rightarrow> addr \<Rightarrow> u32 \<Rightarrow> u32 \<Rightarrow> bmem" where
  "memmove_loop m s1 s2 n i =
     (if i < n then memmove_loop (m(s1 + (n - i) := m (s2 + (n - i)))) s1 s2 n (i + 1) else m)"
  by pat_completeness auto
termination
  by (relation "measure (\<lambda>(m, s1, s2, n, i). unat n - unat i)") (auto intro: word_loop_measure)

definition memmove :: "bmem \<Rightarrow> addr \<Rightarrow> addr \<Rightarrow> u32 \<Rightarrow> bmem \<times> addr" where
  "memmove m s1 s2 n = (if s1 \<le> s2 then memcpy m s1 s2 n else (memmove_loop m s1 s2 n 0, s1))"

partial_function (option) strcpy_loop :: "bmem \<Rightarrow> addr \<Rightarrow> addr \<Rightarrow> u32 \<Rightarrow> bmem option" where
  "strcpy_loop m s1 s2 i =
     (let m' = m(s1 + i := m (s2 + i))
      in if m' (s2 + i) = 0 then Some m' else strcpy_loop m' s1 s2 (i + 1))"

definition strcpy :: "bmem \<Rightarrow> addr \<Rightarrow> addr \<Rightarrow> (bmem \<times> addr) option" where
  "strcpy m s1 s2 = map_option (\<lambda>m'. (m', s1)) (strcpy_loop m s1 s2 0)"

function strncpy_copy :: "bmem \<Rightarrow> addr \<Rightarrow> addr \<Rightarrow> u32 \<Rightarrow> u32 \<Rightarrow> bmem \<times> u32" where
  "strncpy_copy m s1 s2 n i =
     (if i < n \<and> m (s2 + i) \<noteq> 0
      then strncpy_copy (m(s1 + i := m (s2 + i))) s1 s2 n (i + 1) else (m, i))"
  by pat_completeness auto
termination
  by (relation "measure (\<lambda>(m, s1, s2, n, i). unat n - unat i)") (auto intro: word_loop_measure)

function strncpy_pad :: "bmem \<Rightarrow> addr \<Rightarrow> u32 \<Rightarrow> u32 \<Rightarrow> bmem" where
  "strncpy_pad m s1 n i = (if i < n then strncpy_pad (m(s1 + i := 0)) s1 n (i + 1) else m)"
  by pat_completeness auto
termination
  by (relation "measure (\<lambda>(m, s1, n, i). unat n - unat i)") (auto intro: word_loop_measure)

definition strncpy :: "bmem \<Rightarrow> addr \<Rightarrow> addr \<Rightarrow> u32 \<Rightarrow> bmem \<times> addr" where
  "strncpy m s1 s2 n = (case strncpy_copy m s1 s2 n 0 of (m', i) \<Rightarrow> (strncpy_pad m' s1 n i, s1))"

partial_function (option) strlen_loop :: "bmem \<Rightarrow> addr \<Rightarrow> u32 \<Rightarrow> u32 option" where
  "strlen_loop m s len = (if m (s + len) \<noteq> 0 then strlen_loop m s (len + 1) else Some len)"

definition strlen :: "bmem \<Rightarrow> addr \<Rightarrow> u32 option" where
  "strlen m s = strlen_loop m s 0"

partial_function (option) strcat_copy :: "bmem \<Rightarrow> addr \<Rightarrow> addr \<Rightarrow> u32 \<Rightarrow> u32 \<Rightarrow> (bmem \<times> u32) option" where
  "strcat_copy m s1 s2 null_idx i =
     (if m (s2 + i) \<noteq> 0
      then strcat_copy (m(s1 + (null_idx + i) := m (s2 + i))) s1 s2 null_idx (i + 1)
      else Some (m, i))"

text \<open>The first loop of \<^verbatim>\<open>strcat\<close> and \<^verbatim>\<open>strncat\<close> is the loop of \<^verbatim>\<open>strlen\<close> under the name \<^verbatim>\<open>null_idx\<close>.\<close>

definition strcat :: "bmem \<Rightarrow> addr \<Rightarrow> addr \<Rightarrow> (bmem \<times> addr) option" where
  "strcat m s1 s2 =
     Option.bind (strlen_loop m s1 0) (\<lambda>null_idx.
     Option.bind (strcat_copy m s1 s2 null_idx 0) (\<lambda>(m', i).
     Some (m'(s1 + (null_idx + i) := 0), s1)))"

function strncat_copy :: "bmem \<Rightarrow> addr \<Rightarrow> addr \<Rightarrow> u32 \<Rightarrow> u32 \<Rightarrow> u32 \<Rightarrow> bmem \<times> u32" where
  "strncat_copy m s1 s2 null_idx n i =
     (if i < n
      then if m (s2 + i) = 0 then (m, i + 1)
           else strncat_copy (m(s1 + (null_idx + i) := m (s2 + i))) s1 s2 null_idx n (i + 1)
      else (m, i))"
  by pat_completeness auto
termination
  by (relation "measure (\<lambda>(m, s1, s2, k, n, i). unat n - unat i)") (auto intro: word_loop_measure)

definition strncat :: "bmem \<Rightarrow> addr \<Rightarrow> addr \<Rightarrow> u32 \<Rightarrow> (bmem \<times> addr) option" where
  "strncat m s1 s2 n =
     Option.bind (strlen_loop m s1 0) (\<lambda>null_idx.
     case strncat_copy m s1 s2 null_idx n 0 of
       (m', i) \<Rightarrow> Some (m'(s1 + (null_idx + i) := 0), s1))"

text \<open>The difference of two \<^verbatim>\<open>unsigned char\<close> values, promoted to \<^verbatim>\<open>int\<close>.\<close>

definition char_diff :: "u8 \<Rightarrow> u8 \<Rightarrow> int" where
  "char_diff c1 c2 = uint c1 - uint c2"

function memcmp_loop :: "bmem \<Rightarrow> addr \<Rightarrow> addr \<Rightarrow> u32 \<Rightarrow> u32 \<Rightarrow> int" where
  "memcmp_loop m s1 s2 n i =
     (if i < n
      then if m (s1 + i) \<noteq> m (s2 + i) then char_diff (m (s1 + i)) (m (s2 + i))
           else memcmp_loop m s1 s2 n (i + 1)
      else 0)"
  by pat_completeness auto
termination
  by (relation "measure (\<lambda>(m, s1, s2, n, i). unat n - unat i)") (auto intro: word_loop_measure)

definition memcmp :: "bmem \<Rightarrow> addr \<Rightarrow> addr \<Rightarrow> u32 \<Rightarrow> int" where
  "memcmp m s1 s2 n = memcmp_loop m s1 s2 n 0"

text \<open>The body of \<^verbatim>\<open>strcmp\<close>'s loop does not advance \<^verbatim>\<open>i\<close>; the model keeps that.\<close>

partial_function (option) strcmp_loop :: "bmem \<Rightarrow> addr \<Rightarrow> addr \<Rightarrow> u32 \<Rightarrow> int option" where
  "strcmp_loop m s1 s2 i =
     (if m (s1 + i) = m (s2 + i)
      then if m (s1 + i) = 0 then Some 0 else strcmp_loop m s1 s2 i
      else Some (char_diff (m (s1 + i)) (m (s2 + i))))"

definition strcmp :: "bmem \<Rightarrow> addr \<Rightarrow> addr \<Rightarrow> int option" where
  "strcmp m s1 s2 = strcmp_loop m s1 s2 0"

function strncmp_loop :: "bmem \<Rightarrow> addr \<Rightarrow> addr \<Rightarrow> u32 \<Rightarrow> u32 \<Rightarrow> int" where
  "strncmp_loop m s1 s2 n i =
     (if i < n
      then if m (s1 + i) \<noteq> m (s2 + i) then char_diff (m (s1 + i)) (m (s2 + i))
           else if m (s1 + i) = 0 then 0
           else strncmp_loop m s1 s2 n (i + 1)
      else 0)"
  by pat_completeness auto
termination
  by (relation "measure (\<lambda>(m, s1, s2, n, i). unat n - unat i)") (auto intro: word_loop_measure)

definition strncmp :: "bmem \<Rightarrow> addr \<Rightarrow> addr \<Rightarrow> u32 \<Rightarrow> int" where
  "strncmp m s1 s2 n = strncmp_loop m s1 s2 n 0"

text \<open>The searching routines return a pointer, 0 being the null pointer; \<^verbatim>\<open>c\<close> is an \<^verbatim>\<open>int\<close>.\<close>

function memchr_loop :: "bmem \<Rightarrow> addr \<Rightarrow> u32 \<Rightarrow> u32 \<Rightarrow> u32 \<Rightarrow> addr" where
  "memchr_loop m s c n i =
     (if i < n then if ucast (m (s + i)) = c then s + i else memchr_loop m s c n (i + 1) else 0)"
  by pat_completeness auto
termination
  by (relation "measure (\<lambda>(m, s, c, n, i). unat n - unat i)") (auto intro: word_loop_measure)

definition memchr :: "bmem \<Rightarrow> addr \<Rightarrow> u32 \<Rightarrow> u32 \<Rightarrow> addr" where
  "memchr m s c n = memchr_loop m s c n 0"

partial_function (option) strchr :: "bmem \<Rightarrow> addr \<Rightarrow> u32 \<Rightarrow> addr option" where
  "strchr m s c =
     (if m s \<noteq> 0 then if scast (m s) = c then Some s else strchr m (s + 1) c
      else if c = 0 then Some s else Some 0)"

text \<open>The inner loops of \<^verbatim>\<open>strcspn\<close>, \<^verbatim>\<open>strpbrk\<close> and \<^verbatim>\<open>strspn\<close>: does the byte occur in the string at \<^verbatim>\<open>s2\<close>?\<close>

partial_function (option) str_has :: "bmem \<Rightarrow> addr \<Rightarrow> u8 \<Rightarrow> u32 \<Rightarrow> bool option" where
  "str_has m s2 c j =
     (if m (s2 + j) \<noteq> 0 then if c = m (s2 + j) then Some True else str_has m s2 c (j + 1)
      else Some False)"

partial_function (option) strcspn_loop :: "bmem \<Rightarrow> addr \<Rightarrow> addr \<Rightarrow> u32 \<Rightarrow> u32 option" where
  "strcspn_loop m s1 s2 i =
     (if m (s1 + i) \<noteq> 0
      then Option.bind (str_has m s2 (m (s1 + i)) 0) (\<lambda>found.
             if found then Some i else strcspn_loop m s1 s2 (i + 1))
      else Some i)"

definition strcspn :: "bmem \<Rightarrow> addr \<Rightarrow> addr \<Rightarrow> u32 option" where
  "strcspn m s1 s2 = strcspn_loop m s1 s2 0"

partial_function (option) strpbrk :: "bmem \<Rightarrow> addr \<Rightarrow> addr \<Rightarrow> addr option" where
  "strpbrk m s1 s2 =
     (if m s1 \<noteq> 0
      then Option.bind (str_has m s2 (m s1) 0) (\<lambda>found.
             if found then Some s1 else strpbrk m (s1 + 1) s2)
      else Some 0)"

partial_function (option) strrchr_loop :: "bmem \<Rightarrow> addr \<Rightarrow> u32 \<Rightarrow> addr \<Rightarrow> addr option" where
  "strrchr_loop m s c res =
     (if m s \<noteq> 0 then strrchr_loop m (s + 1) c (if scast (m s) = c then s else res) else Some res)"

definition strrchr :: "bmem \<Rightarrow> addr \<Rightarrow> u32 \<Rightarrow> addr option" where
  "strrchr m s c = strrchr_loop m s c 0"

text \<open>The outer loop of \<^verbatim>\<open>strspn\<close> tests \<^verbatim>\<open>*s1\<close>, which does not change, and not \<^verbatim>\<open>s1[i]\<close>.\<close>

partial_function (option) strspn_loop :: "bmem \<Rightarrow> addr \<Rightarrow> addr \<Rightarrow> u32 \<Rightarrow> u32 option" where
  "strspn_loop m s1 s2 i =
     (if m s1 \<noteq> 0
      then Option.bind (str_has m s2 (m (s1 + i)) 0) (\<lambda>good.
             if \<not> good then Some i else strspn_loop m s1 s2 (i + 1))
      else Some i)"

definition strspn :: "bmem \<Rightarrow> addr \<Rightarrow> addr \<Rightarrow> u32 option" where
  "strspn m s1 s2 = strspn_loop m s1 s2 0"

section \<open>Copying\<close>

declare memcpy_loop.simps [simp del] memmove_loop.simps [simp del] strncpy_copy.simps [simp del]
  strncpy_pad.simps [simp del] strncat_copy.simps [simp del] memcmp_loop.simps [simp del]
  strncmp_loop.simps [simp del] memchr_loop.simps [simp del]

lemma memcpy_loop_done [simp]: "\<not> i < n \<Longrightarrow> memcpy_loop m s1 s2 n i = m"
  by (simp add: memcpy_loop.simps)

lemma memcpy_loop_step:
  "i < n \<Longrightarrow> memcpy_loop m s1 s2 n i = memcpy_loop (m(s1 + i := m (s2 + i))) s1 s2 n (i + 1)"
  by (simp add: memcpy_loop.simps [of m])

lemma forward_safe:
  fixes d k i :: u32
  assumes "unat d + unat k < 2 ^ 32" and "i < k"
  shows "d + k \<noteq> i"
  using assms by (auto simp: u32_nat)

lemma memcpy_loop_spec:
  assumes "unat (s2 - s1) + unat n \<le> 2 ^ 32"
  shows "memcpy_loop m s1 s2 n i a =
     (if i \<le> a - s1 \<and> a - s1 < n then m (s2 + (a - s1)) else m a)"
  using assms
proof (induction m s1 s2 n i rule: memcpy_loop.induct)
  case (1 m s1 s2 n i)
  show ?case
  proof (cases "i < n")
    case False
    then show ?thesis by (auto simp: memcpy_loop.simps [of m s1 s2 n i])
  next
    case True
    let ?m = "m(s1 + i := m (s2 + i))" and ?k = "a - s1"
    have IH: "memcpy_loop m s1 s2 n i a =
        (if i + 1 \<le> ?k \<and> ?k < n then ?m (s2 + ?k) else ?m a)"
      using "1.IH" [OF True "1.prems"] by (simp only: memcpy_loop_step [OF True])
    have step: "i + 1 \<le> ?k \<longleftrightarrow> i < ?k"
      using True by (auto simp: word_le_nat_alt word_less_nat_alt word_less_succ_unat)
    have keep: "s2 + ?k \<noteq> s1 + i" if "i < ?k" "?k < n"
      using forward_safe [of "s2 - s1" ?k i] "1.prems" that
      by (auto simp: algebra_simps word_less_nat_alt)
    have here: "a = s1 + i \<longleftrightarrow> ?k = i" by (auto simp: algebra_simps)
    show ?thesis
      unfolding IH step using keep True here by (auto simp: order_le_less)
  qed
qed

lemma memcpy_spec:
  assumes "unat (s2 - s1) + unat n \<le> 2 ^ 32"
  shows "fst (memcpy m s1 s2 n) a = (if a - s1 < n then m (s2 + (a - s1)) else m a)"
  using memcpy_loop_spec [OF assms, of m 0 a] by (simp add: memcpy_def)

lemma word_diff_nowrap:
  fixes s1 s2 n :: u32
  assumes "s1 \<le> s2" and "unat s2 + unat n \<le> 2 ^ 32"
  shows "unat (s2 - s1) + unat n \<le> 2 ^ 32"
  using assms by (simp add: unat_sub_u32 word_le_nat_alt)

text \<open>The backward loop of \<^verbatim>\<open>memmove\<close> moves the offsets \<open>n, n - 1, \<dots>, 1\<close>, not \<open>n - 1, \<dots>, 0\<close>.\<close>

lemma memmove_loop_spec:
  assumes "unat (s1 - s2) + unat n < 2 ^ 32" and "i \<le> n"
  shows "memmove_loop m s1 s2 n i a =
     (if 0 < a - s1 \<and> a - s1 \<le> n - i then m (s2 + (a - s1)) else m a)"
  using assms
proof (induction m s1 s2 n i rule: memmove_loop.induct)
  case (1 m s1 s2 n i)
  show ?case
  proof (cases "i < n")
    case False
    then have "i = n" using "1.prems"(2) by simp
    then show ?thesis by (auto simp: memmove_loop.simps [of m s1 s2 n n])
  next
    case True
    let ?j = "n - i" and ?k = "a - s1"
    let ?m = "m(s1 + ?j := m (s2 + ?j))"
    have le: "i + 1 \<le> n" using True by (rule inc_le)
    have IH: "memmove_loop m s1 s2 n i a =
        (if 0 < ?k \<and> ?k \<le> n - (i + 1) then ?m (s2 + ?k) else ?m a)"
      using "1.IH" [OF True "1.prems"(1) le]
      by (simp only: memmove_loop.simps [of m s1 s2 n i] True if_True)
    have j: "unat ?j = unat n - unat i" "unat (n - (i + 1)) = unat n - unat i - 1"
      using True by (simp_all add: unat_sub_u32 word_less_succ_unat word_less_nat_alt)
    have step: "?k \<le> n - (i + 1) \<longleftrightarrow> ?k < ?j"
      using True unfolding word_le_nat_alt word_less_nat_alt j by linarith
    have keep: "s2 + ?k \<noteq> s1 + ?j" if "?k < ?j"
    proof -
      have "(s1 - s2) + ?j \<noteq> ?k"
        by (rule forward_safe) (use True that "1.prems"(1) j in \<open>simp_all add: word_less_nat_alt\<close>)
      then show ?thesis by (auto simp: algebra_simps)
    qed
    have here: "a = s1 + ?j \<longleftrightarrow> ?k = ?j" by (auto simp: algebra_simps)
    have pos: "0 < ?j" using True j by (simp add: word_less_nat_alt)
    show ?thesis
      unfolding IH step using keep here pos by (auto simp: order_le_less)
  qed
qed

interpretation libc: mem_copy "\<lambda>m s1 s2 n. fst (memcpy m s1 s2 n)"
  by unfold_locales (rule memcpy_spec)

section \<open>Strings\<close>

lemma strlen_loop_cstr: "cstr m (s + i) cs \<Longrightarrow> strlen_loop m s i = Some (i + of_nat (length cs))"
proof (induction cs arbitrary: i)
  case Nil
  then show ?case by (simp add: strlen_loop.simps)
next
  case (Cons c cs)
  then show ?case by (simp add: strlen_loop.simps [of m s i] add.assoc)
qed

lemma copy_keeps_rest:
  fixes s1 s2 i :: u32
  assumes "unat (s2 - s1) + (unat i + length cs + 2) \<le> 2 ^ 32" and "cstr m (s2 + i + 1) cs"
  shows "cstr (m(s1 + i := x)) (s2 + i + 1) cs"
proof (rule cstr_cong [OF _ assms(2)])
  fix j assume j: "j \<le> length cs"
  have "s2 - s1 + of_nat (Suc j) \<noteq> 0"
  proof
    assume "s2 - s1 + of_nat (Suc j) = 0"
    moreover have "unat (s2 - s1 + of_nat (Suc j)) = unat (s2 - s1) + Suc j"
      using assms(1) j by (simp add: unat_add_u32 unat_of_nat_u32 del: of_nat_Suc)
    ultimately show False by simp
  qed
  then have "s2 + i + 1 + of_nat j \<noteq> s1 + i" by (auto simp: algebra_simps)
  then show "(m(s1 + i := x)) (s2 + i + 1 + of_nat j) = m (s2 + i + 1 + of_nat j)" by simp
qed

lemma strcpy_loop_memcpy:
  assumes "cstr m (s2 + i) cs" and "unat (s2 - s1) + (unat i + length cs + 1) \<le> 2 ^ 32"
    and "unat i + length cs + 1 < 2 ^ 32"
  shows "strcpy_loop m s1 s2 i = Some (memcpy_loop m s1 s2 (i + of_nat (length cs) + 1) i)"
  using assms
proof (induction cs arbitrary: m i)
  case Nil
  let ?m = "m(s1 + i := m (s2 + i))"
  have "i < i + 1" using Nil.prems(3) by (simp add: u32_nat)
  with Nil.prems(1) show ?case
    by (simp add: strcpy_loop.simps Let_def memcpy_loop_step fun_upd_def)
next
  case (Cons c cs)
  let ?m = "m(s1 + i := m (s2 + i))" and ?n = "i + of_nat (length (c # cs)) + 1"
  have i1: "unat (i + 1) = unat i + 1" using Cons.prems(3) by (simp add: unat_add_u32)
  have "i < ?n"
  proof -
    have "unat ?n = unat i + length (c # cs) + 1"
      using Cons.prems(3) by (simp add: unat_add_u32 unat_of_nat_u32 del: of_nat_Suc)
    then show ?thesis by (simp add: word_less_nat_alt)
  qed
  moreover have "cstr ?m (s2 + (i + 1)) cs"
    using copy_keeps_rest [of s2 s1 i cs m "m (s2 + i)"] Cons.prems by (simp add: add.assoc)
  then have "strcpy_loop ?m s1 s2 (i + 1) = Some (memcpy_loop ?m s1 s2 ?n (i + 1))"
    using Cons.IH [of ?m "i + 1"] Cons.prems(2,3) i1 by (simp add: algebra_simps fun_upd_def)
  ultimately show ?case
    using Cons.prems(1) by (simp add: strcpy_loop.simps [of m] Let_def memcpy_loop_step)
qed

lemma strcat_copy_memcpy:
  assumes "cstr m (s2 + i) cs" and "unat (s2 - (s1 + k)) + (unat i + length cs + 1) \<le> 2 ^ 32"
    and "unat i + length cs + 1 < 2 ^ 32"
  shows "strcat_copy m s1 s2 k i =
     Some (memcpy_loop m (s1 + k) s2 (i + of_nat (length cs)) i, i + of_nat (length cs))"
  using assms
proof (induction cs arbitrary: m i)
  case Nil
  then show ?case by (simp add: strcat_copy.simps)
next
  case (Cons c cs)
  let ?m = "m(s1 + k + i := m (s2 + i))" and ?n = "i + of_nat (length (c # cs))"
  have i1: "unat (i + 1) = unat i + 1" using Cons.prems(3) by (simp add: unat_add_u32)
  have "i < ?n"
  proof -
    have "unat ?n = unat i + length (c # cs)"
      using Cons.prems(3) by (simp add: unat_add_u32 unat_of_nat_u32 del: of_nat_Suc)
    then show ?thesis by (simp add: word_less_nat_alt)
  qed
  moreover have "cstr ?m (s2 + (i + 1)) cs"
    using copy_keeps_rest [of s2 "s1 + k" i cs m "m (s2 + i)"] Cons.prems by (simp add: add.assoc)
  then have "strcat_copy ?m s1 s2 k (i + 1) = Some (memcpy_loop ?m (s1 + k) s2 ?n (i + 1), ?n)"
    using Cons.IH [of ?m "i + 1"] Cons.prems(2,3) i1 by (simp add: algebra_simps fun_upd_def)
  ultimately show ?case
    using Cons.prems(1) by (simp add: strcat_copy.simps [of m] memcpy_loop_step add.assoc)
qed

lemma str_has_cstr: "cstr m (s2 + j) ds \<Longrightarrow> str_has m s2 c j = Some (c \<in> set ds)"
proof (induction ds arbitrary: j)
  case Nil
  then show ?case by (simp add: str_has.simps)
next
  case (Cons d ds)
  then show ?case by (auto simp: str_has.simps [of m s2 c j] add.assoc)
qed

lemma strcspn_loop_cstr:
  assumes "cstr m s2 ds"
  shows "cstr m (s1 + i) cs \<Longrightarrow>
    strcspn_loop m s1 s2 i = Some (i + of_nat (length (takeWhile (\<lambda>c. c \<notin> set ds) cs)))"
proof (induction cs arbitrary: i)
  case Nil
  then show ?case by (simp add: strcspn_loop.simps)
next
  case (Cons c cs)
  then show ?case
    using str_has_cstr [of m s2 0 ds] assms by (simp add: strcspn_loop.simps [of m s1 s2 i] add.assoc)
qed

lemma strspn_loop_cstr:
  assumes "cstr m s2 ds" and "m s1 \<noteq> 0"
  shows "cstr m (s1 + i) cs \<Longrightarrow>
    strspn_loop m s1 s2 i = Some (i + of_nat (length (takeWhile (\<lambda>c. c \<in> set ds) cs)))"
proof (induction cs arbitrary: i)
  case Nil
  moreover have "0 \<notin> set ds" using assms(1) by (simp add: cstr_iff)
  ultimately show ?case
    using str_has_cstr [of m s2 0 ds] assms by (simp add: strspn_loop.simps)
next
  case (Cons c cs)
  then show ?case
    using str_has_cstr [of m s2 0 ds] assms by (simp add: strspn_loop.simps [of m s1 s2 i] add.assoc)
qed

lemma strpbrk_cstr:
  assumes "cstr m s2 ds"
  shows "cstr m s1 cs \<Longrightarrow> strpbrk m s1 s2 =
    Some (if set cs \<inter> set ds = {} then 0 else s1 + of_nat (length (takeWhile (\<lambda>c. c \<notin> set ds) cs)))"
proof (induction cs arbitrary: s1)
  case Nil
  then show ?case by (simp add: strpbrk.simps)
next
  case (Cons c cs)
  then show ?case
    using str_has_cstr [of m s2 0 ds] assms by (simp add: strpbrk.simps [of m s1 s2] add.assoc)
qed

lemma scast_u8_inject [simp]: "(scast (a :: u8) :: u32) = scast b \<longleftrightarrow> a = b"
proof
  assume "(scast a :: u32) = scast b"
  then have "sint (scast a :: u32) = sint (scast b :: u32)" by simp
  then show "a = b" by (simp add: sint_up_scast is_up signed_word_eqI)
qed simp

lemma scast_u8_eq_0 [simp]: "(scast (a :: u8) :: u32) = 0 \<longleftrightarrow> a = 0"
  using scast_u8_inject [of a 0] by simp

lemma strchr_cstr:
  assumes "c \<noteq> 0"
  shows "cstr m s cs \<Longrightarrow> strchr m s (scast c) =
    Some (if c \<in> set cs then s + of_nat (length (takeWhile (\<lambda>x. x \<noteq> c) cs)) else 0)"
proof (induction cs arbitrary: s)
  case Nil
  then show ?case using assms by (simp add: strchr.simps)
next
  case (Cons x cs)
  then show ?case by (simp add: strchr.simps [of m s] add.assoc)
qed

lemma strlen_loop_first:
  assumes "i \<le> n" and "m (s + n) = 0" and "\<And>j. i \<le> j \<Longrightarrow> j < n \<Longrightarrow> m (s + j) \<noteq> 0"
  shows "strlen_loop m s i = Some n"
  using assms
proof (induction "unat n - unat i" arbitrary: i)
  case 0
  then have "i = n" by (simp add: u32_nat)
  with "0.prems"(2) show ?case by (simp add: strlen_loop.simps)
next
  case (Suc x)
  then have less: "i < n" by (simp add: u32_nat)
  then have "unat (i + 1) = Suc (unat i)" by (rule word_less_succ_unat)
  with Suc less have "strlen_loop m s (i + 1) = Some n"
    by (intro Suc.hyps(1)) (auto simp: u32_nat)
  moreover have "m (s + i) \<noteq> 0" using Suc.prems(3) less by simp
  ultimately show ?case by (simp add: strlen_loop.simps [of m s i])
qed

lemma strlen_loop_never:
  assumes "strlen_loop m s i = Some n"
  shows "m (s + n) = 0"
  by (rule strlen_loop.raw_induct [where P = "\<lambda>m s i n. m (s + n) = 0", OF _ assms])
    (auto split: if_splits)

lemma first_zero_byte:
  fixes s :: u32
  assumes "m (s + k) = 0"
  obtains n where "m (s + n) = 0" and "\<And>j. j < n \<Longrightarrow> m (s + j) \<noteq> 0"
proof -
  define n where "n = (LEAST j. m (s + of_nat j) = 0)"
  have ex: "m (s + of_nat (unat k)) = 0" using assms by simp
  then have z: "m (s + of_nat n) = 0" unfolding n_def by (rule LeastI)
  have "m (s + j) \<noteq> 0" if "j < of_nat n" for j
  proof
    assume "m (s + j) = 0"
    then have "n \<le> unat j" unfolding n_def by (intro Least_le) simp
    with that show False
      using unat_of_nat [of n, where 'a = 32] by (simp add: word_less_nat_alt)
  qed
  with z show thesis by (rule that)
qed

lemma strcmp_loop_stuck:
  assumes "m (s1 + i) = m (s2 + i)" and "m (s1 + i) \<noteq> 0"
  shows "strcmp_loop m s1 s2 i = None"
proof (rule ccontr)
  assume "strcmp_loop m s1 s2 i \<noteq> None"
  then obtain r where ret: "strcmp_loop m s1 s2 i = Some r" by blast
  have "\<not> (m (s1 + i) = m (s2 + i) \<and> m (s1 + i) \<noteq> 0)"
    by (rule strcmp_loop.raw_induct
        [where P = "\<lambda>m s1 s2 i r. \<not> (m (s1 + i) = m (s2 + i) \<and> m (s1 + i) \<noteq> 0)", OF _ ret])
      (auto split: if_splits)
  with assms show False by blast
qed

section \<open>Comparison\<close>

text \<open>The order that \<^verbatim>\<open>strncmp\<close> is to compute: the first \<open>n\<close> bytes, a shorter string being smaller.\<close>

fun bounded_cmp :: "nat \<Rightarrow> u8 list \<Rightarrow> u8 list \<Rightarrow> int" where
  "bounded_cmp 0 cs ds = 0"
| "bounded_cmp (Suc n) [] [] = 0"
| "bounded_cmp (Suc n) (c # cs) [] = uint c"
| "bounded_cmp (Suc n) [] (d # ds) = - uint d"
| "bounded_cmp (Suc n) (c # cs) (d # ds) =
     (if c \<noteq> d then uint c - uint d else bounded_cmp n cs ds)"

lemma strncmp_loop_bounded_cmp:
  "cstr m (s1 + i) cs \<Longrightarrow> cstr m (s2 + i) ds \<Longrightarrow>
     strncmp_loop m s1 s2 n i = bounded_cmp (unat n - unat i) cs ds"
proof (induction "unat n - unat i" cs ds arbitrary: i rule: bounded_cmp.induct)
  case (1 cs ds)
  then show ?case by (simp add: strncmp_loop.simps [of m s1 s2 n i] word_less_nat_alt)
next
  case (2 k)
  from "2.hyps" [symmetric] have "i < n" by (simp add: word_less_nat_alt)
  with 2 "2.hyps" [symmetric] show ?case
    by (simp add: strncmp_loop.simps [of m s1 s2 n i])
next
  case (3 k c cs)
  from "3.hyps" [symmetric] have "i < n" by (simp add: word_less_nat_alt)
  with 3 "3.hyps" [symmetric] show ?case
    by (auto simp: strncmp_loop.simps [of m s1 s2 n i] char_diff_def)
next
  case (4 k d ds)
  from "4.hyps" [symmetric] have "i < n" by (simp add: word_less_nat_alt)
  with 4 "4.hyps" [symmetric] show ?case
    by (auto simp: strncmp_loop.simps [of m s1 s2 n i] char_diff_def)
next
  case (5 k c cs d ds)
  from "5.hyps"(2) [symmetric] have less: "i < n" by (simp add: word_less_nat_alt)
  have k: "k = unat n - unat (i + 1)" using "5.hyps"(2) word_less_succ_unat [OF less] by simp
  have "strncmp_loop m s1 s2 n (i + 1) = bounded_cmp k cs ds" if "c = d"
    using "5.hyps"(1) [OF _ k] "5.prems" that k by (simp add: add.assoc)
  with less "5.prems" "5.hyps"(2) [symmetric] show ?case
    by (auto simp: strncmp_loop.simps [of m s1 s2 n i] char_diff_def)
qed

lemma bounded_cmp_zero:
  "0 \<notin> set cs \<Longrightarrow> 0 \<notin> set ds \<Longrightarrow> bounded_cmp n cs ds = 0 \<longleftrightarrow> take n cs = take n ds"
  by (induction n cs ds rule: bounded_cmp.induct) (auto simp: word_uint_eq_iff)

lemma bounded_cmp_neg:
  "0 \<notin> set cs \<Longrightarrow> 0 \<notin> set ds \<Longrightarrow>
     bounded_cmp n cs ds < 0 \<longleftrightarrow> (take n cs, take n ds) \<in> lexord {(c, d). c < d}"
  by (induction n cs ds rule: bounded_cmp.induct) (auto simp: word_less_alt word_uint_eq_iff order_less_le)

lemma char_diff_zero [simp]: "char_diff a b = 0 \<longleftrightarrow> a = b"
  by (simp add: char_diff_def word_uint_eq_iff)

lemma memcmp_loop_zero:
  "memcmp_loop m s1 s2 n i = 0 \<longleftrightarrow> (\<forall>k. i \<le> k \<longrightarrow> k < n \<longrightarrow> m (s1 + k) = m (s2 + k))"
proof (induction m s1 s2 n i rule: memcmp_loop.induct)
  case (1 m s1 s2 n i)
  show ?case
  proof (cases "i < n")
    case False
    then show ?thesis by (auto simp: memcmp_loop.simps [of m s1 s2 n i])
  next
    case True
    have "i \<le> k \<longleftrightarrow> k = i \<or> i + 1 \<le> k" for k
      using True by (auto simp: word_le_nat_alt word_unat_eq_iff word_less_succ_unat)
    with 1 True show ?thesis
      by (auto simp: memcmp_loop.simps [of m s1 s2 n i])
  qed
qed

lemma strncat_copy_memcpy:
  assumes "cstr m (s2 + i) cs" and "unat (s2 - (s1 + k)) + (unat i + length cs + 1) \<le> 2 ^ 32"
    and "unat i + length cs + 1 < 2 ^ 32"
  shows "strncat_copy m s1 s2 k n i =
     (if unat i + length cs < unat n
      then (memcpy_loop m (s1 + k) s2 (i + of_nat (length cs)) i, i + of_nat (length cs) + 1)
      else (memcpy_loop m (s1 + k) s2 n i, max i n))"
  using assms
proof (induction cs arbitrary: m i)
  case Nil
  then show ?case by (auto simp: strncat_copy.simps [of m s1 s2 k n i] word_less_nat_alt max_def
      word_le_nat_alt word_unat_eq_iff)
next
  case (Cons c cs)
  show ?case
  proof (cases "i < n")
    case False
    then show ?thesis by (auto simp: strncat_copy.simps [of m s1 s2 k n i] word_less_nat_alt max_def
        word_le_nat_alt word_unat_eq_iff)
  next
    case True
    let ?m = "m(s1 + k + i := m (s2 + i))"
    have i1: "unat (i + 1) = unat i + 1" using Cons.prems(3) by (simp add: unat_add_u32)
    have less: "i < i + of_nat (length (c # cs))"
    proof -
      have "unat (i + of_nat (length (c # cs))) = unat i + length (c # cs)"
        using Cons.prems(3) by (simp add: unat_add_u32 unat_of_nat_u32 del: of_nat_Suc)
      then show ?thesis by (simp add: word_less_nat_alt)
    qed
    have "cstr ?m (s2 + (i + 1)) cs"
      using copy_keeps_rest [of s2 "s1 + k" i cs m "m (s2 + i)"] Cons.prems by (simp add: add.assoc)
    then have "strncat_copy ?m s1 s2 k n (i + 1) =
      (if unat i + length (c # cs) < unat n
       then (memcpy_loop ?m (s1 + k) s2 (i + of_nat (length (c # cs))) (i + 1),
             i + of_nat (length (c # cs)) + 1)
       else (memcpy_loop ?m (s1 + k) s2 n (i + 1), max (i + 1) n))"
      using Cons.IH [of ?m "i + 1"] Cons.prems(2,3) i1 by (simp add: algebra_simps fun_upd_def)
    moreover have "max (i + 1) n = max i n"
      using True i1 by (auto simp: max_def word_le_nat_alt word_less_nat_alt)
    ultimately show ?thesis
      using Cons.prems(1) True memcpy_loop_step [OF True] memcpy_loop_step [OF less]
      by (simp add: strncat_copy.simps [of m] add.assoc)
  qed
qed

section \<open>Properties\<close>

text \<open>
  \<^verbatim>\<open>memmove\<close>. When the destination is not above the source it is \<^verbatim>\<open>memcpy\<close> and copies the block,
  overlap or not. When the destination is above the source, the loop moves offsets \<open>n\<close> down to
  \<open>1\<close>: the first byte is not copied and the byte after the destination block is overwritten with
  the byte after the source block.
\<close>
theorem memmove_behaviour:
  assumes "unat s1 + unat n < 2 ^ 32" and "unat s2 + unat n < 2 ^ 32"
  shows "memmove m s1 s2 n =
     (\<lambda>a. if s1 \<le> s2 then (if a - s1 < n then m (s2 + (a - s1)) else m a)
          else (if 0 < a - s1 \<and> a - s1 \<le> n then m (s2 + (a - s1)) else m a), s1)"
proof (cases "s1 \<le> s2")
  case True
  with assms(2) have "unat (s2 - s1) + unat n \<le> 2 ^ 32"
    by (intro word_diff_nowrap) auto
  from memcpy_spec [OF this] True show ?thesis
    by (auto simp: memmove_def memcpy_def)
next
  case False
  with assms(1) have "unat (s1 - s2) + unat n < 2 ^ 32"
    by (simp add: u32_nat)
  from memmove_loop_spec [OF this, of 0] False show ?thesis
    by (auto simp: memmove_def)
qed

theorem memmove_behaviour_witness:
  "fst (memmove (\<lambda>a. ucast a) 20 10 3) 20 = 20 \<and> fst (memmove (\<lambda>a. ucast a) 20 10 3) 23 = 13"
  by (simp add: memmove_behaviour)

text \<open>
  \<^verbatim>\<open>strlen\<close> returns \<open>n\<close> exactly when \<open>n\<close> is the offset of the first NUL byte, and it runs
  forever exactly when the address space holds no NUL byte.
\<close>
theorem strlen_correct:
  "(strlen m s = Some n \<longleftrightarrow> m (s + n) = 0 \<and> (\<forall>j. j < n \<longrightarrow> m (s + j) \<noteq> 0)) \<and>
   (strlen m s = None \<longleftrightarrow> (\<forall>j. m (s + j) \<noteq> 0))"
proof -
  have first: "strlen m s = Some k" if "m (s + k) = 0" "\<And>j. j < k \<Longrightarrow> m (s + j) \<noteq> 0" for k
    unfolding strlen_def using that by (intro strlen_loop_first) auto
  have ret: "m (s + k) = 0 \<and> (\<forall>j. j < k \<longrightarrow> m (s + j) \<noteq> 0)" if "strlen m s = Some k" for k
  proof -
    from that have z: "m (s + k) = 0" unfolding strlen_def by (rule strlen_loop_never)
    obtain f where f: "m (s + f) = 0" "\<And>j. j < f \<Longrightarrow> m (s + j) \<noteq> 0"
      by (rule first_zero_byte [of m s k, OF z]) blast
    with first [OF f] that show ?thesis by auto
  qed
  have none: "strlen m s \<noteq> None" if "m (s + k) = 0" for k
    by (rule first_zero_byte [of m s k, OF that]) (use first in auto)
  show ?thesis using first ret none by (metis option.exhaust)
qed

theorem strlen_correct_witness:
  "strlen (\<lambda>a. if a = 7 then 0 else 65) 4 = Some 3"
proof -
  have "4 + j \<noteq> (7 :: u32)" if "j < 3" for j
  proof
    assume "4 + j = (7 :: u32)"
    then have "4 + j = 4 + (3 :: u32)" by simp
    then have "j = 3" by (rule add_left_imp_eq)
    with that show False by simp
  qed
  then show ?thesis
    using strlen_correct [of "\<lambda>a. if a = 7 then 0 else 65" 4 3] by simp
qed

text \<open>
  \<^verbatim>\<open>strcpy\<close> of a string that does not reach into its destination returns, is \<^verbatim>\<open>memcpy\<close> of the
  string with its terminator, and leaves the same string at the destination.
\<close>
theorem strcpy_is_memcpy:
  assumes "cstr m s2 cs" and "unat (s2 - s1) + length cs + 1 \<le> 2 ^ 32" and "length cs + 1 < 2 ^ 32"
  shows "strcpy m s1 s2 = Some (memcpy m s1 s2 (of_nat (length cs + 1))) \<and>
    cstr (fst (memcpy m s1 s2 (of_nat (length cs + 1)))) s1 cs"
proof -
  have "strcpy_loop m s1 s2 0 = Some (memcpy_loop m s1 s2 (0 + of_nat (length cs) + 1) 0)"
    by (rule strcpy_loop_memcpy) (use assms in simp_all)
  then have "strcpy m s1 s2 = Some (memcpy m s1 s2 (of_nat (length cs + 1)))"
    by (simp add: strcpy_def memcpy_def add.commute)
  moreover have "cstr (fst (memcpy m s1 s2 (of_nat (length cs + 1)))) s1 cs"
    by (rule libc.cp_cstr) (use assms in simp_all)
  ultimately show ?thesis by blast
qed

theorem strcpy_is_memcpy_witness:
  "strcpy (\<lambda>a. if a = 2 then 0 else 65) 100 0 = Some (memcpy (\<lambda>a. if a = 2 then 0 else 65) 100 0 3)"
  using strcpy_is_memcpy [of "\<lambda>a. if a = 2 then 0 else 65" 0 "[65, 65]" 100]
  by (simp add: unat_sub_u32)

text \<open>
  \<^verbatim>\<open>strcat\<close> of two strings returns and leaves their concatenation at the first, provided the
  second does not overlap the place it is copied to.
\<close>
theorem strcat_concatenates:
  assumes "cstr m s1 cs" and "cstr m s2 ds"
    and "unat (s2 - (s1 + of_nat (length cs))) + length ds + 1 \<le> 2 ^ 32"
    and "length cs + length ds + 1 < 2 ^ 32"
  shows "\<exists>m'. strcat m s1 s2 = Some (m', s1) \<and> cstr m' s1 (cs @ ds) \<and>
    (\<forall>a. of_nat (length ds) < a - (s1 + of_nat (length cs)) \<longrightarrow> m' a = m a)"
proof -
  let ?k = "of_nat (length cs) :: u32" and ?l = "of_nat (length ds) :: u32"
  let ?mc = "memcpy_loop m (s1 + ?k) s2 ?l 0"
  let ?m = "?mc(s1 + (?k + ?l) := 0)"
  have l: "unat ?l = length ds" using assms(4) by (simp add: unat_of_nat_u32)
  have copy: "?mc a = (if a - (s1 + ?k) < ?l then m (s2 + (a - (s1 + ?k))) else m a)" for a
    using memcpy_loop_spec [of s2 "s1 + ?k" ?l m 0 a] assms(3) l by simp
  have ret: "strcat m s1 s2 = Some (?m, s1)"
    using strlen_loop_cstr [of m s1 0 cs] strcat_copy_memcpy [of m s2 0 ds s1 ?k] assms
    by (simp add: strcat_def)
  have low: "?m (s1 + of_nat i) = cs ! i" if "i < length cs" for i
  proof -
    have u: "unat (of_nat i :: u32) = i" "unat ?k = length cs"
      using that assms(4) by (simp_all add: unat_of_nat_u32)
    have "unat (of_nat i - ?k) = i + 4294967296 - length cs"
      using that u by (simp add: unat_sub_u32)
    then have "?l < of_nat i - ?k" using l assms(4) that by (simp add: word_less_nat_alt)
    moreover have "s1 + of_nat i - (s1 + ?k) = of_nat i - ?k" by simp
    ultimately show ?thesis
      using copy [of "s1 + of_nat i"] cstr_nth [OF assms(1) that] by (auto simp: algebra_simps)
  qed
  have high: "?m (s1 + ?k + of_nat j) = (if j < length ds then ds ! j else 0)" if "j \<le> length ds" for j
  proof -
    have "unat (of_nat j :: u32) = j" using that assms(4) by (simp add: unat_of_nat_u32)
    then have "(of_nat j :: u32) < ?l \<longleftrightarrow> j < length ds" "(of_nat j :: u32) = ?l \<longleftrightarrow> j = length ds"
      using l by (auto simp: word_less_nat_alt word_unat_eq_iff)
    then show ?thesis
      using copy [of "s1 + ?k + of_nat j"] cstr_nth [OF assms(2), of j] that by (auto simp: add.assoc)
  qed
  have "?m (s1 + of_nat i) = (cs @ ds) ! i" if "i < length (cs @ ds)" for i
    using low [of i] high [of "i - length cs"] that
    by (cases "i < length cs") (auto simp: nth_append add.assoc simp flip: of_nat_add)
  moreover have "?m (s1 + of_nat (length (cs @ ds))) = 0" by (simp add: add.assoc)
  ultimately have "cstr ?m s1 (cs @ ds)" using assms(1,2) by (simp add: cstr_iff)
  moreover have "?m a = m a" if "?l < a - (s1 + ?k)" for a
    using that copy [of a] by (auto simp: algebra_simps)
  ultimately show ?thesis using ret by blast
qed

theorem strcat_concatenates_witness:
  "\<exists>m'. strcat ((\<lambda>_. 0)(0 := 65, 50 := 66)) 0 50 = Some (m', 0) \<and> cstr m' 0 [65, 66]"
  using strcat_concatenates [of "(\<lambda>_. 0)(0 := 65, 50 := 66)" 0 "[65]" 50 "[66]"]
  by auto

text \<open>
  \<^verbatim>\<open>strncat\<close>. With room for the whole second string (\<open>length ds < n\<close>), the terminator is written
  one byte too far: the byte just after the appended text keeps its old value, so the result is
  the concatenation only if that byte was already NUL. With \<open>n \<le> length ds\<close> the terminator is
  written right after the \<open>n\<close> copied bytes.
\<close>
theorem strncat_terminator:
  assumes "cstr m s1 cs" and "cstr m s2 ds"
    and "unat (s2 - (s1 + of_nat (length cs))) + length ds + 1 \<le> 2 ^ 32"
    and "length cs + length ds + 1 < 2 ^ 32"
  shows "\<exists>m'. strncat m s1 s2 n = Some (m', s1) \<and>
    (if length ds < unat n
     then m' (s1 + of_nat (length cs + length ds)) = m (s1 + of_nat (length cs + length ds)) \<and>
          m' (s1 + of_nat (length cs + length ds) + 1) = 0
     else m' (s1 + of_nat (length cs) + n) = 0)"
proof -
  let ?k = "of_nat (length cs) :: u32" and ?l = "of_nat (length ds) :: u32"
  have l: "unat ?l = length ds" using assms(4) by (simp add: unat_of_nat_u32)
  have n: "strncat_copy m s1 s2 ?k n 0 =
     (if length ds < unat n then (memcpy_loop m (s1 + ?k) s2 ?l 0, ?l + 1)
      else (memcpy_loop m (s1 + ?k) s2 n 0, n))"
    using strncat_copy_memcpy [of m s2 0 ds s1 ?k n] assms(2-4) by simp
  have "memcpy_loop m (s1 + ?k) s2 ?l 0 (s1 + ?k + ?l) = m (s1 + ?k + ?l)"
    using memcpy_loop_spec [of s2 "s1 + ?k" ?l m 0] assms(3) l by simp
  then show ?thesis
    using strlen_loop_cstr [of m s1 0 cs] assms(1) n by (simp add: strncat_def add.assoc)
qed

theorem strncat_terminator_witness:
  "\<exists>m'. strncat ((\<lambda>_. 9)(0 := 0, 50 := 66, 51 := 0)) 0 50 5 = Some (m', 0) \<and> m' 1 = 9 \<and> m' 2 = 0"
  using strncat_terminator [of "(\<lambda>_. 9)(0 := 0, 50 := 66, 51 := 0)" 0 "[]" 50 "[66]" 5]
  by simp

text \<open>
  \<^verbatim>\<open>strcmp\<close> on any memory: it decides on the first byte only, and when the first bytes are equal
  and not NUL it never returns (the loop does not advance its index).
\<close>
theorem strcmp_behaviour:
  "strcmp m s1 s2 =
     (if m s1 \<noteq> m s2 then Some (uint (m s1) - uint (m s2))
      else if m s1 = 0 then Some 0 else None)"
proof (cases "m s1 = m s2 \<and> m s1 \<noteq> 0")
  case True
  then show ?thesis using strcmp_loop_stuck [of m s1 0 s2] by (auto simp: strcmp_def)
next
  case False
  then show ?thesis
    unfolding strcmp_def by (subst strcmp_loop.simps) (auto simp: char_diff_def)
qed

text \<open>
  \<^verbatim>\<open>strncmp\<close> on two strings returns 0 exactly when their first \<open>n\<close> bytes agree, and a negative
  number exactly when the first is lexicographically smaller there (bytes compared unsigned).
\<close>
theorem strncmp_lexicographic:
  assumes "cstr m s1 cs" and "cstr m s2 ds"
  shows "(strncmp m s1 s2 n = 0 \<longleftrightarrow> take (unat n) cs = take (unat n) ds) \<and>
    (strncmp m s1 s2 n < 0 \<longleftrightarrow> (take (unat n) cs, take (unat n) ds) \<in> lexord {(c, d). c < d})"
proof -
  have "strncmp m s1 s2 n = bounded_cmp (unat n) cs ds"
    using strncmp_loop_bounded_cmp [of m s1 0 cs s2 ds n] assms by (simp add: strncmp_def)
  then show ?thesis
    using assms by (simp add: bounded_cmp_zero bounded_cmp_neg cstr_iff)
qed

theorem strncmp_lexicographic_witness:
  "strncmp ((\<lambda>_. 0)(0 := 65, 50 := 66)) 0 50 4 < 0"
  using strncmp_lexicographic [of "(\<lambda>_. 0)(0 := 65, 50 := 66)" 0 "[65]" 50 "[66]" 4]
  by (simp add: lexord_cons_cons)

text \<open>
  \<^verbatim>\<open>strspn\<close> and \<^verbatim>\<open>strcspn\<close> return the lengths of the longest prefix of the first string made of,
  and free of, bytes of the second (although the outer loop of \<^verbatim>\<open>strspn\<close> tests only the first byte).
\<close>
theorem strspn_strcspn_prefix:
  assumes "cstr m s1 cs" and "cstr m s2 ds"
  shows "strspn m s1 s2 = Some (of_nat (length (takeWhile (\<lambda>c. c \<in> set ds) cs))) \<and>
    strcspn m s1 s2 = Some (of_nat (length (takeWhile (\<lambda>c. c \<notin> set ds) cs)))"
proof -
  have "strspn m s1 s2 = Some (of_nat (length (takeWhile (\<lambda>c. c \<in> set ds) cs)))"
  proof (cases "m s1 = 0")
    case True
    with assms(1) have "cs = []" by (cases cs) auto
    with True show ?thesis by (simp add: strspn_def strspn_loop.simps)
  next
    case False
    then show ?thesis using strspn_loop_cstr [OF assms(2), of s1 0 cs] assms(1) by (simp add: strspn_def)
  qed
  then show ?thesis
    using strcspn_loop_cstr [OF assms(2), of s1 0 cs] assms(1) by (simp add: strcspn_def)
qed

theorem strspn_strcspn_prefix_witness:
  "strspn ((\<lambda>_. 0)(0 := 65, 1 := 66, 50 := 65)) 0 50 = Some 1"
  using strspn_strcspn_prefix [of "(\<lambda>_. 0)(0 := 65, 1 := 66, 50 := 65)" 0 "[65, 66]" 50 "[65]"]
  by simp

end
