(* ===== verification/Sync.thy ===== *)
theory Sync
  imports Muse_Prelude
begin

text \<open>
  \<^verbatim>\<open>src/common/sync.c\<close>: simple, reentrant and reader-writer locks. Each routine is given as the atomic
  actions the code performs: a compare-and-exchange, an atomic add, a store. A wait loop is one
  attempt, \<^term>\<open>None\<close> when it has to be repeated (the code calls \<^verbatim>\<open>preempt\<close> or spins and tries again).
  The second half of the theory interleaves the actions of several contexts.
\<close>

section \<open>Lock state and atomic actions\<close>

definition LSTAT_WRITE :: u32 where "LSTAT_WRITE = 1"
definition LSTAT_READ :: u32 where "LSTAT_READ = 2"

lemmas LSTAT_defs = LSTAT_WRITE_def LSTAT_READ_def

record lock_simple =
  ls_stat :: u32

record lock_reentrant =
  lr_cnt :: u32
  lr_owner :: u32

record lock_multi =
  lm_waiting_readers :: u32
  lm_stat :: u32

text \<open>\<^verbatim>\<open>__atomic_compare_exchange_n\<close>: whether the exchange happened, and the new content.\<close>

definition compare_exchange :: "u32 \<Rightarrow> u32 \<Rightarrow> u32 \<Rightarrow> bool \<times> u32" where
  "compare_exchange cur expected desired =
     (if cur = expected then (True, desired) else (False, cur))"

subsection \<open>Simple locks\<close>

definition lock_simple_acquire :: "lock_simple \<Rightarrow> lock_simple option" where
  "lock_simple_acquire lock =
     (case compare_exchange (ls_stat lock) 0 LSTAT_WRITE of
        (won, st) \<Rightarrow> if won then Some (lock\<lparr>ls_stat := st\<rparr>) else None)"

definition lock_simple_release :: "lock_simple \<Rightarrow> lock_simple" where
  "lock_simple_release lock = lock\<lparr>ls_stat := 0\<rparr>"

subsection \<open>Reentrant locks\<close>

text \<open>
  The argument \<open>me\<close> is \<^verbatim>\<open>active_ctx->id\<close>. A repeated attempt is only the exchange; the test on the
  owner cannot succeed then unless it already did, as no other context stores \<open>me\<close> as the owner.
  \<^verbatim>\<open>lock_scheduler\<close> and \<^verbatim>\<open>unlock_scheduler\<close> (\<^verbatim>\<open>Scheduler.thy\<close>) bracket acquisition and release, so that
  the test and the increment are not separated by a timer interrupt.
\<close>

definition lock_reentrant_acquire :: "u32 \<Rightarrow> lock_reentrant \<Rightarrow> lock_reentrant option" where
  "lock_reentrant_acquire me lock =
     (if lr_owner lock = me then Some (lock\<lparr>lr_cnt := lr_cnt lock + 1\<rparr>)
      else case compare_exchange (lr_owner lock) 0 me of
        (won, ow) \<Rightarrow> if won then Some (lock\<lparr>lr_owner := ow, lr_cnt := 1\<rparr>) else None)"

definition lock_reentrant_release :: "lock_reentrant \<Rightarrow> lock_reentrant" where
  "lock_reentrant_release lock =
     (let lock = lock\<lparr>lr_cnt := lr_cnt lock - 1\<rparr>
      in if lr_cnt lock = 0 then lock\<lparr>lr_owner := 0\<rparr> else lock)"

subsection \<open>Reader-writer locks\<close>

text \<open>
  \<^verbatim>\<open>lock_multi_acquire_read\<close> announces the reader and then repeats an attempt that succeeds when the
  lock is in read mode or can be put into it.
\<close>

definition lock_multi_announce :: "lock_multi \<Rightarrow> lock_multi" where
  "lock_multi_announce lock = lock\<lparr>lm_waiting_readers := lm_waiting_readers lock + 1\<rparr>"

definition lock_multi_try_read :: "lock_multi \<Rightarrow> lock_multi option" where
  "lock_multi_try_read lock =
     (if lm_stat lock \<noteq> LSTAT_READ
      then case compare_exchange (lm_stat lock) 0 LSTAT_READ of
        (won, st) \<Rightarrow> if won then Some (lock\<lparr>lm_stat := st\<rparr>) else None
      else Some lock)"

definition lock_multi_acquire_read :: "lock_multi \<Rightarrow> lock_multi option" where
  "lock_multi_acquire_read lock = lock_multi_try_read (lock_multi_announce lock)"

text \<open>
  \<^verbatim>\<open>lock_multi_wait\<close>: wait until the lock is not in read mode, announce the reader, wait until a writer
  has signalled. The two waits are the guards \<open>lm_stat lock \<noteq> LSTAT_READ\<close> and
  \<open>lm_stat lock = LSTAT_READ\<close> of the two halves.
\<close>

definition lock_multi_wait_enter :: "lock_multi \<Rightarrow> lock_multi option" where
  "lock_multi_wait_enter lock =
     (if lm_stat lock = LSTAT_READ then None else Some (lock_multi_announce lock))"

definition lock_multi_wait_leave :: "lock_multi \<Rightarrow> lock_multi option" where
  "lock_multi_wait_leave lock = (if lm_stat lock \<noteq> LSTAT_READ then None else Some lock)"

text \<open>
  \<^verbatim>\<open>lock_multi_release_read\<close> is two actions: the atomic decrement, which tells whether the reader was
  the last, and then the store that frees the lock. Nothing keeps them together.
\<close>

definition lock_multi_sub_reader :: "lock_multi \<Rightarrow> bool \<times> lock_multi" where
  "lock_multi_sub_reader lock =
     (lm_waiting_readers lock - 1 = 0, lock\<lparr>lm_waiting_readers := lm_waiting_readers lock - 1\<rparr>)"

definition lock_multi_free :: "lock_multi \<Rightarrow> lock_multi" where
  "lock_multi_free lock = lock\<lparr>lm_stat := 0\<rparr>"

definition lock_multi_release_read :: "lock_multi \<Rightarrow> lock_multi" where
  "lock_multi_release_read lock =
     (case lock_multi_sub_reader lock of (is_last, lock') \<Rightarrow>
        if is_last then lock_multi_free lock' else lock')"

definition lock_multi_acquire_write :: "lock_multi \<Rightarrow> lock_multi option" where
  "lock_multi_acquire_write lock =
     (case compare_exchange (lm_stat lock) 0 LSTAT_WRITE of
        (won, st) \<Rightarrow> if won then Some (lock\<lparr>lm_stat := st\<rparr>) else None)"

text \<open>\<^verbatim>\<open>lock_multi_signal\<close> only logs when the lock is not held by a writer, and goes on.\<close>

definition lock_multi_signal :: "lock_multi \<Rightarrow> lock_multi" where
  "lock_multi_signal lock =
     (if lm_waiting_readers lock \<noteq> 0 then lock\<lparr>lm_stat := LSTAT_READ\<rparr> else lock\<lparr>lm_stat := 0\<rparr>)"

definition lock_multi_release_write :: "lock_multi \<Rightarrow> lock_multi" where
  "lock_multi_release_write lock = lock\<lparr>lm_stat := 0\<rparr>"

section \<open>Contexts competing for a lock\<close>

text \<open>
  Any number of contexts acquire and release a lock; \<open>depth\<close> counts how often each context holds
  it. A failed attempt changes nothing, so only successful acquisitions are steps. The
  acquisition of context \<open>i\<close> and its release are the arguments of the relation; \<open>ok\<close> bounds who
  takes part and how deep acquisitions nest.
\<close>

record ('t, 'l) lock_sys =
  the_lock :: 'l
  depth :: "'t \<Rightarrow> nat"

inductive lock_reach ::
  "('t \<Rightarrow> 'l \<Rightarrow> 'l option) \<Rightarrow> ('t \<Rightarrow> 'l \<Rightarrow> 'l) \<Rightarrow> ('t \<Rightarrow> nat \<Rightarrow> bool) \<Rightarrow> 'l \<Rightarrow> ('t, 'l) lock_sys \<Rightarrow> bool"
  for acq :: "'t \<Rightarrow> 'l \<Rightarrow> 'l option" and rel :: "'t \<Rightarrow> 'l \<Rightarrow> 'l" and ok :: "'t \<Rightarrow> nat \<Rightarrow> bool" and l0 :: 'l
where
  start: "lock_reach acq rel ok l0 \<lparr>the_lock = l0, depth = (\<lambda>_. 0)\<rparr>"
| acquire: "lock_reach acq rel ok l0 s \<Longrightarrow> acq i (the_lock s) = Some l \<Longrightarrow> ok i (Suc (depth s i)) \<Longrightarrow>
    lock_reach acq rel ok l0 (s\<lparr>the_lock := l, depth := (depth s)(i := Suc (depth s i))\<rparr>)"
| release: "lock_reach acq rel ok l0 s \<Longrightarrow> 0 < depth s i \<Longrightarrow>
    lock_reach acq rel ok l0
      (s\<lparr>the_lock := rel i (the_lock s), depth := (depth s)(i := depth s i - 1)\<rparr>)"

text \<open>
  The interface of a lock: \<open>holds l d\<close> relates the lock's memory to the contexts' depths. An
  acquisition succeeds only if nobody else holds the lock, and always if nobody holds it.
\<close>

locale exclusive_lock =
  fixes acq :: "'t \<Rightarrow> 'l \<Rightarrow> 'l option" and rel :: "'t \<Rightarrow> 'l \<Rightarrow> 'l"
    and ok :: "'t \<Rightarrow> nat \<Rightarrow> bool" and l0 :: 'l and holds :: "'l \<Rightarrow> ('t \<Rightarrow> nat) \<Rightarrow> bool"
  assumes holds_init: "holds l0 (\<lambda>_. 0)"
    and holds_acq: "holds l d \<Longrightarrow> acq i l = Some l' \<Longrightarrow> ok i (Suc (d i)) \<Longrightarrow>
      (\<forall>j. j \<noteq> i \<longrightarrow> d j = 0) \<and> holds l' (d(i := Suc (d i)))"
    and holds_rel: "holds l d \<Longrightarrow> 0 < d i \<Longrightarrow> holds (rel i l) (d(i := d i - 1))"
    and acq_free: "holds l (\<lambda>_. 0) \<Longrightarrow> ok i 1 \<Longrightarrow> acq i l \<noteq> None"
begin

lemma reach_holds: "lock_reach acq rel ok l0 s \<Longrightarrow> holds (the_lock s) (depth s)"
proof (induction rule: lock_reach.induct)
  case start
  then show ?case by (simp add: holds_init)
next
  case (acquire s i l)
  then show ?case using holds_acq [of "the_lock s" "depth s" i l] by (simp add: fun_upd_def)
next
  case (release s i)
  then show ?case using holds_rel [of "the_lock s" "depth s" i] by (simp add: fun_upd_def)
qed

lemma reach_exclusive:
  "lock_reach acq rel ok l0 s \<Longrightarrow> 0 < depth s i \<Longrightarrow> 0 < depth s j \<Longrightarrow> i = j"
proof (induction rule: lock_reach.induct)
  case start
  then show ?case by simp
next
  case (acquire s k l)
  from reach_holds [OF acquire.hyps(1)] acquire.hyps(2,3)
  have "\<forall>j. j \<noteq> k \<longrightarrow> depth s j = 0" using holds_acq by blast
  with acquire.prems show ?case by (auto split: if_splits)
next
  case (release s k)
  then show ?case by (auto split: if_splits)
qed

lemma reach_not_stuck:
  assumes "lock_reach acq rel ok l0 s" and "\<forall>j. depth s j = 0" and "ok i 1"
  shows "acq i (the_lock s) \<noteq> None"
proof -
  from assms(2) have "depth s = (\<lambda>_. 0)" by auto
  with reach_holds [OF assms(1)] acq_free assms(3) show ?thesis by metis
qed

end

text \<open>Simple locks provide the interface for every context; acquisitions do not nest.\<close>

definition simple_holds :: "lock_simple \<Rightarrow> (u32 \<Rightarrow> nat) \<Rightarrow> bool" where
  "simple_holds l d \<longleftrightarrow>
     (if ls_stat l = 0 then \<forall>i. d i = 0
      else ls_stat l = LSTAT_WRITE \<and> (\<exists>i. d i = 1 \<and> (\<forall>j. j \<noteq> i \<longrightarrow> d j = 0)))"

interpretation simple: exclusive_lock "\<lambda>_. lock_simple_acquire" "\<lambda>_. lock_simple_release" "\<lambda>_ _. True"
  "\<lparr>ls_stat = 0\<rparr>" simple_holds
proof (unfold_locales, goal_cases)
  case (3 l d i)
  then have "d i = 1 \<and> (\<forall>j. j \<noteq> i \<longrightarrow> d j = 0)"
    by (metis not_gr0 simple_holds_def)
  then show ?case by (simp add: simple_holds_def lock_simple_release_def)
qed (auto simp: simple_holds_def lock_simple_acquire_def compare_exchange_def LSTAT_defs split: if_splits)

text \<open>
  Reentrant locks provide it for contexts whose id is not 0, nesting below \<open>2 ^ 32\<close>. Owner 0 means
  \<^emph>\<open>free\<close>, so the context with id 0 takes a free lock as its own and leaves no trace of it.
\<close>

definition reentrant_ok :: "u32 \<Rightarrow> nat \<Rightarrow> bool" where
  "reentrant_ok i n \<longleftrightarrow> i \<noteq> 0 \<and> n < 2 ^ 32"

definition reentrant_holds :: "lock_reentrant \<Rightarrow> (u32 \<Rightarrow> nat) \<Rightarrow> bool" where
  "reentrant_holds l d \<longleftrightarrow>
     d 0 = 0 \<and> (\<forall>i. i \<noteq> lr_owner l \<longrightarrow> d i = 0) \<and>
     (lr_owner l \<noteq> 0 \<longrightarrow> 0 < d (lr_owner l) \<and> d (lr_owner l) < 2 ^ 32 \<and>
        lr_cnt l = of_nat (d (lr_owner l)))"

interpretation reentrant: exclusive_lock lock_reentrant_acquire "\<lambda>_. lock_reentrant_release" reentrant_ok
  "\<lparr>lr_cnt = 0, lr_owner = 0\<rparr>" reentrant_holds
proof (unfold_locales, goal_cases)
  case 1
  show ?case by (simp add: reentrant_holds_def)
next
  case (2 l d i l')
  then have "d j = 0" if "lr_owner l = 0" for j
    using that unfolding reentrant_holds_def by (cases "j = 0") auto
  with 2 show ?case
    by (auto simp: reentrant_holds_def lock_reentrant_acquire_def compare_exchange_def reentrant_ok_def
        add.commute split: if_splits)
next
  case (3 l d i)
  then have i: "i = lr_owner l" "i \<noteq> 0" by (auto simp: reentrant_holds_def)
  have "lr_cnt l - 1 = of_nat (d i - 1)" 
    using 3 i by (simp add: reentrant_holds_def)
  moreover have "(of_nat (d i - 1) :: u32) = 0 \<longleftrightarrow> d i - 1 = 0"
  proof -
    have "d i < 4294967296" using 3 i by (simp add: reentrant_holds_def)
    then have "d i - 1 < 4294967296" by linarith
    then show ?thesis by (simp add: unat_of_nat_u32 flip: unat_0_iff)
  qed
  ultimately show ?case
    using 3 i by (auto simp: reentrant_holds_def lock_reentrant_release_def Let_def)
next
  case (4 l i)
  then show ?case
    by (auto simp: reentrant_holds_def lock_reentrant_acquire_def compare_exchange_def)
qed

text \<open>
  C8: mutual exclusion of the simple lock: in every reachable interleaving of \<^verbatim>\<open>lock_simple_acquire\<close> and
  \<^verbatim>\<open>lock_simple_release\<close> by any contexts, at most one context holds the lock, none holds it twice, and
  when no context holds it the next attempt succeeds.
\<close>
theorem lock_simple_mutual_exclusion:
  assumes "lock_reach (\<lambda>_ :: u32. lock_simple_acquire) (\<lambda>_. lock_simple_release) (\<lambda>_ _. True) \<lparr>ls_stat = 0\<rparr> s"
  shows "(0 < depth s i \<and> 0 < depth s j \<longrightarrow> i = j) \<and> depth s i \<le> 1 \<and>
    ((\<forall>k. depth s k = 0) \<longrightarrow> lock_simple_acquire (the_lock s) \<noteq> None)"
proof -
  have "depth s i \<le> 1"
  proof (cases "ls_stat (the_lock s) = 0")
    case True
    then show ?thesis using simple.reach_holds [OF assms] by (simp add: simple_holds_def)
  next
    case False
    then obtain k where "depth s k = 1" and "\<forall>j. j \<noteq> k \<longrightarrow> depth s j = 0"
      using simple.reach_holds [OF assms] by (auto simp: simple_holds_def)
    then show ?thesis by (cases "i = k") auto
  qed
  then show ?thesis
    using simple.reach_exclusive [OF assms, of i j] simple.reach_not_stuck [OF assms] by blast
qed

theorem lock_simple_mutual_exclusion_witness:
  "\<exists>s :: (u32, lock_simple) lock_sys. 0 < depth s 7 \<and> depth s 8 = 0 \<and> lock_simple_acquire (the_lock s) = None"
proof -
  let ?s = "\<lparr>the_lock = \<lparr>ls_stat = 0\<rparr>, depth = (\<lambda>_ :: u32. 0 :: nat)\<rparr>"
  let ?t = "?s\<lparr>the_lock := \<lparr>ls_stat = LSTAT_WRITE\<rparr>, depth := (depth ?s)(7 := Suc (depth ?s 7))\<rparr>"
  have "lock_reach (\<lambda>_ :: u32. lock_simple_acquire) (\<lambda>_. lock_simple_release) (\<lambda>_ _. True) \<lparr>ls_stat = 0\<rparr> ?t"
    by (rule lock_reach.acquire [OF lock_reach.start])
      (simp_all add: lock_simple_acquire_def compare_exchange_def)
  from lock_simple_mutual_exclusion [OF this, of 7 8] have "depth ?t 8 = 0" by simp
  then show ?thesis
    by - (rule exI [of _ ?t], simp add: lock_simple_acquire_def compare_exchange_def LSTAT_defs)
qed

text \<open>
  C29: mutual exclusion of the reentrant lock: if the contexts that use it have ids other than 0 and
  nest fewer than \<open>2 ^ 32\<close> acquisitions, then in every reachable interleaving at most one context
  holds it, the lock's counter is that context's nesting depth, and the lock can be taken when
  nobody holds it.
\<close>
theorem lock_reentrant_mutual_exclusion:
  assumes "lock_reach lock_reentrant_acquire (\<lambda>_. lock_reentrant_release) reentrant_ok
    \<lparr>lr_cnt = 0, lr_owner = 0\<rparr> s"
  shows "(0 < depth s i \<and> 0 < depth s j \<longrightarrow> i = j) \<and>
    (0 < depth s i \<longrightarrow> lr_owner (the_lock s) = i \<and> unat (lr_cnt (the_lock s)) = depth s i) \<and>
    ((\<forall>k. depth s k = 0) \<and> i \<noteq> 0 \<longrightarrow> lock_reentrant_acquire i (the_lock s) \<noteq> None)"
proof (intro conjI impI)
  assume "0 < depth s i \<and> 0 < depth s j"
  then show "i = j" using reentrant.reach_exclusive [OF assms] by blast
next
  assume "0 < depth s i"
  moreover from this have "i \<noteq> 0" "lr_owner (the_lock s) = i"
    using reentrant.reach_holds [OF assms] unfolding reentrant_holds_def by (metis less_irrefl)+
  ultimately show "lr_owner (the_lock s) = i" "unat (lr_cnt (the_lock s)) = depth s i"
    using reentrant.reach_holds [OF assms] by (auto simp: reentrant_holds_def unat_of_nat_u32)
next
  assume "(\<forall>k. depth s k = 0) \<and> i \<noteq> 0"
  then show "lock_reentrant_acquire i (the_lock s) \<noteq> None"
    using reentrant.reach_not_stuck [OF assms] by (simp add: reentrant_ok_def)
qed

theorem lock_reentrant_mutual_exclusion_witness:
  "\<exists>s :: (u32, lock_reentrant) lock_sys. depth s 7 = 1 \<and> lr_owner (the_lock s) = 7 \<and> depth s 8 = 0"
proof -
  let ?s = "\<lparr>the_lock = \<lparr>lr_cnt = 0, lr_owner = 0\<rparr>, depth = (\<lambda>_ :: u32. 0 :: nat)\<rparr>"
  let ?t = "?s\<lparr>the_lock := \<lparr>lr_cnt = 1, lr_owner = 7\<rparr>, depth := (depth ?s)(7 := Suc (depth ?s 7))\<rparr>"
  have "lock_reach lock_reentrant_acquire (\<lambda>_. lock_reentrant_release) reentrant_ok
      \<lparr>lr_cnt = 0, lr_owner = 0\<rparr> ?t"
    by (rule lock_reach.acquire [OF lock_reach.start])
      (simp_all add: lock_reentrant_acquire_def compare_exchange_def reentrant_ok_def)
  from lock_reentrant_mutual_exclusion [OF this, of 7 8] have "lr_owner (the_lock ?t) = 7" "depth ?t 8 = 0"
    by simp_all
  then show ?thesis by - (rule exI [of _ ?t], simp)
qed

text \<open>
  The hypothesis on ids is needed: the first context gets id 0 (\<^verbatim>\<open>init_first_ctx\<close>), which is also the
  mark of a free lock. When context 0 holds the lock, any other context can take it as well.
\<close>
theorem lock_reentrant_id_zero:
  "\<exists>s. lock_reach lock_reentrant_acquire (\<lambda>_. lock_reentrant_release) (\<lambda>_ _. True)
       \<lparr>lr_cnt = 0, lr_owner = 0\<rparr> s \<and> 0 < depth s 0 \<and> 0 < depth s 7"
proof -
  let ?s0 = "\<lparr>the_lock = \<lparr>lr_cnt = 0, lr_owner = 0\<rparr>, depth = (\<lambda>_ :: u32. 0 :: nat)\<rparr>"
  let ?s1 = "?s0\<lparr>the_lock := \<lparr>lr_cnt = 1, lr_owner = 0\<rparr>, depth := (depth ?s0)(0 := Suc (depth ?s0 0))\<rparr>"
  let ?s2 = "?s1\<lparr>the_lock := \<lparr>lr_cnt = 1, lr_owner = 7\<rparr>, depth := (depth ?s1)(7 := Suc (depth ?s1 7))\<rparr>"
  let ?R = "lock_reach lock_reentrant_acquire (\<lambda>_. lock_reentrant_release) (\<lambda>_ _. True)
    \<lparr>lr_cnt = 0, lr_owner = 0\<rparr>"
  have "?R ?s0" by (rule lock_reach.start)
  then have "?R ?s1" by (rule lock_reach.acquire) (simp_all add: lock_reentrant_acquire_def)
  then have "?R ?s2"
    by (rule lock_reach.acquire) (simp_all add: lock_reentrant_acquire_def compare_exchange_def)
  then show ?thesis by (intro exI [of _ ?s2]) simp
qed

section \<open>Readers and writers\<close>

text \<open>
  The program points of a context that uses a reader-writer lock: \<open>Waiting\<close> after the announcement of
  \<^verbatim>\<open>lock_multi_acquire_read\<close>, \<open>Leaving\<close> between the decrement and the store of
  \<^verbatim>\<open>lock_multi_release_read\<close>. In the relation below the two are one action when \<open>atomic\<close> is set and
  two, as in the code, when it is not. The reader counter must not wrap.
\<close>

datatype rw_pc = Idle | Waiting | Reading | Leaving | Writing

record rw_sys =
  rw_lock :: lock_multi
  rw_at :: "nat \<Rightarrow> rw_pc"

inductive rw_reach :: "bool \<Rightarrow> rw_sys \<Rightarrow> bool" for atomic :: bool where
  rw_start: "rw_reach atomic \<lparr>rw_lock = \<lparr>lm_waiting_readers = 0, lm_stat = 0\<rparr>, rw_at = (\<lambda>_. Idle)\<rparr>"
| rw_announce: "rw_reach atomic s \<Longrightarrow> rw_at s i = Idle \<Longrightarrow> lm_waiting_readers (rw_lock s) + 1 \<noteq> 0 \<Longrightarrow>
    rw_reach atomic (s\<lparr>rw_lock := lock_multi_announce (rw_lock s), rw_at := (rw_at s)(i := Waiting)\<rparr>)"
| rw_read: "rw_reach atomic s \<Longrightarrow> rw_at s i = Waiting \<Longrightarrow> lock_multi_try_read (rw_lock s) = Some l \<Longrightarrow>
    rw_reach atomic (s\<lparr>rw_lock := l, rw_at := (rw_at s)(i := Reading)\<rparr>)"
| rw_done: "rw_reach atomic s \<Longrightarrow> rw_at s i = Reading \<Longrightarrow> atomic \<Longrightarrow>
    rw_reach atomic (s\<lparr>rw_lock := lock_multi_release_read (rw_lock s), rw_at := (rw_at s)(i := Idle)\<rparr>)"
| rw_sub: "rw_reach atomic s \<Longrightarrow> rw_at s i = Reading \<Longrightarrow> \<not> atomic \<Longrightarrow>
    lock_multi_sub_reader (rw_lock s) = (was_last, l) \<Longrightarrow>
    rw_reach atomic
      (s\<lparr>rw_lock := l, rw_at := (rw_at s)(i := if was_last then Leaving else Idle)\<rparr>)"
| rw_free: "rw_reach atomic s \<Longrightarrow> rw_at s i = Leaving \<Longrightarrow>
    rw_reach atomic (s\<lparr>rw_lock := lock_multi_free (rw_lock s), rw_at := (rw_at s)(i := Idle)\<rparr>)"
| rw_write: "rw_reach atomic s \<Longrightarrow> rw_at s i = Idle \<Longrightarrow> lock_multi_acquire_write (rw_lock s) = Some l \<Longrightarrow>
    rw_reach atomic (s\<lparr>rw_lock := l, rw_at := (rw_at s)(i := Writing)\<rparr>)"
| rw_written: "rw_reach atomic s \<Longrightarrow> rw_at s i = Writing \<Longrightarrow>
    rw_reach atomic (s\<lparr>rw_lock := lock_multi_release_write (rw_lock s), rw_at := (rw_at s)(i := Idle)\<rparr>)"

lemmas lock_multi_defs = lock_multi_announce_def lock_multi_try_read_def lock_multi_sub_reader_def
  lock_multi_free_def lock_multi_release_read_def lock_multi_acquire_write_def
  lock_multi_release_write_def compare_exchange_def LSTAT_defs

text \<open>The invariant: the counter counts the contexts that wait or read, the status tells who is inside.\<close>

definition rw_readers :: "(nat \<Rightarrow> rw_pc) \<Rightarrow> nat set" where
  "rw_readers at = {i. at i = Waiting \<or> at i = Reading}"

definition rw_inv :: "rw_sys \<Rightarrow> bool" where
  "rw_inv s \<longleftrightarrow> finite (rw_readers (rw_at s)) \<and>
     unat (lm_waiting_readers (rw_lock s)) = card (rw_readers (rw_at s)) \<and>
     (\<forall>i. rw_at s i \<noteq> Leaving) \<and>
     (\<forall>i. rw_at s i = Reading \<longrightarrow> lm_stat (rw_lock s) = LSTAT_READ) \<and>
     (\<forall>i. rw_at s i = Writing \<longrightarrow> lm_stat (rw_lock s) = LSTAT_WRITE) \<and>
     (\<forall>i j. rw_at s i = Writing \<and> rw_at s j = Writing \<longrightarrow> i = j)"

lemma rw_readers_upd:
  "rw_readers (at(i := p)) =
     (if p = Waiting \<or> p = Reading then insert i (rw_readers at) else rw_readers at - {i})"
  by (auto simp: rw_readers_def)

lemma rw_readers_mem [simp]: "i \<in> rw_readers at \<longleftrightarrow> at i = Waiting \<or> at i = Reading"
  by (simp add: rw_readers_def)

lemma rw_last_reader:
  assumes "finite R" and "unat (w :: u32) = card R" and "i \<in> R"
  shows "unat (w - 1) = card (R - {i})" and "w - 1 = 0 \<Longrightarrow> R = {i}"
proof -
  have "1 \<le> unat w" using assms by (metis One_nat_def Suc_leI card_gt_0_iff empty_iff)
  then show c: "unat (w - 1) = card (R - {i})"
    using assms by (simp add: unat_sub_u32)
  show "R = {i}" if "w - 1 = 0"
    using c that assms by (metis card_0_eq finite_Diff insert_Diff unat_0)
qed

lemma rw_reach_inv: "rw_reach True s \<Longrightarrow> rw_inv s"
proof (induction rule: rw_reach.induct)
  case rw_start
  then show ?case by (simp add: rw_inv_def rw_readers_def)
next
  case (rw_announce s i)
  then have "unat (lm_waiting_readers (rw_lock s) + 1) = Suc (unat (lm_waiting_readers (rw_lock s)))"
    using unat_u32_lt [of "lm_waiting_readers (rw_lock s)"]
    by (auto simp: word_unat_eq_iff unat_add_u32 simp del: unat_u32_lt split: if_splits)
  with rw_announce show ?case
    by (auto simp: rw_inv_def rw_readers_upd lock_multi_announce_def card_insert_if)
next
  case (rw_read s i l)
  then show ?case
    by (auto simp: rw_inv_def rw_readers_upd insert_absorb lock_multi_try_read_def
        compare_exchange_def LSTAT_defs split: if_splits)
next
  case (rw_done s i)
  then have inv: "rw_inv s" and i: "i \<in> rw_readers (rw_at s)" by simp_all
  then have fin: "finite (rw_readers (rw_at s))"
    and cnt: "unat (lm_waiting_readers (rw_lock s)) = card (rw_readers (rw_at s))"
    by (simp_all add: rw_inv_def)
  note sub = rw_last_reader(1) [OF fin cnt i] and only = rw_last_reader(2) [OF fin cnt i]
  have "lm_waiting_readers (rw_lock s) - 1 = 0 \<Longrightarrow> j \<noteq> i \<Longrightarrow> rw_at s j \<noteq> Reading" for j
    using only rw_readers_mem by blast
  with inv sub rw_done.hyps show ?case
    by (auto simp: rw_inv_def rw_readers_upd lock_multi_release_read_def lock_multi_sub_reader_def
        lock_multi_free_def LSTAT_defs split: if_splits)
next
  case (rw_sub s i was_last l)
  then show ?case by simp
next
  case (rw_free s i)
  then show ?case by (simp add: rw_inv_def)
next
  case (rw_write s i l)
  then show ?case
    by (auto simp: rw_inv_def rw_readers_upd lock_multi_acquire_write_def compare_exchange_def
        LSTAT_defs split: if_splits)
next
  case (rw_written s i)
  then show ?case
    by (auto simp: rw_inv_def rw_readers_upd lock_multi_release_write_def LSTAT_defs split: if_splits)
qed



text \<open>
  C31: as the code has it, decrement and store being two actions, exclusion fails: a reader that
  arrives between them enters, the pending store frees the lock under it, and a writer enters too.
\<close>
theorem lock_multi_release_race:
  "\<exists>s. rw_reach False s \<and> rw_at s 1 = Reading \<and> rw_at s 2 = Writing"
proof -
  let ?l = "\<lambda>n st. \<lparr>lm_waiting_readers = n, lm_stat = st\<rparr>"
  let ?s0 = "\<lparr>rw_lock = ?l 0 0, rw_at = (\<lambda>_. Idle)\<rparr>"
  let ?s1 = "?s0\<lparr>rw_lock := lock_multi_announce (rw_lock ?s0), rw_at := (rw_at ?s0)(0 := Waiting)\<rparr>"
  let ?s2 = "?s1\<lparr>rw_lock := ?l 1 2, rw_at := (rw_at ?s1)(0 := Reading)\<rparr>"
  let ?s3 = "?s2\<lparr>rw_lock := ?l 0 2, rw_at := (rw_at ?s2)(0 := if True then Leaving else Idle)\<rparr>"
  let ?s4 = "?s3\<lparr>rw_lock := lock_multi_announce (rw_lock ?s3), rw_at := (rw_at ?s3)(1 := Waiting)\<rparr>"
  let ?s5 = "?s4\<lparr>rw_lock := ?l 1 2, rw_at := (rw_at ?s4)(1 := Reading)\<rparr>"
  let ?s6 = "?s5\<lparr>rw_lock := lock_multi_free (rw_lock ?s5), rw_at := (rw_at ?s5)(0 := Idle)\<rparr>"
  let ?s7 = "?s6\<lparr>rw_lock := ?l 1 1, rw_at := (rw_at ?s6)(2 := Writing)\<rparr>"
  have "rw_reach False ?s0" by (rule rw_reach.rw_start)
  then have "rw_reach False ?s1" by (rule rw_reach.rw_announce) simp_all
  then have "rw_reach False ?s2" by (rule rw_reach.rw_read) (simp_all add: lock_multi_defs)
  then have "rw_reach False ?s3" by (rule rw_reach.rw_sub) (simp_all add: lock_multi_defs)
  then have "rw_reach False ?s4" by (rule rw_reach.rw_announce) simp_all
  then have "rw_reach False ?s5" by (rule rw_reach.rw_read) (simp_all add: lock_multi_defs)
  then have "rw_reach False ?s6" by (rule rw_reach.rw_free) simp
  then have "rw_reach False ?s7" by (rule rw_reach.rw_write) (simp_all add: lock_multi_defs)
  then show ?thesis by (intro exI [of _ ?s7]) simp
qed

end
