(* ===== verification/Page_Frames.thy ===== *)
theory Page_Frames
  imports Sync Libc_String
begin

unbundle bit_operations_syntax

text \<open>
  \<^verbatim>\<open>src/common/memory.c\<close>: the kernel's block copy and comparison, and the physical page-frame allocator.
  The regions of usable memory and their bitmaps are the fields of \<^verbatim>\<open>struct trampoline_info\<close> that the
  allocator uses; \<^verbatim>\<open>region_cnt\<close> is the length of the region list and each bitmap is the list of the
  bytes reserved for it, so that an index past it is an access outside the object.
\<close>

section \<open>Block copy and comparison in the kernel\<close>

function kmemcpy_loop :: "bmem \<Rightarrow> addr \<Rightarrow> addr \<Rightarrow> u32 \<Rightarrow> u32 \<Rightarrow> bmem" where
  "kmemcpy_loop m dst src sz i =
     (if i < sz then kmemcpy_loop (m(dst + i := m (src + i))) dst src sz (i + 1) else m)"
  by pat_completeness auto
termination
  by (relation "measure (\<lambda>(m, d, s, n, i). unat n - unat i)") (auto intro: word_loop_measure)

definition kmemcpy :: "bmem \<Rightarrow> addr \<Rightarrow> addr \<Rightarrow> u32 \<Rightarrow> bmem" where
  "kmemcpy m dst src sz = kmemcpy_loop m dst src sz 0"

function kmemcmp_loop :: "bmem \<Rightarrow> addr \<Rightarrow> addr \<Rightarrow> u32 \<Rightarrow> u32 \<Rightarrow> int" where
  "kmemcmp_loop m s1 s2 n i =
     (if i < n
      then let c1 = m (s1 + i); c2 = m (s2 + i)
           in if c1 \<noteq> c2 then uint c1 - uint c2 else kmemcmp_loop m s1 s2 n (i + 1)
      else 0)"
  by pat_completeness auto
termination
  by (relation "measure (\<lambda>(m, s1, s2, n, i). unat n - unat i)") (auto intro: word_loop_measure)

definition kmemcmp :: "bmem \<Rightarrow> addr \<Rightarrow> addr \<Rightarrow> u32 \<Rightarrow> int" where
  "kmemcmp m s1 s2 n = kmemcmp_loop m s1 s2 n 0"

declare kmemcpy_loop.simps [simp del] kmemcmp_loop.simps [simp del]

text \<open>The two libraries copy and compare alike, so the kernel's copy has the same interface.\<close>

lemma kmemcpy_loop_libc: "kmemcpy_loop m d s n i = memcpy_loop m d s n i"
proof (induction m d s n i rule: kmemcpy_loop.induct)
  case (1 m d s n i)
  then show ?case
    by (simp add: kmemcpy_loop.simps [of m d s n i] memcpy_loop.simps [of m d s n i] fun_upd_def)
qed

lemma kmemcmp_loop_libc: "kmemcmp_loop m s1 s2 n i = memcmp_loop m s1 s2 n i"
proof (induction m s1 s2 n i rule: kmemcmp_loop.induct)
  case (1 m s1 s2 n i)
  then show ?case
    by (simp add: kmemcmp_loop.simps [of m s1 s2 n i] memcmp_loop.simps [of m s1 s2 n i] char_diff_def)
qed

lemma kmemcpy_libc: "kmemcpy m d s n = fst (memcpy m d s n)"
  by (simp add: kmemcpy_def memcpy_def kmemcpy_loop_libc)

lemma kmemcmp_libc: "kmemcmp m s1 s2 n = memcmp m s1 s2 n"
  by (simp add: kmemcmp_def memcmp_def kmemcmp_loop_libc)

interpretation kernel: mem_copy kmemcpy
  by unfold_locales (simp add: kmemcpy_libc libc.cp_spec)

lemma kmemcmp_zero: "kmemcmp m s1 s2 n = 0 \<longleftrightarrow> (\<forall>k < n. m (s1 + k) = m (s2 + k))"
  by (simp add: kmemcmp_libc memcmp_def memcmp_loop_zero)

section \<open>The frame bitmap\<close>

definition PAGE_SIZE :: u32 where "PAGE_SIZE = 4096"

record trampoline_region =
  tr_addr :: addr
  tr_pg_cnt :: u32
  tr_bitmap :: "u8 list"

record frames =
  regions :: "trampoline_region list"
  bitmap_lock :: lock_simple

text \<open>
  The inner loop of \<^verbatim>\<open>kpage_alloc\<close>; \<^verbatim>\<open>addr\<close> is always the region's base plus \<open>idx * PAGE_SIZE\<close>. The
  recursion ends because the distance to the end of the region is a multiple of the page size.
\<close>

lemma unat_mult_page: "unat (q * 4096 :: u32) mod 4096 = 0"
proof -
  have "unat (q * 4096) = (unat q * 4096) mod 4294967296" by (simp add: unat_word_ariths)
  then show ?thesis by (simp add: mod_mod_cancel)
qed

lemma frame_loop_measure:
  fixes b p i :: u32
  assumes "b + i * 4096 < b + p * 4096"
  shows "unat (p * 4096 - (i + 1) * 4096) < unat (p * 4096 - i * 4096)"
proof -
  define d where "d = (p - i) * 4096"
  have d: "p * 4096 - i * 4096 = d" "p * 4096 - (i + 1) * 4096 = d - 4096"
    by (simp_all add: d_def algebra_simps)
  have "d \<noteq> 0" using assms by (auto simp: d_def algebra_simps)
  moreover have "unat d mod 4096 = 0" unfolding d_def by (rule unat_mult_page)
  ultimately have "4096 \<le> unat d" by (simp add: unat_eq_zero mod_eq_0_iff_dvd dvd_imp_le unat_gt_0)
  then show ?thesis unfolding d by (simp add: unat_sub_u32)
qed

function scan_region :: "trampoline_region \<Rightarrow> u32 \<Rightarrow> u32 option result" where
  "scan_region r idx =
     (if tr_addr r + idx * PAGE_SIZE < tr_addr r + tr_pg_cnt r * PAGE_SIZE
      then if length (tr_bitmap r) \<le> unat (idx div 8) then Inl OutOfBounds
           else if drop_bit (unat (idx mod 8)) (tr_bitmap r ! unat (idx div 8)) = 0 then Inr (Some idx)
           else scan_region r (idx + 1)
      else Inr None)"
  by pat_completeness auto
termination
proof (relation "measure (\<lambda>(r, i). unat (tr_pg_cnt r * 4096 - i * 4096))", goal_cases)
  case (2 r idx)
  then show ?case using frame_loop_measure [of "tr_addr r" idx "tr_pg_cnt r"] by (simp add: PAGE_SIZE_def)
qed simp

declare scan_region.simps [simp del]

definition mark_bit :: "u32 \<Rightarrow> bool \<Rightarrow> u8 list \<Rightarrow> u8 list" where
  "mark_bit idx used bm =
     (let b = bm ! unat (idx div 8)
      in bm[unat (idx div 8) :=
           if used then b OR push_bit (unat (idx mod 8)) 1
           else b AND NOT (push_bit (unat (idx mod 8)) 1)])"

fun alloc_from :: "trampoline_region list \<Rightarrow> (addr \<times> trampoline_region list) option result" where
  "alloc_from [] = Inr None"
| "alloc_from (r # rs) = rbind (scan_region r 0) (\<lambda>found. case found of
     Some idx \<Rightarrow>
       Inr (Some (tr_addr r + idx * PAGE_SIZE, r\<lparr>tr_bitmap := mark_bit idx True (tr_bitmap r)\<rparr> # rs))
   | None \<Rightarrow> rbind (alloc_from rs) (\<lambda>res. Inr (map_option (\<lambda>(a, rs'). (a, r # rs')) res)))"

text \<open>\<^verbatim>\<open>kpage_alloc\<close>; with no frame found it logs and executes \<^verbatim>\<open>cli; hlt\<close>.\<close>

definition kpage_alloc :: "frames \<Rightarrow> (addr \<times> frames) result" where
  "kpage_alloc f =
     (case lock_simple_acquire (bitmap_lock f) of
        None \<Rightarrow> Inl Spins
      | Some l \<Rightarrow> rbind (alloc_from (regions f)) (\<lambda>res. case res of
          None \<Rightarrow> Inl Halted
        | Some (a, rs) \<Rightarrow> Inr (a, f\<lparr>regions := rs, bitmap_lock := lock_simple_release l\<rparr>)))"

fun mark_in :: "addr \<Rightarrow> bool \<Rightarrow> trampoline_region list \<Rightarrow> trampoline_region list result" where
  "mark_in a free [] = Inr []"
| "mark_in a free (r # rs) =
     (let low = tr_addr r; high = low + tr_pg_cnt r * PAGE_SIZE
      in if low \<le> a \<and> a \<le> high
         then let idx = (a - low) div PAGE_SIZE
              in if length (tr_bitmap r) \<le> unat (idx div 8) then Inl OutOfBounds
                 else Inr (r\<lparr>tr_bitmap := mark_bit idx (\<not> free) (tr_bitmap r)\<rparr> # rs)
         else rbind (mark_in a free rs) (\<lambda>rs'. Inr (r # rs')))"

definition kpage_set_status :: "addr \<Rightarrow> bool \<Rightarrow> frames \<Rightarrow> frames result" where
  "kpage_set_status a free f =
     (case lock_simple_acquire (bitmap_lock f) of
        None \<Rightarrow> Inl Spins
      | Some l \<Rightarrow> rbind (mark_in a free (regions f)) (\<lambda>rs.
          Inr (f\<lparr>regions := rs, bitmap_lock := lock_simple_release l\<rparr>)))"

text \<open>
  The first half of \<^verbatim>\<open>init_memory\<close>: a zeroed bitmap of \<open>pg_cnt / 8\<close> bytes per region, placed at
  \<^verbatim>\<open>t_info->limit\<close>, and the frames from \<^verbatim>\<open>t_info\<close> to the new limit marked as used.
\<close>

fun init_bitmaps :: "trampoline_region list \<Rightarrow> addr \<Rightarrow> trampoline_region list \<times> addr" where
  "init_bitmaps [] lim = ([], lim)"
| "init_bitmaps (r # rs) lim =
     (let bitmap_cnt = tr_pg_cnt r div 8;
          (rs', lim') = init_bitmaps rs (lim + bitmap_cnt)
      in (r\<lparr>tr_bitmap := replicate (unat bitmap_cnt) 0\<rparr> # rs', lim'))"

partial_function (option) reserve_loop :: "addr \<Rightarrow> addr \<Rightarrow> frames \<Rightarrow> frames result option" where
  "reserve_loop p lim f =
     (if p < lim
      then case kpage_set_status p False f of
             Inl e \<Rightarrow> Some (Inl e)
           | Inr f' \<Rightarrow> reserve_loop (p + PAGE_SIZE) lim f'
      else Some (Inr f))"

definition init_frames :: "addr \<Rightarrow> addr \<Rightarrow> trampoline_region list \<Rightarrow> frames result option" where
  "init_frames t_info lim rs =
     (let (rs', lim') = init_bitmaps rs lim
      in reserve_loop t_info lim' \<lparr>regions = rs', bitmap_lock = \<lparr>ls_stat = 0\<rparr>\<rparr>)"

section \<open>The abstract view: a partial map from frames to their status\<close>

text \<open>\<open>Some True\<close> is a frame in use, \<open>Some False\<close> a free one, \<^term>\<open>None\<close> no frame of the region.\<close>

definition region_status :: "trampoline_region \<Rightarrow> addr \<Rightarrow> bool option" where
  "region_status r a =
     (let k = unat (a - tr_addr r)
      in if k < unat (tr_pg_cnt r) * 4096 \<and> k mod 4096 = 0
         then Some (bit (tr_bitmap r ! (k div 4096 div 8)) (k div 4096 mod 8)) else None)"

fun regions_status :: "trampoline_region list \<Rightarrow> addr \<Rightarrow> bool option" where
  "regions_status [] a = None"
| "regions_status (r # rs) a =
     (case region_status r a of Some b \<Rightarrow> Some b | None \<Rightarrow> regions_status rs a)"

definition frame_status :: "frames \<Rightarrow> addr \<Rightarrow> bool option" where
  "frame_status f = regions_status (regions f)"

text \<open>
  Well-formed regions end below 4 GiB, have a bitmap bit for each of their frames, and neither
  overlap nor touch.
\<close>

definition region_end :: "trampoline_region \<Rightarrow> nat" where
  "region_end r = unat (tr_addr r) + unat (tr_pg_cnt r) * 4096"

definition wf_region :: "trampoline_region \<Rightarrow> bool" where
  "wf_region r \<longleftrightarrow> region_end r < 2 ^ 32 \<and> unat (tr_pg_cnt r) \<le> 8 * length (tr_bitmap r)"

definition apart_regions :: "trampoline_region \<Rightarrow> trampoline_region \<Rightarrow> bool" where
  "apart_regions r q \<longleftrightarrow> region_end r < unat (tr_addr q) \<or> region_end q < unat (tr_addr r)"

fun wf_regions :: "trampoline_region list \<Rightarrow> bool" where
  "wf_regions [] \<longleftrightarrow> True"
| "wf_regions (r # rs) \<longleftrightarrow> wf_region r \<and> list_all (apart_regions r) rs \<and> wf_regions rs"

definition wf_frames :: "frames \<Rightarrow> bool" where
  "wf_frames f \<longleftrightarrow> wf_regions (regions f) \<and> ls_stat (bitmap_lock f) = 0"

lemma region_end_update [simp]: "region_end (r\<lparr>tr_bitmap := bm\<rparr>) = region_end r"
  by (simp add: region_end_def)

lemma wf_region_mark [simp]: "wf_region (r\<lparr>tr_bitmap := mark_bit i u (tr_bitmap r)\<rparr>) = wf_region r"
  by (simp add: wf_region_def mark_bit_def Let_def)

lemma apart_regions_update [simp]:
  "apart_regions (r\<lparr>tr_bitmap := bm\<rparr>) = apart_regions r"
  "apart_regions q (r\<lparr>tr_bitmap := bm\<rparr>) = apart_regions q r"
  by (simp_all add: apart_regions_def fun_eq_iff)

subsection \<open>One region\<close>

lemma frame_index:
  assumes "wf_region r" and "i < tr_pg_cnt r"
  shows "unat (tr_addr r + i * 4096) = unat (tr_addr r) + unat i * 4096"
    and "unat (i * 4096) = unat i * 4096"
    and "unat i * 4096 < unat (tr_pg_cnt r) * 4096"
    and "unat (i div 8) < length (tr_bitmap r)"
proof -
  show lt: "unat i * 4096 < unat (tr_pg_cnt r) * 4096"
    using assms(2) by (simp add: word_less_nat_alt)
  then show m: "unat (i * 4096) = unat i * 4096"
    using assms(1) by (simp add: unat_word_ariths wf_region_def region_end_def)
  show "unat (tr_addr r + i * 4096) = unat (tr_addr r) + unat i * 4096"
    using assms(1) lt m by (simp add: unat_add_u32 wf_region_def region_end_def)
  have "unat i < unat (tr_pg_cnt r)" using assms(2) by (simp add: word_less_nat_alt)
  then have "unat i < length (tr_bitmap r) * 8" using assms(1) by (simp add: wf_region_def)
  then show "unat (i div 8) < length (tr_bitmap r)" by (simp add: unat_div less_mult_imp_div_less)
qed

lemma region_high: "wf_region r \<Longrightarrow> unat (tr_addr r + tr_pg_cnt r * 4096) = region_end r"
  by (simp add: wf_region_def region_end_def unat_word_ariths)

lemma region_loop_test:
  assumes "wf_region r" and "i \<le> tr_pg_cnt r"
  shows "tr_addr r + i * 4096 < tr_addr r + tr_pg_cnt r * 4096 \<longleftrightarrow> i < tr_pg_cnt r"
proof (cases "i = tr_pg_cnt r")
  case False
  with assms(2) have i: "i < tr_pg_cnt r" by simp
  show ?thesis
    using frame_index [OF assms(1) i] region_high [OF assms(1)] i
    by (simp add: word_less_nat_alt region_end_def)
qed simp

lemma region_status_frame:
  assumes "wf_region r" and "i < tr_pg_cnt r"
  shows "region_status r (tr_addr r + i * 4096) =
    Some (bit (tr_bitmap r ! unat (i div 8)) (unat (i mod 8)))"
  using frame_index [OF assms] by (simp add: region_status_def unat_div unat_mod)

lemma region_status_SomeD:
  assumes "region_status r a = Some b" and "wf_region r"
  obtains i where "i < tr_pg_cnt r" and "a = tr_addr r + i * 4096"
proof
  let ?k = "unat (a - tr_addr r)"
  let ?i = "(a - tr_addr r) div 4096"
  have k: "?k < unat (tr_pg_cnt r) * 4096" "?k mod 4096 = 0"
    using assms(1) by (auto simp: region_status_def Let_def split: if_splits)
  then show i: "?i < tr_pg_cnt r"
    by (simp add: word_less_nat_alt unat_div less_mult_imp_div_less)
  have "?k div 4096 * 4096 = ?k" using k(2) by (simp add: mod_eq_0_iff_dvd)
  then have "unat (?i * 4096) = ?k"
    using frame_index(2) [OF assms(2) i] by (simp add: unat_div)
  then have "?i * 4096 = a - tr_addr r" by (rule word_unat_eq_iff [THEN iffD2])
  then show "a = tr_addr r + ?i * 4096" by simp
qed

lemma u32_div_mod_eq: "j = i \<longleftrightarrow> unat (j div 8) = unat (i div 8) \<and> unat (j mod 8) = unat (i mod 8)" for i j :: u32
proof -
  have "(a :: nat) = b \<longleftrightarrow> a div 8 = b div 8 \<and> a mod 8 = b mod 8" for a b
    by (metis div_mult_mod_eq)
  from this [of "unat j" "unat i"] show ?thesis by (simp add: word_unat_eq_iff unat_div unat_mod)
qed

lemma bit_mark_bit:
  assumes "unat (i div 8) < length bm"
  shows "bit (mark_bit i u bm ! unat (j div 8)) (unat (j mod 8)) =
    (if j = i then u else bit (bm ! unat (j div 8)) (unat (j mod 8)))"
proof -
  have lt: "unat (j mod 8) < 8" "unat (i mod 8) < 8" by (simp_all add: unat_mod)
  show ?thesis
    using assms lt u32_div_mod_eq [of j i] by (auto simp: mark_bit_def Let_def nth_list_update bit_simps)
qed

lemma region_status_mark:
  assumes "wf_region r" and "i < tr_pg_cnt r"
  shows "region_status (r\<lparr>tr_bitmap := mark_bit i u (tr_bitmap r)\<rparr>) =
    (region_status r)(tr_addr r + i * 4096 \<mapsto> u)"
proof
  fix a
  let ?r = "r\<lparr>tr_bitmap := mark_bit i u (tr_bitmap r)\<rparr>"
  show "region_status ?r a = ((region_status r)(tr_addr r + i * 4096 \<mapsto> u)) a"
  proof (cases "region_status r a")
    case None
    then have "region_status ?r a = None"
      by (simp add: region_status_def Let_def split: if_splits)
    moreover have "a \<noteq> tr_addr r + i * 4096"
      using None region_status_frame [OF assms] by auto
    ultimately show ?thesis using None by simp
  next
    case (Some b)
    then obtain j where j: "j < tr_pg_cnt r" "a = tr_addr r + j * 4096"
      using assms(1) by (rule region_status_SomeD)
    have "a = tr_addr r + i * 4096 \<longleftrightarrow> j = i"
      using j frame_index(1) [OF assms] frame_index(1) [OF assms(1) j(1)]
      by (auto simp: word_unat_eq_iff)
    then show ?thesis
      using region_status_frame [of ?r j] region_status_frame [OF assms(1) j(1)] assms(1) j
        bit_mark_bit [OF frame_index(4) [OF assms], of u j] by simp
  qed
qed

text \<open>The scan never leaves the bitmap, and what it finds has no used frame from it to the end of its byte.\<close>

lemma scan_region_result:
  assumes "wf_region r" and "i \<le> tr_pg_cnt r"
  shows "(\<exists>j. scan_region r i = Inr (Some j) \<and> i \<le> j \<and> j < tr_pg_cnt r \<and>
            drop_bit (unat (j mod 8)) (tr_bitmap r ! unat (j div 8)) = 0) \<or>
         scan_region r i = Inr None \<and>
           (\<forall>j. i \<le> j \<longrightarrow> j < tr_pg_cnt r \<longrightarrow>
             drop_bit (unat (j mod 8)) (tr_bitmap r ! unat (j div 8)) \<noteq> 0)"
  using assms
proof (induction r i rule: scan_region.induct)
  case (1 r i)
  show ?case
  proof (cases "i < tr_pg_cnt r")
    case False
    then have "scan_region r i = Inr None"
      using 1 region_loop_test [of r i] by (subst scan_region.simps) (simp add: PAGE_SIZE_def)
    with False show ?thesis by auto
  next
    case True
    have t: "tr_addr r + i * PAGE_SIZE < tr_addr r + tr_pg_cnt r * PAGE_SIZE"
      using region_loop_test [of r i] 1 True by (simp add: PAGE_SIZE_def)
    have b: "\<not> length (tr_bitmap r) \<le> unat (i div 8)"
      using frame_index(4) [of r i] 1 True by simp
    have le: "i \<le> j \<longleftrightarrow> j = i \<or> i + 1 \<le> j" for j
      using True by (auto simp: word_le_nat_alt word_unat_eq_iff word_less_succ_unat)
    have s: "i + 1 \<le> tr_pg_cnt r" using True by (simp add: inc_le)
    show ?thesis
    proof (cases "drop_bit (unat (i mod 8)) (tr_bitmap r ! unat (i div 8)) = 0")
      case True
      with t b \<open>i < tr_pg_cnt r\<close> show ?thesis by (simp add: scan_region.simps [of r i])
    next
      case nz: False
      with t b have "scan_region r i = scan_region r (i + 1)" by (simp add: scan_region.simps [of r i])
      with 1(1) [OF t b nz 1(2) s] nz le show ?thesis by metis
    qed
  qed
qed

subsection \<open>All regions\<close>

lemma region_status_range:
  assumes "wf_region r" and "region_status r a = Some b"
  shows "unat (tr_addr r) \<le> unat a" and "unat a < region_end r"
proof -
  obtain i where i: "i < tr_pg_cnt r" "a = tr_addr r + i * 4096"
    using assms(2,1) by (rule region_status_SomeD)
  then show "unat (tr_addr r) \<le> unat a" "unat a < region_end r"
    using frame_index [OF assms(1) i(1)] by (simp_all add: region_end_def)
qed

lemma regions_status_apart:
  assumes "regions_status rs a = Some b" and "wf_regions rs" and "wf_region r"
    and "list_all (apart_regions r) rs"
  shows "region_status r a = None" and "\<not> (tr_addr r \<le> a \<and> unat a \<le> region_end r)"
proof -
  obtain q c where q: "q \<in> set rs" "region_status q a = Some c"
    using assms(1) by (induction rs) (auto split: option.splits)
  have "wf_region q" using q(1) assms(2) by (induction rs) auto
  note in_q = region_status_range [OF this q(2)]
  have "apart_regions r q" using q(1) assms(4) by (simp add: list_all_iff)
  with in_q show "\<not> (tr_addr r \<le> a \<and> unat a \<le> region_end r)"
    by (auto simp: apart_regions_def word_le_nat_alt)
  then show "region_status r a = None"
    using region_status_range [OF assms(3)] by (metis less_imp_le not_None_eq word_le_nat_alt)
qed

text \<open>What an operation on the region list may do: set one frame's status.\<close>

definition sets_frame :: "trampoline_region list \<Rightarrow> addr \<Rightarrow> bool \<Rightarrow> trampoline_region list \<Rightarrow> bool" where
  "sets_frame rs a u rs' \<longleftrightarrow> wf_regions rs' \<and> regions_status rs' = (regions_status rs)(a \<mapsto> u) \<and>
     (\<forall>q. list_all (apart_regions q) rs' = list_all (apart_regions q) rs)"

lemma sets_frame_head:
  assumes "wf_regions (r # rs)" and "i < tr_pg_cnt r"
  shows "sets_frame (r # rs) (tr_addr r + i * 4096) u (r\<lparr>tr_bitmap := mark_bit i u (tr_bitmap r)\<rparr> # rs)"
  using assms region_status_mark [of r i u] by (auto simp: sets_frame_def fun_eq_iff)

lemma sets_frame_tail:
  assumes "wf_regions (r # rs)" and "sets_frame rs a u rs'" and "regions_status rs a = Some b"
  shows "sets_frame (r # rs) a u (r # rs')"
  using assms regions_status_apart(1) [OF assms(3)]
  by (auto simp: sets_frame_def fun_eq_iff split: option.splits)

definition frames_exhausted :: "trampoline_region list \<Rightarrow> bool" where
  "frames_exhausted rs \<longleftrightarrow> (\<forall>r \<in> set rs. \<forall>j < tr_pg_cnt r.
     drop_bit (unat (j mod 8)) (tr_bitmap r ! unat (j div 8)) \<noteq> 0)"

lemma alloc_from_result:
  "wf_regions rs \<Longrightarrow>
    (\<exists>a rs'. alloc_from rs = Inr (Some (a, rs')) \<and> regions_status rs a = Some False \<and> sets_frame rs a True rs') \<or>
    alloc_from rs = Inr None \<and> frames_exhausted rs"
proof (induction rs)
  case Nil
  then show ?case by (simp add: frames_exhausted_def)
next
  case (Cons r rs)
  then have r: "wf_region r" and z: "0 \<le> tr_pg_cnt r" by simp_all
  from scan_region_result [OF r z] show ?case
  proof (elim disjE exE conjE)
    fix j assume j: "scan_region r 0 = Inr (Some j)" "j < tr_pg_cnt r"
      "drop_bit (unat (j mod 8)) (tr_bitmap r ! unat (j div 8)) = 0"
    from j(3) have "\<not> bit (tr_bitmap r ! unat (j div 8)) (unat (j mod 8))"
      by (rule drop_bit_zero_not_bit)
    then show ?thesis
      using j sets_frame_head [OF Cons.prems j(2)] region_status_frame [OF r j(2)]
      by (simp add: PAGE_SIZE_def)
  next
    assume none: "scan_region r 0 = Inr None"
      "\<forall>j\<ge>0. j < tr_pg_cnt r \<longrightarrow> drop_bit (unat (j mod 8)) (tr_bitmap r ! unat (j div 8)) \<noteq> 0"
    from Cons.prems have wf: "wf_regions rs" and ap: "list_all (apart_regions r) rs" by simp_all
    from Cons.IH [OF wf] show ?thesis
    proof (elim disjE exE conjE)
      fix a rs' assume a: "alloc_from rs = Inr (Some (a, rs'))" "regions_status rs a = Some False"
        "sets_frame rs a True rs'"
      then show ?thesis
        using none(1) sets_frame_tail [OF Cons.prems a(3,2)] regions_status_apart(1) [OF a(2) wf r ap]
        by simp
    next
      assume "alloc_from rs = Inr None" "frames_exhausted rs"
      with none show ?thesis by (auto simp: frames_exhausted_def)
    qed
  qed
qed

lemma mark_in_result:
  "wf_regions rs \<Longrightarrow> regions_status rs a = Some b \<Longrightarrow>
    \<exists>rs'. mark_in a free rs = Inr rs' \<and> sets_frame rs a (\<not> free) rs'"
proof (induction rs)
  case Nil
  then show ?case by simp
next
  case (Cons r rs)
  then have r: "wf_region r" and wf: "wf_regions rs" and ap: "list_all (apart_regions r) rs" by simp_all
  show ?case
  proof (cases "region_status r a")
    case (Some c)
    then obtain i where i: "i < tr_pg_cnt r" "a = tr_addr r + i * 4096"
      using r by (rule region_status_SomeD)
    have idx: "(a - tr_addr r) div 4096 = i"
      using frame_index(2) [OF r i(1)] unfolding i(2) by (simp add: word_unat_eq_iff unat_div)
    show ?thesis
      using region_status_range [OF r Some] region_high [OF r] frame_index(4) [OF r i(1)] idx
        sets_frame_head [OF Cons.prems(1) i(1), of "\<not> free"] i(2)
      by (simp add: PAGE_SIZE_def word_le_nat_alt Let_def)
  next
    case None
    then have b: "regions_status rs a = Some b" using Cons.prems by simp
    from Cons.IH [OF wf b] obtain rs' where rs': "mark_in a free rs = Inr rs'" "sets_frame rs a (\<not> free) rs'"
      by blast
    then show ?thesis
      using regions_status_apart(2) [OF b wf r ap] region_high [OF r] sets_frame_tail [OF Cons.prems(1) rs'(2) b]
      by (auto simp: PAGE_SIZE_def Let_def word_le_nat_alt)
  qed
qed

section \<open>Interface: a frame allocator\<close>

text \<open>
  What paging, the heap and the process loader rely on: an allocation returns a frame that was
  free and changes no other frame's status; giving back a frame of the allocator makes it free.
\<close>

fun alloc_seq :: "('s \<Rightarrow> (addr \<times> 's) result) \<Rightarrow> nat \<Rightarrow> 's \<Rightarrow> (addr list \<times> 's) result" where
  "alloc_seq al 0 s = Inr ([], s)"
| "alloc_seq al (Suc n) s =
     rbind (al s) (\<lambda>(a, s'). rbind (alloc_seq al n s') (\<lambda>(as, s''). Inr (a # as, s'')))"

locale frame_allocator =
  fixes alloc :: "'s \<Rightarrow> (addr \<times> 's) result" and set_free :: "addr \<Rightarrow> 's \<Rightarrow> 's result"
    and inv :: "'s \<Rightarrow> bool" and status :: "'s \<Rightarrow> addr \<Rightarrow> bool option"
  assumes alloc_law: "inv s \<Longrightarrow> alloc s = Inr (a, s') \<Longrightarrow>
      status s a = Some False \<and> status s' = (status s)(a \<mapsto> True) \<and> inv s'"
    and free_law: "inv s \<Longrightarrow> status s a \<noteq> None \<Longrightarrow>
      \<exists>s'. set_free a s = Inr s' \<and> status s' = (status s)(a \<mapsto> False) \<and> inv s'"
begin

lemma alloc_seq_fresh:
  "inv s \<Longrightarrow> alloc_seq alloc n s = Inr (as, s') \<Longrightarrow>
    distinct as \<and> (\<forall>a \<in> set as. status s a = Some False) \<and>
    status s' = (\<lambda>a. if a \<in> set as then Some True else status s a) \<and> inv s'"
proof (induction n arbitrary: s as)
  case 0
  then show ?case by simp
next
  case (Suc n)
  then obtain a s1 bs where a: "alloc s = Inr (a, s1)" and bs: "alloc_seq alloc n s1 = Inr (bs, s')"
    and "as": "as = a # bs" by auto
  from alloc_law [OF Suc.prems(1) a] have s1: "status s a = Some False" "status s1 = (status s)(a \<mapsto> True)"
    "inv s1" by auto
  from Suc.IH [OF s1(3) bs] show ?case using s1 "as" by (auto split: if_splits)
qed

lemma alloc_free_restores:
  assumes "inv s" and "alloc s = Inr (a, s')"
  shows "\<exists>s''. set_free a s' = Inr s'' \<and> status s'' = status s \<and> inv s''"
proof -
  from alloc_law [OF assms] have st: "status s a = Some False" "status s' = (status s)(a \<mapsto> True)" "inv s'"
    by auto
  from st(2) have "status s' a \<noteq> None" by simp
  from free_law [OF st(3) this] show ?thesis using st(1,2) by (auto simp: fun_upd_idem)
qed

end

lemma lock_simple_take: "ls_stat l = 0 \<Longrightarrow> lock_simple_acquire l = Some (l\<lparr>ls_stat := LSTAT_WRITE\<rparr>)"
  by (simp add: lock_simple_acquire_def compare_exchange_def)

lemma kpage_alloc_result:
  assumes "wf_frames f"
  shows "(\<exists>a f'. kpage_alloc f = Inr (a, f') \<and> frame_status f a = Some False \<and>
            frame_status f' = (frame_status f)(a \<mapsto> True) \<and> wf_frames f') \<or>
         kpage_alloc f = Inl Halted \<and> frames_exhausted (regions f)"
proof -
  have l: "lock_simple_acquire (bitmap_lock f) = Some ((bitmap_lock f)\<lparr>ls_stat := LSTAT_WRITE\<rparr>)"
    using assms by (simp add: wf_frames_def lock_simple_take)
  from assms have "wf_regions (regions f)" by (simp add: wf_frames_def)
  from alloc_from_result [OF this] show ?thesis
    by (elim disjE exE conjE)
      (simp_all add: kpage_alloc_def l frame_status_def sets_frame_def wf_frames_def lock_simple_release_def)
qed

lemma kpage_set_status_result:
  assumes "wf_frames f" and "frame_status f a = Some b"
  shows "\<exists>f'. kpage_set_status a free f = Inr f' \<and>
    frame_status f' = (frame_status f)(a \<mapsto> \<not> free) \<and> wf_frames f'"
proof -
  have l: "lock_simple_acquire (bitmap_lock f) = Some ((bitmap_lock f)\<lparr>ls_stat := LSTAT_WRITE\<rparr>)"
    using assms by (simp add: wf_frames_def lock_simple_take)
  from assms obtain rs where "mark_in a free (regions f) = Inr rs" "sets_frame (regions f) a (\<not> free) rs"
    using mark_in_result [of "regions f" a b free] by (auto simp: wf_frames_def frame_status_def)
  then show ?thesis
    by (simp add: kpage_set_status_def l frame_status_def sets_frame_def wf_frames_def lock_simple_release_def)
qed

interpretation kpages: frame_allocator kpage_alloc "\<lambda>a. kpage_set_status a True" wf_frames frame_status
proof (unfold_locales, goal_cases)
  case (1 s a s')
  with kpage_alloc_result [OF 1(1)] show ?case by auto
next
  case (2 s a)
  then obtain b where "frame_status s a = Some b" by auto
  from kpage_set_status_result [OF 2(1) this, of True] show ?case by simp
qed

section \<open>Correctness of the frame allocator\<close>

text \<open>A memory map with one region of eight frames at 1 MiB and a given bitmap byte.\<close>

definition one_region :: "u8 \<Rightarrow> frames" where
  "one_region b = \<lparr>regions = [\<lparr>tr_addr = 0x100000, tr_pg_cnt = 8, tr_bitmap = [b]\<rparr>],
     bitmap_lock = \<lparr>ls_stat = 0\<rparr>\<rparr>"

lemma wf_one_region [simp]: "wf_frames (one_region b)"
  by (simp add: wf_frames_def one_region_def wf_region_def region_end_def)

text \<open>
  \<^verbatim>\<open>kpage_alloc\<close> on a well-formed memory map either returns a frame that was free, marks exactly that
  frame as used and releases the lock, or halts; it never reads outside a bitmap. It halts only if
  from every frame on some frame of the same bitmap byte is in use.
\<close>
theorem kpage_alloc_correct:
  assumes "wf_frames f"
  shows "(\<exists>a f'. kpage_alloc f = Inr (a, f') \<and> frame_status f a = Some False \<and>
            frame_status f' = (frame_status f)(a \<mapsto> True) \<and> wf_frames f') \<or>
         kpage_alloc f = Inl Halted \<and> frames_exhausted (regions f)"
  using assms by (rule kpage_alloc_result)

lemma kpage_alloc_one_region: "kpage_alloc (one_region 1) = Inr (0x101000, one_region 3)"
  by code_simp

theorem kpage_alloc_correct_witness:
  "frame_status (one_region 1) 0x101000 = Some False \<and> frame_status (one_region 3) 0x101000 = Some True"
  using kpage_alloc_correct [OF wf_one_region, of 1] by (simp add: kpage_alloc_one_region)

text \<open>
  C5: the frames of a sequence of allocations are pairwise distinct and were all free before it;
  afterwards exactly they have become used. Hence no two owners ever share a frame.
\<close>
theorem kpage_alloc_sequence:
  assumes "wf_frames f" and "alloc_seq kpage_alloc n f = Inr (as, f')"
  shows "distinct as \<and> (\<forall>a \<in> set as. frame_status f a = Some False) \<and>
    frame_status f' = (\<lambda>a. if a \<in> set as then Some True else frame_status f a) \<and> wf_frames f'"
  using assms by (rule kpages.alloc_seq_fresh)

theorem kpage_alloc_sequence_witness:
  "alloc_seq kpage_alloc 2 (one_region 1) = Inr ([0x101000, 0x102000], one_region 7) \<and>
   frame_status (one_region 1) 0x102000 = Some False"
proof -
  have "alloc_seq kpage_alloc 2 (one_region 1) = Inr ([0x101000, 0x102000], one_region 7)"
    by code_simp
  with kpage_alloc_sequence [OF wf_one_region this] show ?thesis by simp
qed

text \<open>
  \<^verbatim>\<open>kpage_set_status\<close> on any frame of a well-formed memory map returns, sets exactly that frame's
  status and releases the lock; freeing what an allocation returned restores the map of frames.
\<close>
theorem kpage_set_status_correct:
  assumes "wf_frames f"
  shows "(frame_status f a \<noteq> None \<longrightarrow> (\<exists>f'. kpage_set_status a free f = Inr f' \<and>
            frame_status f' = (frame_status f)(a \<mapsto> \<not> free) \<and> wf_frames f')) \<and>
         (kpage_alloc f = Inr (b, g) \<longrightarrow> (\<exists>h. kpage_set_status b True g = Inr h \<and>
            frame_status h = frame_status f \<and> wf_frames h))"
  using kpage_set_status_result [OF assms] kpages.alloc_free_restores [OF assms] by blast

theorem kpage_set_status_correct_witness:
  "\<exists>h. kpage_set_status 0x101000 True (one_region 3) = Inr h \<and> frame_status h = frame_status (one_region 1)"
  using kpage_set_status_correct [OF wf_one_region, of 1 _ _ "0x101000" "one_region 3"]
    kpage_alloc_one_region by blast

text \<open>
  Freed frames can be lost: the allocator tests \<open>bitmap >> bit = 0\<close>, which looks at the higher
  bits of the byte too. With the last of eight frames in use and the other seven free it halts.
\<close>
theorem kpage_alloc_misses_free_frames:
  "frame_status (one_region 0x80) 0x100000 = Some False \<and> kpage_alloc (one_region 0x80) = Inl Halted"
  by (rule conjI; code_simp)

text \<open>A region whose size is not a multiple of eight pages gets a bitmap without bits for its last frames.\<close>

lemma init_frames_partial_byte:
  "\<exists>f. init_frames 0x1000 0x1000 [\<lparr>tr_addr = 0x100000, tr_pg_cnt = 7, tr_bitmap = []\<rparr>] = Some (Inr f) \<and>
    kpage_alloc f = Inl OutOfBounds"
  by (simp add: init_frames_def reserve_loop.simps kpage_alloc_def scan_region.simps PAGE_SIZE_def
      lock_simple_acquire_def compare_exchange_def)

text \<open>The upper bound of \<^verbatim>\<open>kpage_set_status\<close> includes the address after a region.\<close>

lemma kpage_set_status_past_end: "kpage_set_status 0x108000 True (one_region 0) = Inl OutOfBounds"
  by code_simp

end
