(* ===== verification/Mmu.thy ===== *)
theory Mmu
  imports Page_Frames
begin

unbundle bit_operations_syntax

text \<open>
  The machine the kernel's paging code runs on: physical memory, the control registers it sets, the
  two-level page walk of the i386 (4 KiB pages; the code never sets \<^verbatim>\<open>CR4.PSE\<close>), and loads and
  stores through it. There is no translation cache: every access walks the tables, which is what the
  \<^verbatim>\<open>invlpg\<close> and \<^verbatim>\<open>cr3\<close> reloads of the code are there to ensure. The kernel runs in ring 0 with
  \<^verbatim>\<open>CR0.WP\<close> clear, so only the present bits decide. The page arithmetic is that of
  \<^verbatim>\<open>include/muse/paging.h\<close> and of the macros at the top of \<^verbatim>\<open>src/common/paging.c\<close>.
\<close>

section \<open>Page arithmetic\<close>

definition ADDR_MASK :: u32 where "ADDR_MASK = 0xFFFFF000"
definition TEN_BITS :: u32 where "TEN_BITS = 0x3FF"

definition ALIGN_PG_DOWN :: "addr \<Rightarrow> addr" where
  "ALIGN_PG_DOWN x = x - x mod PAGE_SIZE"

definition ALIGN_PG_UP :: "addr \<Rightarrow> addr" where
  "ALIGN_PG_UP x = (if x mod PAGE_SIZE > 0 then ALIGN_PG_DOWN x + PAGE_SIZE else x)"

definition PG_DIR_IDX :: "addr \<Rightarrow> u32" where
  "PG_DIR_IDX x = drop_bit 22 x"

definition PG_TBL_IDX :: "addr \<Rightarrow> u32" where
  "PG_TBL_IDX x = drop_bit 12 x AND TEN_BITS"

definition LOOPBACK_DIR :: addr where "LOOPBACK_DIR = 0xFFFFF000"

definition LOOPBACK_TBL :: "u32 \<Rightarrow> addr" where
  "LOOPBACK_TBL i = 0xFFC00000 + push_bit 12 i"

abbreviation page_of :: "addr \<Rightarrow> addr" where
  "page_of a \<equiv> a AND ADDR_MASK"

abbreviation offset_of :: "addr \<Rightarrow> u32" where
  "offset_of a \<equiv> a AND 0xFFF"

lemma page_nat_parts:
  fixes q r :: nat
  assumes "r < 4096"
  shows "(4096 * q + r) div 4096 = q" and "(4096 * q + r) mod 4096 = r"
  using assms by simp_all

lemma dir_index_nat: "n div 4194304 = n div 4096 div 1024" for n :: nat
  by (simp flip: div_mult2_eq)

lemma and_mask_unat:
  assumes "m = (mask n :: u32)"
  shows "unat (a AND m) = unat a mod 2 ^ n"
proof -
  have "unat (a AND m) = take_bit n (unat a)"
    by (simp add: assms unsigned_take_bit_eq flip: take_bit_eq_mask)
  then show ?thesis by (simp add: take_bit_eq_mod)
qed

lemma unat_offset [simp]: "unat (offset_of a) = unat a mod 4096"
  using and_mask_unat [of "0xFFF" 12 a] by (simp add: mask_eq_exp_minus_1)

lemma unat_page [simp]: "unat (page_of a) = unat a - unat a mod 4096"
proof -
  have "page_of a + offset_of a = a"
  proof -
    have "page_of a + offset_of a = (page_of a) OR (offset_of a)"
      by (rule disjunctive_add_eq_or) (simp add: ADDR_MASK_def and.assoc and.left_commute [of _ a])
    also have "\<dots> = a AND (0xFFFFF000 OR 0xFFF)"
      by (simp only: bit.conj_disj_distrib ADDR_MASK_def)
    also have "(0xFFFFF000 OR 0xFFF :: u32) = - 1" by simp
    also have "a AND - 1 = a" by simp
    finally show ?thesis .
  qed
  then have "page_of a = a - offset_of a" by (simp add: eq_diff_eq)
  then show ?thesis by (simp add: unat_sub_u32)
qed

lemma unat_DIR [simp]: "unat (PG_DIR_IDX a) = unat a div 4194304"
  by (simp add: PG_DIR_IDX_def drop_bit_eq_div unat_div)

lemma unat_TBL [simp]: "unat (PG_TBL_IDX a) = unat a div 4096 mod 1024"
  using and_mask_unat [of "0x3FF" 10 "drop_bit 12 a"]
  by (simp add: PG_TBL_IDX_def TEN_BITS_def mask_eq_exp_minus_1 drop_bit_eq_div unat_div)

text \<open>A page and an offset determine the address; indices of both levels determine the page.\<close>

lemma page_offset_join: "page_of a + offset_of a = a"
  by (rule word_unat_eq_iff [THEN iffD2]) (simp add: unat_add_u32)

lemma page_eq_iff: "page_of a = page_of b \<longleftrightarrow> unat a div 4096 = unat b div 4096"
proof -
  have "x - x mod 4096 = y - y mod 4096 \<longleftrightarrow> x div 4096 = y div 4096" for x y :: nat
    by (simp add: minus_mod_eq_div_mult)
  then show ?thesis by (simp add: word_unat_eq_iff)
qed

lemma page_eq_indices: "page_of a = page_of b \<longleftrightarrow> PG_DIR_IDX a = PG_DIR_IDX b \<and> PG_TBL_IDX a = PG_TBL_IDX b"
proof -
  have "x div 4096 = y div 4096 \<longleftrightarrow>
      x div 4096 div 1024 = y div 4096 div 1024 \<and> x div 4096 mod 1024 = y div 4096 mod 1024" for x y :: nat
    by (metis div_mult_mod_eq)
  from this [of "unat a" "unat b"] show ?thesis
    unfolding page_eq_iff word_unat_eq_iff [of "PG_DIR_IDX a"] word_unat_eq_iff [of "PG_TBL_IDX a"]
      unat_DIR unat_TBL dir_index_nat .
qed

lemma index_bounds [simp]: "PG_DIR_IDX a < 1024" "PG_TBL_IDX a < 1024"
  using unat_u32_lt [of a] by (simp_all add: word_less_nat_alt less_mult_imp_div_less)

text \<open>The word \<open>i\<close> of the table in the page of \<open>b\<close>.\<close>

definition slot :: "u32 \<Rightarrow> u32 \<Rightarrow> addr" where
  "slot b i = page_of b + 4 * i"

lemma unat_slot:
  assumes "i < 1024"
  shows "unat (slot b i) = unat b - unat b mod 4096 + 4 * unat i"
proof -
  have i: "unat i < 1024" using assms by (simp add: word_less_nat_alt)
  then have m: "unat (4 * i) = 4 * unat i" by (simp add: unat_word_ariths)
  have "unat b div 4096 < 1048576" by (simp add: less_mult_imp_div_less)
  then have "unat b - unat b mod 4096 + 4 * unat i < 4294967296"
    using i by (simp add: minus_mod_eq_div_mult)
  then show ?thesis by (simp add: slot_def unat_add_u32 m)
qed

lemma slot_parts:
  assumes "i < 1024"
  shows "page_of (slot b i) = page_of b" and "offset_of (slot b i) = 4 * i"
proof -
  have i: "unat i < 1024" using assms by (simp add: word_less_nat_alt)
  then have "(unat b - unat b mod 4096 + 4 * unat i) div 4096 = unat b div 4096"
    by (simp add: minus_mod_eq_div_mult)
  then show "page_of (slot b i) = page_of b"
    by (simp add: page_eq_iff unat_slot [OF assms])
  have "unat (4 * i) = 4 * unat i" using i by (simp add: unat_word_ariths)
  then show "offset_of (slot b i) = 4 * i"
    using i by (simp add: word_unat_eq_iff unat_slot [OF assms] minus_mod_eq_div_mult)
qed

lemma slot_eq_iff:
  assumes "i < 1024" and "j < 1024"
  shows "slot a i = slot b j \<longleftrightarrow> page_of a = page_of b \<and> i = j"
proof
  have i: "unat i < 1024" "unat j < 1024" using assms by (simp_all add: word_less_nat_alt)
  assume eq: "slot a i = slot b j"
  then have "page_of a = page_of b" and "4 * i = 4 * j"
    using slot_parts [OF assms(1), of a] slot_parts [OF assms(2), of b] by simp_all
  moreover from this(2) have "unat (4 * i) = unat (4 * j)" by simp
  ultimately show "page_of a = page_of b \<and> i = j"
    using i by (simp add: unat_word_ariths word_unat_eq_iff)
qed (simp add: slot_def)

lemma slot_aligned: "i < 1024 \<Longrightarrow> slot b i mod 4 = 0"
proof -
  assume i: "i < 1024"
  have "unat b div 4096 * 4096 + 4 * unat i = 4 * (unat b div 4096 * 1024 + unat i)" by simp
  then have "(unat b div 4096 * 4096 + 4 * unat i) mod 4 = 0" by (simp only: mod_mult_self1_is_0)
  then show ?thesis by (simp add: word_unat_eq_iff unat_mod unat_slot [OF i] minus_mod_eq_div_mult)
qed

lemma slot_apart:
  assumes "i < 1024" and "j < 1024" and "page_of a \<noteq> page_of b \<or> i \<noteq> j"
  shows "apart32 (slot a i) (slot b j)"
  using assms slot_eq_iff [OF assms(1,2)] by (intro apart32_aligned slot_aligned) auto

lemma slot_page [simp]: "slot (page_of b) i = slot b i"
  by (simp add: slot_def and.assoc)

text \<open>Where the recursive entry makes the directory and the tables visible.\<close>

lemma loopback_dir_indices:
  assumes "i < 1024"
  shows "PG_DIR_IDX (LOOPBACK_DIR + 4 * i) = 1023" and "PG_TBL_IDX (LOOPBACK_DIR + 4 * i) = 1023"
    and "offset_of (LOOPBACK_DIR + 4 * i) = 4 * i"
proof -
  have i: "unat i < 1024" using assms by (simp add: word_less_nat_alt)
  then have m: "unat (4 * i) = 4 * unat i" by (simp add: unat_word_ariths)
  have u: "unat (LOOPBACK_DIR + 4 * i) = 4096 * 1048575 + 4 * unat i"
    using i by (simp add: LOOPBACK_DIR_def unat_add_u32 m)
  have "4 * unat i < 4096" using i by simp
  note parts = page_nat_parts [OF this, of 1048575, folded u]
  show "PG_DIR_IDX (LOOPBACK_DIR + 4 * i) = 1023" "PG_TBL_IDX (LOOPBACK_DIR + 4 * i) = 1023"
    "offset_of (LOOPBACK_DIR + 4 * i) = 4 * i"
    using parts by (simp_all add: word_unat_eq_iff m dir_index_nat)
qed

lemma loopback_tbl_indices:
  assumes "i < 1024" and "j < 1024"
  shows "PG_DIR_IDX (LOOPBACK_TBL i + 4 * j) = 1023" and "PG_TBL_IDX (LOOPBACK_TBL i + 4 * j) = i"
    and "offset_of (LOOPBACK_TBL i + 4 * j) = 4 * j"
proof -
  have i: "unat i < 1024" "unat j < 1024" using assms by (simp_all add: word_less_nat_alt)
  then have m: "unat (4 * j) = 4 * unat j" "unat (push_bit 12 i) = 4096 * unat i"
    by (simp_all add: unat_word_ariths push_bit_eq_mult mult.commute)
  have u: "unat (LOOPBACK_TBL i + 4 * j) = 4096 * (1047552 + unat i) + 4 * unat j"
    using i by (simp add: LOOPBACK_TBL_def unat_add_u32 m)
  have "4 * unat j < 4096" using i by simp
  note parts = page_nat_parts [OF this, of "1047552 + unat i", folded u]
  have idx: "(1047552 + unat i) div 1024 = 1023" "(1047552 + unat i) mod 1024 = unat i"
    using i page_nat_parts by (simp_all add: mod_if)
  show "PG_DIR_IDX (LOOPBACK_TBL i + 4 * j) = 1023" "PG_TBL_IDX (LOOPBACK_TBL i + 4 * j) = i"
    "offset_of (LOOPBACK_TBL i + 4 * j) = 4 * j"
    using parts idx by (simp_all add: word_unat_eq_iff m dir_index_nat)
qed

section \<open>Machine state and the page walk\<close>

record machine =
  pmem :: bmem
  cr0 :: u32
  cr3 :: addr
  m_frames :: frames

definition paging_on :: "machine \<Rightarrow> bool" where
  "paging_on m \<longleftrightarrow> bit (cr0 m) 31"

text \<open>Directory entry \<open>i\<close>, and entry \<open>j\<close> of the table it names.\<close>

definition dir_entry :: "machine \<Rightarrow> u32 \<Rightarrow> u32" where
  "dir_entry m i = load32 (pmem m) (slot (cr3 m) i)"

definition tbl_entry :: "machine \<Rightarrow> u32 \<Rightarrow> u32 \<Rightarrow> u32" where
  "tbl_entry m i j = load32 (pmem m) (slot (dir_entry m i) j)"

abbreviation present :: "u32 \<Rightarrow> bool" where
  "present e \<equiv> bit e 0"

definition translate :: "machine \<Rightarrow> addr \<Rightarrow> addr option" where
  "translate m a =
     (if \<not> paging_on m then Some a
      else if \<not> present (dir_entry m (PG_DIR_IDX a)) then None
      else let e = tbl_entry m (PG_DIR_IDX a) (PG_TBL_IDX a)
           in if present e then Some (page_of e + offset_of a) else None)"

definition vload8 :: "machine \<Rightarrow> addr \<Rightarrow> u8 result" where
  "vload8 m a = (case translate m a of None \<Rightarrow> Inl (PageFault a) | Some p \<Rightarrow> Inr (pmem m p))"

definition vstore8 :: "machine \<Rightarrow> addr \<Rightarrow> u8 \<Rightarrow> machine result" where
  "vstore8 m a b = (case translate m a of
     None \<Rightarrow> Inl (PageFault a) | Some p \<Rightarrow> Inr (m\<lparr>pmem := (pmem m)(p := b)\<rparr>))"

text \<open>A word that crosses a page boundary is accessed byte by byte, once both pages are known to be mapped.\<close>

definition vload32 :: "machine \<Rightarrow> addr \<Rightarrow> u32 result" where
  "vload32 m a =
     (if offset_of a \<le> 0xFFC
      then case translate m a of None \<Rightarrow> Inl (PageFault a) | Some p \<Rightarrow> Inr (load32 (pmem m) p)
      else rbind (vload8 m a) (\<lambda>b0. rbind (vload8 m (a + 1)) (\<lambda>b1.
           rbind (vload8 m (a + 2)) (\<lambda>b2. rbind (vload8 m (a + 3)) (\<lambda>b3.
           Inr (ucast b0 OR push_bit 8 (ucast b1) OR push_bit 16 (ucast b2) OR push_bit 24 (ucast b3)))))))"

definition vstore32 :: "machine \<Rightarrow> addr \<Rightarrow> u32 \<Rightarrow> machine result" where
  "vstore32 m a w =
     (if offset_of a \<le> 0xFFC
      then case translate m a of
             None \<Rightarrow> Inl (PageFault a) | Some p \<Rightarrow> Inr (m\<lparr>pmem := store32 (pmem m) p w\<rparr>)
      else rbind (vload8 m a) (\<lambda>_. rbind (vload8 m (a + 3)) (\<lambda>_.
           rbind (vstore8 m a (ucast w)) (\<lambda>m. rbind (vstore8 m (a + 1) (ucast (drop_bit 8 w))) (\<lambda>m.
           rbind (vstore8 m (a + 2) (ucast (drop_bit 16 w))) (\<lambda>m.
           vstore8 m (a + 3) (ucast (drop_bit 24 w))))))))"

lemma word_offset:
  assumes "i < 1024"
  shows "4 * i \<le> (0xFFC :: u32)"
proof -
  have "unat i < 1024" using assms by (simp add: word_less_nat_alt)
  then show ?thesis by (simp add: word_le_nat_alt unat_word_ariths)
qed

lemma vload32_word: "offset_of a \<le> 0xFFC \<Longrightarrow> translate m a = Some p \<Longrightarrow> vload32 m a = Inr (load32 (pmem m) p)"
  by (simp add: vload32_def)

lemma vstore32_word:
  "offset_of a \<le> 0xFFC \<Longrightarrow> translate m a = Some p \<Longrightarrow> vstore32 m a w = Inr (m\<lparr>pmem := store32 (pmem m) p w\<rparr>)"
  by (simp add: vstore32_def)

text \<open>
  The recursive mapping: the last entry of the directory names the directory itself. \<open>tables_ok\<close>
  adds that no table is used by two entries (\<open>tables_apart\<close>); with the recursive entry among them, no table is the
  directory.
\<close>

definition loopback :: "machine \<Rightarrow> bool" where
  "loopback m \<longleftrightarrow> paging_on m \<and> present (dir_entry m 1023) \<and> page_of (dir_entry m 1023) = page_of (cr3 m)"

definition tables_apart :: "machine \<Rightarrow> bool" where
  "tables_apart m \<longleftrightarrow> (\<forall>i < 1024. \<forall>j < 1024. present (dir_entry m i) \<and> present (dir_entry m j) \<and>
     page_of (dir_entry m i) = page_of (dir_entry m j) \<longrightarrow> i = j)"

definition tables_ok :: "machine \<Rightarrow> bool" where
  "tables_ok m \<longleftrightarrow> loopback m \<and> tables_apart m"

lemma slot_dir: "loopback m \<Longrightarrow> slot (dir_entry m 1023) i = slot (cr3 m) i"
  by (metis loopback_def slot_page)

lemma tbl_entry_loopback: "loopback m \<Longrightarrow> tbl_entry m 1023 i = dir_entry m i"
  by (simp add: tbl_entry_def slot_dir) (simp add: dir_entry_def)

lemma translate_loopback_dir:
  assumes "loopback m" and "i < 1024"
  shows "translate m (LOOPBACK_DIR + 4 * i) = Some (slot (cr3 m) i)"
  using assms
  by (simp add: translate_def loopback_dir_indices tbl_entry_loopback loopback_def slot_def)

lemma translate_loopback_tbl:
  assumes "loopback m" and "i < 1024" and "j < 1024"
  shows "translate m (LOOPBACK_TBL i + 4 * j) =
    (if present (dir_entry m i) then Some (slot (dir_entry m i) j) else None)"
  using assms(1)
  by (simp add: translate_def loopback_tbl_indices [OF assms(2,3)] tbl_entry_loopback loopback_def slot_def)

lemma vload32_loopback_dir [simp]:
  "loopback m \<Longrightarrow> i < 1024 \<Longrightarrow> vload32 m (LOOPBACK_DIR + 4 * i) = Inr (dir_entry m i)"
  by (simp add: vload32_def translate_loopback_dir dir_entry_def loopback_dir_indices word_offset)

lemma vstore32_loopback_dir [simp]:
  "loopback m \<Longrightarrow> i < 1024 \<Longrightarrow>
    vstore32 m (LOOPBACK_DIR + 4 * i) w = Inr (m\<lparr>pmem := store32 (pmem m) (slot (cr3 m) i) w\<rparr>)"
  by (simp add: vstore32_def translate_loopback_dir loopback_dir_indices word_offset)

lemma vload32_loopback_tbl:
  "loopback m \<Longrightarrow> i < 1024 \<Longrightarrow> j < 1024 \<Longrightarrow> vload32 m (LOOPBACK_TBL i + 4 * j) =
    (if present (dir_entry m i) then Inr (tbl_entry m i j) else Inl (PageFault (LOOPBACK_TBL i + 4 * j)))"
  by (simp add: vload32_def translate_loopback_tbl tbl_entry_def loopback_tbl_indices word_offset)

lemma vstore32_loopback_tbl:
  "loopback m \<Longrightarrow> i < 1024 \<Longrightarrow> j < 1024 \<Longrightarrow> vstore32 m (LOOPBACK_TBL i + 4 * j) w =
    (if present (dir_entry m i) then Inr (m\<lparr>pmem := store32 (pmem m) (slot (dir_entry m i) j) w\<rparr>)
     else Inl (PageFault (LOOPBACK_TBL i + 4 * j)))"
  by (simp add: vstore32_def translate_loopback_tbl loopback_tbl_indices word_offset)

subsection \<open>What a store into a table changes\<close>

text \<open>The machine after storing \<open>w\<close> in entry \<open>j\<close> of table \<open>i\<close>.\<close>

definition set_pte :: "machine \<Rightarrow> u32 \<Rightarrow> u32 \<Rightarrow> u32 \<Rightarrow> machine" where
  "set_pte m i j w = m\<lparr>pmem := store32 (pmem m) (slot (dir_entry m i) j) w\<rparr>"

definition pte_slot :: "machine \<Rightarrow> u32 \<Rightarrow> u32 \<Rightarrow> bool" where
  "pte_slot m i j \<longleftrightarrow> tables_apart m \<and> i < 1024 \<and> j < 1024 \<and> present (dir_entry m i) \<and>
     page_of (dir_entry m i) \<noteq> page_of (cr3 m)"

lemma dir_index_bound: "i < 1023 \<Longrightarrow> i < 1024" for i :: u32
  by (simp add: word_less_nat_alt)

lemma table_not_dir:
  assumes "tables_ok m" and "i < 1023" and "present (dir_entry m i)"
  shows "page_of (dir_entry m i) \<noteq> page_of (cr3 m)"
proof
  assume "page_of (dir_entry m i) = page_of (cr3 m)"
  then have "page_of (dir_entry m i) = page_of (dir_entry m 1023)"
    using assms(1) by (simp add: tables_ok_def loopback_def)
  then have "i = 1023"
    using assms dir_index_bound [OF assms(2)] by (simp add: tables_ok_def tables_apart_def loopback_def)
  with assms(2) show False by simp
qed

lemma pte_slotI:
  "tables_ok m \<Longrightarrow> i < 1023 \<Longrightarrow> j < 1024 \<Longrightarrow> present (dir_entry m i) \<Longrightarrow> pte_slot m i j"
  using table_not_dir [of m i] dir_index_bound [of i] by (simp add: pte_slot_def tables_ok_def)

lemma set_pte_dir:
  assumes "pte_slot m i j" and "k < 1024"
  shows "dir_entry (set_pte m i j w) k = dir_entry m k"
proof -
  have "apart32 (slot (dir_entry m i) j) (slot (cr3 m) k)"
    using assms by (intro slot_apart) (auto simp: pte_slot_def)
  then show ?thesis by (simp add: set_pte_def dir_entry_def)
qed

lemma set_pte_tbl:
  assumes "pte_slot m i j" and "k < 1024" and "l < 1024" and "present (dir_entry m k)"
  shows "tbl_entry (set_pte m i j w) k l = (if k = i \<and> l = j then w else tbl_entry m k l)"
proof -
  have i: "i < 1024" using assms(1) by (simp add: pte_slot_def)
  show ?thesis
  proof (cases "k = i \<and> l = j")
    case True
    then show ?thesis using set_pte_dir [OF assms(1) i] by (simp add: tbl_entry_def) (simp add: set_pte_def)
  next
    case False
    then have "page_of (dir_entry m i) \<noteq> page_of (dir_entry m k) \<or> j \<noteq> l"
      using assms i by (auto simp: pte_slot_def tables_apart_def)
    then have "apart32 (slot (dir_entry m i) j) (slot (dir_entry m k) l)"
      using assms by (intro slot_apart) (auto simp: pte_slot_def)
    then show ?thesis
      using False set_pte_dir [OF assms(1,2), of w] by (auto simp: tbl_entry_def) (simp_all add: set_pte_def)
  qed
qed

lemma set_pte_fields [simp]:
  "cr3 (set_pte m i j w) = cr3 m" "paging_on (set_pte m i j w) = paging_on m"
  "m_frames (set_pte m i j w) = m_frames m"
  by (simp_all add: set_pte_def paging_on_def)

lemma set_pte_apart: "pte_slot m i j \<Longrightarrow> tables_apart (set_pte m i j w)"
  using set_pte_dir [of m i j _ w] by (simp add: tables_apart_def pte_slot_def)

lemma set_pte_ok: "pte_slot m i j \<Longrightarrow> tables_ok m \<Longrightarrow> tables_ok (set_pte m i j w)"
  using set_pte_dir [of m i j _ w] set_pte_apart [of m i j w] by (simp add: tables_ok_def loopback_def)

lemma tables_paging: "tables_ok m \<Longrightarrow> paging_on m"
  by (simp add: tables_ok_def loopback_def)

lemma translate_set_pte:
  assumes slot: "pte_slot m (PG_DIR_IDX v) (PG_TBL_IDX v)" and on: "paging_on m"
  shows "translate (set_pte m (PG_DIR_IDX v) (PG_TBL_IDX v) w) a =
    (if page_of a = page_of v
     then (if present w then Some (page_of w + offset_of a) else None) else translate m a)"
proof (cases "present (dir_entry m (PG_DIR_IDX a))")
  case True
  then show ?thesis
    using set_pte_dir [OF slot, of "PG_DIR_IDX a" w] set_pte_tbl [OF slot, of "PG_DIR_IDX a" "PG_TBL_IDX a" w]
      on by (auto simp: translate_def page_eq_indices)
next
  case False
  then have "page_of a \<noteq> page_of v" using slot by (auto simp: page_eq_indices pte_slot_def)
  then show ?thesis
    using set_pte_dir [OF slot, of "PG_DIR_IDX a" w] False on by (simp add: translate_def)
qed

subsection \<open>What stores outside the tables leave alone\<close>

text \<open>The walk does not read the page \<open>b\<close>.\<close>

definition walk_free :: "machine \<Rightarrow> addr \<Rightarrow> bool" where
  "walk_free m b \<longleftrightarrow> page_of (cr3 m) \<noteq> page_of b \<and>
     (\<forall>i < 1024. present (dir_entry m i) \<longrightarrow> page_of (dir_entry m i) \<noteq> page_of b)"

definition same_outside :: "addr \<Rightarrow> machine \<Rightarrow> machine \<Rightarrow> bool" where
  "same_outside b m m' \<longleftrightarrow> cr0 m' = cr0 m \<and> cr3 m' = cr3 m \<and> m_frames m' = m_frames m \<and>
     (\<forall>a. page_of a \<noteq> page_of b \<longrightarrow> pmem m' a = pmem m a)"

lemma slot_bytes:
  assumes "i < 1024" and "unat d < 4"
  shows "page_of (slot b i + d) = page_of b"
proof -
  have i: "unat i < 1024" using assms(1) by (simp add: word_less_nat_alt)
  have q: "unat b div 4096 < 1048576" by (simp add: less_mult_imp_div_less)
  have s: "unat (slot b i) = 4096 * (unat b div 4096) + 4 * unat i"
    by (simp add: unat_slot [OF assms(1)] minus_mod_eq_div_mult)
  then have "unat (slot b i + d) = 4096 * (unat b div 4096) + (4 * unat i + unat d)"
    using i q assms(2) by (simp add: unat_add_u32)
  moreover have "4 * unat i + unat d < 4096" using i assms(2) by simp
  ultimately show ?thesis by (simp add: page_eq_iff page_nat_parts)
qed

lemma load32_slot_cong:
  assumes "i < 1024" and "\<And>a. page_of a = page_of b \<Longrightarrow> f a = g a"
  shows "load32 f (slot b i) = load32 g (slot b i)"
  using assms(2) [of "slot b i + 0"] assms(2) [of "slot b i + 1"] assms(2) [of "slot b i + 2"]
    assms(2) [of "slot b i + 3"]
    slot_bytes [OF assms(1), of 0 b] slot_bytes [OF assms(1), of 1 b] slot_bytes [OF assms(1), of 2 b]
    slot_bytes [OF assms(1), of 3 b]
  by (simp add: load32_def)

lemma same_outside_walk:
  assumes "walk_free m b" and "same_outside b m m'"
  shows "i < 1024 \<Longrightarrow> dir_entry m' i = dir_entry m i"
    and "i < 1024 \<Longrightarrow> j < 1024 \<Longrightarrow> present (dir_entry m i) \<Longrightarrow> tbl_entry m' i j = tbl_entry m i j"
    and "translate m' a = translate m a"
proof -
  show d: "dir_entry m' i = dir_entry m i" if "i < 1024" for i
    using assms that unfolding dir_entry_def same_outside_def walk_free_def
    by (auto intro!: load32_slot_cong)
  show t: "tbl_entry m' i j = tbl_entry m i j" if "i < 1024" "j < 1024" "present (dir_entry m i)" for i j
    using assms that d unfolding tbl_entry_def same_outside_def walk_free_def
    by (auto intro!: load32_slot_cong)
  have "paging_on m' = paging_on m" using assms(2) by (simp add: same_outside_def paging_on_def)
  with d [of "PG_DIR_IDX a"] t [of "PG_DIR_IDX a" "PG_TBL_IDX a"]
  show "translate m' a = translate m a" by (simp add: translate_def)
qed

end
