(* ===== verification/Paging.thy ===== *)
theory Paging
  imports Mmu
begin

unbundle bit_operations_syntax

text \<open>
  \<^verbatim>\<open>src/common/paging.c\<close>, the part that edits page tables: entries, insertion of tables and pages, lookup,
  and the construction of the boot address space. A directory or table pointer of the code is a
  virtual address, and every access through it is a load or store of the machine. The code that
  also needs the heap (\<^verbatim>\<open>map_phys_obj\<close>, address spaces of tasks) is in \<^verbatim>\<open>Address_Space.thy\<close>.
\<close>

section \<open>Entries\<close>

definition PAGING_BIT_PRESENT :: u32 where "PAGING_BIT_PRESENT = 1"
definition PAGING_BIT_WRITEABLE :: u32 where "PAGING_BIT_WRITEABLE = 2"
definition PAGING_BIT_USER :: u32 where "PAGING_BIT_USER = 4"
definition CR0_FLAGS :: u32 where "CR0_FLAGS = 0x80000001"

definition set_present :: "u32 \<Rightarrow> bool \<Rightarrow> u32" where
  "set_present entry pres =
     (if pres then entry OR PAGING_BIT_PRESENT else entry AND NOT PAGING_BIT_PRESENT)"

definition set_writeable :: "u32 \<Rightarrow> bool \<Rightarrow> u32" where
  "set_writeable entry writeable =
     (if writeable then entry OR PAGING_BIT_WRITEABLE else entry AND NOT PAGING_BIT_WRITEABLE)"

definition set_addr :: "u32 \<Rightarrow> addr \<Rightarrow> u32" where
  "set_addr entry a = (entry AND NOT ADDR_MASK) OR (a AND ADDR_MASK)"

definition set_user :: "u32 \<Rightarrow> bool \<Rightarrow> u32" where
  "set_user entry user = (if user then entry OR PAGING_BIT_USER else entry AND NOT PAGING_BIT_USER)"

definition create_paging_entry :: "addr \<Rightarrow> bool \<Rightarrow> bool \<Rightarrow> bool \<Rightarrow> u32" where
  "create_paging_entry a pres writeable user =
     set_user (set_writeable (set_present (set_addr 0 a) pres) writeable) user"

definition is_present :: "u32 \<Rightarrow> bool" where
  "is_present structure \<longleftrightarrow> structure AND PAGING_BIT_PRESENT \<noteq> 0"

section \<open>Tables and pages\<close>

definition check_table_structure :: "machine \<Rightarrow> addr \<Rightarrow> addr \<Rightarrow> bool result" where
  "check_table_structure m directory a =
     rbind (vload32 m (directory + 4 * PG_DIR_IDX a)) (\<lambda>e. Inr (is_present e))"

text \<open>The loop that clears the words of a new table (or directory), \<^verbatim>\<open>PAGE_SIZE / sizeof(uint32_t)\<close> = 1024.\<close>

function zero_table :: "machine \<Rightarrow> addr \<Rightarrow> u32 \<Rightarrow> machine result" where
  "zero_table m table i =
     (if i < 1024 then rbind (vstore32 m (table + 4 * i) 0) (\<lambda>m'. zero_table m' table (i + 1)) else Inr m)"
  by pat_completeness auto
termination
proof (relation "measure (\<lambda>(m, t, i). 1024 - unat i)", goal_cases)
  case (2 m t i m')
  then show ?case using word_loop_measure [of i 1024] by simp
qed simp

definition check_or_insert_table_structure ::
  "machine \<Rightarrow> addr \<Rightarrow> addr \<Rightarrow> bool \<Rightarrow> (u32 \<times> machine) result" where
  "check_or_insert_table_structure m directory a user =
     (let index = PG_DIR_IDX a in
      rbind (vload32 m (directory + 4 * index)) (\<lambda>e.
      if is_present e then Inr (index, m)
      else rbind (kpage_alloc (m_frames m)) (\<lambda>(table, f).
           rbind (zero_table (m\<lparr>m_frames := f\<rparr>) table 0) (\<lambda>m.
           rbind (vstore32 m (directory + 4 * index) (create_paging_entry table True True user)) (\<lambda>m.
           Inr (index, m))))))"

definition check_page_structure :: "machine \<Rightarrow> addr \<Rightarrow> addr \<Rightarrow> bool result" where
  "check_page_structure m table a =
     rbind (vload32 m (table + 4 * PG_TBL_IDX a)) (\<lambda>e. Inr (is_present e))"

definition modify_or_insert_page_structure ::
  "machine \<Rightarrow> addr \<Rightarrow> addr \<Rightarrow> addr \<Rightarrow> bool \<Rightarrow> (bool \<times> machine) result" where
  "modify_or_insert_page_structure m table vaddr paddr user =
     (let index = PG_TBL_IDX vaddr in
      rbind (vload32 m (table + 4 * index)) (\<lambda>e.
      if is_present e
      then rbind (vstore32 m (table + 4 * index) (set_addr e paddr)) (\<lambda>m. Inr (True, m))
      else rbind (vstore32 m (table + 4 * index) (create_paging_entry paddr True True user)) (\<lambda>m.
           Inr (False, m))))"

definition map_page_inactive :: "machine \<Rightarrow> addr \<Rightarrow> addr \<Rightarrow> addr \<Rightarrow> machine result" where
  "map_page_inactive m directory vaddr paddr =
     rbind (check_or_insert_table_structure m directory vaddr True) (\<lambda>(index, m).
     rbind (vload32 m (directory + 4 * index)) (\<lambda>e.
     rbind (modify_or_insert_page_structure m (e AND ADDR_MASK) vaddr paddr False) (\<lambda>(_, m).
     Inr m)))"

definition map_page :: "machine \<Rightarrow> addr \<Rightarrow> addr \<Rightarrow> machine result" where
  "map_page m vaddr paddr =
     rbind (check_or_insert_table_structure m LOOPBACK_DIR vaddr True) (\<lambda>(index, m).
     rbind (modify_or_insert_page_structure m (LOOPBACK_TBL index) vaddr paddr True) (\<lambda>(_, m).
     Inr m))"

definition unmap_page :: "machine \<Rightarrow> addr \<Rightarrow> machine result" where
  "unmap_page m vaddr =
     (let directory_idx = PG_DIR_IDX vaddr in
      rbind (vload32 m (LOOPBACK_DIR + 4 * directory_idx)) (\<lambda>e.
      if \<not> is_present e then Inr m
      else vstore32 m (LOOPBACK_TBL directory_idx + 4 * PG_TBL_IDX vaddr) 0))"

function map_page_range_loop :: "machine \<Rightarrow> addr \<Rightarrow> addr \<Rightarrow> addr \<Rightarrow> u32 \<Rightarrow> u32 \<Rightarrow> machine result" where
  "map_page_range_loop m directory vaddr paddr pages i =
     (if i < pages
      then rbind (map_page_inactive m directory (vaddr + i * PAGE_SIZE) (paddr + i * PAGE_SIZE)) (\<lambda>m'.
           map_page_range_loop m' directory vaddr paddr pages (i + 1))
      else Inr m)"
  by pat_completeness auto
termination
  by (relation "measure (\<lambda>(m, d, v, p, n, i). unat n - unat i)") (auto intro: word_loop_measure)

definition map_page_range_inactive :: "machine \<Rightarrow> addr \<Rightarrow> addr \<Rightarrow> addr \<Rightarrow> u32 \<Rightarrow> machine result" where
  "map_page_range_inactive m directory vaddr paddr pages = map_page_range_loop m directory vaddr paddr pages 0"

definition get_page_entry :: "machine \<Rightarrow> addr \<Rightarrow> u32 result" where
  "get_page_entry m vaddr = vload32 m (LOOPBACK_TBL (PG_DIR_IDX vaddr) + 4 * PG_TBL_IDX vaddr)"

definition get_page_mapping :: "machine \<Rightarrow> addr \<Rightarrow> addr result" where
  "get_page_mapping m vaddr =
     rbind (vload32 m (LOOPBACK_DIR + 4 * PG_DIR_IDX vaddr)) (\<lambda>d.
     if \<not> is_present d then Inr 0
     else rbind (get_page_entry m vaddr) (\<lambda>entry.
          if \<not> is_present entry then Inr 0 else Inr (entry AND ADDR_MASK)))"

definition check_user :: "machine \<Rightarrow> addr \<Rightarrow> bool result" where
  "check_user m vaddr =
     rbind (get_page_entry m vaddr) (\<lambda>entry.
     Inr (is_present entry \<and> entry AND PAGING_BIT_USER \<noteq> 0))"

definition enable_paging :: "machine \<Rightarrow> addr \<Rightarrow> machine" where
  "enable_paging m directory = m\<lparr>cr3 := directory, cr0 := cr0 m OR CR0_FLAGS\<rparr>"

text \<open>A chain of \<^verbatim>\<open>struct scroll\<close>: mapped ranges with their physical backing (\<^verbatim>\<open>include/muse/scroll.h\<close>).\<close>

datatype scroll_type = SCROLL_FAILED | SCROLL_UNBACKED | SCROLL_ALIGNED

record scroll =
  scr_vaddr :: addr
  scr_size :: u32
  scr_type :: scroll_type
  scr_page :: addr

fun map_scrolls :: "machine \<Rightarrow> addr \<Rightarrow> scroll list \<Rightarrow> machine result" where
  "map_scrolls m directory [] = Inr m"
| "map_scrolls m directory (scr # scrs) =
     rbind (map_page_range_inactive m directory (scr_vaddr scr) (scr_page scr) (scr_size scr div PAGE_SIZE)) (\<lambda>m'.
     map_scrolls m' directory scrs)"

definition init_paging :: "machine \<Rightarrow> scroll list \<Rightarrow> (addr \<times> machine) result" where
  "init_paging m scrolls =
     rbind (kpage_alloc (m_frames m)) (\<lambda>(directory, f).
     rbind (zero_table (m\<lparr>m_frames := f\<rparr>) directory 0) (\<lambda>m.
     rbind (map_scrolls m directory scrolls) (\<lambda>m.
     rbind (vstore32 m (directory + 4 * 1023) (create_paging_entry directory True True True)) (\<lambda>m.
     Inr (directory, enable_paging m directory)))))"

text \<open>\<^verbatim>\<open>process_page_fault\<close> logs and stops the machine.\<close>

definition process_page_fault :: "machine result" where
  "process_page_fault = Inl Halted"

declare zero_table.simps [simp del] map_page_range_loop.simps [simp del]

section \<open>Entries: what the setters do\<close>

lemma is_present_bit [simp]: "is_present e \<longleftrightarrow> present e"
  by (simp add: is_present_def PAGING_BIT_PRESENT_def and_one_eq odd_iff_mod_2_eq_one bit_0)

lemma page_of_OR: "page_of (a OR b) = page_of a OR page_of b"
  by (simp add: bit.conj_disj_distrib2)

lemma set_addr_page [simp]: "page_of (set_addr e a) = page_of a"
  by (simp add: set_addr_def page_of_OR and.assoc)

lemma set_addr_present [simp]: "present (set_addr e a) = present e"
  by (simp add: set_addr_def ADDR_MASK_def bit_simps)

lemma flag_page:
  assumes "f AND ADDR_MASK = 0"
  shows "page_of (e OR f) = page_of e" and "page_of (e AND NOT f) = page_of e"
proof -
  show "page_of (e OR f) = page_of e" using assms by (simp add: page_of_OR)
  have "NOT f AND ADDR_MASK = ADDR_MASK"
  proof (rule bit_word_eqI)
    fix n assume "n < LENGTH(32)"
    moreover have "\<not> bit (f AND ADDR_MASK) n" using assms by simp
    ultimately show "bit (NOT f AND ADDR_MASK) n = bit ADDR_MASK n" by (auto simp: bit_simps)
  qed
  then show "page_of (e AND NOT f) = page_of e" by (simp add: and.assoc)
qed

lemma flags_low:
  "PAGING_BIT_PRESENT AND ADDR_MASK = 0" "PAGING_BIT_WRITEABLE AND ADDR_MASK = 0"
  "PAGING_BIT_USER AND ADDR_MASK = 0"
  by (simp_all add: PAGING_BIT_PRESENT_def PAGING_BIT_WRITEABLE_def PAGING_BIT_USER_def ADDR_MASK_def)

lemma create_entry_page [simp]: "page_of (create_paging_entry a p w u) = page_of a"
  by (simp add: create_paging_entry_def set_user_def set_writeable_def set_present_def flag_page flags_low)

lemma create_entry_bits [simp]:
  "present (create_paging_entry a p w u) = p"
  "bit (create_paging_entry a p w u) 1 = w"
  "bit (create_paging_entry a p w u) 2 = u"
  by (simp_all add: create_paging_entry_def set_user_def set_writeable_def set_present_def set_addr_def
        PAGING_BIT_PRESENT_def PAGING_BIT_WRITEABLE_def PAGING_BIT_USER_def ADDR_MASK_def bit_simps)

section \<open>Mapping through an existing table\<close>

text \<open>The entry \<^verbatim>\<open>modify_or_insert_page_structure\<close> stores over an old entry \<open>e\<close>.\<close>

definition new_entry :: "u32 \<Rightarrow> addr \<Rightarrow> bool \<Rightarrow> u32" where
  "new_entry e paddr user = (if present e then set_addr e paddr else create_paging_entry paddr True True user)"

lemma new_entry_bits [simp]: "present (new_entry e p u)" "page_of (new_entry e p u) = page_of p"
  by (auto simp: new_entry_def)

lemma modify_through_window:
  assumes "loopback m" and "i < 1024" and "present (dir_entry m i)"
  shows "modify_or_insert_page_structure m (LOOPBACK_TBL i) v p u =
    Inr (present (tbl_entry m i (PG_TBL_IDX v)),
         set_pte m i (PG_TBL_IDX v) (new_entry (tbl_entry m i (PG_TBL_IDX v)) p u))"
  using assms
  by (simp add: modify_or_insert_page_structure_def vload32_loopback_tbl vstore32_loopback_tbl
      new_entry_def set_pte_def Let_def)

lemma check_or_insert_present:
  "vload32 m (d + 4 * PG_DIR_IDX v) = Inr e \<Longrightarrow> present e \<Longrightarrow>
    check_or_insert_table_structure m d v u = Inr (PG_DIR_IDX v, m)"
  by (simp add: check_or_insert_table_structure_def)

lemma map_page_present:
  assumes "loopback m" and "present (dir_entry m (PG_DIR_IDX v))"
  shows "map_page m v p = Inr (set_pte m (PG_DIR_IDX v) (PG_TBL_IDX v)
    (new_entry (tbl_entry m (PG_DIR_IDX v) (PG_TBL_IDX v)) p True))"
  using assms check_or_insert_present [of m LOOPBACK_DIR v "dir_entry m (PG_DIR_IDX v)"]
  by (simp add: map_page_def modify_through_window)

lemma unmap_page_present:
  assumes "loopback m"
  shows "unmap_page m v = Inr (if present (dir_entry m (PG_DIR_IDX v))
    then set_pte m (PG_DIR_IDX v) (PG_TBL_IDX v) 0 else m)"
  using assms by (simp add: unmap_page_def vstore32_loopback_tbl set_pte_def)

section \<open>Inserting a table\<close>

lemma zero_table_step:
  "i < 1024 \<Longrightarrow> zero_table m t i = rbind (vstore32 m (t + 4 * i) 0) (\<lambda>m'. zero_table m' t (i + 1))"
  by (subst zero_table.simps) simp

lemma zero_table_done: "\<not> i < 1024 \<Longrightarrow> zero_table m t i = Inr m"
  by (subst zero_table.simps) simp

text \<open>
  Clearing a page that the walk does not read and that is visible at its physical address: the
  words from \<open>i\<close> on become 0, and nothing outside the page changes.
\<close>

definition identity_mapped :: "machine \<Rightarrow> addr \<Rightarrow> bool" where
  "identity_mapped m t \<longleftrightarrow> page_of t = t \<and> (\<forall>k < 1024. translate m (slot t k) = Some (slot t k))"

lemma same_outside_trans: "same_outside b m m' \<Longrightarrow> same_outside b m' m'' \<Longrightarrow> same_outside b m m''"
  by (simp add: same_outside_def)

lemma same_outside_store:
  "i < 1024 \<Longrightarrow> same_outside b m (m\<lparr>pmem := store32 (pmem m) (slot b i) w\<rparr>)"
proof -
  assume i: "i < 1024"
  have "store32 (pmem m) (slot b i) w a = pmem m a" if "page_of a \<noteq> page_of b" for a
  proof -
    have "a \<noteq> slot b i + d" if "unat d < 4" for d
      using slot_bytes [OF i that, of b] \<open>page_of a \<noteq> page_of b\<close> by auto
    from this [of 0] this [of 1] this [of 2] this [of 3] show ?thesis by (simp add: store32_def)
  qed
  then show ?thesis by (simp add: same_outside_def)
qed

lemma walk_free_same: "walk_free m b \<Longrightarrow> same_outside b m m' \<Longrightarrow> walk_free m' b"
  using same_outside_walk(1) [of m b m'] by (simp add: walk_free_def same_outside_def)

lemma zero_table_result:
  assumes "identity_mapped m t" and "walk_free m t" and "i \<le> 1024"
  shows "\<exists>m'. zero_table m t i = Inr m' \<and> same_outside t m m' \<and>
    (\<forall>k < 1024. load32 (pmem m') (slot t k) = (if i \<le> k then 0 else load32 (pmem m) (slot t k)))"
  using assms
proof (induction m t i rule: zero_table.induct)
  case (1 m t i)
  show ?case
  proof (cases "i < 1024")
    case False
    then have "i = 1024" using "1.prems"(3) by simp
    then show ?thesis by (auto simp: zero_table_done same_outside_def)
  next
    case True
    let ?m = "m\<lparr>pmem := store32 (pmem m) (slot t i) 0\<rparr>"
    have t: "t + 4 * i = slot t i" using "1.prems"(1) by (simp add: identity_mapped_def slot_def)
    have st: "vstore32 m (t + 4 * i) 0 = Inr ?m"
      using "1.prems"(1) True by (simp add: t vstore32_def identity_mapped_def slot_parts word_offset)
    have so: "same_outside t m ?m" using True by (rule same_outside_store)
    have id: "identity_mapped ?m t"
      using "1.prems"(1) same_outside_walk(3) [OF "1.prems"(2) so] by (simp add: identity_mapped_def)
    have le: "i + 1 \<le> 1024" using True by (simp add: inc_le)
    from "1.IH" [OF True st id walk_free_same [OF "1.prems"(2) so] le]
    obtain m' where m': "zero_table ?m t (i + 1) = Inr m'" "same_outside t ?m m'"
      "\<forall>k < 1024. load32 (pmem m') (slot t k) = (if i + 1 \<le> k then 0 else load32 (pmem ?m) (slot t k))"
      by blast
    have "load32 (pmem m') (slot t k) = (if i \<le> k then 0 else load32 (pmem m) (slot t k))" if k: "k < 1024" for k
    proof (cases "k = i")
      case True
      then show ?thesis using m'(3) k \<open>i < 1024\<close> by (simp add: word_le_nat_alt word_less_succ_unat)
    next
      case False
      then have "i + 1 \<le> k \<longleftrightarrow> i \<le> k"
        using \<open>i < 1024\<close> by (auto simp: word_le_nat_alt word_less_succ_unat word_unat_eq_iff)
      then show ?thesis using m'(3) k False slot_apart [OF True k, of t t] by simp
    qed
    then show ?thesis
      using m' st so same_outside_trans by (auto simp: zero_table_step [OF True])
  qed
qed

text \<open>The machine after a new, empty table at \<open>t\<close> has been entered in the directory.\<close>

lemma insert_table_walk:
  assumes m': "same_outside t m m'" and zero: "\<forall>k < 1024. load32 (pmem m') (slot t k) = 0"
    and free: "walk_free m t" and i: "i < 1024" and absent: "\<not> present (dir_entry m i)"
    and e: "page_of e = page_of t" "present e"
    and m'': "m'' = m'\<lparr>pmem := store32 (pmem m') (slot (cr3 m) i) e\<rparr>"
  shows "k < 1024 \<Longrightarrow> dir_entry m'' k = (if k = i then e else dir_entry m k)"
    and "k < 1024 \<Longrightarrow> l < 1024 \<Longrightarrow> present (dir_entry m k) \<Longrightarrow>
      page_of (dir_entry m k) \<noteq> page_of (cr3 m) \<Longrightarrow> tbl_entry m'' k l = tbl_entry m k l"
    and "l < 1024 \<Longrightarrow> tbl_entry m'' i l = 0"
proof -
  have c: "cr3 m' = cr3 m" "cr3 m'' = cr3 m" using m' m'' by (simp_all add: same_outside_def)
  have t: "page_of (cr3 m) \<noteq> page_of t" using free by (simp add: walk_free_def)
  note old = same_outside_walk [OF free m']
  show d: "dir_entry m'' k = (if k = i then e else dir_entry m k)" if k: "k < 1024" for k
  proof (cases "k = i")
    case False
    then have "dir_entry m'' k = dir_entry m' k"
      using slot_apart [OF i k, of "cr3 m" "cr3 m"] by (simp add: m'' c dir_entry_def)
    then show ?thesis using False old(1) [OF k] by simp
  qed (simp add: m'' c dir_entry_def)
  show "tbl_entry m'' k l = tbl_entry m k l"
    if k: "k < 1024" "l < 1024" "present (dir_entry m k)" "page_of (dir_entry m k) \<noteq> page_of (cr3 m)" for k l
  proof -
    have "k \<noteq> i" using k absent by auto
    then have "tbl_entry m'' k l = load32 (pmem m'') (slot (dir_entry m k) l)"
      using d [OF k(1)] by (simp add: tbl_entry_def)
    also have "\<dots> = load32 (pmem m') (slot (dir_entry m k) l)"
      using slot_apart [OF i k(2), of "cr3 m" "dir_entry m k"] k(4) by (simp add: m'')
    also have "\<dots> = tbl_entry m k l" using old(2) [OF k(1-3)] old(1) [OF k(1)] by (simp add: tbl_entry_def)
    finally show ?thesis .
  qed
  show "tbl_entry m'' i l = 0" if l: "l < 1024"
  proof -
    have "slot e l = slot t l" using e(1) by (metis slot_page)
    then have "tbl_entry m'' i l = load32 (pmem m'') (slot t l)" using d [OF i] by (simp add: tbl_entry_def)
    also have "\<dots> = load32 (pmem m') (slot t l)"
      using slot_apart [OF i l, of "cr3 m" t] t by (simp add: m'')
    finally show ?thesis using zero l by simp
  qed
qed

lemma machine_frames_update [simp]:
  "dir_entry (m\<lparr>m_frames := f\<rparr>) = dir_entry m" "tbl_entry (m\<lparr>m_frames := f\<rparr>) = tbl_entry m"
  "translate (m\<lparr>m_frames := f\<rparr>) = translate m" "paging_on (m\<lparr>m_frames := f\<rparr>) = paging_on m"
  "walk_free (m\<lparr>m_frames := f\<rparr>) = walk_free m" "identity_mapped (m\<lparr>m_frames := f\<rparr>) = identity_mapped m"
  "loopback (m\<lparr>m_frames := f\<rparr>) = loopback m" "tables_ok (m\<lparr>m_frames := f\<rparr>) = tables_ok m"
  by (simp_all add: fun_eq_iff dir_entry_def tbl_entry_def translate_def paging_on_def walk_free_def
      identity_mapped_def loopback_def tables_ok_def tables_apart_def)

text \<open>A table can be inserted for \<open>v\<close>: the allocator has a frame, the walk does not use it, and it is visible.\<close>

definition table_available :: "machine \<Rightarrow> addr \<Rightarrow> frames \<Rightarrow> bool" where
  "table_available m t f \<longleftrightarrow> kpage_alloc (m_frames m) = Inr (t, f) \<and> walk_free m t \<and> identity_mapped m t"

lemma insert_table_ok:
  assumes "tables_ok m" and "i < 1023" and "\<not> present (dir_entry m i)" and "walk_free m t"
    and "same_outside t m m'" and "\<forall>k < 1024. load32 (pmem m') (slot t k) = 0"
    and e: "page_of e = page_of t" "present e"
    and m'': "m'' = m'\<lparr>pmem := store32 (pmem m') (slot (cr3 m) i) e\<rparr>"
  shows "tables_ok m''" and "PG_DIR_IDX a < 1023 \<Longrightarrow> translate m'' a = translate m a"
    and "k < 1024 \<Longrightarrow> dir_entry m'' k = (if k = i then e else dir_entry m k)"
proof -
  have i: "i < 1024" "i \<noteq> 1023" using assms(2) dir_index_bound by auto
  note walk = insert_table_walk [OF assms(5,6,4) i(1) assms(3) e m'']
  show d: "dir_entry m'' k = (if k = i then e else dir_entry m k)" if "k < 1024" for k
    using walk(1) that .
  have same: "paging_on m'' = paging_on m" "cr3 m'' = cr3 m"
    using assms(5) by (simp_all add: m'' paging_on_def same_outside_def)
  have "tables_apart m''"
    using assms(1,4) e unfolding tables_ok_def tables_apart_def walk_free_def by (auto simp: d)
  then show "tables_ok m''"
    using assms(1) i same by (simp add: tables_ok_def loopback_def d)
  show "translate m'' a = translate m a" if a: "PG_DIR_IDX a < 1023"
  proof (cases "PG_DIR_IDX a = i")
    case True
    then show ?thesis using walk(3) assms(3) same tables_paging [OF assms(1)] by (simp add: translate_def d e)
  next
    case False
    then show ?thesis
      using walk(2) table_not_dir [OF assms(1) a] same tables_paging [OF assms(1)]
      by (auto simp: translate_def d)
  qed
qed

lemma check_or_insert_new:
  assumes ok: "tables_ok m" and v: "PG_DIR_IDX v < 1023" and absent: "\<not> present (dir_entry m (PG_DIR_IDX v))"
    and t: "table_available m t f"
  shows "\<exists>m'. check_or_insert_table_structure m LOOPBACK_DIR v True = Inr (PG_DIR_IDX v, m') \<and>
    tables_ok m' \<and> m_frames m' = f \<and> present (dir_entry m' (PG_DIR_IDX v)) \<and>
    (\<forall>a. PG_DIR_IDX a < 1023 \<longrightarrow> translate m' a = translate m a)"
proof -
  let ?m = "m\<lparr>m_frames := f\<rparr>" and ?i = "PG_DIR_IDX v"
  let ?e = "create_paging_entry t True True True"
  have lb: "loopback m" using ok by (simp add: tables_ok_def)
  have t': "kpage_alloc (m_frames m) = Inr (t, f)" "walk_free ?m t" "identity_mapped ?m t"
    using t by (simp_all add: table_available_def)
  obtain m1 where m1: "zero_table ?m t 0 = Inr m1" "same_outside t ?m m1"
    "\<forall>k < 1024. load32 (pmem m1) (slot t k) = 0"
    using zero_table_result [OF t'(3,2), of 0] by auto
  have ok1: "tables_ok ?m" "\<not> present (dir_entry ?m ?i)" using ok absent by simp_all
  define m2 where "m2 = m1\<lparr>pmem := store32 (pmem m1) (slot (cr3 ?m) ?i) ?e\<rparr>"
  note ins = insert_table_ok [OF ok1(1) v ok1(2) t'(2) m1(2,3) _ _ m2_def]
  have lb1: "loopback m1"
    using same_outside_walk(1) [OF t'(2) m1(2)] m1(2) lb
    by (simp add: loopback_def same_outside_def paging_on_def)
  have c: "cr3 m1 = cr3 m" using m1(2) by (simp add: same_outside_def)
  have "check_or_insert_table_structure m LOOPBACK_DIR v True = Inr (?i, m2)"
    using t'(1) m1(1) lb1 lb absent by (simp add: check_or_insert_table_structure_def Let_def m2_def c)
  moreover have "m_frames m2 = f" using m1(2) by (simp add: m2_def same_outside_def)
  ultimately show ?thesis using ins(1,2) ins(3) [of ?i] by auto
qed

section \<open>Interface: an address space\<close>

text \<open>
  What the rest of the kernel uses of paging: a map from virtual to physical addresses that is
  changed page by page. \<open>mappable s v\<close> says that the table for \<open>v\<close> exists.
\<close>

fun map_all :: "('s \<Rightarrow> addr \<Rightarrow> addr \<Rightarrow> 's result) \<Rightarrow> (addr \<times> addr) list \<Rightarrow> 's \<Rightarrow> 's result" where
  "map_all mp [] s = Inr s"
| "map_all mp ((v, p) # vps) s = rbind (mp s v p) (map_all mp vps)"

locale address_space =
  fixes mp :: "'s \<Rightarrow> addr \<Rightarrow> addr \<Rightarrow> 's result" and ump :: "'s \<Rightarrow> addr \<Rightarrow> 's result"
    and lookup :: "'s \<Rightarrow> addr \<Rightarrow> addr option" and inv :: "'s \<Rightarrow> bool" and mappable :: "'s \<Rightarrow> addr \<Rightarrow> bool"
  assumes map_law: "inv s \<Longrightarrow> mappable s v \<Longrightarrow> \<exists>s'. mp s v p = Inr s' \<and> inv s' \<and> mappable s' = mappable s \<and>
      lookup s' = (\<lambda>a. if page_of a = page_of v then Some (page_of p + offset_of a) else lookup s a)"
    and unmap_law: "inv s \<Longrightarrow> mappable s v \<Longrightarrow> \<exists>s'. ump s v = Inr s' \<and> inv s' \<and> mappable s' = mappable s \<and>
      lookup s' = (\<lambda>a. if page_of a = page_of v then None else lookup s a)"
begin

lemma map_then_unmap:
  assumes "inv s" and "mappable s v" and "\<And>a. page_of a = page_of v \<Longrightarrow> lookup s a = None"
  shows "\<exists>s' s''. mp s v p = Inr s' \<and> ump s' v = Inr s'' \<and> lookup s'' = lookup s"
proof -
  from map_law [OF assms(1,2)] obtain s' where s': "mp s v p = Inr s'" "inv s'" "mappable s' = mappable s"
    "lookup s' = (\<lambda>a. if page_of a = page_of v then Some (page_of p + offset_of a) else lookup s a)" by blast
  with unmap_law [of s' v] assms(2) obtain s'' where "ump s' v = Inr s''"
    "lookup s'' = (\<lambda>a. if page_of a = page_of v then None else lookup s' a)" by auto
  with s' assms(3) show ?thesis by (auto simp: fun_eq_iff)
qed

lemma map_all_lookup:
  "inv s \<Longrightarrow> \<forall>(v, p) \<in> set vps. mappable s v \<Longrightarrow>
    \<exists>s'. map_all mp vps s = Inr s' \<and> inv s' \<and> mappable s' = mappable s \<and>
      lookup s' = (\<lambda>a. case find (\<lambda>(v, p). page_of a = page_of v) (rev vps) of
        Some (v, p) \<Rightarrow> Some (page_of p + offset_of a) | None \<Rightarrow> lookup s a)"
proof (induction vps arbitrary: s)
  case Nil
  then show ?case by simp
next
  case (Cons vp vps)
  obtain v p where vp: "vp = (v, p)" by (cases vp)
  from Cons.prems have "mappable s v" by (simp add: vp)
  with map_law [OF Cons.prems(1)] obtain s' where s': "mp s v p = Inr s'" "inv s'" "mappable s' = mappable s"
    "lookup s' = (\<lambda>a. if page_of a = page_of v then Some (page_of p + offset_of a) else lookup s a)" by blast
  have "\<forall>(v, p) \<in> set vps. mappable s' v" using Cons.prems s'(3) by auto
  from Cons.IH [OF s'(2) this] obtain t where t: "map_all mp vps s' = Inr t" "inv t" "mappable t = mappable s'"
    "lookup t = (\<lambda>a. case find (\<lambda>(v, p). page_of a = page_of v) (rev vps) of
      Some (v, p) \<Rightarrow> Some (page_of p + offset_of a) | None \<Rightarrow> lookup s' a)" by blast
  have "lookup t a = (case find (\<lambda>(v, p). page_of a = page_of v) (rev (vp # vps)) of
      Some (v, p) \<Rightarrow> Some (page_of p + offset_of a) | None \<Rightarrow> lookup s a)" for a
    by (cases "find (\<lambda>(v, p). page_of a = page_of v) (rev vps)")
      (auto simp: t(4) s'(4) vp find_append_case)
  with t s' show ?case by (auto simp: vp)
qed

end

definition mappable :: "machine \<Rightarrow> addr \<Rightarrow> bool" where
  "mappable m v \<longleftrightarrow> PG_DIR_IDX v < 1023 \<and> present (dir_entry m (PG_DIR_IDX v))"

lemma mappable_slot: "tables_ok m \<Longrightarrow> mappable m v \<Longrightarrow> pte_slot m (PG_DIR_IDX v) (PG_TBL_IDX v)"
  by (auto simp: mappable_def intro: pte_slotI)

lemma set_pte_mappable:
  "pte_slot m i j \<Longrightarrow> mappable (set_pte m i j w) = mappable m"
  using set_pte_dir by (simp add: fun_eq_iff mappable_def)

interpretation kspace: address_space map_page unmap_page translate tables_ok mappable
proof (unfold_locales, goal_cases)
  case (1 m v p)
  note slot = mappable_slot [OF 1] and on = tables_paging [OF 1(1)]
  from 1 have "map_page m v p = Inr (set_pte m (PG_DIR_IDX v) (PG_TBL_IDX v)
      (new_entry (tbl_entry m (PG_DIR_IDX v) (PG_TBL_IDX v)) p True))"
    by (intro map_page_present) (auto simp: tables_ok_def mappable_def)
  then show ?case
    using set_pte_ok [OF slot 1(1)] set_pte_mappable [OF slot] translate_set_pte [OF slot on] by auto
next
  case (2 m v)
  note slot = mappable_slot [OF 2] and on = tables_paging [OF 2(1)]
  from 2 have "unmap_page m v = Inr (set_pte m (PG_DIR_IDX v) (PG_TBL_IDX v) 0)"
    using unmap_page_present [of m v] by (auto simp: tables_ok_def mappable_def)
  then show ?case
    using set_pte_ok [OF slot 2(1)] set_pte_mappable [OF slot] translate_set_pte [OF slot on] by auto
qed

section \<open>Lookup\<close>

lemma page_of_join [simp]: "page_of (page_of e + offset_of v) = page_of e"
proof -
  have "unat (page_of e + offset_of v) = 4096 * (unat e div 4096) + unat v mod 4096"
    using less_mult_imp_div_less [of "unat e" 1048576 4096]
    by (simp add: unat_add_u32 minus_mod_eq_mult_div)
  then show ?thesis by (simp add: page_eq_iff page_nat_parts)
qed

lemma get_page_mapping_translate:
  assumes "loopback m"
  shows "get_page_mapping m v = Inr (case translate m v of None \<Rightarrow> 0 | Some a \<Rightarrow> page_of a)"
  using assms by (simp add: get_page_mapping_def get_page_entry_def vload32_loopback_tbl translate_def
      loopback_def [of m] Let_def)

lemma check_user_lookup:
  assumes "loopback m"
  shows "check_user m v = (if present (dir_entry m (PG_DIR_IDX v))
      then let e = tbl_entry m (PG_DIR_IDX v) (PG_TBL_IDX v) in Inr (present e \<and> bit e 2)
      else Inl (PageFault (LOOPBACK_TBL (PG_DIR_IDX v) + 4 * PG_TBL_IDX v)))"
proof -
  have "e AND PAGING_BIT_USER \<noteq> 0 \<longleftrightarrow> bit e 2" for e
    using and_exp_eq_0_iff_not_bit [of e 2] by (simp add: PAGING_BIT_USER_def)
  then show ?thesis
    by (simp add: check_user_def get_page_entry_def vload32_loopback_tbl [OF assms] Let_def)
qed

section \<open>A small machine\<close>

text \<open>
  A directory at \<open>0x1000\<close> with the recursive entry and one table at \<open>0x2000\<close>, which maps the page
  \<open>0x100000\<close> to itself; that page is the first of eight free frames.
\<close>

definition small_machine :: machine where
  "small_machine = \<lparr>pmem = store32 (store32 (store32 (\<lambda>_. 0) (slot 0x1000 1023) 0x1003) (slot 0x1000 0) 0x2003)
     (slot 0x2000 256) 0x100003, cr0 = CR0_FLAGS, cr3 = 0x1000, m_frames = one_region 0\<rparr>"

lemma page_of_numerals [simp]:
  "page_of 0x1000 = 0x1000" "page_of 0x2000 = 0x2000" "page_of 0x1003 = 0x1000" "page_of 0x2003 = 0x2000"
  "page_of 0x100000 = 0x100000" "page_of 0x100003 = 0x100000"
  by (simp_all add: ADDR_MASK_def)

lemma load32_zero [simp]: "load32 (\<lambda>_. 0) a = 0"
  by (simp add: load32_def)

lemma small_dir:
  assumes "i < 1024"
  shows "dir_entry small_machine i = (if i = 0 then 0x2003 else if i = 1023 then 0x1003 else 0)"
proof -
  have "apart32 (slot 0x2000 256) (slot 0x1000 i)" by (rule slot_apart) (use assms in simp_all)
  moreover have "apart32 (slot 0x1000 0) (slot 0x1000 i)" if "i \<noteq> 0"
    by (rule slot_apart) (use assms that in auto)
  moreover have "apart32 (slot 0x1000 1023) (slot 0x1000 i)" if "i \<noteq> 1023"
    by (rule slot_apart) (use assms that in auto)
  ultimately show ?thesis
    by (cases "i = 0"; cases "i = 1023") (simp_all add: dir_entry_def small_machine_def)
qed

lemma small_tbl:
  assumes "j < 1024"
  shows "tbl_entry small_machine 0 j = (if j = 256 then 0x100003 else 0)"
proof -
  have e: "slot 0x2003 k = slot 0x2000 k" for k by (simp add: slot_def)
  have "apart32 (slot 0x1000 0) (slot 0x2000 j)" "apart32 (slot 0x1000 1023) (slot 0x2000 j)"
    by (rule slot_apart; use assms in simp)+
  moreover have "apart32 (slot 0x2000 256) (slot 0x2000 j)" if "j \<noteq> 256"
    by (rule slot_apart) (use assms that in auto)
  ultimately show ?thesis
    using small_dir [of 0] by (cases "j = 256") (simp_all add: tbl_entry_def small_machine_def e)
qed

lemma small_ok: "tables_ok small_machine" and small_cr3: "cr3 small_machine = 0x1000"
  by (auto simp: tables_ok_def loopback_def tables_apart_def small_dir paging_on_def)
    (simp_all add: small_machine_def CR0_FLAGS_def)

lemma small_available: "table_available small_machine 0x100000 (one_region 1)"
proof -
  have "kpage_alloc (one_region 0) = Inr (0x100000, one_region 1)" by code_simp
  moreover have "walk_free small_machine 0x100000"
    by (auto simp: walk_free_def small_dir small_cr3)
  moreover have "translate small_machine (slot 0x100000 k) = Some (slot 0x100000 k)" if k: "k < 1024" for k
  proof -
    have "page_of (slot 0x100000 k) = page_of 0x100000" using slot_parts(1) [OF k] .
    then have "PG_DIR_IDX (slot 0x100000 k) = 0" "PG_TBL_IDX (slot 0x100000 k) = 256"
      by (simp_all only: page_eq_indices) (simp_all add: PG_DIR_IDX_def PG_TBL_IDX_def TEN_BITS_def)
    then show ?thesis
      using tables_paging [OF small_ok] slot_parts(2) [OF k]
      by (simp add: translate_def small_dir small_tbl) (simp add: slot_def)
  qed
  ultimately show ?thesis
    by (simp add: table_available_def identity_mapped_def) (simp add: small_machine_def)
qed

section \<open>Correctness of mapping, unmapping and lookup\<close>

text \<open>
  C1: \<^verbatim>\<open>map_page\<close> below the window of the recursive mapping returns whenever the table exists or a new
  one can be allocated and cleared; afterwards every address of the page is translated to the
  physical page with the same offset, all other pages are translated as before, the paging
  structures are well-formed, and \<^verbatim>\<open>get_page_mapping\<close> returns the physical page.
\<close>
theorem map_page_correct:
  assumes "tables_ok m" and "PG_DIR_IDX v < 1023"
    and "present (dir_entry m (PG_DIR_IDX v)) \<or> table_available m t f"
  shows "\<exists>m'. map_page m v p = Inr m' \<and> tables_ok m' \<and> get_page_mapping m' v = Inr (page_of p) \<and>
    (\<forall>a. PG_DIR_IDX a < 1023 \<longrightarrow> translate m' a =
      (if page_of a = page_of v then Some (page_of p + offset_of a) else translate m a))"
proof -
  obtain m1 where m1: "check_or_insert_table_structure m LOOPBACK_DIR v True = Inr (PG_DIR_IDX v, m1)"
    "tables_ok m1" "mappable m1 v" "\<forall>a. PG_DIR_IDX a < 1023 \<longrightarrow> translate m1 a = translate m a"
  proof (cases "present (dir_entry m (PG_DIR_IDX v))")
    case True
    then have "check_or_insert_table_structure m LOOPBACK_DIR v True = Inr (PG_DIR_IDX v, m)"
      using assms(1) by (intro check_or_insert_present) (auto simp: tables_ok_def)
    with True assms that [of m] show ?thesis by (simp add: mappable_def)
  next
    case False
    with check_or_insert_new [OF assms(1,2) False] assms that show ?thesis by (auto simp: mappable_def)
  qed
  have "check_or_insert_table_structure m1 LOOPBACK_DIR v True = Inr (PG_DIR_IDX v, m1)"
    using m1 by (intro check_or_insert_present) (auto simp: tables_ok_def mappable_def)
  then have "map_page m v p = map_page m1 v p" by (simp add: map_page_def m1(1))
  with kspace.map_law [OF m1(2,3), of p] m1(4) get_page_mapping_translate
  show ?thesis by (auto simp: tables_ok_def)
qed

theorem map_page_correct_witness:
  "\<exists>m'. map_page small_machine 0x400000 0x9000 = Inr m' \<and> translate m' 0x400123 = Some (0x9000 + 0x123)"
proof -
  have "PG_DIR_IDX 0x400000 < 1023" "PG_DIR_IDX 0x400123 < 1023" by (simp_all add: PG_DIR_IDX_def)
  with map_page_correct [OF small_ok _ disjI2 [OF small_available], of "0x400000" "0x9000"]
  obtain m' where "map_page small_machine 0x400000 0x9000 = Inr m'" "translate m' 0x400123 =
      (if page_of 0x400123 = page_of 0x400000 then Some (page_of 0x9000 + offset_of 0x400123)
       else translate small_machine 0x400123)" by blast
  then show ?thesis by (simp add: ADDR_MASK_def)
qed

text \<open>
  C32: \<^verbatim>\<open>unmap_page\<close> below the window always returns; no address of the page is translated any more,
  \<^verbatim>\<open>get_page_mapping\<close> returns 0 for it, and all other translations are as before. Mapping an unmapped
  page and unmapping it again restores every translation.
\<close>
theorem unmap_page_correct:
  assumes "tables_ok m" and "PG_DIR_IDX v < 1023"
  shows "\<exists>m'. unmap_page m v = Inr m' \<and> tables_ok m' \<and> get_page_mapping m' v = Inr 0 \<and>
    translate m' = (\<lambda>a. if page_of a = page_of v then None else translate m a) \<and>
    (mappable m v \<and> (\<forall>a. page_of a = page_of v \<longrightarrow> translate m a = None) \<longrightarrow>
      (\<exists>m1 m2. map_page m v p = Inr m1 \<and> unmap_page m1 v = Inr m2 \<and> translate m2 = translate m))"
proof (cases "mappable m v")
  case True
  with kspace.unmap_law [OF assms(1) True] kspace.map_then_unmap [OF assms(1) True, of p]
    get_page_mapping_translate
  show ?thesis by (auto simp: tables_ok_def)
next
  case False
  then have absent: "\<not> present (dir_entry m (PG_DIR_IDX v))" using assms(2) by (simp add: mappable_def)
  have "translate m a = None" if "page_of a = page_of v" for a
    using absent tables_paging [OF assms(1)] that by (simp add: translate_def page_eq_indices)
  then have "translate m = (\<lambda>a. if page_of a = page_of v then None else translate m a)" by auto
  moreover have "unmap_page m v = Inr m"
    using absent assms(1) by (simp add: unmap_page_present tables_ok_def)
  ultimately show ?thesis
    using assms(1) False get_page_mapping_translate [of m v] \<open>\<And>a. page_of a = page_of v \<Longrightarrow> translate m a = None\<close>
    by (simp add: tables_ok_def)
qed

theorem unmap_page_correct_witness:
  "\<exists>m'. unmap_page small_machine 0x100000 = Inr m' \<and> translate m' 0x100008 = None"
proof -
  have "PG_DIR_IDX 0x100000 < 1023" by (simp add: PG_DIR_IDX_def)
  from unmap_page_correct [OF small_ok this]
  obtain m' where "unmap_page small_machine 0x100000 = Inr m'"
    "translate m' = (\<lambda>a. if page_of a = page_of 0x100000 then None else translate small_machine a)" by blast
  then show ?thesis by (simp add: ADDR_MASK_def)
qed

text \<open>
  \<^verbatim>\<open>get_page_mapping\<close> agrees with the hardware's walk for every address; \<^verbatim>\<open>check_user\<close> tells whether
  the page is present with the user bit, but only if a table exists: without one it faults itself
  instead of answering no.
\<close>
theorem page_lookup_correct:
  assumes "loopback m"
  shows "get_page_mapping m v = Inr (case translate m v of None \<Rightarrow> 0 | Some a \<Rightarrow> page_of a) \<and>
    check_user m v = (if present (dir_entry m (PG_DIR_IDX v))
      then let e = tbl_entry m (PG_DIR_IDX v) (PG_TBL_IDX v) in Inr (present e \<and> bit e 2)
      else Inl (PageFault (LOOPBACK_TBL (PG_DIR_IDX v) + 4 * PG_TBL_IDX v)))"
  using get_page_mapping_translate [OF assms] check_user_lookup [OF assms] by simp

theorem page_lookup_correct_witness:
  "get_page_mapping small_machine 0x100123 = Inr 0x100000 \<and> check_user small_machine 0x100123 = Inr False \<and>
   (\<exists>a. check_user small_machine 0x400000 = Inl (PageFault a))"
proof -
  have "loopback small_machine" using small_ok by (simp add: tables_ok_def)
  from page_lookup_correct [OF this, of "0x100123"] page_lookup_correct [OF this, of "0x400000"]
    tables_paging [OF small_ok] show ?thesis
    by (simp add: translate_def PG_DIR_IDX_def PG_TBL_IDX_def TEN_BITS_def small_dir small_tbl ADDR_MASK_def
        bit_numeral_rec)
qed

text \<open>
  A new table is cleared through its physical address taken as a virtual one. If that page is
  not mapped, \<^verbatim>\<open>map_page\<close> for an address without a table ends in a page fault on the new frame.
\<close>
theorem map_page_new_table_faults:
  assumes "loopback m" and "\<not> present (dir_entry m (PG_DIR_IDX v))"
    and "kpage_alloc (m_frames m) = Inr (t, f)" and "translate m t = None" and "page_of t = t"
  shows "map_page m v p = Inl (PageFault t)"
proof -
  have "offset_of t = 0"
    using arg_cong [OF assms(5), of unat] mod_less_eq_dividend [of "unat t" 4096]
    by (simp add: word_unat_eq_iff [of "offset_of t"])
  then show ?thesis
    using assms
    by (simp add: map_page_def check_or_insert_table_structure_def Let_def zero_table_step vstore32_def)
qed

theorem map_page_new_table_faults_witness:
  "\<exists>m. map_page m 0x400000 0x9000 = Inl (PageFault 0x101000)"
proof -
  let ?m = "small_machine\<lparr>m_frames := one_region 1\<rparr>"
  have "loopback ?m" using small_ok by (simp add: tables_ok_def)
  moreover have "\<not> present (dir_entry ?m (PG_DIR_IDX 0x400000))" by (simp add: PG_DIR_IDX_def small_dir)
  moreover have "kpage_alloc (m_frames ?m) = Inr (0x101000, one_region 3)"
    by (simp add: kpage_alloc_one_region)
  moreover have "translate ?m 0x101000 = None"
    using tables_paging [OF small_ok]
    by (simp add: translate_def PG_DIR_IDX_def PG_TBL_IDX_def TEN_BITS_def small_dir small_tbl)
  moreover have "page_of 0x101000 = 0x101000" by (simp add: ADDR_MASK_def)
  ultimately have "map_page ?m 0x400000 0x9000 = Inl (PageFault 0x101000)"
    by (rule map_page_new_table_faults)
  then show ?thesis ..
qed

end
