(* ===== verification/Kheap.thy ===== *)
theory Kheap
  imports Paging
begin

unbundle bit_operations_syntax

text \<open>
  \<^verbatim>\<open>src/common/alloc.c\<close>: the kernel heap. Chunks live in virtual memory and are read and written through
  the machine; the heap descriptor \<^verbatim>\<open>struct heap\<close> is a record, its array of tiers a list (an index past
  its end is an access outside the object) and its page bitmap the list of the words at
  \<^verbatim>\<open>page_bitmap\<close>. A loop of the code that may never end is a partial function whose missing result is
  reported as \<open>Spins\<close>.
\<close>

section \<open>Heap descriptor and chunk layout\<close>

definition MIN_CHUNK_SIZE_LOG :: nat where "MIN_CHUNK_SIZE_LOG = 4"
definition MIN_CHUNK_SIZE :: u32 where "MIN_CHUNK_SIZE = push_bit MIN_CHUNK_SIZE_LOG 1"
definition TIER_CNT :: nat where "TIER_CNT = 25 - MIN_CHUNK_SIZE_LOG"
definition CHUNK_OVERHEAD :: u32 where "CHUNK_OVERHEAD = 8"
definition BIT_FREE :: u32 where "BIT_FREE = 1"
definition SIZE_MASK :: u32 where "SIZE_MASK = NOT BIT_FREE"

lemmas chunk_consts = MIN_CHUNK_SIZE_LOG_def MIN_CHUNK_SIZE_def TIER_CNT_def CHUNK_OVERHEAD_def
  BIT_FREE_def SIZE_MASK_def

text \<open>\<^verbatim>\<open>31 - __builtin_clz(x)\<close> is one less than the number of significant bits of \<open>x\<close>.\<close>

fun bit_length :: "nat \<Rightarrow> nat" where
  "bit_length n = (if n = 0 then 0 else Suc (bit_length (n div 2)))"

declare bit_length.simps [simp del]

definition TIER_IDX :: "u32 \<Rightarrow> u32" where
  "TIER_IDX x = of_nat (bit_length (unat x)) - 1 - of_nat MIN_CHUNK_SIZE_LOG"

record heap =
  hp_size :: u32
  hp_free :: u32
  hp_tiers :: "addr list"
  hp_limit :: addr
  hp_max_limit :: addr
  hp_page_bitmap :: "u32 list"
  hp_bitmap_cnt :: u32
  hp_aligned_start :: addr

record kernel =
  k_mach :: machine
  k_heap :: heap

text \<open>Fields of \<^verbatim>\<open>struct chunk\<close>.\<close>

definition ch_prev_size :: "addr \<Rightarrow> addr" where "ch_prev_size ch = ch"
definition ch_size :: "addr \<Rightarrow> addr" where "ch_size ch = ch + 4"
definition ch_next :: "addr \<Rightarrow> addr" where "ch_next ch = ch + 8"

lemmas chunk_fields = ch_prev_size_def ch_size_def ch_next_def

definition kload :: "kernel \<Rightarrow> addr \<Rightarrow> u32 result" where
  "kload k a = vload32 (k_mach k) a"

definition kstore :: "kernel \<Rightarrow> addr \<Rightarrow> u32 \<Rightarrow> kernel result" where
  "kstore k a w = rbind (vstore32 (k_mach k) a w) (\<lambda>m. Inr (k\<lparr>k_mach := m\<rparr>))"

definition tier_get :: "kernel \<Rightarrow> u32 \<Rightarrow> addr result" where
  "tier_get k i = (if unat i < length (hp_tiers (k_heap k)) then Inr (hp_tiers (k_heap k) ! unat i)
     else Inl OutOfBounds)"

definition tier_set :: "kernel \<Rightarrow> u32 \<Rightarrow> addr \<Rightarrow> kernel result" where
  "tier_set k i ch = (if unat i < length (hp_tiers (k_heap k))
     then Inr (k\<lparr>k_heap := (k_heap k)\<lparr>hp_tiers := (hp_tiers (k_heap k))[unat i := ch]\<rparr>\<rparr>)
     else Inl OutOfBounds)"

definition loop_result :: "'a result option \<Rightarrow> 'a result" where
  "loop_result r = (case r of None \<Rightarrow> Inl Spins | Some x \<Rightarrow> x)"

section \<open>Growing the heap\<close>

partial_function (option) sbrk_loop :: "kernel \<Rightarrow> addr \<Rightarrow> addr \<Rightarrow> kernel result option" where
  "sbrk_loop k v last_page =
     (if v \<le> last_page
      then case rbind (get_page_mapping (k_mach k) v) (\<lambda>pa.
                if pa = 0
                then rbind (kpage_alloc (m_frames (k_mach k))) (\<lambda>(frame, f).
                     rbind (map_page ((k_mach k)\<lparr>m_frames := f\<rparr>) v frame) (\<lambda>m.
                     Inr (k\<lparr>k_mach := m\<rparr>)))
                else Inr k) of
             Inl e \<Rightarrow> Some (Inl e)
           | Inr k' \<Rightarrow> sbrk_loop k' (v + PAGE_SIZE) last_page
      else Some (Inr k))"

definition heap_sbrk :: "kernel \<Rightarrow> u32 \<Rightarrow> (addr \<times> kernel) result" where
  "heap_sbrk k inc =
     (let prev_lim = hp_limit (k_heap k) in
      if prev_lim + inc > hp_max_limit (k_heap k) then Inl Halted
      else rbind (loop_result (sbrk_loop k (ALIGN_PG_DOWN prev_lim) (ALIGN_PG_DOWN (prev_lim + inc)))) (\<lambda>k.
           Inr (prev_lim, k\<lparr>k_heap := (k_heap k)\<lparr>hp_limit := hp_limit (k_heap k) + inc\<rparr>\<rparr>)))"

section \<open>Chunks\<close>

definition split_chunk :: "kernel \<Rightarrow> addr \<Rightarrow> u32 \<Rightarrow> kernel result" where
  "split_chunk k ch sz =
     rbind (kload k (ch_size ch)) (\<lambda>old.
     (let next_ch = ch + (old AND SIZE_MASK); new_ch = ch + sz + CHUNK_OVERHEAD;
          new_size = ((old AND SIZE_MASK) - sz - CHUNK_OVERHEAD) OR BIT_FREE;
          idx = TIER_IDX new_ch in
      rbind (kstore k (ch_size new_ch) new_size) (\<lambda>k.
      rbind (kstore k (ch_size ch) (sz + CHUNK_OVERHEAD)) (\<lambda>k.
      rbind (kload k (ch_size ch)) (\<lambda>cs.
      rbind (kstore k (ch_prev_size new_ch) cs) (\<lambda>k.
      rbind (kload k (ch_size new_ch)) (\<lambda>ns.
      rbind (kstore k (ch_prev_size next_ch) ns) (\<lambda>k.
      rbind (tier_get k idx) (\<lambda>head.
      rbind (kstore k (ch_next new_ch) head) (\<lambda>k.
      tier_set k idx new_ch))))))))))"

text \<open>The walk of \<^verbatim>\<open>kmalloc\<close> along a tier: the chunk that is large enough and its predecessor, 0 for none.\<close>

partial_function (option) find_chunk :: "kernel \<Rightarrow> u32 \<Rightarrow> addr \<Rightarrow> addr \<Rightarrow> (addr \<times> addr) result option" where
  "find_chunk k need prev ch =
     (if ch = 0 then Some (Inr (prev, 0))
      else case kload k (ch_size ch) of
             Inl e \<Rightarrow> Some (Inl e)
           | Inr s \<Rightarrow>
               if s AND SIZE_MASK < need
               then (case kload k (ch_next ch) of
                       Inl e \<Rightarrow> Some (Inl e)
                     | Inr nx \<Rightarrow> find_chunk k need ch nx)
               else Some (Inr (prev, ch)))"

definition chunk_size_for :: "u32 \<Rightarrow> u32" where
  "chunk_size_for sz =
     (if sz + CHUNK_OVERHEAD \<ge> MIN_CHUNK_SIZE then sz + CHUNK_OVERHEAD else MIN_CHUNK_SIZE)"

definition kmalloc :: "kernel \<Rightarrow> u32 \<Rightarrow> (addr \<times> kernel) result" where
  "kmalloc k sz =
     (let need = chunk_size_for sz; i = TIER_IDX need in
      rbind (tier_get k i) (\<lambda>head.
      rbind (loop_result (find_chunk k need 0 head)) (\<lambda>(prev, ch).
      if ch \<noteq> 0
      then rbind (kload k (ch_next ch)) (\<lambda>nx.
           rbind (if prev \<noteq> 0 then kstore k (ch_next prev) nx else tier_set k i nx) (\<lambda>k.
           rbind (kload k (ch_size ch)) (\<lambda>s.
           rbind (if s AND SIZE_MASK \<ge> need + MIN_CHUNK_SIZE + CHUNK_OVERHEAD then split_chunk k ch sz
                  else Inr k) (\<lambda>k.
           Inr (ch + CHUNK_OVERHEAD, k)))))
      else (let new_ch = hp_limit (k_heap k) - 4 in
            rbind (heap_sbrk k need) (\<lambda>(_, k).
            rbind (kstore k (ch_size new_ch) need) (\<lambda>k.
            Inr (new_ch + CHUNK_OVERHEAD,
                 k\<lparr>k_heap := (k_heap k)\<lparr>hp_size := hp_size (k_heap k) + sz\<rparr>\<rparr>)))))))"

text \<open>\<^verbatim>\<open>kfree\<close> treats a pointer into the range of single pages as a page, anything else as a chunk.\<close>

definition in_aligned_range :: "heap \<Rightarrow> addr \<Rightarrow> bool" where
  "in_aligned_range h ptr \<longleftrightarrow> hp_aligned_start h \<le> ptr \<and>
     ptr - hp_aligned_start h < hp_bitmap_cnt h * 32 * PAGE_SIZE"

definition set_page_bit :: "heap \<Rightarrow> u32 \<Rightarrow> heap result" where
  "set_page_bit h n =
     (let w = unat (n div 32) in
      if w < length (hp_page_bitmap h)
      then Inr (h\<lparr>hp_page_bitmap := (hp_page_bitmap h)[w := (hp_page_bitmap h ! w) OR push_bit (unat (n mod 32)) 1]\<rparr>)
      else Inl OutOfBounds)"

definition kfree_chunk :: "kernel \<Rightarrow> addr \<Rightarrow> kernel result" where
  "kfree_chunk k ch0 =
     rbind (kload k (ch_prev_size ch0)) (\<lambda>ps.
     rbind (if ps AND BIT_FREE \<noteq> 0
            then let merged = ch0 - (ps AND SIZE_MASK) in
                 rbind (kload k (ch_size merged)) (\<lambda>ms.
                 rbind (kload k (ch_size ch0)) (\<lambda>s.
                 rbind (kstore k (ch_size merged) (ms + s)) (\<lambda>k.
                 Inr (merged, k))))
            else Inr (ch0, k)) (\<lambda>(ch, k).
     rbind (kload k (ch_size ch)) (\<lambda>s.
     rbind (kstore k (ch_size ch) (s OR BIT_FREE)) (\<lambda>k.
     rbind (kload k (ch_size ch)) (\<lambda>s.
     (let i = TIER_IDX (s AND SIZE_MASK) in
      rbind (tier_get k i) (\<lambda>head.
      rbind (kstore k (ch_next ch) head) (\<lambda>k.
      rbind (tier_set k i ch) (\<lambda>k.
      rbind (kload k (ch_size ch)) (\<lambda>s.
      Inr (k\<lparr>k_heap := (k_heap k)\<lparr>hp_free := hp_free (k_heap k) + (s AND SIZE_MASK)\<rparr>\<rparr>)))))))))))"

definition kfree :: "kernel \<Rightarrow> addr \<Rightarrow> kernel result" where
  "kfree k ptr =
     (if in_aligned_range (k_heap k) ptr
      then rbind (set_page_bit (k_heap k) ((ptr - hp_aligned_start (k_heap k)) div PAGE_SIZE)) (\<lambda>h.
           Inr (k\<lparr>k_heap := h\<rparr>))
      else kfree_chunk k (ptr - CHUNK_OVERHEAD))"

section \<open>Pages\<close>

text \<open>The double loop of \<^verbatim>\<open>kmalloc_aligned\<close>: the first bit from which the rest of its word is clear.\<close>

function scan_aligned :: "heap \<Rightarrow> u32 \<Rightarrow> u32 option result" where
  "scan_aligned h i =
     (if i < hp_bitmap_cnt h
      then if length (hp_page_bitmap h) \<le> unat i then Inl OutOfBounds
           else case find (\<lambda>j. drop_bit j (hp_page_bitmap h ! unat i) = 0) [0..<32] of
             Some j \<Rightarrow> Inr (Some (i * 32 + of_nat j))
           | None \<Rightarrow> scan_aligned h (i + 1)
      else Inr None)"
  by pat_completeness auto
termination
  by (relation "measure (\<lambda>(h, i). unat (hp_bitmap_cnt h) - unat i)") (auto intro: word_loop_measure)

definition kmalloc_aligned :: "heap \<Rightarrow> (addr \<times> heap) result" where
  "kmalloc_aligned h =
     rbind (scan_aligned h 0) (\<lambda>found. case found of
       None \<Rightarrow> Inl Halted
     | Some n \<Rightarrow> rbind (set_page_bit h n) (\<lambda>h'. Inr (hp_aligned_start h + n * PAGE_SIZE, h')))"

text \<open>
  The double loop of \<^verbatim>\<open>kmalloc_aligned_multi\<close>, with its three variables. When the loops run to their end,
  \<^verbatim>\<open>j\<close> keeps the value 32 of the last inner loop while \<^verbatim>\<open>i\<close> has been incremented once more.
\<close>

function scan_multi :: "heap \<Rightarrow> u32 \<Rightarrow> u32 \<Rightarrow> u32 \<Rightarrow> nat \<Rightarrow> (u32 \<times> u32 \<times> nat) result" where
  "scan_multi h cnt contig i j =
     (if i < hp_bitmap_cnt h
      then if j < 32
           then if contig = cnt then Inr (contig, i, j)
                else if length (hp_page_bitmap h) \<le> unat i then Inl OutOfBounds
                else scan_multi h cnt (if bit (hp_page_bitmap h ! unat i) j then 0 else contig + 1) i (Suc j)
           else if i + 1 < hp_bitmap_cnt h then scan_multi h cnt contig (i + 1) 0
           else Inr (contig, i + 1, 32)
      else Inr (contig, i, j))"
  by pat_completeness auto
termination
  by (relation "measures [\<lambda>(h, n, c, i, j). unat (hp_bitmap_cnt h) - unat i, \<lambda>(h, n, c, i, j). 32 - j]")
    (auto simp: word_loop_measure)

function mark_pages :: "heap \<Rightarrow> u32 \<Rightarrow> u32 \<Rightarrow> heap result" where
  "mark_pages h offset lim =
     (if offset < lim then rbind (set_page_bit h offset) (\<lambda>h'. mark_pages h' (offset + 1) lim) else Inr h)"
  by pat_completeness auto
termination
  by (relation "measure (\<lambda>(h, i, n). unat n - unat i)") (auto intro: word_loop_measure)

definition kmalloc_aligned_multi :: "heap \<Rightarrow> u32 \<Rightarrow> (addr \<times> heap) result" where
  "kmalloc_aligned_multi h cnt =
     rbind (scan_multi h cnt 0 0 0) (\<lambda>(contig, i, j).
     if contig = cnt
     then let pos = i * 32 + of_nat j; j_old = (of_nat j - cnt) mod 32; i_old = (pos - cnt) div 32 in
          rbind (mark_pages h (pos - cnt) pos) (\<lambda>h'.
          Inr (hp_aligned_start h + (i_old * 32 + j_old) * PAGE_SIZE, h'))
     else Inl Halted)"

definition scroll_failed :: scroll where
  "scroll_failed = \<lparr>scr_vaddr = 0, scr_size = 0, scr_type = SCROLL_FAILED, scr_page = 0\<rparr>"

definition kmalloc_page :: "kernel \<Rightarrow> (scroll \<times> kernel) result" where
  "kmalloc_page k =
     rbind (kmalloc_aligned (k_heap k)) (\<lambda>(page_virt, h).
     (let k = k\<lparr>k_heap := h\<rparr> in
      if page_virt = 0 then Inr (scroll_failed, k)
      else rbind (kpage_alloc (m_frames (k_mach k))) (\<lambda>(page_phys, f).
           (let k = k\<lparr>k_mach := (k_mach k)\<lparr>m_frames := f\<rparr>\<rparr> in
            if page_phys = 0 then Inr (scroll_failed, k)
            else rbind (map_page (k_mach k) page_virt page_phys) (\<lambda>m.
                 Inr (\<lparr>scr_vaddr = page_virt, scr_size = PAGE_SIZE, scr_type = SCROLL_ALIGNED,
                       scr_page = page_phys\<rparr>, k\<lparr>k_mach := m\<rparr>))))))"

definition init_heap :: "kernel \<Rightarrow> heap \<Rightarrow> kernel result" where
  "init_heap k temp =
     (let k = k\<lparr>k_heap := temp\<lparr>hp_size := 0, hp_free := 0, hp_tiers := replicate TIER_CNT 0\<rparr>\<rparr> in
      rbind (heap_sbrk k 4) (\<lambda>(root, k).
      (let k = k\<lparr>k_heap := (k_heap k)\<lparr>hp_limit := root + 4\<rparr>\<rparr> in
       rbind (kstore k root 0) (\<lambda>k.
       rbind (kmalloc k (4 * hp_bitmap_cnt (k_heap k))) (\<lambda>(_, k).
       (let k = k\<lparr>k_heap := (k_heap k)\<lparr>hp_page_bitmap := replicate (unat (hp_bitmap_cnt (k_heap k))) 0\<rparr>\<rparr> in
        rbind (kmalloc k 112) (\<lambda>(_, k). Inr k)))))))"

declare scan_aligned.simps [simp del] scan_multi.simps [simp del] mark_pages.simps [simp del]

section \<open>The page bitmap as a set of used pages\<close>

definition page_used :: "heap \<Rightarrow> nat \<Rightarrow> bool" where
  "page_used h n \<longleftrightarrow> bit (hp_page_bitmap h ! (n div 32)) (n mod 32)"

text \<open>The bitmap has the announced number of words and its pages can be counted in 32 bits.\<close>

definition wf_pages :: "heap \<Rightarrow> bool" where
  "wf_pages h \<longleftrightarrow> length (hp_page_bitmap h) = unat (hp_bitmap_cnt h) \<and> length (hp_page_bitmap h) < 2 ^ 26"

definition page_cnt :: "heap \<Rightarrow> nat" where
  "page_cnt h = 32 * length (hp_page_bitmap h)"

lemma page_index:
  assumes "unat n < page_cnt h"
  shows "unat n div 32 < length (hp_page_bitmap h)"
  using assms by (simp add: page_cnt_def less_mult_imp_div_less mult.commute)

lemma set_page_bit_result:
  assumes "unat n < page_cnt h"
  shows "\<exists>h'. set_page_bit h n = Inr h' \<and> page_cnt h' = page_cnt h \<and> hp_page_bitmap h' \<noteq> [] \<and>
    (\<forall>q. page_used h' q = (page_used h q \<or> q = unat n)) \<and> h' = h\<lparr>hp_page_bitmap := hp_page_bitmap h'\<rparr>"
proof -
  let ?w = "unat n div 32"
  let ?bm = "(hp_page_bitmap h)[?w := (hp_page_bitmap h ! ?w) OR push_bit (unat n mod 32) 1]"
  have w: "?w < length (hp_page_bitmap h)" using assms by (rule page_index)
  have "bit (?bm ! (q div 32)) (q mod 32) = (page_used h q \<or> q = unat n)" for q
  proof -
    have "q = unat n \<longleftrightarrow> q div 32 = ?w \<and> q mod 32 = unat n mod 32" by (metis div_mult_mod_eq)
    moreover have "q mod 32 < 32" "unat n mod 32 < 32" by simp_all
    ultimately show ?thesis
      using w by (auto simp: page_used_def nth_list_update bit_simps)
  qed
  then show ?thesis
    using w by (auto simp: set_page_bit_def Let_def unat_div unat_mod page_cnt_def page_used_def)
qed

lemma set_page_bit_outside: "page_cnt h \<le> unat n \<Longrightarrow> set_page_bit h n = Inl OutOfBounds"
proof -
  assume "page_cnt h \<le> unat n"
  then have "length (hp_page_bitmap h) \<le> unat n div 32"
    by (simp add: page_cnt_def less_eq_div_iff_mult_less_eq mult.commute)
  then show ?thesis by (simp add: set_page_bit_def Let_def unat_div)
qed

subsection \<open>One page\<close>

lemma page_number:
  assumes "i < hp_bitmap_cnt h" and "wf_pages h" and "j < 32"
  shows "unat (i * 32 + of_nat j) = 32 * unat i + j"
proof -
  have i: "unat i < 67108864" using assms(1,2) by (simp add: word_less_nat_alt wf_pages_def)
  then have "unat (i * 32) = 32 * unat i" by (simp add: unat_word_ariths)
  moreover have "unat (of_nat j :: u32) = j" using assms(3) by (intro unat_of_nat_u32) simp
  ultimately show ?thesis using i assms(3) by (simp add: unat_add_u32)
qed

lemma scan_aligned_result:
  assumes "wf_pages h" and "i \<le> hp_bitmap_cnt h"
  shows "scan_aligned h i = Inr None \<or>
    (\<exists>n. scan_aligned h i = Inr (Some n) \<and> unat n < page_cnt h \<and> \<not> page_used h (unat n))"
  using assms
proof (induction h i rule: scan_aligned.induct)
  case (1 h i)
  show ?case
  proof (cases "i < hp_bitmap_cnt h")
    case False
    then show ?thesis by (subst (1) scan_aligned.simps) simp
  next
    case True
    then have len: "unat i < length (hp_page_bitmap h)" using "1.prems" by (simp add: wf_pages_def word_less_nat_alt)
    show ?thesis
    proof (cases "find (\<lambda>j. drop_bit j (hp_page_bitmap h ! unat i) = 0) [0..<32]")
      case None
      then have "scan_aligned h i = scan_aligned h (i + 1)"
        using True len by (subst scan_aligned.simps) simp
      moreover have "i + 1 \<le> hp_bitmap_cnt h" using True by (simp add: inc_le)
      ultimately show ?thesis using "1.IH" [OF True _ None] "1.prems" len by simp
    next
      case (Some j)
      then have j: "j < 32" "drop_bit j (hp_page_bitmap h ! unat i) = 0"
        by (auto simp: find_Some_iff)
      then have nb: "\<not> bit (hp_page_bitmap h ! unat i) j"
        by (intro drop_bit_zero_not_bit)
      have n: "unat (i * 32 + of_nat j) = 32 * unat i + j" using page_number [OF True "1.prems"(1) j(1)] .
      have "scan_aligned h i = Inr (Some (i * 32 + of_nat j))"
        using True len Some by (subst scan_aligned.simps) simp
      moreover have "\<not> page_used h (32 * unat i + j)" using nb j(1) by (simp add: page_used_def)
      moreover have "32 * unat i + j < page_cnt h" using len j(1) by (simp add: page_cnt_def)
      ultimately show ?thesis using n by simp
    qed
  qed
qed

lemma kmalloc_aligned_result:
  assumes "wf_pages h"
  shows "kmalloc_aligned h = Inl Halted \<or>
    (\<exists>n h'. kmalloc_aligned h = Inr (hp_aligned_start h + n * PAGE_SIZE, h') \<and> unat n < page_cnt h \<and>
      \<not> page_used h (unat n) \<and> (\<forall>q. page_used h' q = (page_used h q \<or> q = unat n)) \<and> wf_pages h' \<and>
      h' = h\<lparr>hp_page_bitmap := hp_page_bitmap h'\<rparr>)"
  using scan_aligned_result [OF assms word_zero_le]
proof (elim disjE exE conjE)
  fix n assume n: "scan_aligned h 0 = Inr (Some n)" "unat n < page_cnt h" "\<not> page_used h (unat n)"
  obtain h' where h': "set_page_bit h n = Inr h'" "page_cnt h' = page_cnt h"
    "\<forall>q. page_used h' q = (page_used h q \<or> q = unat n)" "h' = h\<lparr>hp_page_bitmap := hp_page_bitmap h'\<rparr>"
    using set_page_bit_result [OF n(2)] by blast
  have "wf_pages h'"
    using assms h'(2) arg_cong [OF h'(4), of hp_bitmap_cnt] by (simp add: wf_pages_def page_cnt_def)
  with n h' show ?thesis by (auto simp: kmalloc_aligned_def)
qed (simp_all add: kmalloc_aligned_def)

subsection \<open>Runs of pages\<close>

text \<open>
  The invariant of the scan: the last \<open>contig\<close> pages before the current one are free. It ends inside
  the bitmap with a run of the wanted length, or after it.
\<close>

definition run_before :: "heap \<Rightarrow> nat \<Rightarrow> nat \<Rightarrow> bool" where
  "run_before h n pos \<longleftrightarrow> n \<le> pos \<and> (\<forall>q. pos - n \<le> q \<longrightarrow> q < pos \<longrightarrow> \<not> page_used h q)"

lemma run_before_step:
  assumes "run_before h n pos"
  shows "run_before h (if page_used h pos then 0 else Suc n) (Suc pos)"
  using assms by (auto simp: run_before_def less_Suc_eq)

lemma scan_multi_result:
  assumes "wf_pages h" and "i < hp_bitmap_cnt h" and "j \<le> 32"
    and "run_before h (unat contig) (32 * unat i + j)"
  shows "\<exists>c i' j'. scan_multi h cnt contig i j = Inr (c, i', j') \<and>
    (i' < hp_bitmap_cnt h \<and> j' < 32 \<and> c = cnt \<and> run_before h (unat cnt) (32 * unat i' + j') \<or>
     i' = hp_bitmap_cnt h \<and> j' = 32 \<and> unat c \<le> 32 * unat i')"
  using assms
proof (induction h cnt contig i j rule: scan_multi.induct)
  case (1 h cnt contig i j)
  note wf = "1.prems"(1) and i = "1.prems"(2) and run = "1.prems"(4)
  have len: "unat i < length (hp_page_bitmap h)" using wf i by (simp add: wf_pages_def word_less_nat_alt)
  consider "j < 32" "contig = cnt" | "j < 32" "contig \<noteq> cnt" | "\<not> j < 32" "i + 1 < hp_bitmap_cnt h"
    | "\<not> j < 32" "\<not> i + 1 < hp_bitmap_cnt h" by blast
  then show ?case
  proof cases
    case 1
    then show ?thesis using i run by (subst scan_multi.simps) auto
  next
    case 2
    let ?c = "if bit (hp_page_bitmap h ! unat i) j then 0 else contig + 1"
    have used: "page_used h (32 * unat i + j) = bit (hp_page_bitmap h ! unat i) j"
      using 2(1) by (simp add: page_used_def)
    have "unat i < 67108864" using len wf by (simp add: wf_pages_def)
    then have "unat contig < 4294967295" using run 2(1) by (simp add: run_before_def)
    then have c: "unat ?c = (if page_used h (32 * unat i + j) then 0 else Suc (unat contig))"
      by (simp add: used unat_add_u32)
    have "scan_multi h cnt contig i j = scan_multi h cnt ?c i (Suc j)"
      using i 2 len by (subst scan_multi.simps) simp
    moreover have "run_before h (unat ?c) (32 * unat i + Suc j)"
      using run_before_step [OF run] unfolding c by simp
    ultimately show ?thesis using "1.IH"(1) [OF i 2] len wf i 2(1) by simp
  next
    case 3
    then have "scan_multi h cnt contig i j = scan_multi h cnt contig (i + 1) 0"
      using i by (subst scan_multi.simps) simp
    moreover have "32 * unat (i + 1) + 0 = 32 * unat i + j"
      using 3 "1.prems"(3) word_less_succ_unat [OF i] by simp
    ultimately show ?thesis using "1.IH"(2) [OF i 3] wf 3 run by simp
  next
    case 4
    then have "i + 1 = hp_bitmap_cnt h" using i by (metis antisym_conv2 inc_le)
    moreover have "unat contig \<le> 32 * unat (i + 1)"
      using run 4 "1.prems"(3) word_less_succ_unat [OF i] by (simp add: run_before_def)
    ultimately show ?thesis using 4 i by (subst scan_multi.simps) simp
  qed
qed

lemma mark_pages_result:
  assumes "unat lim \<le> page_cnt h"
  shows "\<exists>h'. mark_pages h n lim = Inr h' \<and> page_cnt h' = page_cnt h \<and>
    (\<forall>q. page_used h' q = (page_used h q \<or> unat n \<le> q \<and> q < unat lim)) \<and>
    h' = h\<lparr>hp_page_bitmap := hp_page_bitmap h'\<rparr>"
  using assms
proof (induction h n lim rule: mark_pages.induct)
  case (1 h n lim)
  show ?case
  proof (cases "n < lim")
    case False
    then have "\<not> (unat n \<le> q \<and> q < unat lim)" for q by (simp add: word_less_nat_alt)
    with False show ?thesis by (subst mark_pages.simps) auto
  next
    case True
    then have lt: "unat n < page_cnt h" using "1.prems" by (simp add: word_less_nat_alt)
    from set_page_bit_result [OF lt] obtain h1 where h1: "set_page_bit h n = Inr h1" "page_cnt h1 = page_cnt h"
      "\<forall>q. page_used h1 q = (page_used h q \<or> q = unat n)" "h1 = h\<lparr>hp_page_bitmap := hp_page_bitmap h1\<rparr>" by blast
    have "unat lim \<le> page_cnt h1" using "1.prems" h1(2) by simp
    from "1.IH" [OF True h1(1) this] obtain h' where h': "mark_pages h1 (n + 1) lim = Inr h'"
      "page_cnt h' = page_cnt h1"
      "\<forall>q. page_used h' q = (page_used h1 q \<or> unat (n + 1) \<le> q \<and> q < unat lim)"
      "h' = h1\<lparr>hp_page_bitmap := hp_page_bitmap h'\<rparr>" by blast
    have "h' = h\<lparr>hp_page_bitmap := hp_page_bitmap h'\<rparr>"
      using h'(4) by (subst (asm) h1(4)) simp
    moreover have "mark_pages h n lim = Inr h'"
      using True h1(1) h'(1) by (subst mark_pages.simps) simp
    moreover have "page_used h' q = (page_used h q \<or> unat n \<le> q \<and> q < unat lim)" for q
      using h'(3) h1(3) True word_less_succ_unat [OF True] by (auto simp: word_less_nat_alt)
    ultimately show ?thesis using h'(2) h1(2) by auto
  qed
qed

lemma mark_pages_outside:
  assumes "n < lim" and "page_cnt h < unat lim"
  shows "mark_pages h n lim = Inl OutOfBounds"
  using assms
proof (induction h n lim rule: mark_pages.induct)
  case (1 h n lim)
  show ?case
  proof (cases "unat n < page_cnt h")
    case False
    then show ?thesis
      using "1.prems"(1) set_page_bit_outside [of h n] by (subst mark_pages.simps) simp
  next
    case True
    then obtain h1 where h1: "set_page_bit h n = Inr h1" "page_cnt h1 = page_cnt h"
      using set_page_bit_result by blast
    have "n + 1 < lim"
      using True "1.prems" by (simp add: word_less_nat_alt word_less_succ_unat [OF "1.prems"(1)])
    then show ?thesis
      using "1.IH" [OF "1.prems"(1) h1(1)] "1.prems" h1 by (subst mark_pages.simps) simp
  qed
qed

text \<open>The page number the code computes from \<^verbatim>\<open>i_old\<close> and \<^verbatim>\<open>j_old\<close> is the start of the run.\<close>

lemma run_start:
  fixes i c :: u32
  assumes "j \<le> 32"
  shows "(i * 32 + of_nat j - c) div 32 * 32 + (of_nat j - c) mod 32 = i * 32 + of_nat j - c"
proof -
  have "(of_nat j - c) mod 32 = (i * 32 + of_nat j - c) mod 32"
  proof -
    have m: "unat (x + i * 32) mod 32 = unat x mod 32" for x :: u32
    proof -
      have "unat (x + i * 32) = (unat x + unat i * 32) mod 4294967296"
        by (simp add: unat_word_ariths mod_add_right_eq)
      then show ?thesis by (simp add: mod_mod_cancel)
    qed
    have "i * 32 + of_nat j - c = (of_nat j - c) + i * 32" by (simp add: algebra_simps)
    then show ?thesis using m [of "of_nat j - c"] by (simp only: word_unat_eq_iff unat_mod) simp
  qed
  then show ?thesis by (simp only: div_mult_mod_eq)
qed

lemma kmalloc_aligned_multi_result:
  assumes wf: "wf_pages h" and cnt: "0 < cnt" and ne: "0 < hp_bitmap_cnt h"
  shows "kmalloc_aligned_multi h cnt \<in> {Inl Halted, Inl OutOfBounds} \<or>
    (\<exists>n h'. kmalloc_aligned_multi h cnt = Inr (hp_aligned_start h + n * PAGE_SIZE, h') \<and>
      unat n + unat cnt \<le> page_cnt h \<and>
      (\<forall>q. unat n \<le> q \<and> q < unat n + unat cnt \<longrightarrow> \<not> page_used h q) \<and>
      (\<forall>q. page_used h' q = (page_used h q \<or> unat n \<le> q \<and> q < unat n + unat cnt)) \<and>
      h' = h\<lparr>hp_page_bitmap := hp_page_bitmap h'\<rparr>)"
proof -
  have "run_before h (unat (0 :: u32)) (32 * unat (0 :: u32) + 0)" by (simp add: run_before_def)
  from scan_multi_result [OF wf ne _ this, of cnt] obtain c i j where
    scan: "scan_multi h cnt 0 0 0 = Inr (c, i, j)" and
    res: "i < hp_bitmap_cnt h \<and> j < 32 \<and> c = cnt \<and> run_before h (unat cnt) (32 * unat i + j) \<or>
      i = hp_bitmap_cnt h \<and> j = 32 \<and> unat c \<le> 32 * unat i" by blast
  from res show ?thesis
  proof (elim disjE conjE)
    assume i: "i < hp_bitmap_cnt h" "j < 32" "c = cnt" "run_before h (unat cnt) (32 * unat i + j)"
    let ?pos = "i * 32 + of_nat j"
    have pos: "unat ?pos = 32 * unat i + j" using page_number [OF i(1) wf i(2)] .
    have le: "unat cnt \<le> unat ?pos" using i(4) pos by (simp add: run_before_def)
    then have n: "unat (?pos - cnt) = unat ?pos - unat cnt" by (simp add: unat_sub_u32)
    have "unat ?pos \<le> page_cnt h"
      using i wf pos by (simp add: page_cnt_def wf_pages_def word_less_nat_alt)
    from mark_pages_result [OF this, of "?pos - cnt"] obtain h' where
      "mark_pages h (?pos - cnt) ?pos = Inr h'"
      "\<forall>q. page_used h' q = (page_used h q \<or> unat (?pos - cnt) \<le> q \<and> q < unat ?pos)"
      "h' = h\<lparr>hp_page_bitmap := hp_page_bitmap h'\<rparr>" by blast
    moreover have "(?pos - cnt) div 32 * 32 + (of_nat j - cnt) mod 32 = ?pos - cnt"
      using i(2) by (intro run_start) simp
    ultimately show ?thesis
      using scan i(3,4) n le pos \<open>unat ?pos \<le> page_cnt h\<close>
      by (intro disjI2 exI [of _ "?pos - cnt"] exI [of _ h'])
        (auto simp: kmalloc_aligned_multi_def Let_def run_before_def)
  next
    assume i: "i = hp_bitmap_cnt h" "j = 32" "unat c \<le> 32 * unat i"
    show ?thesis
    proof (cases "c = cnt")
      case False
      then show ?thesis using scan by (simp add: kmalloc_aligned_multi_def)
    next
      case True
      let ?pos = "i * 32 + 32"
      have w: "unat i < 67108864" "page_cnt h = 32 * unat i"
        using wf i by (simp_all add: wf_pages_def page_cnt_def)
      then have pos: "unat ?pos = page_cnt h + 32" by (simp add: unat_word_ariths)
      then have "?pos - cnt < ?pos"
        using i(3) w(2) cnt True by (simp add: word_less_nat_alt unat_sub_u32)
      from mark_pages_outside [OF this, of h] pos show ?thesis
        using scan True i by (simp add: kmalloc_aligned_multi_def Let_def)
    qed
  qed
qed

subsection \<open>Freeing a page\<close>

lemma set_page_bit_used:
  assumes "unat n < page_cnt h" and "page_used h (unat n)"
  shows "set_page_bit h n = Inr h"
proof -
  have "(hp_page_bitmap h ! (unat n div 32)) OR push_bit (unat n mod 32) 1 = hp_page_bitmap h ! (unat n div 32)"
    using assms(2) by (intro bit_word_eqI) (auto simp: page_used_def bit_simps)
  then show ?thesis
    using page_index [OF assms(1)] by (simp add: set_page_bit_def Let_def unat_div unat_mod)
qed

lemma kfree_page:
  assumes wf: "wf_pages (k_heap k)" and n: "unat n < page_cnt (k_heap k)"
    and fits: "unat (hp_aligned_start (k_heap k)) + 4096 * page_cnt (k_heap k) < 2 ^ 32"
  shows "kfree k (hp_aligned_start (k_heap k) + n * PAGE_SIZE) =
    rbind (set_page_bit (k_heap k) n) (\<lambda>h. Inr (k\<lparr>k_heap := h\<rparr>))"
proof -
  let ?h = "k_heap k"
  have m: "unat (n * 4096) = unat n * 4096" using n fits by (simp add: unat_word_ariths)
  have c: "unat (hp_bitmap_cnt ?h * 32 * 4096) = page_cnt ?h * 4096"
    using wf fits by (simp add: unat_word_ariths wf_pages_def page_cnt_def)
  have "unat (hp_aligned_start ?h + n * 4096) = unat (hp_aligned_start ?h) + unat n * 4096"
    using n fits by (simp add: unat_add_u32 m)
  moreover have "unat n * 4096 < page_cnt ?h * 4096" using n by simp
  ultimately have "in_aligned_range ?h (hp_aligned_start ?h + n * PAGE_SIZE)"
    using c m by (simp add: in_aligned_range_def PAGE_SIZE_def word_le_nat_alt word_less_nat_alt)
  moreover have "(n * PAGE_SIZE) div PAGE_SIZE = n"
    by (simp add: PAGE_SIZE_def word_unat_eq_iff unat_div m)
  ultimately show ?thesis by (simp add: kfree_def)
qed

section \<open>Properties of the page allocator of the heap\<close>

definition small_heap :: "u32 \<Rightarrow> heap" where
  "small_heap w = \<lparr>hp_size = 0, hp_free = 0, hp_tiers = replicate TIER_CNT 0, hp_limit = 0xC0400000,
     hp_max_limit = 0xD0000000, hp_page_bitmap = [w], hp_bitmap_cnt = 1, hp_aligned_start = 0xC0000000\<rparr>"

lemma wf_small_heap [simp]: "wf_pages (small_heap w)"
  by (simp add: wf_pages_def small_heap_def)

text \<open>
  \<^verbatim>\<open>kmalloc_aligned\<close> either halts or returns the address of a page that was free, and marks exactly
  that page; \<^verbatim>\<open>kfree\<close> of that address then changes nothing at all: it sets the page's bit instead of
  clearing it, so a page that was handed out is never available again.
\<close>
theorem kmalloc_aligned_then_kfree:
  assumes "wf_pages h"
  shows "kmalloc_aligned h = Inl Halted \<or>
    (\<exists>n h'. kmalloc_aligned h = Inr (hp_aligned_start h + n * PAGE_SIZE, h') \<and> \<not> page_used h (unat n) \<and>
      unat n < page_cnt h \<and> (\<forall>q. page_used h' q = (page_used h q \<or> q = unat n)) \<and>
      (unat (hp_aligned_start h) + 4096 * page_cnt h < 2 ^ 32 \<longrightarrow>
        kfree \<lparr>k_mach = m, k_heap = h'\<rparr> (hp_aligned_start h + n * PAGE_SIZE) = Inr \<lparr>k_mach = m, k_heap = h'\<rparr>))"
proof (rule disjE [OF kmalloc_aligned_result [OF assms]])
  assume "\<exists>n h'. kmalloc_aligned h = Inr (hp_aligned_start h + n * PAGE_SIZE, h') \<and> unat n < page_cnt h \<and>
      \<not> page_used h (unat n) \<and> (\<forall>q. page_used h' q = (page_used h q \<or> q = unat n)) \<and> wf_pages h' \<and>
      h' = h\<lparr>hp_page_bitmap := hp_page_bitmap h'\<rparr>"
  then obtain n h' where r: "kmalloc_aligned h = Inr (hp_aligned_start h + n * PAGE_SIZE, h')"
    "unat n < page_cnt h" "\<not> page_used h (unat n)" "\<forall>q. page_used h' q = (page_used h q \<or> q = unat n)"
    "wf_pages h'" "h' = h\<lparr>hp_page_bitmap := hp_page_bitmap h'\<rparr>" by blast
  have same: "hp_aligned_start h' = hp_aligned_start h" "hp_bitmap_cnt h' = hp_bitmap_cnt h"
    by (subst r(6), simp)+
  then have cnt: "page_cnt h' = page_cnt h" using assms r(5) by (simp add: wf_pages_def page_cnt_def)
  have "kfree \<lparr>k_mach = m, k_heap = h'\<rparr> (hp_aligned_start h + n * PAGE_SIZE) = Inr \<lparr>k_mach = m, k_heap = h'\<rparr>"
    if "unat (hp_aligned_start h) + 4096 * page_cnt h < 2 ^ 32"
    using kfree_page [of "\<lparr>k_mach = m, k_heap = h'\<rparr>" n] set_page_bit_used [of n h'] r(2,4,5) that
    by (simp add: same cnt)
  with r show ?thesis by blast
qed blast

theorem kmalloc_aligned_then_kfree_witness:
  "kmalloc_aligned (small_heap 1) = Inr (0xC0001000, small_heap 3) \<and>
   kfree \<lparr>k_mach = small_machine, k_heap = small_heap 3\<rparr> 0xC0001000 = Inr \<lparr>k_mach = small_machine, k_heap = small_heap 3\<rparr>"
proof -
  have r: "kmalloc_aligned (small_heap 1) = Inr (0xC0001000, small_heap 3)" by code_simp
  have a: "hp_aligned_start (small_heap 1) = 0xC0000000" "page_cnt (small_heap 1) = 32"
    by (simp_all add: small_heap_def page_cnt_def)
  show ?thesis
    using kmalloc_aligned_then_kfree [OF wf_small_heap, of 1 small_machine] by (auto simp: r a)
qed

text \<open>
  \<^verbatim>\<open>kmalloc_aligned_multi\<close> returns, whenever it returns, the start of a run of pages that were all
  free, and marks exactly these; otherwise it halts or runs past its bitmap.
\<close>
theorem kmalloc_aligned_multi_correct:
  assumes "wf_pages h" and "0 < cnt" and "0 < hp_bitmap_cnt h"
  shows "kmalloc_aligned_multi h cnt \<in> {Inl Halted, Inl OutOfBounds} \<or>
    (\<exists>n h'. kmalloc_aligned_multi h cnt = Inr (hp_aligned_start h + n * PAGE_SIZE, h') \<and>
      unat n + unat cnt \<le> page_cnt h \<and>
      (\<forall>q. unat n \<le> q \<and> q < unat n + unat cnt \<longrightarrow> \<not> page_used h q) \<and>
      (\<forall>q. page_used h' q = (page_used h q \<or> unat n \<le> q \<and> q < unat n + unat cnt)) \<and>
      h' = h\<lparr>hp_page_bitmap := hp_page_bitmap h'\<rparr>)"
  using assms by (rule kmalloc_aligned_multi_result)

theorem kmalloc_aligned_multi_correct_witness:
  "kmalloc_aligned_multi (small_heap 5) 3 = Inr (0xC0003000, small_heap 0x3D) \<and> \<not> page_used (small_heap 5) 4"
proof -
  have r: "kmalloc_aligned_multi (small_heap 5) 3 = Inr (0xC0003000, small_heap 0x3D)" by code_simp
  have "(0 :: u32) < 3" "0 < hp_bitmap_cnt (small_heap 5)" by (simp_all add: small_heap_def)
  from kmalloc_aligned_multi_correct [OF wf_small_heap this]
  show ?thesis by (simp add: r) (simp add: page_used_def small_heap_def)
qed

text \<open>
  A run that ends with the last page of the bitmap is not handed out: after its loops the
  routine's position is 32 too far, and it writes outside the bitmap. Asking an empty 32-page bitmap
  for 32 pages fails this way.
\<close>
theorem kmalloc_aligned_multi_end: "kmalloc_aligned_multi (small_heap 0) 32 = Inl OutOfBounds"
  by code_simp

section \<open>Interface: words of memory\<close>

text \<open>
  What the chunk code needs of memory: on the set \<open>H\<close> of word addresses a store returns, is seen by
  loads of the same address, and leaves the other words alone.
\<close>

locale word_store =
  fixes ld :: "'s \<Rightarrow> addr \<Rightarrow> u32 result" and st :: "'s \<Rightarrow> addr \<Rightarrow> u32 \<Rightarrow> 's result"
    and inv :: "'s \<Rightarrow> bool" and H :: "addr set"
  assumes ld_ok: "inv s \<Longrightarrow> a \<in> H \<Longrightarrow> \<exists>w. ld s a = Inr w"
    and st_ok: "inv s \<Longrightarrow> a \<in> H \<Longrightarrow>
      \<exists>s'. st s a w = Inr s' \<and> inv s' \<and> (\<forall>b \<in> H. ld s' b = (if b = a then Inr w else ld s b))"
begin

lemma st_twice:
  assumes "inv s" and "a \<in> H" and "b \<in> H"
  shows "\<exists>s'. rbind (st s a v) (\<lambda>s. st s b w) = Inr s' \<and> inv s' \<and>
    (\<forall>c \<in> H. ld s' c = (if c = b then Inr w else if c = a then Inr v else ld s c))"
proof -
  from st_ok [OF assms(1,2)] obtain s1 where s1: "st s a v = Inr s1" "inv s1"
    "\<forall>c \<in> H. ld s1 c = (if c = a then Inr v else ld s c)" by blast
  from st_ok [OF s1(2) assms(3)] obtain s2 where "st s1 b w = Inr s2" "inv s2"
    "\<forall>c \<in> H. ld s2 c = (if c = b then Inr w else ld s1 c)" by blast
  with s1 show ?thesis by auto
qed

end

text \<open>
  The kernel's memory provides it on every set of aligned words whose pages are mapped to different
  frames that the page walk does not read.
\<close>

definition data_area :: "machine \<Rightarrow> addr set \<Rightarrow> bool" where
  "data_area m H \<longleftrightarrow> (\<forall>a \<in> H. a mod 4 = 0 \<and> (\<exists>p. translate m a = Some p \<and> walk_free m p)) \<and>
     (\<forall>a \<in> H. \<forall>b \<in> H. \<forall>p q. translate m a = Some p \<and> translate m b = Some q \<and> page_of p = page_of q \<longrightarrow>
        page_of a = page_of b)"

lemma aligned_word:
  assumes "a mod 4 = 0"
  obtains i where "i < 1024" and "a = slot a i" and "offset_of a = 4 * i"
proof
  let ?i = "offset_of a div 4"
  have "unat a mod 4 = 0" using assms by (simp add: word_unat_eq_iff unat_mod)
  then have "unat a mod 4096 mod 4 = 0" by (simp add: mod_mod_cancel)
  then have d: "4 * (unat a mod 4096 div 4) = unat a mod 4096" by (simp add: mod_eq_0_iff_dvd)
  have i: "unat ?i = unat a mod 4096 div 4" by (simp add: unat_div)
  show lt: "?i < 1024" by (simp add: word_less_nat_alt i less_mult_imp_div_less)
  have "unat (4 * ?i) = 4 * unat ?i"
    using lt by (simp add: unat_word_ariths word_less_nat_alt)
  then show o4: "offset_of a = 4 * ?i" using d i by (simp add: word_unat_eq_iff)
  show "a = slot a ?i" using page_offset_join [of a] o4 by (simp add: slot_def)
qed


lemma data_area_word:
  assumes "data_area m H" and "a \<in> H"
  obtains p i where "i < 1024" and "translate m a = Some (slot p i)" and "walk_free m (slot p i)"
    and "offset_of a = 4 * i" and "vload32 m a = Inr (load32 (pmem m) (slot p i))"
    and "\<And>w. vstore32 m a w = Inr (m\<lparr>pmem := store32 (pmem m) (slot p i) w\<rparr>)"
proof -
  from assms obtain q where q: "translate m a = Some q" "walk_free m q" "a mod 4 = 0"
    by (auto simp: data_area_def)
  from q(3) obtain i where i: "i < 1024" "offset_of a = 4 * i" by (rule aligned_word)
  obtain e where e: "q = page_of e + offset_of a"
  proof (cases "paging_on m")
    case True
    with q(1) that show ?thesis by (auto simp: translate_def Let_def split: if_splits)
  next
    case False
    with q(1) page_offset_join [of a] that [of a] show ?thesis by (simp add: translate_def)
  qed
  have "q = slot e i" using e i by (simp add: slot_def)
  with that [OF i(1), of e] q i show ?thesis
    by (simp add: vload32_word vstore32_word word_offset)
qed

lemma walk_free_page: "page_of p = page_of q \<Longrightarrow> walk_free m p = walk_free m q"
  by (simp add: walk_free_def)

lemma same_outside_walk_free:
  "walk_free m b \<Longrightarrow> same_outside b m m' \<Longrightarrow> walk_free m' q = walk_free m q"
  using same_outside_walk(1) [of m b m'] by (simp add: walk_free_def same_outside_def)

interpretation kmem: word_store vload32 vstore32 "\<lambda>m. data_area m H" H for H
proof (unfold_locales, goal_cases)
  case (1 m a)
  then show ?case by (elim data_area_word) blast+
next
  case (2 m a w)
  from 2 obtain p i where p: "i < 1024" "translate m a = Some (slot p i)" "walk_free m (slot p i)"
    "offset_of a = 4 * i" "\<And>w. vstore32 m a w = Inr (m\<lparr>pmem := store32 (pmem m) (slot p i) w\<rparr>)"
    by (rule data_area_word) blast
  let ?m = "m\<lparr>pmem := store32 (pmem m) (slot p i) w\<rparr>"
  have so: "same_outside p m ?m" using p(1) by (rule same_outside_store)
  have wf: "walk_free m p" using p(1,3) walk_free_page slot_parts(1) by blast
  have tr: "translate ?m = translate m" by (rule ext, rule same_outside_walk(3) [OF wf so])
  have wk: "walk_free ?m = walk_free m" by (rule ext, rule same_outside_walk_free [OF wf so])
  have da: "data_area ?m H" using 2(1) unfolding data_area_def tr wk .
  have "vload32 ?m b = (if b = a then Inr w else vload32 m b)" if b: "b \<in> H" for b
  proof -
    from data_area_word [OF 2(1) b] obtain q j where q: "j < 1024" "translate m b = Some (slot q j)"
      "offset_of b = 4 * j" "vload32 m b = Inr (load32 (pmem m) (slot q j))" by metis
    have l: "vload32 ?m b = Inr (load32 (pmem ?m) (slot q j))"
      using q by (intro vload32_word) (simp_all add: tr word_offset)
    show ?thesis
    proof (cases "b = a")
      case True
      then have "slot q j = slot p i" using p(2) q(2) by simp
      with True l show ?thesis by simp
    next
      case False
      have "slot p i \<noteq> slot q j"
      proof
        assume eq: "slot p i = slot q j"
        have "\<forall>a \<in> H. \<forall>b \<in> H. \<forall>p q. translate m a = Some p \<and> translate m b = Some q \<and>
          page_of p = page_of q \<longrightarrow> page_of a = page_of b" using 2(1) unfolding data_area_def by blast
        moreover have "page_of (slot p i) = page_of (slot q j)" using eq by (rule arg_cong)
        ultimately have "page_of a = page_of b" using 2(2) b p(2) q(2) by blast
        moreover have "offset_of a = offset_of b" using eq p(1,4) q(1,3) slot_eq_iff [OF p(1) q(1)] by simp
        ultimately show False using False page_offset_join by metis
      qed
      then have "apart32 (slot p i) (slot q j)"
        using p(1) q(1) by (intro apart32_aligned slot_aligned)
      with False l q(4) show ?thesis by simp
    qed
  qed
  with p(5) da show ?case by blast
qed

text \<open>Before paging is on, every set of aligned words outside the page of \<^verbatim>\<open>cr3\<close> is such an area.\<close>

definition flat_machine :: machine where
  "flat_machine = \<lparr>pmem = (\<lambda>_. 0), cr0 = 0, cr3 = 0, m_frames = one_region 0\<rparr>"

lemma data_area_flat: "(\<forall>a \<in> H. a mod 4 = 0 \<and> page_of a \<noteq> 0) \<Longrightarrow> data_area flat_machine H"
  by (auto simp: data_area_def translate_def paging_on_def walk_free_def dir_entry_def flat_machine_def)

end
