(* ===== verification/Kheap_Chunks.thy ===== *)
theory Kheap_Chunks
  imports Kheap
begin

unbundle bit_operations_syntax

text \<open>
  Properties of the variable-size part of \<^verbatim>\<open>src/common/alloc.c\<close> (\<^verbatim>\<open>kmalloc\<close>, \<^verbatim>\<open>kfree\<close>, \<^verbatim>\<open>split_chunk\<close>,
  \<^verbatim>\<open>heap_sbrk\<close>), proved over the word-store interface that the machine provides.
\<close>

section \<open>Chunks through the word-store interface\<close>

interpretation kchunk: word_store kload kstore "\<lambda>k. data_area (k_mach k) H" H for H
proof (unfold_locales, goal_cases)
  case (1 k a)
  then show ?case using kmem.ld_ok by (simp add: kload_def)
next
  case (2 k a w)
  from kmem.st_ok [OF 2] obtain m where "vstore32 (k_mach k) a w = Inr m" "data_area m H"
    "\<forall>b \<in> H. vload32 m b = (if b = a then Inr w else vload32 (k_mach k) b)" by blast
  then show ?case by (auto simp: kstore_def kload_def)
qed

lemma kstore_heap: "kstore k a w = Inr k' \<Longrightarrow> k_heap k' = k_heap k"
  by (auto simp: kstore_def)

lemma kstore_result:
  assumes "data_area (k_mach k) H" and "a \<in> H"
  obtains k' where "kstore k a w = Inr k'" and "k_heap k' = k_heap k" and "data_area (k_mach k') H"
    and "\<And>b. b \<in> H \<Longrightarrow> kload k' b = (if b = a then Inr w else kload k b)"
  using kchunk.st_ok [OF assms, of w] kstore_heap by blast

lemma tier_set_simps:
  assumes "unat i < length (hp_tiers (k_heap k))"
  shows "tier_get k i = Inr (hp_tiers (k_heap k) ! unat i)"
    and "tier_set k i c = Inr (k\<lparr>k_heap := (k_heap k)\<lparr>hp_tiers := (hp_tiers (k_heap k))[unat i := c]\<rparr>\<rparr>)"
  using assms by (simp_all add: tier_get_def tier_set_def)

lemma kload_heap_update [simp]: "kload (k\<lparr>k_heap := h\<rparr>) = kload k"
  by (simp add: kload_def fun_eq_iff)

lemma size_free_bit:
  assumes "s AND BIT_FREE = 0"
  shows "(s OR BIT_FREE) AND SIZE_MASK = s" and "s AND SIZE_MASK = s"
proof -
  have "\<not> bit s 0" using assms by (simp add: BIT_FREE_def and_one_eq odd_iff_mod_2_eq_one bit_0)
  then show "(s OR BIT_FREE) AND SIZE_MASK = s" "s AND SIZE_MASK = s"
    by (auto intro!: bit_word_eqI simp: BIT_FREE_def SIZE_MASK_def bit_simps) (metis bot_nat_0.not_eq_extremum)+
qed

text \<open>A chunk with its three header words, allocated, with a predecessor that is not marked free.\<close>

definition plain_chunk :: "kernel \<Rightarrow> addr set \<Rightarrow> addr \<Rightarrow> u32 \<Rightarrow> bool" where
  "plain_chunk k H ch s \<longleftrightarrow> data_area (k_mach k) H \<and> {ch_prev_size ch, ch_size ch, ch_next ch} \<subseteq> H \<and> ch \<noteq> 0 \<and>
     (\<exists>ps. kload k (ch_prev_size ch) = Inr ps \<and> ps AND BIT_FREE = 0) \<and>
     kload k (ch_size ch) = Inr s \<and> s AND BIT_FREE = 0 \<and> unat (TIER_IDX s) < length (hp_tiers (k_heap k))"

lemma kfree_chunk_pushes:
  assumes c: "plain_chunk k H ch s"
  obtains k' where "kfree_chunk k ch = Inr k'" and "data_area (k_mach k') H"
    and "k_heap k' = (k_heap k)\<lparr>hp_tiers := (hp_tiers (k_heap k))[unat (TIER_IDX s) := ch],
           hp_free := hp_free (k_heap k) + s\<rparr>"
    and "\<And>b. b \<in> H \<Longrightarrow> kload k' b =
      (if b = ch_next ch then Inr (hp_tiers (k_heap k) ! unat (TIER_IDX s))
       else if b = ch_size ch then Inr (s OR BIT_FREE) else kload k b)"
proof -
  have h: "data_area (k_mach k) H" "ch_size ch \<in> H" "ch_next ch \<in> H" "kload k (ch_size ch) = Inr s"
    "s AND BIT_FREE = 0" "unat (TIER_IDX s) < length (hp_tiers (k_heap k))"
    using c by (auto simp: plain_chunk_def)
  obtain ps where ps: "kload k (ch_prev_size ch) = Inr ps" "ps AND BIT_FREE = 0"
    using c by (auto simp: plain_chunk_def)
  obtain k1 where k1: "kstore k (ch_size ch) (s OR BIT_FREE) = Inr k1" "k_heap k1 = k_heap k"
    "data_area (k_mach k1) H"
    "\<And>b. b \<in> H \<Longrightarrow> kload k1 b = (if b = ch_size ch then Inr (s OR BIT_FREE) else kload k b)"
    using kstore_result [OF h(1,2)] by metis
  let ?head = "hp_tiers (k_heap k) ! unat (TIER_IDX s)"
  obtain k2 where k2: "kstore k1 (ch_next ch) ?head = Inr k2" "k_heap k2 = k_heap k1"
    "data_area (k_mach k2) H" "\<And>b. b \<in> H \<Longrightarrow> kload k2 b = (if b = ch_next ch then Inr ?head else kload k1 b)"
    using kstore_result [OF k1(3) h(3)] by metis
  let ?k = "k2\<lparr>k_heap := (k_heap k)\<lparr>hp_tiers := (hp_tiers (k_heap k))[unat (TIER_IDX s) := ch],
           hp_free := hp_free (k_heap k) + s\<rparr>\<rparr>"
  have ne: "ch_size ch \<noteq> ch_next ch" by (simp add: chunk_fields)
  have l1: "kload k1 (ch_size ch) = Inr (s OR BIT_FREE)" using k1(4) h(2) by simp
  have l2: "kload k2 (ch_size ch) = Inr (s OR BIT_FREE)" using k2(4) h(2) l1 ne by simp
  have "kfree_chunk k ch = Inr ?k"
    using k1(2) k2(2) h(6)
    by (simp add: kfree_chunk_def ps h(4) k1(1) l1 l2 size_free_bit [OF h(5)] tier_set_simps k2(1) Let_def)
  from that [OF this] k1 k2 show ?thesis by simp
qed

lemma kfree_chunk_head:
  assumes "plain_chunk k H ch s"
  shows "\<exists>k1. kfree_chunk k ch = Inr k1 \<and> data_area (k_mach k1) H \<and>
    hp_tiers (k_heap k1) = (hp_tiers (k_heap k))[unat (TIER_IDX s) := ch] \<and>
    kload k1 (ch_size ch) = Inr (s OR BIT_FREE) \<and>
    kload k1 (ch_next ch) = Inr (hp_tiers (k_heap k) ! unat (TIER_IDX s))"
proof -
  have h: "ch_size ch \<in> H" "ch_next ch \<in> H" "ch_size ch \<noteq> ch_next ch"
    using assms by (auto simp: plain_chunk_def chunk_fields)
  obtain k1 where "kfree_chunk k ch = Inr k1" and "data_area (k_mach k1) H"
    and "k_heap k1 = (k_heap k)\<lparr>hp_tiers := (hp_tiers (k_heap k))[unat (TIER_IDX s) := ch],
           hp_free := hp_free (k_heap k) + s\<rparr>"
    and "\<And>b. b \<in> H \<Longrightarrow> kload k1 b =
      (if b = ch_next ch then Inr (hp_tiers (k_heap k) ! unat (TIER_IDX s))
       else if b = ch_size ch then Inr (s OR BIT_FREE) else kload k b)"
    by (rule kfree_chunk_pushes [OF assms]) (rule that, assumption+)
  with h show ?thesis by (intro exI [of _ k1]) simp
qed

section \<open>Allocation from a tier\<close>

text \<open>\<^verbatim>\<open>kmalloc\<close> when the first chunk of the tier is large enough.\<close>

lemma kmalloc_head:
  assumes "unat (TIER_IDX (chunk_size_for sz)) < length (hp_tiers (k_heap k))"
    and "hp_tiers (k_heap k) ! unat (TIER_IDX (chunk_size_for sz)) = ch" and "ch \<noteq> 0"
    and "kload k (ch_size ch) = Inr s" and "chunk_size_for sz \<le> s AND SIZE_MASK"
    and "kload k (ch_next ch) = Inr nx"
  shows "kmalloc k sz =
    (let k' = k\<lparr>k_heap := (k_heap k)\<lparr>hp_tiers := (hp_tiers (k_heap k))[unat (TIER_IDX (chunk_size_for sz)) := nx]\<rparr>\<rparr>
     in rbind (if s AND SIZE_MASK \<ge> chunk_size_for sz + MIN_CHUNK_SIZE + CHUNK_OVERHEAD
               then split_chunk k' ch sz else Inr k') (\<lambda>k. Inr (ch + CHUNK_OVERHEAD, k)))"
proof -
  have "find_chunk k (chunk_size_for sz) 0 ch = Some (Inr (0, ch))"
    using assms by (simp add: find_chunk.simps [of k _ 0 ch] leD)
  then show ?thesis
    using assms by (simp add: kmalloc_def Let_def tier_set_simps loop_result_def)
qed

lemma split_chunk_outside:
  assumes d: "data_area (k_mach k) H"
    and w: "ch_size ch \<in> H" "ch_size (ch + sz + CHUNK_OVERHEAD) \<in> H" "ch_prev_size (ch + sz + CHUNK_OVERHEAD) \<in> H"
      "ch_prev_size (ch + (s AND SIZE_MASK)) \<in> H"
    and s: "kload k (ch_size ch) = Inr s"
    and out: "length (hp_tiers (k_heap k)) \<le> unat (TIER_IDX (ch + sz + CHUNK_OVERHEAD))"
  shows "split_chunk k ch sz = Inl OutOfBounds"
proof -
  let ?new = "ch + sz + CHUNK_OVERHEAD"
  obtain k1 where k1: "kstore k (ch_size ?new) (((s AND SIZE_MASK) - sz - CHUNK_OVERHEAD) OR BIT_FREE) = Inr k1"
    "k_heap k1 = k_heap k" "data_area (k_mach k1) H" using kstore_result [OF d w(2)] by metis
  obtain k2 where k2: "kstore k1 (ch_size ch) (sz + CHUNK_OVERHEAD) = Inr k2" "k_heap k2 = k_heap k1"
    "data_area (k_mach k2) H" using kstore_result [OF k1(3) w(1)] by metis
  obtain cs where cs: "kload k2 (ch_size ch) = Inr cs" using kchunk.ld_ok [OF k2(3) w(1)] by blast
  obtain k3 where k3: "kstore k2 (ch_prev_size ?new) cs = Inr k3" "k_heap k3 = k_heap k2"
    "data_area (k_mach k3) H" using kstore_result [OF k2(3) w(3)] by metis
  obtain ns where ns: "kload k3 (ch_size ?new) = Inr ns" using kchunk.ld_ok [OF k3(3) w(2)] by blast
  obtain k4 where k4: "kstore k3 (ch_prev_size (ch + (s AND SIZE_MASK))) ns = Inr k4" "k_heap k4 = k_heap k3"
    using kstore_result [OF k3(3) w(4)] by metis
  have "tier_get k4 (TIER_IDX ?new) = Inl OutOfBounds"
    using out k1(2) k2(2) k3(2) k4(2) by (simp add: tier_get_def)
  then show ?thesis by (simp add: split_chunk_def Let_def s k1(1) k2(1) cs k3(1) ns k4(1))
qed

text \<open>A pointer at or above 32 MiB has no tier.\<close>

lemma bit_length_mono: "a \<le> b \<Longrightarrow> bit_length a \<le> bit_length b"
proof (induction b arbitrary: a rule: less_induct)
  case (less b)
  show ?case
  proof (cases "a = 0")
    case False
    then have "bit_length (a div 2) \<le> bit_length (b div 2)"
      using less by (intro less.IH) (auto simp: div_le_mono)
    with False less.prems show ?thesis by (simp add: bit_length.simps [of a] bit_length.simps [of b])
  qed (simp add: bit_length.simps [of 0])
qed

lemma bit_length_power: "bit_length (2 ^ n) = Suc n"
proof (induction n)
  case 0
  then show ?case by (simp add: bit_length.simps [of "Suc 0"] bit_length.simps [of 0])
next
  case (Suc n)
  then show ?case by (subst bit_length.simps) simp
qed

lemma bit_length_less: "a < 2 ^ n \<Longrightarrow> bit_length a \<le> n"
proof (induction n arbitrary: a)
  case 0
  then show ?case by (simp add: bit_length.simps [of 0])
next
  case (Suc n)
  then have "bit_length (a div 2) \<le> n" by (intro Suc.IH) simp
  then show ?case by (subst bit_length.simps) simp
qed

lemma TIER_IDX_unat: "16 \<le> unat x \<Longrightarrow> unat (TIER_IDX x) = bit_length (unat x) - 5"
proof -
  assume "16 \<le> unat x"
  then have "5 \<le> bit_length (unat x)"
    using bit_length_mono [of 16 "unat x"] bit_length_power [of 4] by simp
  moreover have "bit_length (unat x) \<le> 32" by (intro bit_length_less) simp
  ultimately show ?thesis
    by (simp add: TIER_IDX_def MIN_CHUNK_SIZE_LOG_def unat_sub_u32 unat_of_nat_u32)
qed

lemma pointer_tier: "33554432 \<le> unat p \<Longrightarrow> TIER_CNT \<le> unat (TIER_IDX p)"
  using TIER_IDX_unat [of p] bit_length_mono [of 33554432 "unat p"] bit_length_power [of 25]
  by (simp add: TIER_CNT_def MIN_CHUNK_SIZE_LOG_def)

section \<open>Growing the heap\<close>

lemma sbrk_loop_heap:
  assumes "sbrk_loop k v l = Some (Inr k')"
  shows "k_heap k' = k_heap k"
proof -
  have "\<forall>k'. r = Inr k' \<longrightarrow> k_heap k' = k_heap k" if "sbrk_loop k v l = Some r" for r
  proof (rule sbrk_loop.raw_induct [where P = "\<lambda>k v l r. \<forall>k'. r = Inr k' \<longrightarrow> k_heap k' = k_heap k", OF _ that])
    fix loop k v l r
    assume "\<And>k v l r. loop k v l = Some r \<Longrightarrow> \<forall>k'. r = Inr k' \<longrightarrow> k_heap k' = k_heap k"
      and "(if v \<le> l
        then case rbind (get_page_mapping (k_mach k) v) (\<lambda>pa.
                if pa = 0
                then rbind (kpage_alloc (m_frames (k_mach k))) (\<lambda>(frame, f).
                     rbind (map_page ((k_mach k)\<lparr>m_frames := f\<rparr>) v frame) (\<lambda>m.
                     Inr (k\<lparr>k_mach := m\<rparr>)))
                else Inr k) of
             Inl e \<Rightarrow> Some (Inl e)
           | Inr k' \<Rightarrow> loop k' (v + PAGE_SIZE) l
        else Some (Inr k)) = Some r"
    then show "\<forall>k'. r = Inr k' \<longrightarrow> k_heap k' = k_heap k"
      by (fastforce split: if_splits sum.splits)
  qed
  with assms show ?thesis by blast
qed

text \<open>The loop ends unless the last page is the last of the address space.\<close>

lemma sbrk_loop_returns:
  assumes "unat l < 0xFFFFF000"
  shows "sbrk_loop k v l \<noteq> None"
proof (induction "0xFFFFFFFF - unat v" arbitrary: k v rule: less_induct)
  case less
  show ?case
  proof (cases "v \<le> l")
    case True
    then have "unat (v + PAGE_SIZE) = unat v + 4096"
      using assms by (simp add: PAGE_SIZE_def unat_add_u32 word_le_nat_alt)
    then have "sbrk_loop k' (v + PAGE_SIZE) l \<noteq> None" for k'
      using True assms by (intro less) (simp add: word_le_nat_alt)
    then show ?thesis by (subst sbrk_loop.simps) (simp split: sum.splits)
  qed (simp add: sbrk_loop.simps)
qed

lemma heap_sbrk_result:
  assumes "heap_sbrk k inc = Inr (p, k')"
  shows "p = hp_limit (k_heap k)" and "k_heap k' = (k_heap k)\<lparr>hp_limit := hp_limit (k_heap k) + inc\<rparr>"
    and "hp_limit (k_heap k) + inc \<le> hp_max_limit (k_heap k)"
proof -
  from assms obtain k1 where k1:
    "sbrk_loop k (ALIGN_PG_DOWN (hp_limit (k_heap k))) (ALIGN_PG_DOWN (hp_limit (k_heap k) + inc)) = Some (Inr k1)"
    "\<not> hp_limit (k_heap k) + inc > hp_max_limit (k_heap k)" "p = hp_limit (k_heap k)"
    "k' = k1\<lparr>k_heap := (k_heap k1)\<lparr>hp_limit := hp_limit (k_heap k1) + inc\<rparr>\<rparr>"
    by (auto simp: heap_sbrk_def Let_def loop_result_def split: if_splits option.splits)
  then show "p = hp_limit (k_heap k)" "hp_limit (k_heap k) + inc \<le> hp_max_limit (k_heap k)"
    "k_heap k' = (k_heap k)\<lparr>hp_limit := hp_limit (k_heap k) + inc\<rparr>"
    using sbrk_loop_heap [OF k1(1)] by auto
qed

section \<open>Correctness of the chunk allocator\<close>


text \<open>A kernel with one chunk of \<open>s\<close> bytes at 1 MiB.\<close>

lemma chunk_example:
  assumes "s AND BIT_FREE = 0" and "unat (TIER_IDX s) < 21"
    and "\<forall>a \<in> H. a mod 4 = 0 \<and> page_of a \<noteq> 0" and "{0x100000, 0x100004, 0x100008} \<subseteq> H"
  shows "\<exists>k. plain_chunk k H 0x100000 s \<and> k_heap k = small_heap 0"
proof -
  let ?k = "\<lparr>k_mach = flat_machine, k_heap = small_heap 0\<rparr>"
  have "data_area (k_mach ?k) H" using data_area_flat [OF assms(3)] by simp
  then obtain k1 where k1: "k_heap k1 = small_heap 0" "data_area (k_mach k1) H" "kload k1 0x100000 = Inr 0"
    by (rule kstore_result [of ?k H "0x100000" 0]) (use assms(4) in auto)
  obtain k2 where "k_heap k2 = small_heap 0" "data_area (k_mach k2) H" "kload k2 0x100004 = Inr s"
    "kload k2 0x100000 = Inr 0"
    by (rule kstore_result [OF k1(2), of "0x100004" s]) (use k1 assms(4) in auto)
  then have "plain_chunk k2 H 0x100000 s"
    using assms by (simp add: plain_chunk_def chunk_fields small_heap_def TIER_CNT_def MIN_CHUNK_SIZE_LOG_def)
  with \<open>k_heap k2 = small_heap 0\<close> show ?thesis by blast
qed

lemma tier_example: "TIER_IDX 32 = 1" "TIER_IDX 0x1F00008 = 20" "TIER_IDX 0x1F00020 = 20"
  "chunk_size_for 24 = 32" "chunk_size_for 0x1F00000 = 0x1F00008"
  by (simp_all add: TIER_IDX_def chunk_size_for_def chunk_consts bit_length.simps)


text \<open>
  Reusing a chunk that is large enough to be split fails: \<^verbatim>\<open>split_chunk\<close> computes the tier from the
  address of the new chunk instead of from its size, and for an address from 32 MiB on (all of
  the kernel's heap) that indexes outside the array of tiers.
\<close>
theorem kmalloc_split_out_of_bounds:
  assumes "plain_chunk k H ch s" and "\<not> in_aligned_range (k_heap k) (ch + CHUNK_OVERHEAD)"
    and "length (hp_tiers (k_heap k)) = TIER_CNT" and "chunk_size_for sz \<le> s"
    and "TIER_IDX (chunk_size_for sz) = TIER_IDX s"
    and "chunk_size_for sz + MIN_CHUNK_SIZE + CHUNK_OVERHEAD \<le> s"
    and "{ch + s, ch + sz + CHUNK_OVERHEAD, ch + sz + CHUNK_OVERHEAD + 4} \<subseteq> H"
    and "33554432 \<le> unat (ch + sz + CHUNK_OVERHEAD)"
  shows "\<exists>k1. kfree k (ch + CHUNK_OVERHEAD) = Inr k1 \<and> kmalloc k1 sz = Inl OutOfBounds"
proof -
  let ?i = "unat (TIER_IDX s)" and ?t = "hp_tiers (k_heap k)"
  obtain k1 where k1: "kfree_chunk k ch = Inr k1" "hp_tiers (k_heap k1) = ?t[?i := ch]"
    "kload k1 (ch_size ch) = Inr (s OR BIT_FREE)" "kload k1 (ch_next ch) = Inr (?t ! ?i)"
    "data_area (k_mach k1) H"
    using kfree_chunk_head [OF assms(1)] by blast
  have c: "ch \<noteq> 0" "s AND BIT_FREE = 0" "?i < length ?t" "ch_size ch \<in> H" using assms(1) by (auto simp: plain_chunk_def)
  let ?k = "k1\<lparr>k_heap := (k_heap k1)\<lparr>hp_tiers := ?t\<rparr>\<rparr>"
  have "split_chunk ?k ch sz = Inl OutOfBounds"
    by (rule split_chunk_outside [where H = H and s = "s OR BIT_FREE"])
      (use assms(3,7) pointer_tier [OF assms(8)] k1 c size_free_bit [OF c(2)] in
        \<open>simp_all add: chunk_fields\<close>)
  then have "kmalloc k1 sz = Inl OutOfBounds"
    using kmalloc_head [of sz k1 ch "s OR BIT_FREE" "?t ! ?i"] k1 c assms(4-6)
    by (simp add: size_free_bit Let_def)
  moreover have "kfree k (ch + CHUNK_OVERHEAD) = Inr k1"
    using assms(2) k1(1) by (simp add: kfree_def)
  ultimately show ?thesis by blast
qed

theorem kmalloc_split_out_of_bounds_witness:
  "\<exists>k k1. kfree k 0x100008 = Inr k1 \<and> kmalloc k1 0x1F00000 = Inl OutOfBounds"
proof -
  let ?H = "{0x100000, 0x100004, 0x100008, 0x2000020, 0x2000008, 0x200000C} :: addr set"
  obtain k where k: "plain_chunk k ?H 0x100000 0x1F00020" "k_heap k = small_heap 0"
    using chunk_example [of "0x1F00020" ?H] by (auto simp: tier_example BIT_FREE_def ADDR_MASK_def)
  have "\<not> in_aligned_range (k_heap k) (0x100000 + CHUNK_OVERHEAD)"
    by (simp add: k(2) in_aligned_range_def small_heap_def CHUNK_OVERHEAD_def)
  from kmalloc_split_out_of_bounds [OF k(1) this, of "0x1F00000"] show ?thesis
    by (auto simp: tier_example chunk_consts k(2) small_heap_def)
qed


text \<open>A machine without paging whose memory is all ones, so that every table entry reads as present.\<close>

definition ones_kernel :: kernel where
  "ones_kernel = \<lparr>k_mach = \<lparr>pmem = (\<lambda>_. 0xFF), cr0 = 0, cr3 = 0, m_frames = one_region 0\<rparr>, k_heap = small_heap 0\<rparr>"

lemma ones_load: "offset_of a \<le> 0xFFC \<Longrightarrow> vload32 (k_mach ones_kernel) a = Inr 0xFFFFFFFF"
  by (simp add: vload32_def translate_def paging_on_def ones_kernel_def load32_def)

lemma ones_mapping: "get_page_mapping (k_mach ones_kernel) v = Inr 0xFFFFF000"
  using loopback_dir_indices(3) [of "PG_DIR_IDX v"] loopback_tbl_indices(3) [of "PG_DIR_IDX v" "PG_TBL_IDX v"]
  by (simp add: get_page_mapping_def get_page_entry_def ones_load word_offset ADDR_MASK_def)

lemma ones_kmalloc: "\<exists>k'. kmalloc ones_kernel 24 = Inr (0xC0400004, k')"
proof -
  have lim: "hp_limit (k_heap ones_kernel) = 0xC0400000" "hp_max_limit (k_heap ones_kernel) = 0xD0000000"
    by (simp_all add: ones_kernel_def small_heap_def)
  have al: "ALIGN_PG_DOWN 0xC0400000 = 0xC0400000" "ALIGN_PG_DOWN 0xC0400020 = 0xC0400000"
    by (simp_all add: ALIGN_PG_DOWN_def PAGE_SIZE_def)
  have "sbrk_loop ones_kernel 0xC0400000 0xC0400000 = Some (Inr ones_kernel)"
    by (subst sbrk_loop.simps) (simp add: ones_mapping sbrk_loop.simps PAGE_SIZE_def)
  then have sb: "heap_sbrk ones_kernel 32 =
      Inr (0xC0400000, ones_kernel\<lparr>k_heap := (k_heap ones_kernel)\<lparr>hp_limit := 0xC0400020\<rparr>\<rparr>)"
    by (simp add: heap_sbrk_def lim al loop_result_def)
  have st: "\<exists>k'. kstore (ones_kernel\<lparr>k_heap := h\<rparr>) 0xC0400000 w = Inr k'" for h w
    by (simp add: kstore_def vstore32_def translate_def paging_on_def ones_kernel_def)
  then obtain k' where "kstore (ones_kernel\<lparr>k_heap := (k_heap ones_kernel)\<lparr>hp_limit := 0xC0400020\<rparr>\<rparr>) 0xC0400000 32 = Inr k'"
    by blast
  then show ?thesis
    by (simp add: kmalloc_def Let_def tier_example tier_get_def find_chunk.simps loop_result_def sb lim chunk_fields
        CHUNK_OVERHEAD_def) (simp add: ones_kernel_def small_heap_def TIER_CNT_def MIN_CHUNK_SIZE_LOG_def
        find_chunk.simps sb [unfolded ones_kernel_def small_heap_def TIER_CNT_def MIN_CHUNK_SIZE_LOG_def])
qed


end
