(* ===== verification/Libc_Heap.thy ===== *)
theory Libc_Heap
  imports Kheap_Chunks
begin

unbundle bit_operations_syntax

text \<open>
  \<^verbatim>\<open>libc/lib/heap.c\<close>: the heap of a user program. It has the structure of the kernel's heap and the same
  constants (\<open>MIN_CHUNK_SIZE\<close>, \<open>CHUNK_OVERHEAD\<close>, \<open>BIT_FREE\<close>, \<open>TIER_IDX\<close> of theory \<open>Kheap\<close>), 11 tiers, and
  grows with \<^verbatim>\<open>sbrk\<close>, the system call of \<^verbatim>\<open>libc/lib/unistd.c\<close>, which is an argument acting on the state of the
  kernel. The memory of the program is a byte store.
\<close>

section \<open>The heap\<close>

definition CHUNK_SIZE_LIMIT_LOG :: nat where "CHUNK_SIZE_LIMIT_LOG = 15"
definition USER_TIER_CNT :: nat where "USER_TIER_CNT = CHUNK_SIZE_LIMIT_LOG - MIN_CHUNK_SIZE_LOG"

record user_heap =
  uh_size :: u32
  uh_free :: u32
  uh_tiers :: "addr list"
  uh_limit :: addr

record 'k process =
  p_mem :: bmem
  p_heap :: user_heap
  p_kern :: 'k

type_synonym 'k sbrk_call = "u32 \<Rightarrow> 'k \<Rightarrow> u32 \<times> 'k"

definition init_user_heap :: "'k sbrk_call \<Rightarrow> 'k process \<Rightarrow> 'k process" where
  "init_user_heap sbrk p =
     (let (root_prev_size, k) = sbrk 4 (p_kern p) in
      p\<lparr>p_heap := \<lparr>uh_size = 0, uh_free = 0, uh_tiers = replicate USER_TIER_CNT 0, uh_limit = root_prev_size + 4\<rparr>,
        p_mem := store32 (p_mem p) root_prev_size 0, p_kern := k\<rparr>)"

definition utier_get :: "'k process \<Rightarrow> u32 \<Rightarrow> addr result" where
  "utier_get p i = (if unat i < length (uh_tiers (p_heap p)) then Inr (uh_tiers (p_heap p) ! unat i) else Inl OutOfBounds)"

definition utier_set :: "'k process \<Rightarrow> u32 \<Rightarrow> addr \<Rightarrow> 'k process result" where
  "utier_set p i ch = (if unat i < length (uh_tiers (p_heap p))
     then Inr (p\<lparr>p_heap := (p_heap p)\<lparr>uh_tiers := (uh_tiers (p_heap p))[unat i := ch]\<rparr>\<rparr>) else Inl OutOfBounds)"

definition ustore :: "'k process \<Rightarrow> addr \<Rightarrow> u32 \<Rightarrow> 'k process" where
  "ustore p a w = p\<lparr>p_mem := store32 (p_mem p) a w\<rparr>"

definition uload :: "'k process \<Rightarrow> addr \<Rightarrow> u32" where
  "uload p a = load32 (p_mem p) a"

definition user_split_chunk :: "'k process \<Rightarrow> addr \<Rightarrow> u32 \<Rightarrow> 'k process result" where
  "user_split_chunk p ch sz =
     (let old = uload p (ch_size ch); next_ch = ch + (old AND SIZE_MASK); new_ch = ch + sz + CHUNK_OVERHEAD;
          p = ustore p (ch_size new_ch) (((old AND SIZE_MASK) - sz - CHUNK_OVERHEAD) OR BIT_FREE);
          p = ustore p (ch_size ch) (sz + CHUNK_OVERHEAD);
          p = ustore p (ch_prev_size new_ch) (uload p (ch_size ch));
          p = ustore p (ch_prev_size next_ch) (uload p (ch_size new_ch));
          idx = TIER_IDX new_ch in
      rbind (utier_get p idx) (\<lambda>head. utier_set (ustore p (ch_next new_ch) head) idx new_ch))"

text \<open>The walk along a tier: the first chunk that is large enough and its predecessor, 0 for none.\<close>

partial_function (option) user_find_chunk :: "bmem \<Rightarrow> u32 \<Rightarrow> addr \<Rightarrow> addr \<Rightarrow> (addr \<times> addr) option" where
  "user_find_chunk m need prev ch =
     (if ch = 0 then Some (prev, 0)
      else if load32 m (ch_size ch) AND SIZE_MASK < need then user_find_chunk m need ch (load32 m (ch_next ch))
      else Some (prev, ch))"

definition malloc :: "'k sbrk_call \<Rightarrow> u32 \<Rightarrow> 'k process \<Rightarrow> (addr \<times> 'k process) result" where
  "malloc sbrk sz p =
     (let need = chunk_size_for sz; i = TIER_IDX need in
      rbind (utier_get p i) (\<lambda>head.
      case user_find_chunk (p_mem p) need 0 head of
        None \<Rightarrow> Inl Spins
      | Some (prev, ch) \<Rightarrow>
          if ch \<noteq> 0
          then rbind (if prev \<noteq> 0 then Inr (ustore p (ch_next prev) (uload p (ch_next ch)))
                      else utier_set p i (uload p (ch_next ch))) (\<lambda>p.
               rbind (if uload p (ch_size ch) AND SIZE_MASK \<ge> need + MIN_CHUNK_SIZE + CHUNK_OVERHEAD
                      then user_split_chunk p ch sz else Inr p) (\<lambda>p.
               Inr (ch + CHUNK_OVERHEAD, p)))
          else let new_ch = uh_limit (p_heap p) - 4; (_, k) = sbrk need (p_kern p);
                   p = ustore (p\<lparr>p_kern := k\<rparr>) (ch_size new_ch) need;
                   p = p\<lparr>p_heap := (p_heap p)\<lparr>uh_limit := uh_limit (p_heap p) + need, uh_size := uh_size (p_heap p) + need\<rparr>\<rparr>
               in Inr (new_ch + CHUNK_OVERHEAD, p)))"

definition user_free :: "addr \<Rightarrow> 'k process \<Rightarrow> 'k process result" where
  "user_free ptr p =
     (let ch = ptr - CHUNK_OVERHEAD; ps = uload p (ch_prev_size ch);
          (ch, p) = (if ps AND BIT_FREE \<noteq> 0
             then let merged = ch - (ps AND SIZE_MASK)
                  in (merged, ustore p (ch_size merged) (uload p (ch_size merged) + uload p (ch_size ch)))
             else (ch, p));
          p = ustore p (ch_size ch) (uload p (ch_size ch) OR BIT_FREE);
          i = TIER_IDX (uload p (ch_size ch) AND SIZE_MASK) in
      rbind (utier_get p i) (\<lambda>head.
      rbind (utier_set (ustore p (ch_next ch) head) i ch) (\<lambda>p.
      Inr (p\<lparr>p_heap := (p_heap p)\<lparr>uh_free := uh_free (p_heap p) + (uload p (ch_size ch) AND SIZE_MASK)\<rparr>\<rparr>))))"

section \<open>Fresh memory\<close>

text \<open>
  What the kernel promises of \<^verbatim>\<open>sbrk\<close>: it returns the old break and moves it. A sequence of allocations,
  with the pointers it returned.
\<close>

definition moves_break :: "'k sbrk_call \<Rightarrow> ('k \<Rightarrow> u32) \<Rightarrow> bool" where
  "moves_break sbrk brk \<longleftrightarrow> (\<forall>inc k. fst (sbrk inc k) = brk k \<and> brk (snd (sbrk inc k)) = brk k + inc)"

lemma moves_breakD:
  "moves_break sbrk brk \<Longrightarrow> sbrk inc k = (b, k') \<Longrightarrow> b = brk k \<and> brk k' = brk k + inc"
  unfolding moves_break_def by (metis fst_conv snd_conv)

fun mallocs :: "'k sbrk_call \<Rightarrow> u32 list \<Rightarrow> 'k process \<Rightarrow> (addr list \<times> 'k process) result" where
  "mallocs sbrk [] p = Inr ([], p)"
| "mallocs sbrk (n # ns) p =
     rbind (malloc sbrk n p) (\<lambda>(a, p). rbind (mallocs sbrk ns p) (\<lambda>(as, p). Inr (a # as, p)))"

definition fresh_heap :: "('k \<Rightarrow> u32) \<Rightarrow> 'k process \<Rightarrow> bool" where
  "fresh_heap brk p \<longleftrightarrow> uh_tiers (p_heap p) = replicate USER_TIER_CNT 0 \<and> uh_limit (p_heap p) = brk (p_kern p)"

text \<open>Blocks one behind the other from \<open>lo\<close> on, with room for a header between them, ending at \<open>hi\<close>.\<close>

fun laid_out :: "nat \<Rightarrow> addr list \<Rightarrow> u32 list \<Rightarrow> nat \<Rightarrow> bool" where
  "laid_out lo [] [] hi \<longleftrightarrow> lo \<le> hi"
| "laid_out lo (a # as) (n # ns) hi \<longleftrightarrow> lo + 4 \<le> unat a \<and> laid_out (unat a + unat n + 4) as ns hi"
| "laid_out lo _ _ hi \<longleftrightarrow> False"

lemma chunk_size_nat:
  assumes "unat sz < 0x7FF8"
  shows "unat (chunk_size_for sz) = max 16 (unat sz + 8)"
  using assms by (auto simp: chunk_size_for_def chunk_consts u32_nat max_def)

lemma need_tier:
  assumes "unat sz < 0x7FF8"
  shows "unat (TIER_IDX (chunk_size_for sz)) < USER_TIER_CNT"
proof -
  have c: "16 \<le> unat (chunk_size_for sz)" "unat (chunk_size_for sz) < 2 ^ 15"
    using chunk_size_nat [OF assms] assms by auto
  from bit_length_less [OF c(2)] TIER_IDX_unat [OF c(1)] show ?thesis
    by (simp add: USER_TIER_CNT_def CHUNK_SIZE_LIMIT_LOG_def MIN_CHUNK_SIZE_LOG_def)
qed

lemma malloc_fresh:
  assumes "fresh_heap brk p" and "moves_break sbrk brk" and "unat sz < 0x7FF8"
    and "unat (brk (p_kern p)) + unat sz + 16 < 0x100000000"
  shows "\<exists>p'. malloc sbrk sz p = Inr (brk (p_kern p) + 4, p') \<and> fresh_heap brk p' \<and>
    unat (brk (p_kern p')) = unat (brk (p_kern p)) + max 16 (unat sz + 8)"
proof -
  define need where "need = chunk_size_for sz"
  note n = chunk_size_nat [OF assms(3), folded need_def]
  have t: "utier_get p (TIER_IDX need) = Inr 0"
    using assms(1) need_tier [OF assms(3)] by (simp add: utier_get_def fresh_heap_def need_def)
  obtain b k where s: "sbrk need (p_kern p) = (b, k)" by fastforce
  then have k: "brk k = brk (p_kern p) + need" using moves_breakD [OF assms(2)] by blast
  then have "unat (brk k) = unat (brk (p_kern p)) + max 16 (unat sz + 8)"
    using n assms(4) by (simp add: unat_add_u32 max_def split: if_splits)
  with assms(1) t s k show ?thesis
    by (simp add: malloc_def user_find_chunk.simps Let_def need_def [symmetric] ustore_def fresh_heap_def CHUNK_OVERHEAD_def)
qed

lemma mallocs_fresh:
  assumes "fresh_heap brk p" and "moves_break sbrk brk" and "\<forall>n \<in> set ns. unat n < 0x7FF8"
    and "unat (brk (p_kern p)) + sum_list (map (\<lambda>n. unat n + 16) ns) < 0x100000000"
  shows "\<exists>as p'. mallocs sbrk ns p = Inr (as, p') \<and> fresh_heap brk p' \<and>
    laid_out (unat (brk (p_kern p))) as ns (unat (brk (p_kern p')))"
  using assms(1,3,4)
proof (induction ns arbitrary: p)
  case (Cons n ns)
  then obtain p1 where p1: "malloc sbrk n p = Inr (brk (p_kern p) + 4, p1)" "fresh_heap brk p1"
    "unat (brk (p_kern p1)) = unat (brk (p_kern p)) + max 16 (unat n + 8)"
    using malloc_fresh [OF Cons.prems(1) assms(2), of n] by auto
  have "unat (brk (p_kern p1)) + sum_list (map (\<lambda>n. unat n + 16) ns) < 0x100000000"
    using Cons.prems(3) p1(3) by (auto simp: max_def split: if_splits)
  with Cons.IH [OF p1(2)] Cons.prems(2) obtain as p' where
    r: "mallocs sbrk ns p1 = Inr (as, p')" "fresh_heap brk p'" "laid_out (unat (brk (p_kern p1))) as ns (unat (brk (p_kern p')))"
    by auto
  have a: "unat (brk (p_kern p) + 4) = unat (brk (p_kern p)) + 4" using Cons.prems(3) by (simp add: unat_add_u32)
  have mono: "laid_out lo as ns hi \<Longrightarrow> lo' \<le> lo \<Longrightarrow> laid_out lo' as ns hi" for lo lo' hi
    by (cases as; cases ns) auto
  have "laid_out (unat (brk (p_kern p)) + 4 + unat n + 4) as ns (unat (brk (p_kern p')))"
    by (rule mono [OF r(3)]) (simp add: p1(3))
  with p1(1) r(1,2) a show ?case by simp
qed simp



text \<open>
  A request of 32760 bytes or more, up to the wrap-around of the size computation, indexes the array of
  tiers outside its bounds.
\<close>
theorem malloc_large_out_of_bounds:
  assumes "length (uh_tiers (p_heap p)) = USER_TIER_CNT" and "0x7FF8 \<le> sz" and "sz < 0xFFFFFFF8"
  shows "malloc sbrk sz p = Inl OutOfBounds"
proof -
  have s: "0x7FF8 \<le> unat sz" "unat sz < 0xFFFFFFF8" using assms(2,3) by (simp_all add: word_le_nat_alt word_less_nat_alt)
  then have c: "unat (chunk_size_for sz) = unat sz + 8" by (auto simp: chunk_size_for_def chunk_consts u32_nat)
  have "bit_length (2 ^ 15) \<le> bit_length (unat (chunk_size_for sz))" using s c by (intro bit_length_mono) simp
  then have "USER_TIER_CNT \<le> unat (TIER_IDX (chunk_size_for sz))"
    using TIER_IDX_unat [of "chunk_size_for sz"] s c bit_length_power [of 15]
    by (simp add: USER_TIER_CNT_def CHUNK_SIZE_LIMIT_LOG_def MIN_CHUNK_SIZE_LOG_def)
  then show ?thesis using assms(1) by (simp add: malloc_def utier_get_def Let_def)
qed

theorem malloc_large_out_of_bounds_witness:
  "malloc (\<lambda>inc b. (b, b + inc)) 0x8000 (init_user_heap (\<lambda>inc b. (b, b + inc)) \<lparr>p_mem = (\<lambda>_. 0),
    p_heap = \<lparr>uh_size = 0, uh_free = 0, uh_tiers = [], uh_limit = 0\<rparr>, p_kern = 0x8000 :: u32\<rparr>) = Inl OutOfBounds"
  by (rule malloc_large_out_of_bounds) (simp_all add: init_user_heap_def)

end
