(* ===== verification/Libc_Stdio.thy ===== *)
theory Libc_Stdio
  imports Muse_Prelude
begin

unbundle bit_operations_syntax

text \<open>
  \<^verbatim>\<open>libc/lib/stdio.c\<close>: the streams of a user program. The system calls of \<^verbatim>\<open>libc/lib/syscall.c\<close> are an argument
  that acts on the state of the kernel: open, transfer, seek and close, with the buffer of a transfer as a
  list of bytes. A stream's buffer is the list of bytes of the object it points to, or missing for a null
  pointer; an access outside the object is \<open>Inl OutOfBounds\<close>. An \<^verbatim>\<open>int\<close> is a word, negative numbers in two's
  complement.
\<close>

section \<open>Streams\<close>

definition EOF :: u32 where "EOF = - 1"
definition BUFSIZ :: u32 where "BUFSIZ = 8192"
definition STDIO_SEEK_CUR :: u32 where "STDIO_SEEK_CUR = 1"
definition STDIO_MODE_READ :: u8 where "STDIO_MODE_READ = 1"
definition STDIO_MODE_WRITE :: u8 where "STDIO_MODE_WRITE = 2"
definition STDIO_MODE_APPEND :: u8 where "STDIO_MODE_APPEND = 4"
definition STDIO_MODE_TRUNCATE :: u8 where "STDIO_MODE_TRUNCATE = 8"
definition STDIO_MODE_CREATE :: u8 where "STDIO_MODE_CREATE = 16"

lemmas stdio_modes = STDIO_MODE_READ_def STDIO_MODE_WRITE_def STDIO_MODE_APPEND_def STDIO_MODE_TRUNCATE_def
  STDIO_MODE_CREATE_def

record FILE =
  f_fd :: u32
  f_pos :: u32
  f_bfr :: "u8 list option"
  f_bfr_size :: u32
  f_bfr_cap :: u32
  f_line_buffered :: bool

record 'k calls =
  sys_open :: "u8 list \<Rightarrow> u8 \<Rightarrow> 'k \<Rightarrow> u32 \<times> 'k"
  sys_transfer :: "u32 \<Rightarrow> u32 \<Rightarrow> u8 list \<Rightarrow> 'k \<Rightarrow> u32 \<times> u8 list \<times> 'k"
  sys_seek :: "u32 \<Rightarrow> u32 \<Rightarrow> u32 \<Rightarrow> 'k \<Rightarrow> u32 \<times> 'k"
  sys_close :: "u32 \<Rightarrow> 'k \<Rightarrow> u32 \<times> 'k"

text \<open>Writing is a transfer with the negated descriptor.\<close>

definition syscall_read :: "'k calls \<Rightarrow> FILE \<Rightarrow> u32 \<Rightarrow> u8 list \<Rightarrow> 'k \<Rightarrow> u32 \<times> u8 list \<times> 'k" where
  "syscall_read S f sz res k = sys_transfer S (f_fd f) sz res k"

definition syscall_write :: "'k calls \<Rightarrow> FILE \<Rightarrow> u32 \<Rightarrow> u8 list \<Rightarrow> 'k \<Rightarrow> u32 \<times> 'k" where
  "syscall_write S f sz data k = (case sys_transfer S (- f_fd f) sz data k of (n, _, k) \<Rightarrow> (n, k))"

definition stdio_seek :: "'k calls \<Rightarrow> FILE \<Rightarrow> u32 \<Rightarrow> u32 \<Rightarrow> 'k \<Rightarrow> u32 \<times> 'k" where
  "stdio_seek S f offset whence k = sys_seek S (f_fd f) offset whence k"

text \<open>
  The mode string is the memory at \<^verbatim>\<open>mode_str\<close>: the code looks at four characters without looking for the
  terminating NUL.
\<close>

definition fopen_mode :: "(nat \<Rightarrow> u8) \<Rightarrow> u8" where
  "fopen_mode s =
     (let mode = 0;
          mode = (if s 0 = 0x72 then mode OR STDIO_MODE_READ else mode);
          mode = (if s 0 = 0x77 then mode OR (STDIO_MODE_WRITE OR STDIO_MODE_TRUNCATE OR STDIO_MODE_CREATE) else mode);
          mode = (if s 0 = 0x61 then mode OR (STDIO_MODE_WRITE OR STDIO_MODE_APPEND OR STDIO_MODE_CREATE) else mode);
          mode = (if s 1 = 0x2B \<or> s 2 = 0x2B then mode OR (STDIO_MODE_READ OR STDIO_MODE_WRITE) else mode)
      in if s 1 = 0x78 \<or> s 2 = 0x78 \<or> s 3 = 0x78 then mode AND NOT STDIO_MODE_TRUNCATE else mode)"

text \<open>The buffer has the size \<^verbatim>\<open>bfr_size\<close>, which is 0, instead of the capacity.\<close>

definition fopen :: "'k calls \<Rightarrow> u8 list \<Rightarrow> (nat \<Rightarrow> u8) \<Rightarrow> 'k \<Rightarrow> FILE option \<times> 'k" where
  "fopen S filename mode_str k =
     (case sys_open S filename (fopen_mode mode_str) k of (fd, k) \<Rightarrow>
        if fd \<ge> 0x80000000 then (None, k)
        else let f = \<lparr>f_fd = fd, f_pos = 0, f_bfr = None, f_bfr_size = 0, f_bfr_cap = 0, f_line_buffered = False\<rparr>;
                 (pos, k) = stdio_seek S f 0 STDIO_SEEK_CUR k
             in (Some (f\<lparr>f_pos := pos, f_bfr_size := 0, f_bfr_cap := BUFSIZ, f_bfr := Some (replicate 0 0),
                   f_line_buffered := False\<rparr>), k))"

definition fflush :: "'k calls \<Rightarrow> FILE \<Rightarrow> 'k \<Rightarrow> u32 \<times> FILE \<times> 'k" where
  "fflush S f k =
     (case syscall_write S f (f_bfr_size f) (case f_bfr f of None \<Rightarrow> [] | Some b \<Rightarrow> b) k of (n, k) \<Rightarrow>
        let f = f\<lparr>f_pos := f_pos f + n\<rparr>
        in if n = f_bfr_size f then (0, f\<lparr>f_bfr_size := 0\<rparr>, k) else (EOF, f, k))"

definition fclose :: "'k calls \<Rightarrow> FILE \<Rightarrow> 'k \<Rightarrow> u32 \<times> 'k" where
  "fclose S f k =
     (case fflush S f k of (res, f, k) \<Rightarrow>
      case sys_close S (f_fd f) k of (r, k) \<Rightarrow> (if r \<ge> 0x80000000 then EOF else if res = EOF then EOF else 0, k))"

definition fgetc :: "'k calls \<Rightarrow> FILE \<Rightarrow> 'k \<Rightarrow> u32 \<times> FILE \<times> 'k" where
  "fgetc S f k =
     (case fflush S f k of (_, f, k) \<Rightarrow>
      case syscall_read S f 1 [0] k of (n, res, k) \<Rightarrow>
        (if n = 1 then ucast (hd res) else EOF, f\<lparr>f_pos := f_pos f + n\<rparr>, k))"

definition fputc :: "'k calls \<Rightarrow> u32 \<Rightarrow> FILE \<Rightarrow> 'k \<Rightarrow> (u32 \<times> FILE \<times> 'k) result" where
  "fputc S c f k =
     (case f_bfr f of
        None \<Rightarrow> (case syscall_write S f 1 [ucast c] k of (n, k) \<Rightarrow>
          Inr (if n = 1 then c else EOF, f\<lparr>f_pos := f_pos f + n\<rparr>, k))
      | Some b \<Rightarrow>
          if length b \<le> unat (f_bfr_size f) then Inl OutOfBounds
          else let f = f\<lparr>f_bfr := Some (b[unat (f_bfr_size f) := ucast c]), f_bfr_size := f_bfr_size f + 1\<rparr>
               in if f_bfr_size f = f_bfr_cap f \<or> f_line_buffered f \<and> c = 0x0A then Inr (fflush S f k) else Inr (c, f, k))"

text \<open>
  The loop of \<^verbatim>\<open>fwrite\<close>: the number of characters put, not counting the one it stopped at. A character
  is a signed \<^verbatim>\<open>char\<close>, so that the byte 255 is put as -1.
\<close>

fun fwrite_loop :: "'k calls \<Rightarrow> u8 list \<Rightarrow> u32 \<Rightarrow> FILE \<Rightarrow> 'k \<Rightarrow> (u32 \<times> FILE \<times> 'k) result" where
  "fwrite_loop S [] i f k = Inr (i, f, k)"
| "fwrite_loop S (c # cs) i f k =
     rbind (fputc S (scast c) f k) (\<lambda>(r, f, k). if r = EOF then Inr (i, f, k) else fwrite_loop S cs (i + 1) f k)"

definition fwrite :: "'k calls \<Rightarrow> u8 list \<Rightarrow> u32 \<Rightarrow> u32 \<Rightarrow> FILE \<Rightarrow> 'k \<Rightarrow> (u32 \<times> FILE \<times> 'k) result" where
  "fwrite S ptr sz nmemb f k =
     (case f_bfr f of
        None \<Rightarrow> (case syscall_write S f (sz * nmemb) ptr k of (n, k) \<Rightarrow>
          if sz = 0 then Inl DivideError else Inr (n div sz, f\<lparr>f_pos := f_pos f + n\<rparr>, k))
      | Some _ \<Rightarrow>
          if length ptr < unat (sz * nmemb) then Inl OutOfBounds
          else rbind (fwrite_loop S (take (unat (sz * nmemb)) ptr) 0 f k) (\<lambda>(i, f, k).
               if sz = 0 then Inl DivideError else Inr ((i + 1) div sz, f, k)))"

text \<open>The string is given without its terminator; \<^verbatim>\<open>strlen\<close> is its length.\<close>

definition fputs :: "'k calls \<Rightarrow> u8 list \<Rightarrow> FILE \<Rightarrow> 'k \<Rightarrow> (u32 \<times> FILE \<times> 'k) result" where
  "fputs S s f k = fwrite S s 1 (of_nat (length s)) f k"

definition fread :: "'k calls \<Rightarrow> u8 list \<Rightarrow> u32 \<Rightarrow> u32 \<Rightarrow> FILE \<Rightarrow> 'k \<Rightarrow> (u32 \<times> u8 list \<times> FILE \<times> 'k) result" where
  "fread S ptr sz nmemb f k =
     (case fflush S f k of (_, f, k) \<Rightarrow>
      case syscall_read S f (sz * nmemb) ptr k of (n, ptr, k) \<Rightarrow>
        if sz = 0 then Inl DivideError else Inr (n div sz, ptr, f\<lparr>f_pos := f_pos f + n\<rparr>, k))"

text \<open>\<open>pos\<close> is what the memory of the three streams held: \<^verbatim>\<open>init_io\<close> does not set it. \<open>raw\<close> is the new buffer.\<close>

definition init_io :: "u32 \<Rightarrow> u8 list \<Rightarrow> FILE \<times> FILE \<times> FILE" where
  "init_io pos raw =
     (\<lparr>f_fd = 0, f_pos = pos, f_bfr = None, f_bfr_size = 0, f_bfr_cap = 0, f_line_buffered = True\<rparr>,
      \<lparr>f_fd = 1, f_pos = pos, f_bfr = Some raw, f_bfr_size = 0, f_bfr_cap = BUFSIZ, f_line_buffered = True\<rparr>,
      \<lparr>f_fd = 2, f_pos = pos, f_bfr = None, f_bfr_size = 0, f_bfr_cap = 0, f_line_buffered = False\<rparr>)"

section \<open>Buffered output as a stream of bytes\<close>

text \<open>
  A buffered stream: its buffer has the size of its capacity and is not full. The kernel takes all the bytes
  of a write to the descriptor and appends them to \<open>out\<close>. What has been put into the stream is what the kernel
  has got and what is in the buffer.
\<close>

definition buffered :: "FILE \<Rightarrow> bool" where
  "buffered f \<longleftrightarrow> (\<exists>b. f_bfr f = Some b \<and> length b = unat (f_bfr_cap f)) \<and> f_bfr_size f < f_bfr_cap f"

definition takes_all :: "'k calls \<Rightarrow> u32 \<Rightarrow> ('k \<Rightarrow> u8 list) \<Rightarrow> bool" where
  "takes_all S fd out \<longleftrightarrow> (\<forall>n data k. unat n \<le> length data \<longrightarrow> fst (sys_transfer S (- fd) n data k) = n \<and>
     out (snd (snd (sys_transfer S (- fd) n data k))) = out k @ take (unat n) data)"

definition pending :: "FILE \<Rightarrow> u8 list" where
  "pending f = (case f_bfr f of None \<Rightarrow> [] | Some b \<Rightarrow> take (unat (f_bfr_size f)) b)"

lemma fflush_all:
  assumes "takes_all S (f_fd f) out" and "f_bfr f = Some b" and "length b = unat (f_bfr_cap f)" and "f_bfr_size f \<le> f_bfr_cap f"
    and "0 < f_bfr_cap f"
  shows "\<exists>f' k'. fflush S f k = (0, f', k') \<and> out k' = out k @ pending f \<and> pending f' = [] \<and> buffered f' \<and> f_fd f' = f_fd f"
proof -
  have "unat (f_bfr_size f) \<le> length b" using assms(3,4) by (simp add: word_le_nat_alt)
  moreover obtain n d k' where t: "sys_transfer S (- f_fd f) (f_bfr_size f) b k = (n, d, k')" by (cases "sys_transfer S (- f_fd f) (f_bfr_size f) b k")
  ultimately have "n = f_bfr_size f" "out k' = out k @ take (unat (f_bfr_size f)) b"
    using assms(1) unfolding takes_all_def by (metis fst_conv snd_conv)+
  with t assms(2-5) show ?thesis
    by (simp add: fflush_def syscall_write_def pending_def buffered_def)
qed

lemma fputc_buffered:
  assumes "takes_all S (f_fd f) out" and "buffered f" and "c \<noteq> EOF"
  shows "\<exists>r f' k'. fputc S c f k = Inr (r, f', k') \<and> r \<noteq> EOF \<and> buffered f' \<and> f_fd f' = f_fd f \<and>
    out k' @ pending f' = out k @ pending f @ [ucast c]"
proof -
  obtain b where b: "f_bfr f = Some b" "length b = unat (f_bfr_cap f)" "f_bfr_size f < f_bfr_cap f"
    using assms(2) by (auto simp: buffered_def)
  define n where "n = unat (f_bfr_size f)"
  have n: "n < length b" "unat (f_bfr_size f + 1) = Suc n"
    using b(2,3) word_less_succ_unat [OF b(3)] by (simp_all add: n_def word_less_nat_alt)
  define f1 where "f1 = f\<lparr>f_bfr := Some (b[n := ucast c]), f_bfr_size := f_bfr_size f + 1\<rparr>"
  have le: "f_bfr_size f1 \<le> f_bfr_cap f1" using n b(2) by (simp add: f1_def word_le_nat_alt)
  have p1: "pending f1 = pending f @ [ucast c]"
    using n by (simp add: pending_def f1_def b(1) n_def [symmetric] take_Suc_conv_app_nth)
  have pc: "fputc S c f k = (if f_bfr_size f1 = f_bfr_cap f1 \<or> f_line_buffered f1 \<and> c = 0x0A then Inr (fflush S f1 k) else Inr (c, f1, k))"
    using b(1) n(1) by (simp add: fputc_def f1_def n_def [symmetric] Let_def)
  have fl: "\<exists>f' k'. fflush S f1 k = (0, f', k') \<and> out k' = out k @ pending f1 \<and> pending f' = [] \<and> buffered f' \<and> f_fd f' = f_fd f1"
    using fflush_all [of S f1 out "b[n := ucast c]" k] b le assms(1) by (auto simp: f1_def word_less_nat_alt)
  show ?thesis
  proof (cases "f_bfr_size f1 = f_bfr_cap f1 \<or> f_line_buffered f1 \<and> c = 0x0A")
    case True
    with pc fl p1 show ?thesis by (auto simp: EOF_def f1_def)
  next
    case False
    then have "f_bfr_size f1 < f_bfr_cap f1" using le by (auto simp: word_le_less_eq)
    then have "buffered f1" using b(2) by (simp add: buffered_def f1_def)
    with False pc p1 assms(3) show ?thesis by (auto simp: f1_def)
  qed
qed

lemma scast_byte: "scast (c :: u8) = (EOF :: u32) \<longleftrightarrow> c = 0xFF" "ucast (scast c :: u32) = c"
proof -
  show u: "ucast (scast c :: u32) = c" for c :: u8
    by (rule bit_word_eqI) (auto simp: bit_simps)
  have "scast (0xFF :: u8) = (EOF :: u32)" by (simp add: EOF_def)
  then show "scast c = (EOF :: u32) \<longleftrightarrow> c = 0xFF" using u by metis
qed

lemma fwrite_loop_buffered:
  assumes "takes_all S (f_fd f) out" and "buffered f" and "0xFF \<notin> set cs"
  shows "\<exists>f' k'. fwrite_loop S cs i f k = Inr (i + of_nat (length cs), f', k') \<and> buffered f' \<and> f_fd f' = f_fd f \<and>
    out k' @ pending f' = out k @ pending f @ cs"
  using assms
proof (induction cs arbitrary: i f k)
  case (Cons c cs)
  have "scast c \<noteq> EOF" using Cons.prems(3) by (simp add: scast_byte)
  from fputc_buffered [OF Cons.prems(1,2) this, of k] obtain r f1 k1 where
    1: "fputc S (scast c) f k = Inr (r, f1, k1)" "r \<noteq> EOF" "buffered f1" "f_fd f1 = f_fd f"
      "out k1 @ pending f1 = out k @ pending f @ [c]" by (auto simp: scast_byte)
  from Cons.IH [of f1 "i + 1" k1] Cons.prems 1(3,4) obtain f' k' where
    2: "fwrite_loop S cs (i + 1) f1 k1 = Inr (i + 1 + of_nat (length cs), f', k')" "buffered f'" "f_fd f' = f_fd f1"
      "out k' @ pending f' = out k1 @ pending f1 @ cs" by auto
  have "out k' @ pending f' = out k @ pending f @ c # cs" using 1(5) 2(4) by (metis append.assoc append_Cons append_Nil)
  with 1 2 show ?case by (simp add: add.assoc)
qed simp


text \<open>A kernel that appends what is written to standard output.\<close>

definition demo_calls :: "u8 list calls" where
  "demo_calls = \<lparr>sys_open = (\<lambda>_ _ k. (3, k)), sys_transfer = (\<lambda>fd n data k. (n, data, k @ take (unat n) data)),
     sys_seek = (\<lambda>_ _ _ k. (0, k)), sys_close = (\<lambda>_ k. (0, k))\<rparr>"

lemma demo_takes_all: "takes_all demo_calls fd (\<lambda>k. k)"
  by (simp add: takes_all_def demo_calls_def)


text \<open>
  The first character put into a stream that \<^verbatim>\<open>fopen\<close> returned is stored outside its buffer: the buffer
  is allocated with the number of bytes it holds, 0, instead of its capacity.
\<close>
theorem fopen_buffer_overrun:
  assumes "fopen S name mode k = (Some f, k')"
  shows "fputc S c f k'' = Inl OutOfBounds"
  using assms by (auto simp: fopen_def fputc_def Let_def split: prod.splits if_splits)

theorem fopen_buffer_overrun_witness:
  "\<exists>f k'. fopen demo_calls [0x2F, 0x61] (\<lambda>i. if i = 0 then 0x77 else 0) [] = (Some f, k') \<and> fputc demo_calls 0x68 f k' = Inl OutOfBounds"
proof -
  obtain f k' where "fopen demo_calls [0x2F, 0x61] (\<lambda>i. if i = 0 then 0x77 else 0) [] = (Some f, k')"
    by (simp add: fopen_def demo_calls_def stdio_seek_def)
  with fopen_buffer_overrun [OF this] show ?thesis by blast
qed

text \<open>A byte 255 ends the output of \<^verbatim>\<open>fwrite\<close> although it has been stored, and the bytes behind it are dropped.\<close>

lemma fwrite_stops_at_255:
  assumes "buffered f" and "f_bfr_size f + 1 < f_bfr_cap f"
  shows "\<exists>f'. fwrite_loop S (0xFF # cs) i f k = Inr (i, f', k)"
proof -
  obtain b where b: "f_bfr f = Some b" "length b = unat (f_bfr_cap f)" "f_bfr_size f < f_bfr_cap f"
    using assms(1) by (auto simp: buffered_def)
  then have "unat (f_bfr_size f) < length b" by (simp add: word_less_nat_alt)
  moreover have "f_bfr_size f + 1 \<noteq> f_bfr_cap f" using assms(2) by auto
  ultimately show ?thesis using b(1) by (simp add: fputc_def EOF_def Let_def)
qed

end
