(* ===== verification/Libc_Exit.thy ===== *)
theory Libc_Exit
  imports Libc_Heap Libc_Stdio
begin

text \<open>
  \<^verbatim>\<open>libc/lib/init.c\<close>, \<^verbatim>\<open>libc/lib/stdlib.c\<close> and \<^verbatim>\<open>uninit_io\<close>: the start and the end of a program, composed of the C
  library's heap and streams. The destructors of the program and the system call that ends it are arguments.
\<close>

section \<open>Start\<close>

definition FILE_BYTES :: u32 where "FILE_BYTES = 24"

text \<open>The blocks of \<^verbatim>\<open>stdin\<close>, \<^verbatim>\<open>stdout\<close>, the buffer of \<^verbatim>\<open>stdout\<close> and \<^verbatim>\<open>stderr\<close>, in the order of their allocation.\<close>

definition init_std :: "'k sbrk_call \<Rightarrow> 'k process \<Rightarrow> (addr list \<times> 'k process) result" where
  "init_std sbrk p = mallocs sbrk [FILE_BYTES, FILE_BYTES, BUFSIZ, FILE_BYTES] (init_user_heap sbrk p)"

section \<open>Exit\<close>

fun user_frees :: "addr list \<Rightarrow> 'k process \<Rightarrow> 'k process result" where
  "user_frees [] p = Inr p"
| "user_frees (a # as) p = rbind (user_free a p) (user_frees as)"

definition uninit_io :: "addr list \<Rightarrow> 'k process \<Rightarrow> 'k process result" where
  "uninit_io blocks p = user_frees [blocks ! 0, blocks ! 2, blocks ! 1, blocks ! 3] p"

definition libc_exit :: "('k process \<Rightarrow> 'k process) \<Rightarrow> (u32 \<Rightarrow> 'k \<Rightarrow> 'k) \<Rightarrow> addr list \<Rightarrow> u32 \<Rightarrow> 'k process \<Rightarrow> 'k process result" where
  "libc_exit fini sys_exit blocks exit_code p =
     rbind (uninit_io blocks p) (\<lambda>p.
     (let p = fini p in Inr (p\<lparr>p_kern := sys_exit exit_code (p_kern p)\<rparr>)))"

section \<open>Output at exit\<close>

lemma ustore_kern [simp]: "p_kern (ustore p a w) = p_kern p"
  by (simp add: ustore_def)

lemma user_free_kern: "user_free a p = Inr p' \<Longrightarrow> p_kern p' = p_kern p"
  by (auto simp: user_free_def utier_set_def Let_def split: if_splits)

lemma user_frees_kern: "user_frees as p = Inr p' \<Longrightarrow> p_kern p' = p_kern p"
  by (induction as arbitrary: p) (auto dest: user_free_kern)

lemma fwrite_loop_kept:
  assumes "f_bfr f = Some b" and "length b = unat (f_bfr_cap f)" and "0x0A \<notin> set cs" and "0xFF \<notin> set cs"
    and "unat (f_bfr_size f) + length cs < length b"
  shows "\<exists>f'. fwrite_loop S cs i f k = Inr (i + of_nat (length cs), f', k)"
  using assms
proof (induction cs arbitrary: i f b)
  case (Cons c cs)
  define n where "n = unat (f_bfr_size f)"
  define f1 where "f1 = f\<lparr>f_bfr := Some (b[n := c]), f_bfr_size := f_bfr_size f + 1\<rparr>"
  have n: "Suc n < unat (f_bfr_cap f)" using Cons.prems(2,5) by (simp add: n_def)
  then have "Suc n < 0x100000000" using unat_u32_lt [of "f_bfr_cap f"] by linarith
  then have s: "unat (f_bfr_size f + 1) = Suc n" by (simp add: n_def unat_add_u32)
  have lf: "scast c = (0x0A :: u32) \<longleftrightarrow> c = 0x0A"
  proof
    assume "scast c = (0x0A :: u32)"
    then have "ucast (scast c :: u32) = (ucast (0x0A :: u32) :: u8)" by (rule arg_cong)
    then show "c = 0x0A" by (simp add: scast_byte)
  qed simp
  have "f_bfr_size f + 1 \<noteq> f_bfr_cap f" using s n by (auto dest: arg_cong [of _ _ unat])
  moreover have "scast c \<noteq> (0x0A :: u32)" using Cons.prems(3) by (simp add: lf)
  ultimately have "fputc S (scast c) f k = Inr (scast c, f1, k)"
    using Cons.prems(1,2) n by (simp add: fputc_def f1_def n_def scast_byte)
  moreover have "scast c \<noteq> EOF" using Cons.prems(4) by (simp add: scast_byte)
  moreover have "\<exists>f'. fwrite_loop S cs (i + 1) f1 k = Inr (i + 1 + of_nat (length cs), f', k)"
    using Cons.prems s by (intro Cons.IH [of _ "b[n := c]"]) (auto simp: f1_def n_def)
  ultimately show ?case by (auto simp: add.assoc)
qed simp

text \<open>
  Output that is still in the buffer of standard output when a program exits is lost: \<^verbatim>\<open>exit\<close> releases the buffer
  without handing it to the kernel. A program that puts a short text without a newline and exits with destructors
  that make no system call leaves the kernel as an exit without the text.
\<close>
theorem exit_loses_output:
  assumes "init_io pos raw = (si, so, se)" and "length raw = unat BUFSIZ" and "length s < unat BUFSIZ"
    and "0x0A \<notin> set s" and "0xFF \<notin> set s" and "\<And>q. p_kern (fini q) = p_kern q"
  shows "\<exists>f n. fputs S s so (p_kern p) = Inr (n, f, p_kern p) \<and>
    (\<forall>p'. libc_exit fini ex blocks code p = Inr p' \<longrightarrow> p_kern p' = ex code (p_kern p))"
proof -
  have so: "f_bfr so = Some raw" "f_bfr_cap so = BUFSIZ" "f_bfr_size so = 0" using assms(1) by (auto simp: init_io_def)
  have "length s < 8192" using assms(3) by (simp add: BUFSIZ_def)
  then have l: "unat (of_nat (length s) :: u32) = length s" by (simp add: unat_of_nat_u32)
  from fwrite_loop_kept [OF so(1) _ assms(4,5), of S 0 "p_kern p"] so assms(2,3) obtain f where
    "fwrite_loop S s 0 so (p_kern p) = Inr (of_nat (length s), f, p_kern p)" by auto
  then have "fputs S s so (p_kern p) = Inr (of_nat (length s) + 1, f, p_kern p)"
    using so(1) l by (simp add: fputs_def fwrite_def)
  moreover have "p_kern p' = ex code (p_kern p)" if "libc_exit fini ex blocks code p = Inr p'" for p'
    using that assms(6) by (auto simp: libc_exit_def uninit_io_def Let_def dest!: user_free_kern)
  ultimately show ?thesis by blast
qed

end
