(* ===== verification/Vfs.thy ===== *)
theory Vfs
  imports Muse_Prelude
begin

text \<open>
  \<^verbatim>\<open>src/common/vfs.c\<close>: mount points, path resolution and creation of files. Inodes, tree nodes and mount
  points are objects in stores indexed by address, 0 being null; the inode embedded in a tree node or
  mount point is referred to by its own address. A C string is the list of its characters, and a
  pointer into it the list of the characters from there on; stepping over the terminating NUL is an
  access outside the object. The function pointers of an inode, which file system drivers fill in,
  are arguments of the operations that call them.
\<close>

section \<open>Objects\<close>

datatype data_dir = DIR_READ | DIR_WRITE
datatype dev_type = DEV_CHAR | DEV_BLOCK

record vfs_inode =
  in_present :: bool
  in_refs :: u32
  in_type :: dev_type
  in_size :: u32
  in_backend_data :: addr
  in_first_child :: addr

record vfs_tnode =
  tn_name :: "u8 list"
  tn_inode :: addr
  tn_next :: addr
  tn_inode_id :: u32

record vfs_mount_point =
  mp_inode :: addr
  mp_path :: "u8 list"
  mp_next :: addr

record vfs =
  inodes :: "addr \<Rightarrow> vfs_inode"
  tnodes :: "addr \<Rightarrow> vfs_tnode"
  mounts :: "addr \<Rightarrow> vfs_mount_point"
  first_mount_point :: addr

section \<open>Mounting\<close>

text \<open>\<open>mp\<close> is the address \<^verbatim>\<open>kmalloc\<close> returned, \<open>ino\<close> that of the inode inside it, which receives a copy.\<close>

definition mount :: "addr \<Rightarrow> addr \<Rightarrow> vfs_inode \<Rightarrow> u8 list \<Rightarrow> vfs \<Rightarrow> addr \<times> vfs" where
  "mount mp ino inode path v =
     (mp, v\<lparr>inodes := (inodes v)(ino := inode),
            mounts := (mounts v)(mp := \<lparr>mp_inode = ino, mp_path = path,
              mp_next = if first_mount_point v \<noteq> 0 then first_mount_point v else 0\<rparr>),
            first_mount_point := mp\<rparr>)"

section \<open>Path resolution\<close>

text \<open>
  The loop that compares a path with a mount point's path: whether no character differed, and what is
  left of both when one of them ended or a difference was found.
\<close>

fun match_prefix :: "u8 list \<Rightarrow> u8 list \<Rightarrow> bool \<times> u8 list \<times> u8 list" where
  "match_prefix (c # path) (d # mpath) = (if c \<noteq> d then (False, c # path, d # mpath) else match_prefix path mpath)"
| "match_prefix path mpath = (True, path, mpath)"

definition mount_matches :: "u8 list \<Rightarrow> u8 list \<Rightarrow> u8 list option" where
  "mount_matches path mpath =
     (case match_prefix path mpath of (same, rest, mrest) \<Rightarrow> if mrest \<noteq> [] \<or> \<not> same then None else Some rest)"

partial_function (option) find_mount :: "vfs \<Rightarrow> u8 list \<Rightarrow> addr \<Rightarrow> (addr \<times> u8 list) option option" where
  "find_mount v path mp =
     (if mp = 0 then Some None
      else case mount_matches path (mp_path (mounts v mp)) of
             Some rest \<Rightarrow> Some (Some (mp, rest))
           | None \<Rightarrow> find_mount v path (mp_next (mounts v mp)))"

text \<open>The loop that compares a node's name with the characters from \<^verbatim>\<open>start\<close> on.\<close>

fun compare_name :: "u8 list \<Rightarrow> u8 list \<Rightarrow> bool result" where
  "compare_name [] start = Inr True"
| "compare_name (n # ns) (c # cs) = (if n \<noteq> c then Inr False else compare_name ns cs)"
| "compare_name (n # ns) [] = (if n \<noteq> 0 then Inr False else Inl OutOfBounds)"

definition SLASH :: u8 where "SLASH = 0x2F"

partial_function (option) find_tnode :: "vfs \<Rightarrow> u8 list \<Rightarrow> nat \<Rightarrow> addr \<Rightarrow> addr result option" where
  "find_tnode v start len tn =
     (if tn = 0 then Some (Inr 0)
      else case compare_name (tn_name (tnodes v tn)) start of
             Inl e \<Rightarrow> Some (Inl e)
           | Inr eq \<Rightarrow>
               if length (tn_name (tnodes v tn)) \<noteq> len \<or> \<not> eq then find_tnode v start len (tn_next (tnodes v tn))
               else Some (Inr tn))"

text \<open>
  The loop over the components of the path; \<open>register\<close> stands for the directory's \<^verbatim>\<open>register_inode\<close>, which
  is called for a node whose inode is not loaded.
\<close>

function open_loop :: "(addr \<Rightarrow> addr \<Rightarrow> vfs \<Rightarrow> vfs) \<Rightarrow> vfs \<Rightarrow> addr \<Rightarrow> u8 list \<Rightarrow> (addr \<times> vfs) result option" where
  "open_loop register v inode start =
     (let rest = dropWhile (\<lambda>c. c \<noteq> SLASH) start; len = length start - length rest in
      case find_tnode v start len (in_first_child (inodes v inode)) of
        None \<Rightarrow> None
      | Some (Inl e) \<Rightarrow> Some (Inl e)
      | Some (Inr tn) \<Rightarrow>
          if tn = 0 then Some (Inr (0, v))
          else let v' = (if \<not> in_present (inodes v (tn_inode (tnodes v tn))) then register inode tn v else v)
               in if rest = [] then Some (Inr (tn_inode (tnodes v' tn), v'))
                  else open_loop register v' (tn_inode (tnodes v' tn)) (tl rest))"
  by pat_completeness auto
termination
proof (relation "measure (\<lambda>(r, v, i, start). length start)", goal_cases)
  case (2 register v inode start rest)
  then have "rest \<noteq> []" "length rest \<le> length start" by (auto simp: length_dropWhile_le)
  then show ?case by (cases rest) auto
qed simp

definition vfs_open :: "(addr \<Rightarrow> addr \<Rightarrow> vfs \<Rightarrow> vfs) \<Rightarrow> u8 list \<Rightarrow> vfs \<Rightarrow> (addr \<times> vfs) result option" where
  "vfs_open register path v =
     (case find_mount v path (first_mount_point v) of
        None \<Rightarrow> None
      | Some None \<Rightarrow> Some (Inr (0, v))
      | Some (Some (mp, rest)) \<Rightarrow>
          if rest = [] then Some (Inl OutOfBounds)
          else open_loop register v (mp_inode (mounts v mp)) (tl rest))"

text \<open>
  \<^verbatim>\<open>vfs_create\<close>: \<open>dir_limit\<close> is the number of characters before the last slash; \<open>create\<close> stands for the
  directory's \<^verbatim>\<open>create_child_file\<close>. The buffer for the directory's path receives the first
  \<^verbatim>\<open>lookahead - dir_limit\<close> characters of the path.
\<close>

definition dir_limit :: "u8 list \<Rightarrow> nat" where
  "dir_limit path = (if SLASH \<in> set path then length path - Suc (length (takeWhile (\<lambda>c. c \<noteq> SLASH) (rev path))) else 0)"

definition vfs_create ::
  "(addr \<Rightarrow> addr \<Rightarrow> vfs \<Rightarrow> vfs) \<Rightarrow> (addr \<Rightarrow> u8 list \<Rightarrow> vfs \<Rightarrow> (addr \<times> vfs) result) \<Rightarrow> u8 list \<Rightarrow> vfs \<Rightarrow>
    (addr \<times> vfs) result option" where
  "vfs_create register create path v =
     (let dir_path_len = length path - dir_limit path; dir_path = take dir_path_len path in
      case vfs_open register dir_path v of
        None \<Rightarrow> None
      | Some (Inl e) \<Rightarrow> Some (Inl e)
      | Some (Inr (dir, v')) \<Rightarrow>
          if dir = 0 \<or> path = [] then Some (Inl OutOfBounds)
          else Some (create dir (drop (dir_limit path + 1) path) v'))"

declare open_loop.simps [simp del]

section \<open>The tree of a mounted file system\<close>

text \<open>The nodes in a directory's list, and the resolution of a sequence of names.\<close>

primrec tn_chain :: "(addr \<Rightarrow> vfs_tnode) \<Rightarrow> addr \<Rightarrow> addr list \<Rightarrow> bool" where
  "tn_chain m p [] \<longleftrightarrow> p = 0"
| "tn_chain m p (t # ts) \<longleftrightarrow> p = t \<and> t \<noteq> 0 \<and> 0 \<notin> set (tn_name (m t)) \<and> tn_chain m (tn_next (m t)) ts"

definition entry :: "vfs \<Rightarrow> addr \<Rightarrow> u8 list \<Rightarrow> addr option \<Rightarrow> bool" where
  "entry v dir name res \<longleftrightarrow> (\<exists>ts. tn_chain (tnodes v) (in_first_child (inodes v dir)) ts \<and>
     res = find (\<lambda>t. tn_name (tnodes v t) = name) ts)"

text \<open>\<open>resolves v dir names res\<close>: the inode at the end of the path, 0 if some name is not there.\<close>

inductive resolves :: "vfs \<Rightarrow> addr \<Rightarrow> u8 list list \<Rightarrow> addr \<Rightarrow> bool" for v :: vfs where
  missing: "entry v dir n None \<Longrightarrow> resolves v dir (n # ns) 0"
| found: "entry v dir n (Some t) \<Longrightarrow> in_present (inodes v (tn_inode (tnodes v t))) \<Longrightarrow>
    resolves v dir [n] (tn_inode (tnodes v t))"
| below: "entry v dir n (Some t) \<Longrightarrow> in_present (inodes v (tn_inode (tnodes v t))) \<Longrightarrow>
    resolves v (tn_inode (tnodes v t)) (n' # ns) res \<Longrightarrow> resolves v dir (n # n' # ns) res"

fun join_names :: "u8 list list \<Rightarrow> u8 list" where
  "join_names [] = []"
| "join_names [n] = n"
| "join_names (n # ns) = n @ SLASH # join_names ns"

definition good_name :: "u8 list \<Rightarrow> bool" where
  "good_name n \<longleftrightarrow> SLASH \<notin> set n \<and> 0 \<notin> set n"

lemma compare_name_prefix:
  assumes "0 \<notin> set n"
  shows "compare_name n s = Inr (take (length n) s = n)"
  using assms by (induction n s rule: compare_name.induct) auto

lemma name_eq_iff:
  assumes "SLASH \<notin> set n" and "rest = [] \<or> hd rest = SLASH"
  shows "length m = length n \<and> take (length m) (n @ rest) = m \<longleftrightarrow> m = n"
  by (metis append_eq_append_conv append_take_drop_id take_all_iff le_refl append_eq_conv_conj)

lemma find_tnode_chain:
  assumes "tn_chain (tnodes v) p ts"
  shows "find_tnode v (n @ rest) (length n) p =
    Some (Inr (case find (\<lambda>t. tn_name (tnodes v t) = n) ts of None \<Rightarrow> 0 | Some t \<Rightarrow> t))"
  using assms
proof (induction ts arbitrary: p)
  case Nil
  then show ?case by (simp add: find_tnode.simps)
next
  case (Cons t ts)
  then have t: "p = t" "t \<noteq> 0" "0 \<notin> set (tn_name (tnodes v t))" by auto
  have "length (tn_name (tnodes v t)) \<noteq> length n \<or> take (length (tn_name (tnodes v t))) (n @ rest) \<noteq> tn_name (tnodes v t)
      \<longleftrightarrow> tn_name (tnodes v t) \<noteq> n" by auto
  with Cons t compare_name_prefix [OF t(3), of "n @ rest"] show ?case
    by (subst find_tnode.simps) auto
qed

lemma chain_found: "tn_chain m p ts \<Longrightarrow> find P ts = Some t \<Longrightarrow> t \<noteq> 0"
  by (induction ts arbitrary: p) (auto split: if_splits)

lemma open_loop_entry:
  assumes "entry v dir n res" and "SLASH \<notin> set n" and "rest = [] \<or> hd rest = SLASH"
  shows "open_loop register v dir (n @ rest) = (case res of
      None \<Rightarrow> Some (Inr (0, v))
    | Some t \<Rightarrow>
        let v' = (if \<not> in_present (inodes v (tn_inode (tnodes v t))) then register dir t v else v)
        in if rest = [] then Some (Inr (tn_inode (tnodes v' t), v'))
           else open_loop register v' (tn_inode (tnodes v' t)) (tl rest))"
proof -
  obtain ts where ts: "tn_chain (tnodes v) (in_first_child (inodes v dir)) ts"
    "res = find (\<lambda>t. tn_name (tnodes v t) = n) ts" using assms(1) by (auto simp: entry_def)
  have dw: "dropWhile (\<lambda>c. c \<noteq> SLASH) (n @ rest) = rest"
    using assms(2,3) by (cases rest) (auto simp: dropWhile_append3)
  show ?thesis
    using find_tnode_chain [OF ts(1), of n rest] chain_found [OF ts(1)]
    by (subst open_loop.simps) (auto simp: dw ts(2) Let_def split: option.splits)
qed

lemma open_loop_resolves:
  "resolves v dir names res \<Longrightarrow> \<forall>n \<in> set names. SLASH \<notin> set n \<Longrightarrow>
    open_loop register v dir (join_names names) = Some (Inr (res, v))"
proof (induction rule: resolves.induct)
  case (missing dir n ns)
  obtain rest where "join_names (n # ns) = n @ rest" "rest = [] \<or> hd rest = SLASH"
    by (cases ns) auto
  with missing open_loop_entry [of v dir n None rest register] show ?case by simp
next
  case (found dir n t)
  then show ?case using open_loop_entry [of v dir n "Some t" "[]" register] by (simp add: Let_def)
next
  case (below dir n t n' ns res)
  then show ?case
    using open_loop_entry [of v dir n "Some t" "SLASH # join_names (n' # ns)" register] by (simp add: Let_def)
qed

lemma match_prefix_self: "match_prefix (m @ rest) m = (True, rest, [])"
  by (induction m) (auto intro: match_prefix.elims)

primrec mp_chain :: "(addr \<Rightarrow> vfs_mount_point) \<Rightarrow> addr \<Rightarrow> addr list \<Rightarrow> bool" where
  "mp_chain m p [] \<longleftrightarrow> p = 0"
| "mp_chain m p (q # qs) \<longleftrightarrow> p = q \<and> q \<noteq> 0 \<and> mp_chain m (mp_next (m q)) qs"

text \<open>A mount point serves every path that starts with its own path, whatever character follows.\<close>

definition serves :: "vfs \<Rightarrow> u8 list \<Rightarrow> addr \<Rightarrow> bool" where
  "serves v path mp \<longleftrightarrow> take (length (mp_path (mounts v mp))) path = mp_path (mounts v mp)"

lemma mount_matches_iff:
  "mount_matches path m = (if take (length m) path = m then Some (drop (length m) path) else None)"
  by (induction path m rule: match_prefix.induct) (auto simp: mount_matches_def split: prod.splits if_splits)

lemma mount_matches_serves:
  "mount_matches path (mp_path (mounts v q)) =
    (if serves v path q then Some (drop (length (mp_path (mounts v q))) path) else None)"
  by (simp add: mount_matches_iff serves_def)

lemma find_mount_chain:
  "mp_chain (mounts v) p qs \<Longrightarrow> find_mount v path p =
    Some (map_option (\<lambda>mp. (mp, drop (length (mp_path (mounts v mp))) path)) (find (serves v path) qs))"
proof (induction qs arbitrary: p)
  case Nil
  then show ?case by (simp add: find_mount.simps)
next
  case (Cons q qs)
  then show ?case by (subst find_mount.simps) (auto simp: mount_matches_serves)
qed

lemma mount_chain:
  assumes "mp_chain (mounts v) (first_mount_point v) qs" and "mp \<noteq> 0" and "mp \<notin> set qs"
    and "mount mp ino inode path v = (r, v')"
  shows "mp_chain (mounts v') (first_mount_point v') (mp # qs)"
proof -
  have "mp_chain ((mounts v)(mp := x)) p qs = mp_chain (mounts v) p qs" for x p
    using assms(3) by (induction qs arbitrary: p) auto
  then show ?thesis using assms by (auto simp: mount_def)
qed

section \<open>Correctness of path resolution\<close>


text \<open>A file system mounted at \<open>/m\<close> with a file \<open>f\<close>.\<close>

definition blank_inode :: vfs_inode where
  "blank_inode = \<lparr>in_present = True, in_refs = 0, in_type = DEV_BLOCK, in_size = 0, in_backend_data = 0,
     in_first_child = 0\<rparr>"

definition vfs_example :: vfs where
  "vfs_example = \<lparr>inodes = (\<lambda>_. blank_inode)(0x10 := blank_inode\<lparr>in_first_child := 0x20\<rparr>),
     tnodes = (\<lambda>_. \<lparr>tn_name = [0x66], tn_inode = 0x30, tn_next = 0, tn_inode_id = 5\<rparr>),
     mounts = (\<lambda>_. \<lparr>mp_inode = 0x10, mp_path = [0x2F, 0x6D], mp_next = 0\<rparr>), first_mount_point = 0x8\<rparr>"

lemma vfs_example_resolves: "resolves vfs_example 0x10 [[0x66]] 0x30"
proof -
  have "entry vfs_example 0x10 [0x66] (Some 0x20)"
    by (auto simp: entry_def vfs_example_def blank_inode_def intro!: exI [of _ "[0x20]"])
  moreover have "in_present (inodes vfs_example (tn_inode (tnodes vfs_example 0x20)))"
    by (simp add: vfs_example_def blank_inode_def)
  ultimately have "resolves vfs_example 0x10 [[0x66]] (tn_inode (tnodes vfs_example 0x20))" by (rule resolves.found)
  then show ?thesis by (simp add: vfs_example_def)
qed

lemma vfs_example_mount:
  "mp_chain (mounts vfs_example) (first_mount_point vfs_example) [0x8]"
  "mp_path (mounts vfs_example 8) = [0x2F, 0x6D]" "mp_inode (mounts vfs_example 8) = 0x10"
  by (simp_all add: vfs_example_def)


lemma vfs_open_single_mount:
  assumes "mp_chain (mounts v) (first_mount_point v) [mp]"
  shows "vfs_open register (mp_path (mounts v mp) @ c # rest) v = open_loop register v (mp_inode (mounts v mp)) rest"
    and "vfs_open register (mp_path (mounts v mp)) v = Some (Inl OutOfBounds)"
  using find_mount_chain [OF assms, of "mp_path (mounts v mp) @ c # rest"]
    find_mount_chain [OF assms, of "mp_path (mounts v mp)"]
  by (simp_all add: vfs_open_def serves_def)

text \<open>
  The end of a mount point's path is not compared with a component boundary: any character may
  stand where the slash should be, with the same result; and a path that ends with the mount point's
  path makes \<^verbatim>\<open>vfs_open\<close> read past the end of the string.
\<close>
theorem vfs_open_boundary:
  assumes "mp_chain (mounts v) (first_mount_point v) [mp]"
  shows "vfs_open register (mp_path (mounts v mp) @ c # rest) v =
      open_loop register v (mp_inode (mounts v mp)) rest \<and>
    vfs_open register (mp_path (mounts v mp)) v = Some (Inl OutOfBounds)"
  using vfs_open_single_mount [OF assms] by simp

theorem vfs_open_boundary_witness:
  "vfs_open (\<lambda>_ _ v. v) [0x2F, 0x6D, 0x78, 0x66] vfs_example = Some (Inr (0x30, vfs_example))"
proof -
  have "open_loop (\<lambda>_ _ v. v) vfs_example 0x10 [0x66] = Some (Inr (0x30, vfs_example))"
    using open_loop_resolves [OF vfs_example_resolves, of "\<lambda>_ _ v. v"] by (simp add: SLASH_def)
  with vfs_open_boundary [OF vfs_example_mount(1), of "\<lambda>_ _ v. v" "0x78" "[0x66]"]
  show ?thesis by (simp add: vfs_example_mount)
qed

lemma dir_limit_split: "SLASH \<notin> set name \<Longrightarrow> dir_limit (d @ SLASH # name) = length d"
proof -
  assume "SLASH \<notin> set name"
  then have tw: "takeWhile (\<lambda>c. c \<noteq> SLASH) (rev name) = rev name"
    by (auto simp: takeWhile_eq_all_conv)
  show ?thesis by (simp add: dir_limit_def takeWhile_tail tw)
qed

text \<open>
  \<^verbatim>\<open>vfs_create\<close> does not open the directory of its path but the prefix of the path that is as long as
  the slash and the file name, \<^verbatim>\<open>lookahead - dir_limit\<close> being the length of the end of the path.
\<close>
theorem vfs_create_directory:
  assumes "SLASH \<notin> set name"
  shows "vfs_create register create (d @ SLASH # name) v =
    (case vfs_open register (take (length name + 1) (d @ SLASH # name)) v of
       None \<Rightarrow> None
     | Some (Inl e) \<Rightarrow> Some (Inl e)
     | Some (Inr (dir, v')) \<Rightarrow> if dir = 0 then Some (Inl OutOfBounds) else Some (create dir name v'))"
  using assms by (simp add: vfs_create_def dir_limit_split split: option.splits sum.splits)

theorem vfs_create_directory_witness:
  "vfs_create (\<lambda>_ _ v. v) (\<lambda>_ _ v. Inr (0x40, v)) [0x2F, 0x6D, 0x2F, 0x66, 0x2F, 0x67] vfs_example =
    Some (Inl OutOfBounds)"
proof -
  have "SLASH \<notin> set [0x67]" by (simp add: SLASH_def)
  from vfs_create_directory [OF this, of "\<lambda>_ _ v. v" "\<lambda>_ _ v. Inr (0x40, v)" "[0x2F, 0x6D, 0x2F, 0x66]" vfs_example]
    vfs_open_single_mount(2) [OF vfs_example_mount(1), of "\<lambda>_ _ v. v"]
  show ?thesis by (simp add: SLASH_def vfs_example_mount)
qed

end
