(* ===== verification/Ata.thy ===== *)
theory Ata
  imports Vfs
begin

unbundle bit_operations_syntax

text \<open>
  \<^verbatim>\<open>src/common/ata.c\<close>: the driver for ATA drives in programmed-I/O mode. The hardware behind the I/O
  instructions of \<^verbatim>\<open>src/common/io.c\<close> is an argument: a record of what each instruction returns and
  does to the state of the hardware. The last sections state what the driver achieves on a drive
  that follows the protocol.
\<close>

section \<open>I/O instructions\<close>

record 'h ports =
  outb :: "u16 \<Rightarrow> u8 \<Rightarrow> 'h \<Rightarrow> 'h"
  inb :: "u16 \<Rightarrow> 'h \<Rightarrow> u8 \<times> 'h"
  outw :: "u16 \<Rightarrow> u16 \<Rightarrow> 'h \<Rightarrow> 'h"
  inw :: "u16 \<Rightarrow> 'h \<Rightarrow> u16 \<times> 'h"
  outl :: "u16 \<Rightarrow> u32 \<Rightarrow> 'h \<Rightarrow> 'h"
  inl :: "u16 \<Rightarrow> 'h \<Rightarrow> u32 \<times> 'h"

definition io_wait :: "'h ports \<Rightarrow> 'h \<Rightarrow> 'h" where
  "io_wait P h = outb P 0x80 0 h"

section \<open>Drives and partitions\<close>

datatype hal_drive_res = DRV_SUCCESS | DRV_ERR_NO_DRIVE | DRV_ERR_NO_SUPPORTED_MODE | DRV_ERR_IO_FAILED |
  DRV_ERR_BAD_ARGS | DRV_ERR_TIMEOUT

record ata_dev =
  ad_bus :: u16
  ad_drive :: u8
  ad_lba_28_sector_count :: u32
  ad_lba28 :: bool
  ad_lba48 :: bool

definition MAX_POLLS :: nat where "MAX_POLLS = 10000000"
definition SECTOR_SIZE :: u32 where "SECTOR_SIZE = 512"

definition ATA_BUS_PRIMARY :: u16 where "ATA_BUS_PRIMARY = 0x1F0"
definition ATA_BUS_SECONDARY :: u16 where "ATA_BUS_SECONDARY = 0x170"
definition ATA_DRIVE_MASTER :: u8 where "ATA_DRIVE_MASTER = 0xA0"
definition ATA_DRIVE_SLAVE :: u8 where "ATA_DRIVE_SLAVE = 0xB0"

definition ATA_REG_DATA :: u16 where "ATA_REG_DATA = 0"
definition ATA_REG_ERR :: u16 where "ATA_REG_ERR = 1"
definition ATA_REG_SECT_CNT :: u16 where "ATA_REG_SECT_CNT = 2"
definition ATA_REG_LBA_LO :: u16 where "ATA_REG_LBA_LO = 3"
definition ATA_REG_LBA_MID :: u16 where "ATA_REG_LBA_MID = 4"
definition ATA_REG_LBA_HI :: u16 where "ATA_REG_LBA_HI = 5"
definition ATA_REG_DRIVE :: u16 where "ATA_REG_DRIVE = 6"
definition ATA_REG_STAT :: u16 where "ATA_REG_STAT = 7"
definition ATA_REG_CMD :: u16 where "ATA_REG_CMD = 7"
definition ATA_CTRL_REG_CTRL :: u16 where "ATA_CTRL_REG_CTRL = 0"

definition ATA_CMD_IDENTIFY :: u8 where "ATA_CMD_IDENTIFY = 0xEC"
definition ATA_CMD_READ_SECTORS :: u8 where "ATA_CMD_READ_SECTORS = 0x20"
definition ATA_CMD_WRITE_SECTORS :: u8 where "ATA_CMD_WRITE_SECTORS = 0x30"
definition ATA_CMD_FLUSH :: u8 where "ATA_CMD_FLUSH = 0xE7"

definition ATA_FLAG_BSY :: u8 where "ATA_FLAG_BSY = 0x80"
definition ATA_FLAG_ERR :: u8 where "ATA_FLAG_ERR = 0x01"
definition ATA_FLAG_DRIVE_FLT :: u8 where "ATA_FLAG_DRIVE_FLT = 0x20"
definition ATA_FLAG_DRQ :: u8 where "ATA_FLAG_DRQ = 0x08"
definition ATA_FLAG_NIEN :: u8 where "ATA_FLAG_NIEN = 0x02"

lemmas ata_regs = ATA_REG_DATA_def ATA_REG_ERR_def ATA_REG_SECT_CNT_def ATA_REG_LBA_LO_def ATA_REG_LBA_MID_def
  ATA_REG_LBA_HI_def ATA_REG_DRIVE_def ATA_REG_STAT_def ATA_REG_CMD_def
lemmas ata_cmds = ATA_CMD_IDENTIFY_def ATA_CMD_READ_SECTORS_def ATA_CMD_WRITE_SECTORS_def ATA_CMD_FLUSH_def
lemmas ata_flags = ATA_FLAG_BSY_def ATA_FLAG_ERR_def ATA_FLAG_DRIVE_FLT_def ATA_FLAG_DRQ_def ATA_FLAG_NIEN_def

text \<open>A partition of a drive; \<^verbatim>\<open>limit\<close> is a sector number of the drive like \<^verbatim>\<open>start\<close>.\<close>

record partition =
  pt_dev :: ata_dev
  pt_start :: u32
  pt_limit :: u32

section \<open>Commands\<close>

definition detect_float :: "'h ports \<Rightarrow> u16 \<Rightarrow> 'h \<Rightarrow> bool \<times> 'h" where
  "detect_float P bus h = (case inb P (bus + ATA_REG_STAT) h of (s, h) \<Rightarrow> (s = 0xFF, h))"

text \<open>The polling loops count their rounds and give up at \<^verbatim>\<open>MAX_POLLS\<close>.\<close>

function poll_data_loop :: "'h ports \<Rightarrow> ata_dev \<Rightarrow> nat \<Rightarrow> 'h \<Rightarrow> hal_drive_res \<times> 'h" where
  "poll_data_loop P dev polls h =
     (if polls + 1 \<ge> MAX_POLLS then (DRV_ERR_TIMEOUT, h)
      else case inb P (ad_bus dev + ATA_REG_STAT) h of (status, h) \<Rightarrow>
        if status AND ATA_FLAG_BSY \<noteq> 0 then poll_data_loop P dev (polls + 1) h
        else if status AND ATA_FLAG_ERR \<noteq> 0 \<or> status AND ATA_FLAG_DRIVE_FLT \<noteq> 0 then (DRV_ERR_IO_FAILED, h)
        else if status AND ATA_FLAG_DRQ \<noteq> 0 then (DRV_SUCCESS, h)
        else poll_data_loop P dev (polls + 1) h)"
  by pat_completeness auto
termination by (relation "measure (\<lambda>(P, d, n, h). MAX_POLLS - n)") auto

definition poll_data :: "'h ports \<Rightarrow> ata_dev \<Rightarrow> 'h \<Rightarrow> hal_drive_res \<times> 'h" where
  "poll_data P dev h = poll_data_loop P dev 0 h"

definition delay_400ns :: "'h ports \<Rightarrow> ata_dev \<Rightarrow> 'h \<Rightarrow> 'h" where
  "delay_400ns P dev h = ((\<lambda>h. snd (inb P (ad_bus dev + ATA_REG_STAT) h)) ^^ 15) h"

text \<open>Waiting while one of the \<open>flags\<close> is set.\<close>

function wait_clear :: "'h ports \<Rightarrow> u16 \<Rightarrow> u8 \<Rightarrow> nat \<Rightarrow> 'h \<Rightarrow> hal_drive_res \<times> 'h" where
  "wait_clear P port flags polls h =
     (case inb P port h of (status, h) \<Rightarrow>
        if status AND flags \<noteq> 0
        then if polls + 1 \<ge> MAX_POLLS then (DRV_ERR_TIMEOUT, h) else wait_clear P port flags (polls + 1) h
        else (DRV_SUCCESS, h))"
  by pat_completeness auto
termination by (relation "measure (\<lambda>(P, p, f, n, h). MAX_POLLS - n)") auto

declare poll_data_loop.simps [simp del] wait_clear.simps [simp del]

definition select_region :: "'h ports \<Rightarrow> ata_dev \<Rightarrow> u32 \<Rightarrow> u8 \<Rightarrow> 'h \<Rightarrow> hal_drive_res \<times> 'h" where
  "select_region P dev lba sector_count h =
     (case wait_clear P (ad_bus dev + ATA_REG_STAT) (ATA_FLAG_BSY OR ATA_FLAG_DRQ) 0 h of (res, h) \<Rightarrow>
      if res \<noteq> DRV_SUCCESS then (res, h)
      else let h = outb P (ad_bus dev + ATA_REG_DRIVE) (ad_drive dev OR (ucast (drop_bit 24 lba) AND 0xF) OR 0xE0) h;
               h = delay_400ns P dev h;
               (e, h) = inb P (ad_bus dev + ATA_REG_ERR) h;
               (s, h) = inb P (ad_bus dev + ATA_REG_STAT) h
           in if e OR (s AND (ATA_FLAG_BSY OR ATA_FLAG_DRQ)) \<noteq> 0 then (DRV_ERR_IO_FAILED, h)
              else (DRV_SUCCESS,
                outb P (ad_bus dev + ATA_REG_LBA_HI) (ucast (drop_bit 16 lba))
                (outb P (ad_bus dev + ATA_REG_LBA_MID) (ucast (drop_bit 8 lba))
                (outb P (ad_bus dev + ATA_REG_LBA_LO) (ucast lba)
                (outb P (ad_bus dev + ATA_REG_SECT_CNT) sector_count h)))))"

definition flush_cache :: "'h ports \<Rightarrow> ata_dev \<Rightarrow> 'h \<Rightarrow> hal_drive_res \<times> 'h" where
  "flush_cache P dev h =
     wait_clear P (ad_bus dev + ATA_REG_STAT) ATA_FLAG_BSY 0 (outb P (ad_bus dev + ATA_REG_CMD) ATA_CMD_FLUSH h)"

text \<open>One word of the buffer in either direction.\<close>

definition xfer_word :: "'h ports \<Rightarrow> ata_dev \<Rightarrow> data_dir \<Rightarrow> nat \<Rightarrow> u16 list \<times> 'h \<Rightarrow> (u16 list \<times> 'h) result" where
  "xfer_word P dev dir j st =
     (case st of (data_w, h) \<Rightarrow>
        if length data_w \<le> j then Inl OutOfBounds
        else case dir of
               DIR_READ \<Rightarrow> (case inw P (ad_bus dev + ATA_REG_DATA) h of (w, h) \<Rightarrow> Inr (data_w[j := w], h))
             | DIR_WRITE \<Rightarrow> Inr (data_w, outw P (ad_bus dev + ATA_REG_DATA) (data_w ! j) h))"

text \<open>The loop over the sectors, which a failed poll leaves.\<close>

fun xfer_sectors :: "'h ports \<Rightarrow> ata_dev \<Rightarrow> data_dir \<Rightarrow> nat list \<Rightarrow> u16 list \<times> 'h \<Rightarrow>
    (hal_drive_res \<times> u16 list \<times> 'h) result" where
  "xfer_sectors P dev dir [] (data_w, h) = Inr (DRV_SUCCESS, data_w, h)"
| "xfer_sectors P dev dir (i # is) (data_w, h) =
     (case poll_data P dev h of (res, h) \<Rightarrow>
        if res \<noteq> DRV_SUCCESS then Inr (res, data_w, h)
        else rbind (rfold (xfer_word P dev dir) [i * 256..<i * 256 + 256] (data_w, h)) (\<lambda>(data_w, h).
             xfer_sectors P dev dir is (data_w, delay_400ns P dev h)))"

definition ata_transfer :: "'h ports \<Rightarrow> partition \<Rightarrow> u32 \<Rightarrow> u8 \<Rightarrow> u16 list \<Rightarrow> data_dir \<Rightarrow> 'h \<Rightarrow>
    (hal_drive_res \<times> u16 list \<times> 'h) result" where
  "ata_transfer P part lba_offset sector_count data_w dir h =
     (let lba = lba_offset + pt_start part; dev = pt_dev part in
      if lba \<ge> pt_limit part then Inr (DRV_ERR_BAD_ARGS, data_w, h)
      else if \<not> ad_lba28 dev then Inr (DRV_ERR_NO_SUPPORTED_MODE, data_w, h)
      else case select_region P dev lba sector_count h of (res, h) \<Rightarrow>
        if res \<noteq> DRV_SUCCESS then Inr (res, data_w, h)
        else let cmd = (case dir of DIR_READ \<Rightarrow> ATA_CMD_READ_SECTORS | DIR_WRITE \<Rightarrow> ATA_CMD_WRITE_SECTORS);
                 h = outb P (ad_bus dev + ATA_REG_CMD) cmd h;
                 h = ((\<lambda>h. snd (inb P (ad_bus dev + ATA_REG_STAT) h)) ^^ 4) h
             in rbind (xfer_sectors P dev dir [0..<unat sector_count] (data_w, h)) (\<lambda>(res, data_w, h).
                if res \<noteq> DRV_SUCCESS then Inr (res, data_w, h)
                else case flush_cache P dev h of (res, h) \<Rightarrow>
                  if res \<noteq> DRV_SUCCESS then Inr (res, data_w, h)
                  else case inb P (ad_bus dev + ATA_REG_STAT) h of (status, h) \<Rightarrow>
                    if status AND (ATA_FLAG_ERR OR ATA_FLAG_DRIVE_FLT) \<noteq> 0 then Inr (DRV_ERR_IO_FAILED, data_w, h)
                    else Inr (DRV_SUCCESS, data_w, h)))"

section \<open>Detection\<close>

text \<open>Waiting with the bound of \<^verbatim>\<open>detect_drive\<close>, which gives up one round later than the others.\<close>

function detect_wait :: "('h \<Rightarrow> bool \<times> 'h) \<Rightarrow> nat \<Rightarrow> 'h \<Rightarrow> bool \<times> 'h" where
  "detect_wait busy polls h =
     (case busy h of (b, h) \<Rightarrow>
        if b then if polls + 1 > MAX_POLLS then (False, h) else detect_wait busy (polls + 1) h else (True, h))"
  by pat_completeness auto
termination by (relation "measure (\<lambda>(f, n, h). Suc MAX_POLLS - n)") auto

definition identify_word :: "'h ports \<Rightarrow> u16 \<Rightarrow> nat \<Rightarrow> ata_dev \<times> 'h \<Rightarrow> ata_dev \<times> 'h" where
  "identify_word P bus i st =
     (case st of (dev, h) \<Rightarrow> case inw P (bus + ATA_REG_DATA) h of (data, h) \<Rightarrow>
        let dev = (if i = 83 \<and> data AND 0x400 \<noteq> 0 then dev\<lparr>ad_lba48 := True\<rparr> else dev);
            dev = (if i = 60 then dev\<lparr>ad_lba_28_sector_count := ucast data\<rparr> else dev);
            dev = (if i = 61
              then let dev = dev\<lparr>ad_lba_28_sector_count := ad_lba_28_sector_count dev OR push_bit 16 (ucast data)\<rparr>
                   in if ad_lba_28_sector_count dev \<noteq> 0 then dev\<lparr>ad_lba28 := True\<rparr> else dev
              else dev)
        in (dev, h))"

text \<open>\<open>dev0\<close> is what the memory of the new device held; the flags are only ever set.\<close>

definition detect_drive :: "'h ports \<Rightarrow> u16 \<Rightarrow> u8 \<Rightarrow> ata_dev \<Rightarrow> 'h \<Rightarrow> ata_dev option \<times> 'h" where
  "detect_drive P bus drive dev0 h =
     (let h = outb P (bus + ATA_REG_DRIVE) drive h;
          h = fold (\<lambda>port. outb P port 0)
            [bus + ATA_REG_SECT_CNT, bus + ATA_REG_LBA_LO, bus + ATA_REG_LBA_MID, bus + ATA_REG_LBA_HI] h;
          h = outb P (bus + ATA_REG_CMD) ATA_CMD_IDENTIFY h;
          (s, h) = inb P (bus + ATA_REG_STAT) h
      in if s = 0 then (None, h)
         else case detect_wait (\<lambda>h. case inb P (bus + ATA_REG_STAT) h of (s, h) \<Rightarrow> (s AND ATA_FLAG_BSY \<noteq> 0, h)) 0 h of
           (ok, h) \<Rightarrow>
             if \<not> ok then (None, h)
             else case inb P (bus + ATA_REG_LBA_MID) h of (a, h) \<Rightarrow>
               if a \<noteq> 0 then (None, h)
               else case inb P (bus + ATA_REG_LBA_HI) h of (b, h) \<Rightarrow>
                 if b \<noteq> 0 then (None, h)
                 else case detect_wait (\<lambda>h. case inb P (bus + ATA_REG_STAT) h of (s, h) \<Rightarrow>
                        if s AND ATA_FLAG_DRQ \<noteq> 0 then (False, h)
                        else case inb P (bus + ATA_REG_STAT) h of (s, h) \<Rightarrow> (s AND ATA_FLAG_ERR = 0, h)) 0 h of
                   (ok, h) \<Rightarrow>
                     if \<not> ok then (None, h)
                     else case inb P (bus + ATA_REG_STAT) h of (s, h) \<Rightarrow>
                       if s AND 1 \<noteq> 0 then (None, h)
                       else let (dev, h) = fold (identify_word P bus) [0..<256]
                                  (dev0\<lparr>ad_bus := bus, ad_drive := drive\<rparr>, h);
                                (c, h) = inb P (bus + ATA_CTRL_REG_CTRL) h
                            in (Some dev, outb P (bus + ATA_CTRL_REG_CTRL) (c OR ATA_FLAG_NIEN) h))"

definition detect_bus :: "'h ports \<Rightarrow> u16 \<Rightarrow> ata_dev \<Rightarrow> (ata_dev \<Rightarrow> 'h \<Rightarrow> 'h) \<Rightarrow> 'h \<Rightarrow> 'h" where
  "detect_bus P bus dev0 init_gpt h =
     (case detect_float P bus h of (fl, h) \<Rightarrow>
        if fl then h
        else let (d, h) = detect_drive P bus ATA_DRIVE_MASTER dev0 h;
                 h = (case d of Some dev \<Rightarrow> init_gpt dev h | None \<Rightarrow> h);
                 (d, h) = detect_drive P bus ATA_DRIVE_SLAVE dev0 h
             in case d of Some dev \<Rightarrow> init_gpt dev h | None \<Rightarrow> h)"

definition init_ata :: "'h ports \<Rightarrow> u8 \<Rightarrow> ata_dev \<Rightarrow> (ata_dev \<Rightarrow> 'h \<Rightarrow> 'h) \<Rightarrow> 'h \<Rightarrow> 'h" where
  "init_ata P prog_if dev0 init_gpt h =
     (let h = (if prog_if AND 1 = 0 then detect_bus P ATA_BUS_PRIMARY dev0 init_gpt h else h)
      in if prog_if AND 4 = 0 then detect_bus P ATA_BUS_SECONDARY dev0 init_gpt h else h)"

section \<open>A drive\<close>

text \<open>
  A drive on the bus at port \<open>b\<close> that follows the protocol without delays or errors: sectors of 256
  words, the registers for count and sector number, the words it has yet to deliver and those it has
  yet to receive.
\<close>

record ide =
  ide_sectors :: "nat \<Rightarrow> u16 list"
  ide_cnt :: u8
  ide_lo :: u8
  ide_mid :: u8
  ide_hi :: u8
  ide_drv :: u8
  ide_out :: "u16 list"
  ide_got :: "u16 list"
  ide_want :: nat

definition ide_lba :: "ide \<Rightarrow> nat" where
  "ide_lba d = unat (ucast (ide_lo d) OR push_bit 8 (ucast (ide_mid d)) OR push_bit 16 (ucast (ide_hi d)) OR
     push_bit 24 (ucast (ide_drv d AND 0xF)) :: u32)"

text \<open>Writing \<open>n\<close> sectors of words.\<close>

definition put_sectors :: "nat \<Rightarrow> nat \<Rightarrow> u16 list \<Rightarrow> (nat \<Rightarrow> u16 list) \<Rightarrow> nat \<Rightarrow> u16 list" where
  "put_sectors lba n ws f k = (if lba \<le> k \<and> k < lba + n then take 256 (drop (256 * (k - lba)) ws) else f k)"

definition get_sectors :: "nat \<Rightarrow> nat \<Rightarrow> (nat \<Rightarrow> u16 list) \<Rightarrow> u16 list" where
  "get_sectors lba n f = concat (map f [lba..<lba + n])"

definition ide_outb :: "u16 \<Rightarrow> u16 \<Rightarrow> u8 \<Rightarrow> ide \<Rightarrow> ide" where
  "ide_outb b port v d =
     (let r = port - b in
      if r = 2 then d\<lparr>ide_cnt := v\<rparr> else if r = 3 then d\<lparr>ide_lo := v\<rparr> else if r = 4 then d\<lparr>ide_mid := v\<rparr>
      else if r = 5 then d\<lparr>ide_hi := v\<rparr> else if r = 6 then d\<lparr>ide_drv := v\<rparr>
      else if r = 7 \<and> v = 0x20 then d\<lparr>ide_out := get_sectors (ide_lba d) (unat (ide_cnt d)) (ide_sectors d)\<rparr>
      else if r = 7 \<and> v = 0x30 then d\<lparr>ide_got := [], ide_want := 256 * unat (ide_cnt d)\<rparr>
      else d)"

definition ide_inb :: "u16 \<Rightarrow> u16 \<Rightarrow> ide \<Rightarrow> u8 \<times> ide" where
  "ide_inb b port d = (if port - b = 7 then if ide_out d \<noteq> [] \<or> ide_want d > 0 then 0x48 else 0x40 else 0, d)"

definition ide_inw :: "u16 \<Rightarrow> u16 \<Rightarrow> ide \<Rightarrow> u16 \<times> ide" where
  "ide_inw b port d = (case ide_out d of [] \<Rightarrow> (0, d) | w # ws \<Rightarrow> (w, d\<lparr>ide_out := ws\<rparr>))"

definition ide_outw :: "u16 \<Rightarrow> u16 \<Rightarrow> u16 \<Rightarrow> ide \<Rightarrow> ide" where
  "ide_outw b port w d =
     (if ide_want d = 0 then d
      else let d = d\<lparr>ide_got := ide_got d @ [w], ide_want := ide_want d - 1\<rparr>
           in if ide_want d = 0
              then d\<lparr>ide_sectors := put_sectors (ide_lba d) (unat (ide_cnt d)) (ide_got d) (ide_sectors d)\<rparr> else d)"

definition ide_ports :: "u16 \<Rightarrow> ide ports" where
  "ide_ports b = \<lparr>outb = ide_outb b, inb = ide_inb b, outw = ide_outw b, inw = ide_inw b,
     outl = (\<lambda>_ _ d. d), inl = (\<lambda>_ d. (0, d))\<rparr>"

definition ide_idle :: "ide \<Rightarrow> bool" where
  "ide_idle d \<longleftrightarrow> ide_out d = [] \<and> ide_want d = 0 \<and> (\<forall>k. length (ide_sectors d k) = 256)"

text \<open>A device record for that drive; its drive register leaves the four bits of the sector number free.\<close>

definition ide_dev :: "u16 \<Rightarrow> ata_dev \<Rightarrow> bool" where
  "ide_dev b dev \<longleftrightarrow> ad_bus dev = b \<and> ad_lba28 dev \<and> ad_drive dev AND 0xF = 0"

lemma ide_ports_simps [simp]:
  "outb (ide_ports b) = ide_outb b" "inb (ide_ports b) = ide_inb b" "outw (ide_ports b) = ide_outw b"
  "inw (ide_ports b) = ide_inw b"
  by (simp_all add: ide_ports_def)

lemma ide_inb_state [simp]: "snd (ide_inb b port d) = d"
  by (simp add: ide_inb_def)

lemma funpow_same: "((\<lambda>d. d) ^^ n) d = d"
  by (induction n) auto

lemma ide_delay [simp]: "delay_400ns (ide_ports b) dev d = d"
  by (simp add: delay_400ns_def funpow_same)

lemma ide_wait:
  "ide_out d = [] \<Longrightarrow> ide_want d = 0 \<Longrightarrow> 0x40 AND f = 0 \<Longrightarrow> wait_clear (ide_ports b) (b + 7) f 0 d = (DRV_SUCCESS, d)"
  by (subst wait_clear.simps) (simp add: ide_inb_def)

lemma ide_poll:
  "ide_out d \<noteq> [] \<or> ide_want d > 0 \<Longrightarrow> ad_bus dev = b \<Longrightarrow> poll_data (ide_ports b) dev d = (DRV_SUCCESS, d)"
  by (simp add: poll_data_def) (subst poll_data_loop.simps, simp add: ide_inb_def ata_regs ata_flags MAX_POLLS_def)

lemma lba_registers:
  assumes "lba < 0x10000000" and "drv AND 0xF = (0 :: u8)"
  shows "(ucast (ucast lba :: u8) OR push_bit 8 (ucast (ucast (drop_bit 8 lba) :: u8)) OR
      push_bit 16 (ucast (ucast (drop_bit 16 lba) :: u8)) OR
      push_bit 24 (ucast ((drv OR (ucast (drop_bit 24 lba) AND 0xF) OR 0xE0) AND 0xF))) = (lba :: u32)"
proof -
  have lba: "take_bit 28 lba = lba"
    using assms(1) by (simp add: word_unat_eq_iff unsigned_take_bit_eq take_bit_nat_eq_self word_less_nat_alt)
  have hi: "\<not> bit lba n" if "28 \<le> n" for n using that by (metis bit_take_bit_iff lba not_less)
  have m: "bit (0xF :: u8) n \<longleftrightarrow> n < 4" for n
    using bit_mask_iff [of 4 n, where 'a = "8 word"] by (auto simp: mask_eq_exp_minus_1)
  have "ucast (drop_bit 24 lba) AND 0xF = (ucast (drop_bit 24 lba) :: u8)"
  proof (rule bit_word_eqI)
    fix n assume "n < LENGTH(8)"
    show "bit (ucast (drop_bit 24 lba) AND 0xF :: u8) n = bit (ucast (drop_bit 24 lba) :: u8) n"
    proof (cases "n < 4")
      case True
      then show ?thesis by (simp only: bit_and_iff m simp_thms)
    next
      case False
      then have "\<not> bit (ucast (drop_bit 24 lba) :: u8) n" using hi [of "24 + n"] by (simp add: bit_simps)
      then show ?thesis by (simp only: bit_and_iff simp_thms)
    qed
  qed
  then have "(drv OR (ucast (drop_bit 24 lba) AND 0xF) OR 0xE0) AND 0xF = (ucast (drop_bit 24 lba) :: u8)"
    using assms(2) by (simp add: bit.conj_disj_distrib2)
  then show ?thesis using bytes_join [of lba] by (simp only:)
qed

text \<open>Selecting a region loads the registers.\<close>

lemma ide_select:
  assumes "ide_idle d" and "ide_dev b dev" and "lba < 0x10000000"
  shows "\<exists>d'. select_region (ide_ports b) dev lba n d = (DRV_SUCCESS, d') \<and> ide_lba d' = unat lba \<and> ide_cnt d' = n \<and>
    ide_sectors d' = ide_sectors d \<and> ide_out d' = [] \<and> ide_want d' = 0"
proof -
  have d: "ide_out d = []" "ide_want d = 0" "ad_bus dev = b" "ad_drive dev AND 0xF = 0"
    using assms by (auto simp: ide_idle_def ide_dev_def)
  define d1 where "d1 = d\<lparr>ide_drv := ad_drive dev OR (ucast (drop_bit 24 lba) AND 0xF) OR 0xE0, ide_cnt := n,
    ide_lo := ucast lba, ide_mid := ucast (drop_bit 8 lba), ide_hi := ucast (drop_bit 16 lba)\<rparr>"
  have "select_region (ide_ports b) dev lba n d = (DRV_SUCCESS, d1)"
    using d by (simp add: select_region_def ata_regs ata_flags ide_wait ide_outb_def ide_inb_def d1_def)
  moreover have "ide_lba d1 = unat lba" using lba_registers [OF assms(3) d(4)] by (simp add: ide_lba_def d1_def)
  ultimately show ?thesis using d by (simp add: d1_def)
qed

section \<open>Reading and writing sectors\<close>

lemma upt_first: "[a..<a + Suc n] = a # [Suc a..<Suc a + n]"
  by (simp add: upt_conv_Cons)

lemma read_words:
  assumes "length ws = n" and "a + n \<le> length buf" and "ide_out d = ws @ rest"
  shows "rfold (xfer_word (ide_ports b) dev DIR_READ) [a..<a + n] (buf, d) =
    Inr (take a buf @ ws @ drop (a + n) buf, d\<lparr>ide_out := rest\<rparr>)"
  using assms
proof (induction n arbitrary: a ws buf d)
  case (Suc n)
  then obtain w ws' where ws: "ws = w # ws'" "length ws' = n" by (cases ws) auto
  have "rfold (xfer_word (ide_ports b) dev DIR_READ) [Suc a..<Suc a + n] (buf[a := w], d\<lparr>ide_out := ws' @ rest\<rparr>) =
      Inr (take (Suc a) (buf[a := w]) @ ws' @ drop (Suc a + n) (buf[a := w]), d\<lparr>ide_out := ws' @ rest\<rparr>\<lparr>ide_out := rest\<rparr>)"
    by (rule Suc.IH) (use Suc.prems ws in simp_all)
  moreover have "take (Suc a) (buf[a := w]) = take a buf @ [w]"
    using Suc.prems(2) by (simp add: take_Suc_conv_app_nth)
  moreover have "[a..<a + Suc n] = a # [Suc a..<Suc a + n]" by (rule upt_first)
  moreover have "xfer_word (ide_ports b) dev DIR_READ a (buf, d) = Inr (buf[a := w], d\<lparr>ide_out := ws' @ rest\<rparr>)"
    using Suc.prems ws by (simp add: xfer_word_def ide_inw_def)
  ultimately show ?case by (simp add: ws)
qed simp

lemma read_sectors:
  assumes "ad_bus dev = b" and "\<forall>ws \<in> set wss. length ws = 256" and "(a + length wss) * 256 \<le> length buf"
    and "ide_out d = concat wss"
  shows "xfer_sectors (ide_ports b) dev DIR_READ [a..<a + length wss] (buf, d) =
    Inr (DRV_SUCCESS, take (a * 256) buf @ concat wss @ drop ((a + length wss) * 256) buf, d\<lparr>ide_out := []\<rparr>)"
  using assms(2-4)
proof (induction wss arbitrary: a buf d)
  case Nil
  then have "d\<lparr>ide_out := []\<rparr> = d" by simp
  then show ?case by simp
next
  case (Cons ws wss)
  have l: "length ws = 256" "a * 256 + 256 \<le> length buf" using Cons.prems(1,2) by auto
  let ?buf = "take (a * 256) buf @ ws @ drop (a * 256 + 256) buf" and ?d = "d\<lparr>ide_out := concat wss\<rparr>"
  have "ide_out d \<noteq> []" using Cons.prems(1,3) by auto
  then have poll: "poll_data (ide_ports b) dev d = (DRV_SUCCESS, d)" using assms(1) by (intro ide_poll) auto
  have words: "rfold (xfer_word (ide_ports b) dev DIR_READ) [a * 256..<a * 256 + 256] (buf, d) = Inr (?buf, ?d)"
    using read_words [OF l, of d "concat wss"] Cons.prems(3) by simp
  have up: "[a..<a + length (ws # wss)] = a # [Suc a..<Suc a + length wss]"
  proof -
    have "length (ws # wss) = Suc (length wss)" by simp
    then show ?thesis by (simp only: upt_first)
  qed
  have "xfer_sectors (ide_ports b) dev DIR_READ [Suc a..<Suc a + length wss] (?buf, ?d) =
      Inr (DRV_SUCCESS, take (Suc a * 256) ?buf @ concat wss @ drop ((Suc a + length wss) * 256) ?buf, ?d\<lparr>ide_out := []\<rparr>)"
    by (rule Cons.IH) (use Cons.prems l in auto)
  moreover have "take (Suc a * 256) ?buf = take (a * 256) buf @ ws" using l by simp
  moreover have "drop ((Suc a + length wss) * 256) ?buf = drop ((a + length (ws # wss)) * 256) buf"
    using l by (simp add: algebra_simps)
  ultimately show ?case unfolding up using poll words by simp
qed

lemma write_words:
  assumes "a + n \<le> length buf" and "n < ide_want d \<or> n = 0"
  shows "rfold (xfer_word (ide_ports b) dev DIR_WRITE) [a..<a + n] (buf, d) =
    Inr (buf, d\<lparr>ide_got := ide_got d @ take n (drop a buf), ide_want := ide_want d - n\<rparr>)"
  using assms
proof (induction n arbitrary: a d)
  case (Suc n)
  let ?d = "d\<lparr>ide_got := ide_got d @ [buf ! a], ide_want := ide_want d - 1\<rparr>"
  have up: "[a..<a + Suc n] = a # [Suc a..<Suc a + n]" by (rule upt_first)
  have "xfer_word (ide_ports b) dev DIR_WRITE a (buf, d) = Inr (buf, ?d)"
    using Suc.prems by (simp add: xfer_word_def ide_outw_def Let_def)
  moreover have "rfold (xfer_word (ide_ports b) dev DIR_WRITE) [Suc a..<Suc a + n] (buf, ?d) =
      Inr (buf, ?d\<lparr>ide_got := ide_got ?d @ take n (drop (Suc a) buf), ide_want := ide_want ?d - n\<rparr>)"
    by (rule Suc.IH) (use Suc.prems in auto)
  moreover have "take (Suc n) (drop a buf) = buf ! a # take n (drop (Suc a) buf)"
    using Suc.prems(1) by (simp add: Cons_nth_drop_Suc [symmetric])
  ultimately show ?case unfolding up by simp
qed simp

text \<open>The last word makes the drive store the sectors.\<close>

definition ide_stored :: "ide \<Rightarrow> u16 list \<Rightarrow> ide" where
  "ide_stored d ws = d\<lparr>ide_got := ws, ide_want := 0,
     ide_sectors := put_sectors (ide_lba d) (unat (ide_cnt d)) ws (ide_sectors d)\<rparr>"

lemma write_sector:
  assumes "a + 256 \<le> length buf" and "256 \<le> ide_want d"
  shows "rfold (xfer_word (ide_ports b) dev DIR_WRITE) [a..<a + 256] (buf, d) =
    Inr (buf, if ide_want d = 256 then ide_stored d (ide_got d @ take 256 (drop a buf))
      else d\<lparr>ide_got := ide_got d @ take 256 (drop a buf), ide_want := ide_want d - 256\<rparr>)"
proof -
  have up: "[a..<a + 256] = [a..<a + 255] @ [a + 255]"
    using upt_Suc_append [of a "a + 255"] by (simp add: add.commute)
  have t: "take 256 (drop a buf) = take 255 (drop a buf) @ [buf ! (a + 255)]"
    using assms(1) take_Suc_conv_app_nth [of 255 "drop a buf"] by simp
  show ?thesis
    unfolding up rfold_append using assms write_words [of a 255 buf d b dev]
    by (simp add: xfer_word_def ide_outw_def t ide_stored_def ide_lba_def)
qed

lemma write_sectors:
  assumes "ad_bus dev = b" and "(a + n) * 256 \<le> length buf" and "ide_want d = n * 256" and "0 < n"
  shows "xfer_sectors (ide_ports b) dev DIR_WRITE [a..<a + n] (buf, d) =
    Inr (DRV_SUCCESS, buf, ide_stored d (ide_got d @ take (n * 256) (drop (a * 256) buf)))"
  using assms(2-4)
proof (induction n arbitrary: a d)
  case (Suc n)
  have poll: "poll_data (ide_ports b) dev d = (DRV_SUCCESS, d)"
    using assms(1) Suc.prems(2) by (intro ide_poll) auto
  have up: "[a..<a + Suc n] = a # [Suc a..<Suc a + n]" by (rule upt_first)
  let ?got = "ide_got d @ take 256 (drop (a * 256) buf)"
  note ws = write_sector [of "a * 256" buf d b dev]
  show ?case
  proof (cases "n = 0")
    case True
    with Suc.prems ws poll show ?thesis unfolding up by simp
  next
    case False
    let ?d = "d\<lparr>ide_got := ?got, ide_want := ide_want d - 256\<rparr>"
    have "xfer_sectors (ide_ports b) dev DIR_WRITE [Suc a..<Suc a + n] (buf, ?d) =
        Inr (DRV_SUCCESS, buf, ide_stored ?d (ide_got ?d @ take (n * 256) (drop (Suc a * 256) buf)))"
      by (rule Suc.IH) (use Suc.prems False in auto)
    moreover have "take (Suc n * 256) (drop (a * 256) buf) = take 256 (drop (a * 256) buf) @ take (n * 256) (drop (Suc a * 256) buf)"
      using take_add [of 256 "n * 256" "drop (a * 256) buf"] by (simp add: add.commute)
    moreover have "ide_stored ?d ws = ide_stored d ws" for ws by (simp add: ide_stored_def ide_lba_def)
    ultimately show ?thesis
      using Suc.prems False ws poll unfolding up by simp
  qed
qed simp

lemma ide_finish:
  assumes "ide_out d = []" and "ide_want d = 0" and "ad_bus dev = b"
  shows "flush_cache (ide_ports b) dev d = (DRV_SUCCESS, d)" and "ide_inb b (b + 7) d = (0x40, d)"
  using assms by (simp_all add: flush_cache_def ata_regs ata_cmds ata_flags ide_wait ide_outb_def ide_inb_def)

lemma ata_read:
  assumes "ide_idle d" and "ide_dev b (pt_dev part)" and "lba = off + pt_start part" and "lba < pt_limit part"
    and "lba < 0x10000000" and "unat n * 256 \<le> length buf"
  shows "\<exists>d'. ata_transfer (ide_ports b) part off n buf DIR_READ d = Inr (DRV_SUCCESS,
      get_sectors (unat lba) (unat n) (ide_sectors d) @ drop (unat n * 256) buf, d') \<and>
    ide_idle d' \<and> ide_sectors d' = ide_sectors d"
proof -
  let ?dev = "pt_dev part" and ?wss = "map (ide_sectors d) [unat lba..<unat lba + unat n]"
  have b: "ad_bus ?dev = b" "ad_lba28 ?dev" using assms(2) by (auto simp: ide_dev_def)
  have len: "\<forall>k. length (ide_sectors d k) = 256" using assms(1) by (simp add: ide_idle_def)
  from ide_select [OF assms(1,2,5), of n] obtain d1 where d1: "select_region (ide_ports b) ?dev lba n d = (DRV_SUCCESS, d1)"
    "ide_lba d1 = unat lba" "ide_cnt d1 = n" "ide_sectors d1 = ide_sectors d" "ide_out d1 = []" "ide_want d1 = 0" by auto
  let ?d2 = "d1\<lparr>ide_out := concat ?wss\<rparr>"
  have cmd: "ide_outb b (b + 7) 0x20 d1 = ?d2" using d1 by (simp add: ide_outb_def get_sectors_def)
  have "xfer_sectors (ide_ports b) ?dev DIR_READ [0..<0 + length ?wss] (buf, ?d2) =
      Inr (DRV_SUCCESS, take (0 * 256) buf @ concat ?wss @ drop ((0 + length ?wss) * 256) buf, ?d2\<lparr>ide_out := []\<rparr>)"
    by (rule read_sectors [OF b(1)]) (use len assms(6) in auto)
  then have x: "xfer_sectors (ide_ports b) ?dev DIR_READ [0..<unat n] (buf, ?d2) =
      Inr (DRV_SUCCESS, get_sectors (unat lba) (unat n) (ide_sectors d) @ drop (unat n * 256) buf, d1)"
    using d1(5) by (simp add: get_sectors_def)
  have "ata_transfer (ide_ports b) part off n buf DIR_READ d = Inr (DRV_SUCCESS,
      get_sectors (unat lba) (unat n) (ide_sectors d) @ drop (unat n * 256) buf, d1)"
    using assms(3,4) b d1(1) x ide_finish [OF d1(5,6) b(1)] cmd
    by (simp add: ata_transfer_def Let_def not_le ata_regs ata_cmds ata_flags funpow_same)
  with d1 len show ?thesis by (simp add: ide_idle_def)
qed

lemma ata_write:
  assumes "ide_idle d" and "ide_dev b (pt_dev part)" and "lba = off + pt_start part" and "lba < pt_limit part"
    and "lba < 0x10000000" and "unat n * 256 \<le> length buf" and "0 < n"
  shows "\<exists>d'. ata_transfer (ide_ports b) part off n buf DIR_WRITE d = Inr (DRV_SUCCESS, buf, d') \<and> ide_idle d' \<and>
    ide_sectors d' = put_sectors (unat lba) (unat n) (take (unat n * 256) buf) (ide_sectors d)"
proof -
  let ?dev = "pt_dev part"
  have b: "ad_bus ?dev = b" "ad_lba28 ?dev" using assms(2) by (auto simp: ide_dev_def)
  have len: "\<forall>k. length (ide_sectors d k) = 256" using assms(1) by (simp add: ide_idle_def)
  have n: "0 < unat n" using assms(7) by (simp add: word_less_nat_alt)
  from ide_select [OF assms(1,2,5), of n] obtain d1 where d1: "select_region (ide_ports b) ?dev lba n d = (DRV_SUCCESS, d1)"
    "ide_lba d1 = unat lba" "ide_cnt d1 = n" "ide_sectors d1 = ide_sectors d" "ide_out d1 = []" "ide_want d1 = 0" by auto
  let ?d2 = "d1\<lparr>ide_got := [], ide_want := 256 * unat n\<rparr>" and ?ws = "take (unat n * 256) buf"
  have cmd: "ide_outb b (b + 7) 0x30 d1 = ?d2" using d1 by (simp add: ide_outb_def)
  have "xfer_sectors (ide_ports b) ?dev DIR_WRITE [0..<0 + unat n] (buf, ?d2) =
      Inr (DRV_SUCCESS, buf, ide_stored ?d2 (ide_got ?d2 @ take (unat n * 256) (drop (0 * 256) buf)))"
    by (rule write_sectors [OF b(1)]) (use assms(6) n in auto)
  then have x: "xfer_sectors (ide_ports b) ?dev DIR_WRITE [0..<unat n] (buf, ?d2) = Inr (DRV_SUCCESS, buf, ide_stored ?d2 ?ws)"
    by simp
  have s: "ide_out (ide_stored ?d2 ?ws) = []" "ide_want (ide_stored ?d2 ?ws) = 0"
    "ide_sectors (ide_stored ?d2 ?ws) = put_sectors (unat lba) (unat n) ?ws (ide_sectors d)"
    using d1 by (simp_all add: ide_stored_def ide_lba_def)
  have "ata_transfer (ide_ports b) part off n buf DIR_WRITE d = Inr (DRV_SUCCESS, buf, ide_stored ?d2 ?ws)"
    using assms(3,4) b d1(1) x ide_finish [OF s(1,2) b(1)] cmd
    by (simp add: ata_transfer_def Let_def not_le ata_regs ata_cmds ata_flags funpow_same)
  moreover have "length (put_sectors (unat lba) (unat n) ?ws (ide_sectors d) k) = 256" for k
  proof (cases "unat lba \<le> k \<and> k < unat lba + unat n")
    case True
    then have "(k - unat lba + 1) * 256 \<le> unat n * 256" by (intro mult_le_mono1) auto
    with True assms(6) show ?thesis by (simp add: put_sectors_def)
  next
    case False
    with len show ?thesis by (auto simp: put_sectors_def)
  qed
  ultimately show ?thesis using s by (simp add: ide_idle_def)
qed

lemma get_put_sectors:
  assumes "length ws = n * 256"
  shows "get_sectors lba n (put_sectors lba n ws f) = ws"
proof -
  have "map (put_sectors lba n ws f) [lba..<lba + n] = map (\<lambda>i. take 256 (drop (256 * i) ws)) [0..<n]"
    by (rule nth_equalityI) (auto simp: put_sectors_def)
  with concat_take_drop [of ws 256 n] assms show ?thesis by (simp add: get_sectors_def)
qed

text \<open>
  On a drive that follows the protocol, writing sectors through the driver and reading them back
  returns the data that was written, with status \<^verbatim>\<open>DRV_SUCCESS\<close>; all other sectors of the drive keep
  their content, and the drive is idle again. The sector number reaches the drive intact through its
  four registers.
\<close>
theorem ata_write_read:
  assumes "ide_idle d" and "ide_dev b (pt_dev part)" and "lba = off + pt_start part" and "lba < pt_limit part"
    and "lba < 0x10000000" and "0 < n" and "unat n * 256 \<le> length buf" and "unat n * 256 \<le> length buf'"
  shows "\<exists>d1 d2. ata_transfer (ide_ports b) part off n buf DIR_WRITE d = Inr (DRV_SUCCESS, buf, d1) \<and>
    ata_transfer (ide_ports b) part off n buf' DIR_READ d1 =
      Inr (DRV_SUCCESS, take (unat n * 256) buf @ drop (unat n * 256) buf', d2) \<and> ide_idle d2 \<and>
    (\<forall>k. k < unat lba \<or> unat lba + unat n \<le> k \<longrightarrow> ide_sectors d2 k = ide_sectors d k)"
proof -
  from ata_write [OF assms(1-5) assms(7,6)] obtain d1 where d1:
    "ata_transfer (ide_ports b) part off n buf DIR_WRITE d = Inr (DRV_SUCCESS, buf, d1)" "ide_idle d1"
    "ide_sectors d1 = put_sectors (unat lba) (unat n) (take (unat n * 256) buf) (ide_sectors d)" by blast
  from ata_read [OF d1(2) assms(2-5,8)] obtain d2 where d2:
    "ata_transfer (ide_ports b) part off n buf' DIR_READ d1 = Inr (DRV_SUCCESS,
      get_sectors (unat lba) (unat n) (ide_sectors d1) @ drop (unat n * 256) buf', d2)"
    "ide_idle d2" "ide_sectors d2 = ide_sectors d1" by blast
  have "get_sectors (unat lba) (unat n) (ide_sectors d1) = take (unat n * 256) buf"
    unfolding d1(3) using assms(7) by (intro get_put_sectors) simp
  with d1 d2 show ?thesis by (auto simp: put_sectors_def)
qed

text \<open>
  Only the first sector of a transfer is compared with the end of the partition: a longer transfer
  that starts inside it writes the sectors that follow the partition.
\<close>

lemma ata_write_past_limit:
  assumes "ide_idle d" and "ide_dev b (pt_dev part)" and "lba = off + pt_start part" and "lba < pt_limit part"
    and "lba < 0x10000000" and "unat n * 256 \<le> length buf" and "0 < n" and "unat (pt_limit part) \<le> k" and "k < unat lba + unat n"
  shows "\<exists>d'. ata_transfer (ide_ports b) part off n buf DIR_WRITE d = Inr (DRV_SUCCESS, buf, d') \<and>
    ide_sectors d' k = take 256 (drop (256 * (k - unat lba)) buf)"
proof -
  have "unat lba \<le> k" using assms(4,8) by (simp add: word_less_nat_alt)
  moreover from this assms(9) have "(k - unat lba + 1) * 256 \<le> unat n * 256" by (intro mult_le_mono1) simp
  ultimately show ?thesis
    using ata_write [OF assms(1-7)] assms(9) by (auto simp: put_sectors_def drop_take take_take min_def)
qed

definition zero_disk :: ide where
  "zero_disk = \<lparr>ide_sectors = (\<lambda>_. replicate 256 0), ide_cnt = 0, ide_lo = 0, ide_mid = 0, ide_hi = 0, ide_drv = 0,
     ide_out = [], ide_got = [], ide_want = 0\<rparr>"

definition whole_disk :: partition where
  "whole_disk = \<lparr>pt_dev = \<lparr>ad_bus = ATA_BUS_PRIMARY, ad_drive = ATA_DRIVE_MASTER, ad_lba_28_sector_count = 1000, ad_lba28 = True,
     ad_lba48 = False\<rparr>, pt_start = 0, pt_limit = - 1\<rparr>"

theorem ata_write_read_witness:
  "\<exists>d1 d2. ata_transfer (ide_ports 0x1F0) whole_disk 7 1 (replicate 256 9) DIR_WRITE zero_disk =
      Inr (DRV_SUCCESS, replicate 256 9, d1) \<and>
    ata_transfer (ide_ports 0x1F0) whole_disk 7 1 (replicate 256 0) DIR_READ d1 = Inr (DRV_SUCCESS, replicate 256 9, d2)"
proof -
  have "\<exists>d1 d2. ata_transfer (ide_ports 0x1F0) whole_disk 7 1 (replicate 256 9) DIR_WRITE zero_disk =
      Inr (DRV_SUCCESS, replicate 256 9, d1) \<and>
    ata_transfer (ide_ports 0x1F0) whole_disk 7 1 (replicate 256 0) DIR_READ d1 =
      Inr (DRV_SUCCESS, take (unat (1 :: u8) * 256) (replicate 256 9) @ drop (unat (1 :: u8) * 256) (replicate 256 0), d2) \<and>
    ide_idle d2 \<and> (\<forall>k. k < unat (7 :: u32) \<or> unat (7 :: u32) + unat (1 :: u8) \<le> k \<longrightarrow>
      ide_sectors d2 k = ide_sectors zero_disk k)"
    by (rule ata_write_read)
      (simp_all add: ide_idle_def zero_disk_def ide_dev_def whole_disk_def ATA_BUS_PRIMARY_def ATA_DRIVE_MASTER_def)
  then show ?thesis by auto
qed

end
