(* ===== verification/Gpt.thy ===== *)
theory Gpt
  imports Ata
begin

unbundle bit_operations_syntax

text \<open>
  \<^verbatim>\<open>src/common/gpt.c\<close>: the partitions of a drive as block devices, and the scan of the partition table. The
  byte buffers of the callers are the word buffers of the driver, two bytes a word, low byte first.
  The last section states the contract of a block device that the file system relies on, and shows that
  a partition on a drive that follows the protocol meets it.
\<close>

section \<open>Little-endian fields of a byte buffer\<close>

fun words_of :: "u8 list \<Rightarrow> u16 list" where
  "words_of (a # b # bs) = (ucast a OR push_bit 8 (ucast b)) # words_of bs"
| "words_of _ = []"

fun words_bytes :: "u16 list \<Rightarrow> u8 list" where
  "words_bytes [] = []"
| "words_bytes (w # ws) = ucast w # ucast (drop_bit 8 w) # words_bytes ws"

definition le16 :: "u8 list \<Rightarrow> nat \<Rightarrow> u16" where
  "le16 bs i = ucast (bs ! i) OR push_bit 8 (ucast (bs ! (i + 1)))"

definition le32 :: "u8 list \<Rightarrow> nat \<Rightarrow> u32" where
  "le32 bs i = ucast (bs ! i) OR push_bit 8 (ucast (bs ! (i + 1))) OR push_bit 16 (ucast (bs ! (i + 2))) OR
     push_bit 24 (ucast (bs ! (i + 3)))"

definition le64 :: "u8 list \<Rightarrow> nat \<Rightarrow> u64" where
  "le64 bs i = ucast (le32 bs i) OR push_bit 32 (ucast (le32 bs (i + 4)))"

definition bytes16 :: "u16 \<Rightarrow> u8 list" where
  "bytes16 w = [ucast w, ucast (drop_bit 8 w)]"

definition bytes32 :: "u32 \<Rightarrow> u8 list" where
  "bytes32 w = [ucast w, ucast (drop_bit 8 w), ucast (drop_bit 16 w), ucast (drop_bit 24 w)]"

text \<open>\<open>n\<close> bytes of a buffer from an offset on.\<close>

definition slice :: "nat \<Rightarrow> nat \<Rightarrow> u8 list \<Rightarrow> u8 list" where
  "slice i n bs = take n (drop i bs)"

section \<open>The partition table\<close>

record gpt_table_header =
  gh_signature :: "u8 list"
  gh_revision :: u32
  gh_header_size :: u32
  gh_header_checksum :: u32
  gh_rsvd :: u32
  gh_header_lba :: u64
  gh_alternate_header_lba :: u64
  gh_first_usable_block :: u64
  gh_last_usable_block :: u64
  gh_guid :: "u8 list"
  gh_entry_table_lba :: u64
  gh_partition_count :: u32
  gh_entry_size :: u32
  gh_table_checksum :: u32

definition gpt_table_header_of :: "u8 list \<Rightarrow> gpt_table_header" where
  "gpt_table_header_of bs = \<lparr>gh_signature = slice 0 8 bs, gh_revision = le32 bs 8, gh_header_size = le32 bs 12,
     gh_header_checksum = le32 bs 16, gh_rsvd = le32 bs 20, gh_header_lba = le64 bs 24,
     gh_alternate_header_lba = le64 bs 32, gh_first_usable_block = le64 bs 40, gh_last_usable_block = le64 bs 48,
     gh_guid = slice 56 16 bs, gh_entry_table_lba = le64 bs 72, gh_partition_count = le32 bs 80,
     gh_entry_size = le32 bs 84, gh_table_checksum = le32 bs 88\<rparr>"

record gpt_partition =
  gp_partition_type_guid :: "u8 list"
  gp_partition_guid :: "u8 list"
  gp_start_lba :: u64
  gp_end_lba :: u64
  gp_attrs :: u64
  gp_name :: "u16 list"

definition gpt_partition_of :: "u8 list \<Rightarrow> gpt_partition" where
  "gpt_partition_of bs = \<lparr>gp_partition_type_guid = slice 0 16 bs, gp_partition_guid = slice 16 16 bs,
     gp_start_lba = le64 bs 32, gp_end_lba = le64 bs 40, gp_attrs = le64 bs 48, gp_name = words_of (slice 56 72 bs)\<rparr>"

text \<open>A block device: sector number, count, buffer and direction to status and buffer.\<close>

type_synonym 'd bdev = "u32 \<Rightarrow> u32 \<Rightarrow> u8 list \<Rightarrow> data_dir \<Rightarrow> 'd \<Rightarrow> (hal_drive_res \<times> u8 list \<times> 'd) result"

text \<open>The count is passed on as an 8-bit number.\<close>

definition gpt_transfer :: "'h ports \<Rightarrow> partition \<Rightarrow> 'h bdev" where
  "gpt_transfer P part offset sz data dir h =
     rbind (ata_transfer P part offset (ucast sz) (words_of data) dir h) (\<lambda>(res, ws, h). Inr (res, words_bytes ws, h))"

definition EFI_PART :: "u8 list" where
  "EFI_PART = [0x45, 0x46, 0x49, 0x20, 0x50, 0x41, 0x52, 0x54]"

text \<open>The partitions with a non-zero identifier in one sector of the table.\<close>

definition sector_partitions :: "ata_dev \<Rightarrow> u8 list \<Rightarrow> partition list" where
  "sector_partitions dev bs =
     map (\<lambda>p. \<lparr>pt_dev = dev, pt_start = ucast (gp_start_lba p), pt_limit = ucast (gp_end_lba p)\<rparr>)
       (filter (\<lambda>p. foldr (OR) (gp_partition_guid p) 0 \<noteq> 0)
         (map (\<lambda>j. gpt_partition_of (slice (128 * j) 128 bs)) [0..<4]))"

text \<open>
  The loop over the sectors of the table. \<open>found\<close> stands for what happens with a partition, the
  detection of a file system; fresh memory is zero here, the code does not look at it before a
  transfer has filled it.
\<close>

fun scan_table :: "'h ports \<Rightarrow> ata_dev \<Rightarrow> partition \<Rightarrow> (partition \<Rightarrow> 'h \<Rightarrow> 'h result) \<Rightarrow> nat list \<Rightarrow> 'h \<Rightarrow> (bool \<times> 'h) result" where
  "scan_table P dev raw found [] h = Inr (True, h)"
| "scan_table P dev raw found (i # is) h =
     rbind (gpt_transfer P raw (2 + of_nat i) 1 (replicate 512 0) DIR_READ h) (\<lambda>(err, bs, h).
     if err \<noteq> DRV_SUCCESS then Inr (False, h)
     else rbind (rfold found (sector_partitions dev bs) h) (\<lambda>h. scan_table P dev raw found is h))"

definition init_gpt :: "'h ports \<Rightarrow> ata_dev \<Rightarrow> (partition \<Rightarrow> 'h \<Rightarrow> 'h result) \<Rightarrow> 'h \<Rightarrow> (bool \<times> 'h) result" where
  "init_gpt P dev found h =
     (let raw = \<lparr>pt_dev = dev, pt_start = 0, pt_limit = - 1\<rparr> in
      rbind (gpt_transfer P raw 1 1 (replicate 512 0) DIR_READ h) (\<lambda>(err, bs, h).
      if err \<noteq> DRV_SUCCESS then Inr (False, h)
      else let header = gpt_table_header_of bs in
           if gh_signature header \<noteq> EFI_PART then Inr (False, h)
           else scan_table P dev raw found [0..<unat ((gh_partition_count header + 3) div 4)] h))"

section \<open>Interface: a block device\<close>

text \<open>
  What a file system needs: sectors of 512 bytes that a transfer of \<open>n\<close> of them, \<open>n\<close> from 1 to 255,
  reads or replaces, as long as it stays below the capacity.
\<close>

definition sectors_at :: "(nat \<Rightarrow> u8 list) \<Rightarrow> nat \<Rightarrow> nat \<Rightarrow> u8 list" where
  "sectors_at f lba n = concat (map f [lba..<lba + n])"

locale block_device =
  fixes xfer :: "'d bdev" and sector :: "'d \<Rightarrow> nat \<Rightarrow> u8 list" and ok :: "'d \<Rightarrow> bool" and cap :: nat
  assumes sector_length: "ok d \<Longrightarrow> length (sector d k) = 512"
    and read_law: "ok d \<Longrightarrow> unat lba + unat n \<le> cap \<Longrightarrow> 0 < n \<Longrightarrow> n < 256 \<Longrightarrow> length buf = 512 * unat n \<Longrightarrow>
      \<exists>d'. xfer lba n buf DIR_READ d = Inr (DRV_SUCCESS, sectors_at (sector d) (unat lba) (unat n), d') \<and> ok d' \<and>
        sector d' = sector d"
    and write_law: "ok d \<Longrightarrow> unat lba + unat n \<le> cap \<Longrightarrow> 0 < n \<Longrightarrow> n < 256 \<Longrightarrow> length buf = 512 * unat n \<Longrightarrow>
      \<exists>d'. xfer lba n buf DIR_WRITE d = Inr (DRV_SUCCESS, buf, d') \<and> ok d' \<and>
        sector d' = (\<lambda>k. if unat lba \<le> k \<and> k < unat lba + unat n then slice (512 * (k - unat lba)) 512 buf else sector d k)"

begin

lemma write_then_read:
  assumes "ok d" and "unat lba + unat n \<le> cap" and "0 < n" and "n < 256" and "length buf = 512 * unat n"
    and "length buf' = 512 * unat n"
  shows "\<exists>d1 d2. xfer lba n buf DIR_WRITE d = Inr (DRV_SUCCESS, buf, d1) \<and> xfer lba n buf' DIR_READ d1 = Inr (DRV_SUCCESS, buf, d2) \<and>
    ok d2 \<and> (\<forall>k. k < unat lba \<or> unat lba + unat n \<le> k \<longrightarrow> sector d2 k = sector d k)"
proof -
  from write_law [OF assms(1-5)] obtain d1 where d1: "xfer lba n buf DIR_WRITE d = Inr (DRV_SUCCESS, buf, d1)" "ok d1"
    "sector d1 = (\<lambda>k. if unat lba \<le> k \<and> k < unat lba + unat n then slice (512 * (k - unat lba)) 512 buf else sector d k)"
    by blast
  from read_law [OF d1(2) assms(2-4,6)] obtain d2 where d2:
    "xfer lba n buf' DIR_READ d1 = Inr (DRV_SUCCESS, sectors_at (sector d1) (unat lba) (unat n), d2)" "ok d2"
    "sector d2 = sector d1" by blast
  have "map (sector d1) [unat lba..<unat lba + unat n] = map (\<lambda>i. take 512 (drop (512 * i) buf)) [0..<unat n]"
    by (rule nth_equalityI) (auto simp: d1(3) slice_def)
  then have "sectors_at (sector d1) (unat lba) (unat n) = buf"
    using concat_take_drop [of buf 512 "unat n"] assms(5) by (simp add: sectors_at_def)
  with d1 d2 show ?thesis by auto
qed

end

section \<open>A partition is a block device\<close>

lemma words_bytes_length [simp]: "length (words_bytes ws) = 2 * length ws"
  by (induction ws) auto

lemma words_of_length: "length bs = 2 * n \<Longrightarrow> length (words_of bs) = n"
proof (induction n arbitrary: bs)
  case (Suc n)
  then obtain a b bs' where "bs = a # b # bs'" by (cases bs; cases "tl bs") auto
  with Suc show ?case by simp
qed simp

lemma word_join: "ucast (ucast a OR push_bit 8 (ucast b) :: u16) = (a :: u8)"
  "ucast (drop_bit 8 (ucast a OR push_bit 8 (ucast b) :: u16)) = (b :: u8)"
  by (rule bit_word_eqI; auto simp: bit_simps dest: bit_imp_le_length)+

lemma words_bytes_of: "length bs = 2 * n \<Longrightarrow> words_bytes (words_of bs) = bs"
proof (induction n arbitrary: bs)
  case (Suc n)
  then obtain a b bs' where "bs = a # b # bs'" by (cases bs; cases "tl bs") auto
  with Suc word_join [of a b] show ?case by simp
qed simp

lemma words_bytes_concat: "words_bytes (concat wss) = concat (map words_bytes wss)"
proof -
  have "words_bytes (xs @ ys) = words_bytes xs @ words_bytes ys" for xs ys by (induction xs) auto
  then show ?thesis by (induction wss) auto
qed

lemma words_bytes_slice: "words_bytes (take m (drop i ws)) = take (2 * m) (drop (2 * i) (words_bytes ws))"
proof -
  have d: "words_bytes (drop i ws) = drop (2 * i) (words_bytes ws)" for i ws
  proof (induction i arbitrary: ws)
    case (Suc i)
    then show ?case by (cases ws) auto
  qed simp
  have "words_bytes (take m ws) = take (2 * m) (words_bytes ws)" for m ws
  proof (induction m arbitrary: ws)
    case (Suc m)
    then show ?case by (cases ws) auto
  qed simp
  then show ?thesis by (simp add: d)
qed

text \<open>
  The sectors of a partition, and how many there are when the drive is the one at port \<open>b\<close> and the
  partition ends within reach of 28-bit sector numbers; otherwise none count.
\<close>

definition part_sector :: "partition \<Rightarrow> ide \<Rightarrow> nat \<Rightarrow> u8 list" where
  "part_sector part d k = words_bytes (ide_sectors d (unat (pt_start part) + k))"

definition part_cap :: "u16 \<Rightarrow> partition \<Rightarrow> nat" where
  "part_cap b part = (if ide_dev b (pt_dev part) \<and> unat (pt_limit part) \<le> 0x10000000
     then unat (pt_limit part) - unat (pt_start part) else 0)"

lemma part_cap_bound:
  assumes "unat lba + unat n \<le> part_cap b part" and "0 < n"
  shows "ide_dev b (pt_dev part)" and "unat (lba + pt_start part) = unat lba + unat (pt_start part)"
    and "lba + pt_start part < pt_limit part" and "lba + pt_start part < 0x10000000"
proof -
  have n: "0 < unat n" using assms(2) by (simp add: word_less_nat_alt)
  then have c: "ide_dev b (pt_dev part)" "unat (pt_limit part) \<le> 0x10000000"
    "unat lba + unat (pt_start part) < unat (pt_limit part)"
    using assms(1) by (auto simp: part_cap_def split: if_splits)
  then show "ide_dev b (pt_dev part)" and u: "unat (lba + pt_start part) = unat lba + unat (pt_start part)"
    by (simp_all add: unat_add_u32)
  show "lba + pt_start part < pt_limit part" "lba + pt_start part < 0x10000000"
    using c u by (simp_all add: word_less_nat_alt)
qed

lemma count_byte: "n < 256 \<Longrightarrow> unat (ucast (n :: u32) :: u8) = unat n"
  by (simp add: unsigned_ucast_eq take_bit_nat_eq_self word_less_nat_alt)

interpretation gpt: block_device "gpt_transfer (ide_ports b) part" "part_sector part" ide_idle "part_cap b part" for b part
proof (unfold_locales, goal_cases)
  case (1 d k)
  then show ?case by (simp add: part_sector_def ide_idle_def)
next
  case (2 d lba n buf)
  note pb = part_cap_bound [OF 2(2,3)] and cnt = count_byte [OF 2(4)]
  have len: "length (words_of buf) = unat (ucast n :: u8) * 256" using 2(5) cnt by (intro words_of_length) simp
  from ata_read [OF 2(1) pb(1) refl pb(3,4), of "ucast n" "words_of buf"] len obtain d' where d':
    "ata_transfer (ide_ports b) part lba (ucast n) (words_of buf) DIR_READ d = Inr (DRV_SUCCESS,
      get_sectors (unat (lba + pt_start part)) (unat n) (ide_sectors d), d')" "ide_idle d'" "ide_sectors d' = ide_sectors d"
    using cnt by auto
  have "map (ide_sectors d) [unat lba + unat (pt_start part)..<unat lba + unat (pt_start part) + unat n] =
      map (\<lambda>k. ide_sectors d (unat (pt_start part) + k)) [unat lba..<unat lba + unat n]"
    by (rule nth_equalityI) (auto simp: add.left_commute add.commute)
  then have "words_bytes (get_sectors (unat (lba + pt_start part)) (unat n) (ide_sectors d)) =
      sectors_at (part_sector part d) (unat lba) (unat n)"
    by (simp add: get_sectors_def sectors_at_def words_bytes_concat pb(2) part_sector_def [abs_def] comp_def)
  with d' show ?case by (auto simp: gpt_transfer_def part_sector_def fun_eq_iff)
next
  case (3 d lba n buf)
  note pb = part_cap_bound [OF 3(2,3)] and cnt = count_byte [OF 3(4)]
  have len: "length (words_of buf) = unat (ucast n :: u8) * 256" using 3(5) cnt by (intro words_of_length) simp
  have n8: "0 < (ucast n :: u8)" using 3(3) cnt by (simp add: word_less_nat_alt)
  have wb: "words_bytes (words_of buf) = buf" using 3(5) by (intro words_bytes_of) simp
  from ata_write [OF 3(1) pb(1) refl pb(3,4) _ n8, of "words_of buf"] len obtain d' where d':
    "ata_transfer (ide_ports b) part lba (ucast n) (words_of buf) DIR_WRITE d = Inr (DRV_SUCCESS, words_of buf, d')"
    "ide_idle d'" "ide_sectors d' = put_sectors (unat (lba + pt_start part)) (unat n) (words_of buf) (ide_sectors d)"
    using cnt by auto
  have "part_sector part d' k = (if unat lba \<le> k \<and> k < unat lba + unat n then slice (512 * (k - unat lba)) 512 buf
      else part_sector part d k)" for k
    by (auto simp: part_sector_def d'(3) put_sectors_def pb(2) words_bytes_slice wb slice_def)
  with d' wb show ?case by (auto simp: gpt_transfer_def)
qed

text \<open>
  C21: on a drive that follows the protocol, sectors written to a partition are read back as written, in
  bytes, through both layers of the driver; the partition's other sectors keep their content. The
  transfer has to lie inside the partition and count from 1 to 255 sectors.
\<close>
theorem partition_write_read:
  assumes "ide_idle d" and "unat lba + unat n \<le> part_cap b part" and "0 < n" and "n < 256"
    and "length buf = 512 * unat n" and "length buf' = 512 * unat n"
  shows "\<exists>d1 d2. gpt_transfer (ide_ports b) part lba n buf DIR_WRITE d = Inr (DRV_SUCCESS, buf, d1) \<and>
    gpt_transfer (ide_ports b) part lba n buf' DIR_READ d1 = Inr (DRV_SUCCESS, buf, d2) \<and> ide_idle d2 \<and>
    (\<forall>k. k < unat lba \<or> unat lba + unat n \<le> k \<longrightarrow> part_sector part d2 k = part_sector part d k)"
  by (rule gpt.write_then_read [OF assms])

definition small_part :: partition where
  "small_part = whole_disk\<lparr>pt_start := 100, pt_limit := 200\<rparr>"

lemma small_part_cap [simp]: "part_cap 0x1F0 small_part = 100"
  by (simp add: part_cap_def small_part_def whole_disk_def ide_dev_def ATA_BUS_PRIMARY_def ATA_DRIVE_MASTER_def)

theorem partition_write_read_witness:
  "\<exists>d1 d2. gpt_transfer (ide_ports 0x1F0) small_part 7 1 (replicate 512 9) DIR_WRITE zero_disk =
      Inr (DRV_SUCCESS, replicate 512 9, d1) \<and>
    gpt_transfer (ide_ports 0x1F0) small_part 7 1 (replicate 512 0) DIR_READ d1 = Inr (DRV_SUCCESS, replicate 512 9, d2)"
proof -
  have "ide_idle zero_disk" by (simp add: ide_idle_def zero_disk_def)
  from partition_write_read [OF this, of 7 1 "0x1F0" small_part "replicate 512 9" "replicate 512 0"]
  show ?thesis by auto
qed

end
