(* ===== verification/Ext2.thy ===== *)
theory Ext2
  imports Gpt
begin

unbundle bit_operations_syntax

text \<open>
  \<^verbatim>\<open>src/common/ext2.c\<close>: the ext2 file system on a block device \<open>B\<close>, which is an argument. The structures on
  disk are read from and written to byte buffers at the offsets of the C structures. Memory from
  \<^verbatim>\<open>kmalloc\<close> is zero here; the code does not look at it before a transfer has filled it. A function
  returns its status, what it stored through its pointer arguments, and the state of the device.
\<close>

section \<open>Structures on disk\<close>

record ext2_superblock =
  sb_total_inodes :: u32
  sb_total_blocks :: u32
  sb_superuser_blocks :: u32
  sb_unallocated_blocks :: u32
  sb_unallocated_inodes :: u32
  sb_superblock_block :: u32
  sb_block_size_log :: u32
  sb_frag_size_log :: u32
  sb_blocks_per_group :: u32
  sb_frags_per_group :: u32
  sb_inodes_per_group :: u32
  sb_last_mount_time :: u32
  sb_last_write_time :: u32
  sb_mounts_since_consistent :: u16
  sb_max_mounts_until_consistent :: u16
  sb_signature :: u16
  sb_state :: u16
  sb_err_handling :: u16
  sb_version_min :: u16
  sb_last_consistent_time :: u32
  sb_forced_consistency_interval :: u32
  sb_osid :: u32
  sb_version_maj :: u32
  sb_reserved_userid :: u16
  sb_reserved_groupid :: u16
  sb_first_nonreserved_inode :: u32
  sb_inode_size :: u16
  sb_superblock_block_group :: u16
  sb_feats_optional :: u32
  sb_feats_required :: u32
  sb_feats_readonly :: u32
  sb_fsid :: "u8 list"
  sb_name :: "u8 list"
  sb_last_mount_path :: "u8 list"
  sb_compression :: u32
  sb_prealloced_file_blocks :: u8
  sb_prealloced_dir_blocks :: u8
  sb_rsvd :: u16
  sb_journal_id :: "u8 list"
  sb_journal_inode :: addr
  sb_journal_dev :: addr
  sb_orphan_inode_head :: addr

definition superblock_of :: "u8 list \<Rightarrow> ext2_superblock" where
  "superblock_of bs = \<lparr>sb_total_inodes = le32 bs 0, sb_total_blocks = le32 bs 4, sb_superuser_blocks = le32 bs 8,
     sb_unallocated_blocks = le32 bs 12, sb_unallocated_inodes = le32 bs 16, sb_superblock_block = le32 bs 20,
     sb_block_size_log = le32 bs 24, sb_frag_size_log = le32 bs 28, sb_blocks_per_group = le32 bs 32,
     sb_frags_per_group = le32 bs 36, sb_inodes_per_group = le32 bs 40, sb_last_mount_time = le32 bs 44,
     sb_last_write_time = le32 bs 48, sb_mounts_since_consistent = le16 bs 52,
     sb_max_mounts_until_consistent = le16 bs 54, sb_signature = le16 bs 56, sb_state = le16 bs 58,
     sb_err_handling = le16 bs 60, sb_version_min = le16 bs 62, sb_last_consistent_time = le32 bs 64,
     sb_forced_consistency_interval = le32 bs 68, sb_osid = le32 bs 72, sb_version_maj = le32 bs 76,
     sb_reserved_userid = le16 bs 80, sb_reserved_groupid = le16 bs 82, sb_first_nonreserved_inode = le32 bs 84,
     sb_inode_size = le16 bs 88, sb_superblock_block_group = le16 bs 90, sb_feats_optional = le32 bs 92,
     sb_feats_required = le32 bs 96, sb_feats_readonly = le32 bs 100, sb_fsid = slice 104 16 bs,
     sb_name = slice 120 16 bs, sb_last_mount_path = slice 136 64 bs, sb_compression = le32 bs 200,
     sb_prealloced_file_blocks = bs ! 204, sb_prealloced_dir_blocks = bs ! 205, sb_rsvd = le16 bs 206,
     sb_journal_id = slice 208 16 bs, sb_journal_inode = le32 bs 224, sb_journal_dev = le32 bs 228,
     sb_orphan_inode_head = le32 bs 232\<rparr>"

record ext2_block_group_descriptor =
  gd_block_bitmap_addr :: u32
  gd_inode_bitmap_addr :: u32
  gd_inode_table :: u32
  gd_unallocated_blocks :: u16
  gd_unallocated_inodes :: u16
  gd_directory_count :: u16
  gd_rsvd :: "u8 list"

definition descriptor_of :: "u8 list \<Rightarrow> ext2_block_group_descriptor" where
  "descriptor_of bs = \<lparr>gd_block_bitmap_addr = le32 bs 0, gd_inode_bitmap_addr = le32 bs 4, gd_inode_table = le32 bs 8,
     gd_unallocated_blocks = le16 bs 12, gd_unallocated_inodes = le16 bs 14, gd_directory_count = le16 bs 16,
     gd_rsvd = slice 18 14 bs\<rparr>"

definition descriptor_bytes :: "ext2_block_group_descriptor \<Rightarrow> u8 list" where
  "descriptor_bytes d = bytes32 (gd_block_bitmap_addr d) @ bytes32 (gd_inode_bitmap_addr d) @ bytes32 (gd_inode_table d) @
     bytes16 (gd_unallocated_blocks d) @ bytes16 (gd_unallocated_inodes d) @ bytes16 (gd_directory_count d) @ gd_rsvd d"

record ext2_inode =
  i_mode :: u16
  i_user_id :: u16
  i_size_lo :: u32
  i_access_time :: u32
  i_creation_time :: u32
  i_modification_time :: u32
  i_deletion_time :: u32
  i_group_id :: u16
  i_hard_links :: u16
  i_sector_count :: u32
  i_flags :: u32
  i_os_specific_0 :: u32
  i_direct_blocks :: "u32 list"
  i_indirect_block_single :: u32
  i_indirect_block_double :: u32
  i_indirect_block_triple :: u32
  i_generation :: u32
  i_extended_attrs :: u32
  i_size_hi :: u32
  i_frag_addr :: u32
  i_os_specific_1 :: "u8 list"

definition inode_of :: "u8 list \<Rightarrow> ext2_inode" where
  "inode_of bs = \<lparr>i_mode = le16 bs 0, i_user_id = le16 bs 2, i_size_lo = le32 bs 4, i_access_time = le32 bs 8,
     i_creation_time = le32 bs 12, i_modification_time = le32 bs 16, i_deletion_time = le32 bs 20,
     i_group_id = le16 bs 24, i_hard_links = le16 bs 26, i_sector_count = le32 bs 28, i_flags = le32 bs 32,
     i_os_specific_0 = le32 bs 36, i_direct_blocks = map (\<lambda>k. le32 bs (40 + 4 * k)) [0..<12],
     i_indirect_block_single = le32 bs 88, i_indirect_block_double = le32 bs 92, i_indirect_block_triple = le32 bs 96,
     i_generation = le32 bs 100, i_extended_attrs = le32 bs 104, i_size_hi = le32 bs 108, i_frag_addr = le32 bs 112,
     i_os_specific_1 = slice 116 12 bs\<rparr>"

definition inode_bytes :: "ext2_inode \<Rightarrow> u8 list" where
  "inode_bytes i = bytes16 (i_mode i) @ bytes16 (i_user_id i) @ bytes32 (i_size_lo i) @ bytes32 (i_access_time i) @
     bytes32 (i_creation_time i) @ bytes32 (i_modification_time i) @ bytes32 (i_deletion_time i) @
     bytes16 (i_group_id i) @ bytes16 (i_hard_links i) @ bytes32 (i_sector_count i) @ bytes32 (i_flags i) @
     bytes32 (i_os_specific_0 i) @ concat (map bytes32 (i_direct_blocks i)) @ bytes32 (i_indirect_block_single i) @
     bytes32 (i_indirect_block_double i) @ bytes32 (i_indirect_block_triple i) @ bytes32 (i_generation i) @
     bytes32 (i_extended_attrs i) @ bytes32 (i_size_hi i) @ bytes32 (i_frag_addr i) @ i_os_specific_1 i"

record ext2_directory_entry =
  de_inode :: u32
  de_len :: u16
  de_name_len :: u8
  de_file_type :: u8
  de_name :: "u8 list"

text \<open>The entry at the start of a buffer, with the part of the name its length field covers.\<close>

definition entry_of :: "u8 list \<Rightarrow> ext2_directory_entry" where
  "entry_of bs = \<lparr>de_inode = le32 bs 0, de_len = le16 bs 4, de_name_len = bs ! 6, de_file_type = bs ! 7,
     de_name = slice 8 (unat (bs ! 6)) bs\<rparr>"

record ext2_vfs_payload =
  pl_inode_id :: u32
  pl_group :: u32
  pl_inode :: ext2_inode
  pl_superblock :: ext2_superblock

definition EXT2_DIR :: u16 where "EXT2_DIR = 0x4000"

text \<open>Replacing the bytes of a buffer from an offset on.\<close>

definition patch :: "nat \<Rightarrow> u8 list \<Rightarrow> u8 list \<Rightarrow> u8 list" where
  "patch i new bs = take i bs @ new @ drop (i + length new) bs"

section \<open>Group descriptors and inodes\<close>

definition block_size :: "ext2_superblock \<Rightarrow> u32" where
  "block_size sb = push_bit (unat (sb_block_size_log sb)) 1024"

definition descriptor_lba :: "ext2_superblock \<Rightarrow> u32 \<Rightarrow> u32" where
  "descriptor_lba sb idx = idx * 32 div SECTOR_SIZE + max (block_size sb) 2048 div SECTOR_SIZE"

text \<open>In the write direction the modified sector is transferred with \<^verbatim>\<open>DIR_READ\<close> again.\<close>

definition group_descriptor_transfer ::
  "'d bdev \<Rightarrow> ext2_superblock \<Rightarrow> u32 \<Rightarrow> ext2_block_group_descriptor \<Rightarrow> data_dir \<Rightarrow> 'd \<Rightarrow>
    (hal_drive_res \<times> ext2_block_group_descriptor \<times> 'd) result" where
  "group_descriptor_transfer B sb idx descriptor dir d =
     (let lba = descriptor_lba sb idx; o' = 32 * unat (idx mod 16) in
      rbind (B lba 1 (replicate 512 0) DIR_READ d) (\<lambda>(err, bs, d).
      if err \<noteq> DRV_SUCCESS then Inr (err, descriptor, d)
      else case dir of
             DIR_WRITE \<Rightarrow> rbind (B lba 1 (patch o' (descriptor_bytes descriptor) bs) DIR_READ d) (\<lambda>(err, bs, d).
               Inr (err, descriptor, d))
           | DIR_READ \<Rightarrow> Inr (DRV_SUCCESS, descriptor_of (drop o' bs), d)))"

definition inode_size :: "ext2_superblock \<Rightarrow> u32" where
  "inode_size sb = (if sb_version_maj sb \<ge> 1 then ucast (sb_inode_size sb) else 128)"

definition inode_transfer ::
  "'d bdev \<Rightarrow> ext2_superblock \<Rightarrow> u32 \<Rightarrow> ext2_inode \<Rightarrow> data_dir \<Rightarrow> 'd \<Rightarrow> (hal_drive_res \<times> ext2_inode \<times> 'd) result" where
  "inode_transfer B sb inode_i inode dir d =
     (if sb_inodes_per_group sb = 0 then Inl DivideError
      else let grp = (inode_i - 1) div sb_inodes_per_group sb; idx = (inode_i - 1) mod sb_inodes_per_group sb;
               lba = idx * inode_size sb div SECTOR_SIZE in
           rbind (group_descriptor_transfer B sb grp (descriptor_of (replicate 32 0)) DIR_READ d) (\<lambda>(err, gd, d).
           if err \<noteq> DRV_SUCCESS then Inr (err, inode, d)
           else let lba = lba + gd_inode_table gd * block_size sb div SECTOR_SIZE in
                rbind (B lba 1 (replicate 512 0) DIR_READ d) (\<lambda>(err, bs, d).
                if err \<noteq> DRV_SUCCESS then Inr (err, inode, d)
                else if inode_size sb = 0 \<or> SECTOR_SIZE div inode_size sb = 0 then Inl DivideError
                else let o' = unat (idx mod (SECTOR_SIZE div inode_size sb) * inode_size sb) in
                     if o' + 128 > 512 then Inl OutOfBounds
                     else case dir of
                            DIR_READ \<Rightarrow> Inr (DRV_SUCCESS, inode_of (drop o' bs), d)
                          | DIR_WRITE \<Rightarrow> rbind (B lba 1 (patch o' (inode_bytes inode) bs) DIR_WRITE d) (\<lambda>(err, bs, d).
                              Inr (err, inode, d)))))"

section \<open>Allocation\<close>

text \<open>The first byte with a free bit, and the first free bit in it.\<close>

definition free_bit :: "u8 \<Rightarrow> nat option" where
  "free_bit b = find (\<lambda>j. \<not> bit b j) [0..<8]"

fun find_free :: "nat \<Rightarrow> u8 list \<Rightarrow> (nat \<times> nat) option" where
  "find_free i [] = None"
| "find_free i (b # bs) = (if b = 0xFF then find_free (Suc i) bs
     else case free_bit b of Some j \<Rightarrow> Some (i, j) | None \<Rightarrow> find_free (Suc i) bs)"

text \<open>The result is 0 when there is no free object or a transfer fails.\<close>

definition alloc_ext2_obj :: "'d bdev \<Rightarrow> ext2_superblock \<Rightarrow> u32 \<Rightarrow> bool \<Rightarrow> 'd \<Rightarrow> (u32 \<times> 'd) result" where
  "alloc_ext2_obj B sb grp inode d =
     rbind (group_descriptor_transfer B sb grp (descriptor_of (replicate 32 0)) DIR_READ d) (\<lambda>(err, gd, d).
     if err \<noteq> DRV_SUCCESS then Inr (0, d)
     else if inode \<and> gd_unallocated_inodes gd = 0 then Inr (0, d)
     else if \<not> inode \<and> gd_unallocated_blocks gd = 0 then Inr (0, d)
     else rbind (group_descriptor_transfer B sb grp gd DIR_READ d) (\<lambda>(err, gd, d).
     if err \<noteq> DRV_SUCCESS then Inr (0, d)
     else let bitmap_lba = (if inode then gd_inode_bitmap_addr gd else gd_block_bitmap_addr gd) * block_size sb div SECTOR_SIZE;
              n = block_size sb div SECTOR_SIZE in
          rbind (B bitmap_lba n (replicate (unat (block_size sb)) 0) DIR_READ d) (\<lambda>(err, bitmap, d).
          if err \<noteq> DRV_SUCCESS then Inr (0, d)
          else case find_free 0 bitmap of
                 None \<Rightarrow> Inr (0, d)
               | Some (i, j) \<Rightarrow>
                   rbind (B bitmap_lba n (bitmap[i := bitmap ! i OR push_bit j 1]) DIR_WRITE d) (\<lambda>(err, _, d).
                   if err \<noteq> DRV_SUCCESS then Inr (0, d)
                   else Inr (if inode then grp * sb_inodes_per_group sb + of_nat (i * 8) + of_nat j + 1
                             else grp * sb_blocks_per_group sb + of_nat (i * 8) + of_nat j, d)))))"

section \<open>Blocks of a file\<close>

text \<open>
  The data of block \<open>idx\<close> of a file. For a block behind the singly indirect ones the sector number keeps
  its initial value, which is the error code \<^verbatim>\<open>DRV_ERR_BAD_ARGS\<close>, that is 4.
\<close>

definition block_lba :: "ext2_superblock \<Rightarrow> u32 \<Rightarrow> u32" where
  "block_lba sb blk = blk * block_size sb div SECTOR_SIZE"

definition sectors_per_block :: "ext2_superblock \<Rightarrow> u32" where
  "sectors_per_block sb = block_size sb div SECTOR_SIZE"

definition indirect_lba ::
  "'d bdev \<Rightarrow> ext2_superblock \<Rightarrow> ext2_inode \<Rightarrow> u32 \<Rightarrow> 'd \<Rightarrow> (hal_drive_res \<times> u32 \<times> 'd) result" where
  "indirect_lba B sb inode idx d =
     rbind (B (block_lba sb (i_indirect_block_single inode)) (sectors_per_block sb) (replicate (unat (block_size sb)) 0)
       DIR_READ d) (\<lambda>(err, bs, d).
     if err \<noteq> DRV_SUCCESS then Inr (err, 0, d)
     else let k = 4 * unat (idx - 12); lba = block_lba sb (le32 bs k) in
          if lba \<noteq> 0 then Inr (DRV_SUCCESS, lba, d)
          else rbind (alloc_ext2_obj B sb (ucast (i_group_id inode)) False d) (\<lambda>(blk, d).
               let bs = patch k (bytes32 blk) bs in
               rbind (B (block_lba sb (i_indirect_block_single inode)) (sectors_per_block sb) bs DIR_WRITE d) (\<lambda>(err, _, d).
               Inr (DRV_SUCCESS, block_lba sb blk, d))))"

definition data_lba ::
  "'d bdev \<Rightarrow> ext2_superblock \<Rightarrow> ext2_inode \<Rightarrow> u32 \<Rightarrow> data_dir \<Rightarrow> 'd \<Rightarrow>
    (hal_drive_res \<times> u32 \<times> ext2_inode \<times> bool \<times> 'd) result" where
  "data_lba B sb inode idx dir d =
     (if idx < 12
      then if i_direct_blocks inode ! unat idx = 0
           then rbind (alloc_ext2_obj B sb (ucast (i_group_id inode)) False d) (\<lambda>(blk, d).
                Inr (DRV_SUCCESS, block_lba sb blk, inode\<lparr>i_direct_blocks := (i_direct_blocks inode)[unat idx := blk]\<rparr>, True, d))
           else Inr (DRV_SUCCESS, block_lba sb (i_direct_blocks inode ! unat idx), inode, False, d)
      else if idx < 12 + block_size sb div 4
      then if i_indirect_block_single inode = 0 \<and> dir = DIR_READ then Inr (DRV_ERR_BAD_ARGS, 0, inode, False, d)
           else rbind (if i_indirect_block_single inode = 0
                       then rbind (alloc_ext2_obj B sb (ucast (i_group_id inode)) False d) (\<lambda>(blk, d).
                            Inr (inode\<lparr>i_indirect_block_single := blk\<rparr>, True, d))
                       else Inr (inode, False, d)) (\<lambda>(inode, write_inode, d).
                rbind (indirect_lba B sb inode idx d) (\<lambda>(err, lba, d).
                Inr (err, lba, inode, write_inode, d)))
      else Inr (DRV_SUCCESS, 4, inode, False, d))"

definition inode_data_transfer ::
  "'d bdev \<Rightarrow> ext2_superblock \<Rightarrow> u32 \<Rightarrow> ext2_inode \<Rightarrow> u32 \<Rightarrow> u8 list \<Rightarrow> data_dir \<Rightarrow> 'd \<Rightarrow>
    (hal_drive_res \<times> ext2_inode \<times> u8 list \<times> 'd) result" where
  "inode_data_transfer B sb inode_i inode idx data dir d =
     rbind (data_lba B sb inode idx dir d) (\<lambda>(err, lba, inode, write_inode, d).
     if err \<noteq> DRV_SUCCESS then Inr (err, inode, data, d)
     else rbind (B lba (sectors_per_block sb) data dir d) (\<lambda>(err, data, d).
          if err \<noteq> DRV_SUCCESS \<or> \<not> write_inode then Inr (err, inode, data, d)
          else rbind (inode_transfer B sb inode_i inode DIR_WRITE d) (\<lambda>(err, _, d).
               Inr (err, inode, data, d))))"

section \<open>Directories\<close>

text \<open>The blocks of a directory one after the other; the inode is the caller's copy.\<close>

fun read_blocks :: "'d bdev \<Rightarrow> ext2_superblock \<Rightarrow> u32 \<Rightarrow> ext2_inode \<Rightarrow> nat list \<Rightarrow> 'd \<Rightarrow> (hal_drive_res \<times> u8 list \<times> 'd) result" where
  "read_blocks B sb inode_i inode [] d = Inr (DRV_SUCCESS, [], d)"
| "read_blocks B sb inode_i inode (i # is) d =
     rbind (inode_data_transfer B sb inode_i inode (of_nat i) (replicate (unat (block_size sb)) 0) DIR_READ d)
       (\<lambda>(err, inode, bs, d).
     if err \<noteq> DRV_SUCCESS then Inr (err, [], d)
     else rbind (read_blocks B sb inode_i inode is d) (\<lambda>(err, bs', d). Inr (err, bs @ bs', d)))"

text \<open>
  The loop over the entries of a directory: names and inode numbers up to the first entry with inode 0,
  the latest first. The bound on the position wraps around for an empty directory, and an entry with
  length 0 makes the loop run forever.
\<close>

definition entries_end :: "u8 list \<Rightarrow> nat" where
  "entries_end bs = unat (of_nat (length bs) - 1 :: u32)"

partial_function (option) scan_entries :: "u8 list \<Rightarrow> nat \<Rightarrow> (u8 list \<times> u32) list \<Rightarrow> (u8 list \<times> u32) list result option" where
  "scan_entries bs o' acc =
     (if o' < entries_end bs
      then if length bs < o' + 4 then Some (Inl OutOfBounds)
           else if le32 bs o' = 0 then Some (Inr acc)
           else if length bs < o' + 8 \<or> length bs < o' + 8 + unat (bs ! (o' + 6)) then Some (Inl OutOfBounds)
           else let e = entry_of (drop o' bs) in scan_entries bs (o' + unat (de_len e)) ((de_name e, de_inode e) # acc)
      else Some (Inr acc))"

text \<open>
  The state around a file system: the device, the objects of the virtual file system, the payloads by
  address, and the number of objects allocated so far. The addresses \<^verbatim>\<open>kmalloc\<close> returns for the objects
  that stay are an argument, \<open>kmalloc\<close>; the inode of a tree node lies 8 bytes into it, behind the name.
\<close>

record 'd ext2 =
  x_dev :: 'd
  x_vfs :: vfs
  x_payloads :: "addr \<Rightarrow> ext2_vfs_payload"
  x_allocs :: nat

definition tnode_inode :: "addr \<Rightarrow> addr" where "tnode_inode tn = tn + 8"

definition push_child :: "(nat \<Rightarrow> addr) \<Rightarrow> u8 list \<times> u32 \<Rightarrow> addr \<times> 'd ext2 \<Rightarrow> addr \<times> 'd ext2" where
  "push_child kmalloc e fs =
     (let (first, s) = fs; a = kmalloc (x_allocs s); v = x_vfs s in
      (a, s\<lparr>x_allocs := x_allocs s + 1,
            x_vfs := v\<lparr>tnodes := (tnodes v)(a := \<lparr>tn_name = fst e, tn_inode = tnode_inode a, tn_next = first, tn_inode_id = snd e\<rparr>),
              inodes := (inodes v)(tnode_inode a := (inodes v (tnode_inode a))\<lparr>in_present := False\<rparr>)\<rparr>\<rparr>))"

text \<open>\<^verbatim>\<open>enumerate_children\<close>: the inode is the caller's; it returns the new \<^verbatim>\<open>first_child\<close> of it.\<close>

definition enumerate_children ::
  "'d bdev \<Rightarrow> (nat \<Rightarrow> addr) \<Rightarrow> vfs_inode \<Rightarrow> 'd ext2 \<Rightarrow> (hal_drive_res \<times> addr \<times> 'd ext2) result option" where
  "enumerate_children B kmalloc node s =
     (let pl = x_payloads s (in_backend_data node); inode = pl_inode pl; sb = pl_superblock pl in
      if i_mode inode AND EXT2_DIR = 0 then Some (Inr (DRV_SUCCESS, 0, s))
      else if block_size sb = 0 then Some (Inl DivideError)
      else let blocks = i_sector_count inode * SECTOR_SIZE div block_size sb in
           case read_blocks B sb (pl_inode_id pl) inode [0..<unat blocks] (x_dev s) of
             Inl e \<Rightarrow> Some (Inl e)
           | Inr (err, bs, d) \<Rightarrow>
               if err \<noteq> DRV_SUCCESS then Some (Inr (err, in_first_child node, s\<lparr>x_dev := d\<rparr>))
               else map_option (\<lambda>r. rbind r (\<lambda>es.
                      let (first, s) = fold (push_child kmalloc) (rev es) (in_first_child node, s\<lparr>x_dev := d\<rparr>)
                      in Inr (DRV_SUCCESS, first, s))) (scan_entries bs 0 []))"

text \<open>
  \<^verbatim>\<open>ext2_register_inode\<close>: \<open>child\<close> is the uninitialised structure on the stack and \<open>raw\<close> the uninitialised
  payload; the list of children of a directory is pushed onto whatever \<open>child\<close> held.
\<close>

definition ext2_register_inode ::
  "'d bdev \<Rightarrow> (nat \<Rightarrow> addr) \<Rightarrow> vfs_inode \<Rightarrow> ext2_inode \<Rightarrow> addr \<Rightarrow> addr \<Rightarrow> 'd ext2 \<Rightarrow> 'd ext2 result option" where
  "ext2_register_inode B kmalloc child raw parent tchild s =
     (let sb = pl_superblock (x_payloads s (in_backend_data (inodes (x_vfs s) parent)));
          child = child\<lparr>in_backend_data := kmalloc (x_allocs s)\<rparr>; s = s\<lparr>x_allocs := x_allocs s + 1\<rparr>;
          id = tn_inode_id (tnodes (x_vfs s) tchild) in
      case inode_transfer B sb id raw DIR_READ (x_dev s) of
        Inl e \<Rightarrow> Some (Inl e)
      | Inr (_, inode, d) \<Rightarrow>
          let pl = \<lparr>pl_inode_id = id, pl_group = (id - 1) div sb_inodes_per_group sb, pl_inode = inode, pl_superblock = sb\<rparr>;
              s = s\<lparr>x_dev := d, x_payloads := (x_payloads s)(in_backend_data child := pl)\<rparr>
          in map_option (\<lambda>r. rbind r (\<lambda>(_, first, s).
               let node = child\<lparr>in_first_child := first, in_present := True, in_size := i_size_lo inode\<rparr>; v = x_vfs s
               in Inr (s\<lparr>x_vfs := v\<lparr>inodes := (inodes v)(tn_inode (tnodes v tchild) := node)\<rparr>\<rparr>)))
             (enumerate_children B kmalloc child s))"

text \<open>
  \<^verbatim>\<open>alloc_child_inode\<close>: the groups at growing distance from the parent's, below it first. The loop stops
  one short of the larger distance.
\<close>

fun try_groups :: "'d bdev \<Rightarrow> ext2_superblock \<Rightarrow> u32 list \<Rightarrow> 'd \<Rightarrow> (u32 \<times> 'd) result" where
  "try_groups B sb [] d = Inr (0, d)"
| "try_groups B sb (g # gs) d =
     rbind (alloc_ext2_obj B sb g True d) (\<lambda>(inode, d). if inode \<noteq> 0 then Inr (inode, d) else try_groups B sb gs d)"

definition group_order :: "u32 \<Rightarrow> u32 \<Rightarrow> u32 list" where
  "group_order parent_group group_cnt =
     concat (map (\<lambda>k. let d = of_nat k in
       (if parent_group \<ge> d then [parent_group - d] else []) @
       (if parent_group + d < group_cnt then [parent_group + d] else []))
       [0..<unat (max parent_group (group_cnt - parent_group - 1))])"

definition alloc_child_inode :: "'d bdev \<Rightarrow> ext2_vfs_payload \<Rightarrow> 'd \<Rightarrow> (u32 \<times> 'd) result" where
  "alloc_child_inode B parent d =
     (let sb = pl_superblock parent in
      if sb_blocks_per_group sb = 0 then Inl DivideError
      else try_groups B sb (group_order (pl_group parent) (sb_total_blocks sb div sb_blocks_per_group sb)) d)"

section \<open>Reading and writing files\<close>

text \<open>
  One round of the loop of \<^verbatim>\<open>ext2_transfer\<close>: the status and the number of bytes moved. \<open>data\<close> is the
  caller's buffer.
\<close>

definition file_step ::
  "'d bdev \<Rightarrow> ext2_vfs_payload \<Rightarrow> u32 \<Rightarrow> u32 \<Rightarrow> data_dir \<Rightarrow> u32 \<Rightarrow> u32 \<Rightarrow> u32 \<Rightarrow> u32 \<Rightarrow> u8 list \<Rightarrow> 'd \<Rightarrow>
    (hal_drive_res \<times> u32 \<times> ext2_vfs_payload \<times> u8 list \<times> 'd) result" where
  "file_step B pl offset len dir block block_end skip bytes_written data d =
     (let sb = pl_superblock pl in
      rbind (inode_data_transfer B sb (pl_inode_id pl) (pl_inode pl) block (replicate (unat (block_size sb)) 0) DIR_READ d)
        (\<lambda>(err, inode, bfr, d).
      let pl = pl\<lparr>pl_inode := inode\<rparr> in
      if err \<noteq> DRV_SUCCESS then Inr (err, 0, pl, data, d)
      else let cnt = block_size sb - skip + (if offset + len < block_end then offset + len - block_end else 0);
               a = unat bytes_written; s = unat skip; n = unat cnt in
           if length data < a + n \<or> length bfr < s + n then Inl OutOfBounds
           else case dir of
                  DIR_READ \<Rightarrow> Inr (DRV_SUCCESS, cnt, pl, patch a (slice s n bfr) data, d)
                | DIR_WRITE \<Rightarrow>
                    rbind (inode_data_transfer B sb (pl_inode_id pl) (pl_inode pl) block
                      (patch s (slice a n data) bfr) DIR_WRITE d) (\<lambda>(err, inode, _, d).
                    Inr (err, cnt, pl\<lparr>pl_inode := inode\<rparr>, data, d))))"

partial_function (option) file_loop ::
  "'d bdev \<Rightarrow> ext2_vfs_payload \<Rightarrow> u32 \<Rightarrow> u32 \<Rightarrow> data_dir \<Rightarrow> u32 \<Rightarrow> u32 \<Rightarrow> u32 \<Rightarrow> u32 \<Rightarrow> u8 list \<Rightarrow> 'd \<Rightarrow>
    (u32 \<times> ext2_vfs_payload \<times> u8 list \<times> 'd) result option" where
  "file_loop B pl offset len dir block block_end skip bytes_written data d =
     (case file_step B pl offset len dir block block_end skip bytes_written data d of
        Inl e \<Rightarrow> Some (Inl e)
      | Inr (err, cnt, pl, data, d) \<Rightarrow>
          if err \<noteq> DRV_SUCCESS then Some (Inr (bytes_written, pl, data, d))
          else if bytes_written + cnt = len then Some (Inr (bytes_written + cnt, pl, data, d))
          else file_loop B pl offset len dir (block + 1) (block_end + block_size (pl_superblock pl)) 0 (bytes_written + cnt) data d)"

definition ext2_transfer ::
  "'d bdev \<Rightarrow> ext2_vfs_payload \<Rightarrow> u32 \<Rightarrow> u32 \<Rightarrow> u8 list \<Rightarrow> data_dir \<Rightarrow> 'd \<Rightarrow>
    (u32 \<times> ext2_vfs_payload \<times> u8 list \<times> 'd) result option" where
  "ext2_transfer B pl offset len data dir d =
     (let sb = pl_superblock pl; bs = block_size sb;
          len = (if offset + len > i_size_lo (pl_inode pl) then i_size_lo (pl_inode pl) - offset else len) in
      if bs = 0 then Some (Inl DivideError)
      else let block = offset div bs in
           case file_loop B pl offset len dir block ((block + 1) * bs) (offset - block * bs) 0 data d of
             None \<Rightarrow> None
           | Some (Inl e) \<Rightarrow> Some (Inl e)
           | Some (Inr (n, pl, data, d)) \<Rightarrow>
               if dir = DIR_WRITE \<and> offset + len \<ge> i_size_lo (pl_inode pl)
               then let inode = (pl_inode pl)\<lparr>i_size_lo := offset + len,
                          i_sector_count := (offset + len + SECTOR_SIZE - 1) div SECTOR_SIZE\<rparr>
                    in Some (rbind (inode_transfer B sb (pl_inode_id pl) inode DIR_WRITE d) (\<lambda>(_, _, d).
                         Inr (n, pl\<lparr>pl_inode := inode\<rparr>, data, d)))
               else Some (Inr (n, pl, data, d)))"

text \<open>
  \<^verbatim>\<open>detect_ext2\<close>: \<open>node\<close>, \<open>raw\<close> and \<open>garbage\<close> are what the stack and the new payload held; the inode number
  of the payload is never set. The result of a successful mount is \<^verbatim>\<open>true\<close>, the code of \<open>DRV_ERR_NO_DRIVE\<close>.
\<close>

definition EXT2_PATH :: "u8 list" where
  "EXT2_PATH = [0x2F, 0x65, 0x78, 0x74, 0x32]"

definition detect_ext2 ::
  "'d bdev \<Rightarrow> (nat \<Rightarrow> addr) \<Rightarrow> vfs_inode \<Rightarrow> ext2_inode \<Rightarrow> u32 \<Rightarrow> 'd ext2 \<Rightarrow> (hal_drive_res \<times> 'd ext2) result option" where
  "detect_ext2 B kmalloc node raw garbage s =
     (case B 2 2 (replicate 1024 0) DIR_READ (x_dev s) of
        Inl e \<Rightarrow> Some (Inl e)
      | Inr (err, bs, d) \<Rightarrow>
          let s = s\<lparr>x_dev := d\<rparr> in
          if err \<noteq> DRV_SUCCESS then Some (Inr (err, s))
          else let sb = superblock_of bs in
               if sb_signature sb \<noteq> 0xEF53 then Some (Inr (DRV_SUCCESS, s))
               else case inode_transfer B sb 2 raw DIR_READ (x_dev s) of
                      Inl e \<Rightarrow> Some (Inl e)
                    | Inr (_, root, d) \<Rightarrow>
                        let a = kmalloc (x_allocs s);
                            pl = \<lparr>pl_inode_id = garbage, pl_group = 0, pl_inode = root, pl_superblock = sb\<rparr>;
                            s = s\<lparr>x_dev := d, x_payloads := (x_payloads s)(a := pl), x_allocs := x_allocs s + 1\<rparr>;
                            node = node\<lparr>in_backend_data := a, in_first_child := 0\<rparr>
                        in map_option (\<lambda>r. rbind r (\<lambda>(_, first, s).
                             let mp = kmalloc (x_allocs s);
                                 (_, v) = mount mp mp (node\<lparr>in_first_child := first\<rparr>) EXT2_PATH (x_vfs s)
                             in Inr (DRV_ERR_NO_DRIVE, s\<lparr>x_vfs := v, x_allocs := x_allocs s + 1\<rparr>)))
                           (enumerate_children B kmalloc node s))"

end
