(* ===== verification/Ext2_Files.thy ===== *)
theory Ext2_Files
  imports Ext2
begin

unbundle bit_operations_syntax

text \<open>
  What the file system of theory \<open>Ext2\<close> promises. The content of a file is a list of bytes; reading and
  writing act on it as on a list, allocation marks the first free object, inodes survive a round trip
  through the inode table, and the entries of a directory are found. The lemmas are proved for any block
  device and used for a partition of a drive.
\<close>

section \<open>Buffers\<close>

lemma slice_length: "i + n \<le> length bs \<Longrightarrow> length (slice i n bs) = n"
  by (simp add: slice_def)

lemma patch_length: "i + length new \<le> length bs \<Longrightarrow> length (patch i new bs) = length bs"
  by (simp add: patch_def)

lemma nth_patch:
  assumes "i + length new \<le> length bs" and "j < length bs"
  shows "patch i new bs ! j = (if i \<le> j \<and> j < i + length new then new ! (j - i) else bs ! j)"
  using assms by (auto simp: patch_def nth_append min_def not_less)

lemma nth_slice: "j < n \<Longrightarrow> i + n \<le> length bs \<Longrightarrow> slice i n bs ! j = bs ! (i + j)"
  by (simp add: slice_def)

lemma patch_patch:
  assumes "i + length a + length b \<le> length bs"
  shows "patch (i + length a) b (patch i a bs) = patch i (a @ b) bs"
  using assms by (intro nth_equalityI) (auto simp: patch_length nth_patch nth_append)

lemma slice_append:
  assumes "i + m + n \<le> length bs"
  shows "slice i m bs @ slice (i + m) n bs = slice i (m + n) bs"
  using assms by (intro nth_equalityI) (auto simp: slice_length nth_append nth_slice)

lemma patch_inside:
  assumes "s + length x \<le> c" and "i + c \<le> length bs"
  shows "patch i (patch s x (slice i c bs)) bs = patch (i + s) x bs"
  using assms by (intro nth_equalityI) (auto simp: patch_length slice_length nth_patch nth_slice)

text \<open>A concatenation of pieces of the same length.\<close>

lemma concat_length_uniform: "(\<And>k. length (f k) = b) \<Longrightarrow> length (concat (map f [0..<n])) = n * b"
  by (induction n) auto

lemma nth_concat_uniform:
  assumes "\<And>k. length (f k) = b" and "j < n * b"
  shows "concat (map f [0..<n]) ! j = f (j div b) ! (j mod b)"
  using assms(2)
proof (induction n)
  case (Suc n)
  have b: "0 < b" using Suc.prems by (cases b) auto
  show ?case
  proof (cases "j < n * b")
    case True
    with Suc.IH show ?thesis by (simp add: nth_append concat_length_uniform [of f, OF assms(1)])
  next
    case False
    then have "n * b \<le> j" "j < b + n * b" using Suc.prems by auto
    then have "j div b = n" using b by (intro div_nat_eqI) (auto simp: algebra_simps)
    moreover from this have "j mod b = j - n * b" by (simp add: minus_div_mult_eq_mod [symmetric])
    ultimately show ?thesis using False by (simp add: nth_append concat_length_uniform [of f, OF assms(1)])
  qed
qed simp

lemma piece_position: "s < b \<Longrightarrow> (k * b + s) div b = k \<and> (k * b + s) mod b = (s :: nat)"
  by auto

lemma slice_concat:
  assumes "\<And>k. length (f k) = b" and "k < n" and "s + c \<le> b"
  shows "slice (k * b + s) c (concat (map f [0..<n])) = slice s c (f k)"
proof -
  have "k * b + b \<le> n * b" using assms(2) by (metis Suc_leI add.commute mult_Suc mult_le_mono1)
  then have le: "k * b + s + c \<le> n * b" using assms(3) by linarith
  have "j < c \<Longrightarrow> concat (map f [0..<n]) ! (k * b + s + j) = f k ! (s + j)" for j
    using nth_concat_uniform [of f b "k * b + s + j" n, OF assms(1)] piece_position [of "s + j" b k] assms(3) le
    by (simp add: add.assoc)
  with le assms(1,3) show ?thesis
    by (intro nth_equalityI) (auto simp: slice_length nth_slice concat_length_uniform [of f, OF assms(1)])
qed

lemma patch_concat:
  assumes "\<And>k. length (f k) = b" and "k < n" and "length x = b"
  shows "concat (map (f(k := x)) [0..<n]) = patch (k * b) x (concat (map f [0..<n]))"
proof -
  have le: "k * b + b \<le> n * b" using assms(2) by (metis Suc_leI add.commute mult_Suc mult_le_mono1)
  have len: "\<And>j. length ((f(k := x)) j) = b" using assms by simp
  show ?thesis
  proof (rule nth_equalityI)
    show "length (concat (map (f(k := x)) [0..<n])) = length (patch (k * b) x (concat (map f [0..<n])))"
      using le assms(3) by (simp add: patch_length concat_length_uniform [of f, OF assms(1)] concat_length_uniform [of "f(k := x)", OF len])
    fix j assume "j < length (concat (map (f(k := x)) [0..<n]))"
    then have j: "j < n * b" by (simp add: concat_length_uniform [of "f(k := x)", OF len])
    then have b: "0 < b" by (cases b) auto
    have "j div b = k \<longleftrightarrow> k * b \<le> j \<and> j < k * b + b"
      using b by (auto simp: div_nat_eqI dividend_less_times_div mult.commute)
        (metis mult_div_mod_eq mod_less_divisor nat_add_left_cancel_less)
    moreover have "j div b = k \<Longrightarrow> j mod b = j - k * b" by (auto simp: minus_div_mult_eq_mod [symmetric])
    ultimately show "concat (map (f(k := x)) [0..<n]) ! j = patch (k * b) x (concat (map f [0..<n])) ! j"
      using j le assms(3) nth_concat_uniform [of f b j n, OF assms(1)] nth_concat_uniform [of "f(k := x)" b j n, OF len]
      by (simp add: nth_patch concat_length_uniform [of f, OF assms(1)])
  qed
qed

section \<open>Encodings\<close>

lemma le32_bytes32 [simp]: "le32 (bytes32 w @ r) 0 = w"
  using bytes_join [of w] by (simp add: le32_def bytes32_def)

lemma le16_bytes16 [simp]: "le16 (bytes16 w @ r) 0 = w"
proof -
  have "ucast (ucast w :: u8) OR push_bit 8 (ucast (ucast (drop_bit 8 w) :: u8)) = (w :: u16)"
  proof (rule bit_word_eqI)
    fix n assume "n < LENGTH(16)"
    then have "n < 8 \<or> 8 \<le> n \<and> n - 8 < 8" by auto
    then show "bit (ucast (ucast w :: u8) OR push_bit 8 (ucast (ucast (drop_bit 8 w) :: u8)) :: u16) n = bit w n"
      using \<open>n < LENGTH(16)\<close> by (auto simp: bit_simps)
  qed
  then show ?thesis by (simp add: le16_def bytes16_def)
qed

lemma bytes_length [simp]: "length (bytes16 v) = 2" "length (bytes32 w) = 4"
  by (simp_all add: bytes16_def bytes32_def)

lemma field_skip:
  "length a \<le> i \<Longrightarrow> le32 (a @ r) i = le32 r (i - length a)"
  "length a \<le> i \<Longrightarrow> le16 (a @ r) i = le16 r (i - length a)"
  "length a \<le> i \<Longrightarrow> slice i n (a @ r) = slice (i - length a) n r"
  by (simp_all add: le32_def le16_def slice_def nth_append Suc_diff_le)

lemma words_length: "length (concat (map bytes32 ds)) = 4 * length ds"
  by (induction ds) auto

lemma words_decode: "map (\<lambda>k. le32 (concat (map bytes32 ds) @ r) (4 * k)) [0..<length ds] = ds"
proof (induction ds)
  case (Cons w ds)
  have "map (\<lambda>k. le32 (concat (map bytes32 (w # ds)) @ r) (4 * k)) [0..<length (w # ds)] =
      w # map (\<lambda>k. le32 (concat (map bytes32 ds) @ r) (4 * k)) [0..<length ds]"
    unfolding upt_conv_Cons [OF zero_less_Suc] list.size(4) add_0_right add_Suc_right One_nat_def
    by (simp add: map_Suc_upt [symmetric] field_skip del: upt_Suc)
  with Cons show ?case by simp
qed simp

definition inode_wf :: "ext2_inode \<Rightarrow> bool" where
  "inode_wf i \<longleftrightarrow> length (i_direct_blocks i) = 12 \<and> length (i_os_specific_1 i) = 12"

lemma inode_bytes_length: "inode_wf i \<Longrightarrow> length (inode_bytes i) = 128"
  by (simp add: inode_bytes_def inode_wf_def words_length)

lemma direct_blocks_decode:
  assumes "length ds = 12" and "length pre = 40"
  shows "map (\<lambda>k. le32 (pre @ concat (map bytes32 ds) @ r) (40 + 4 * k)) [0..<12] = ds"
  using words_decode [of ds r] assms by (simp add: field_skip del: upt_rec_numeral)

lemma inode_of_bytes:
  assumes "inode_wf i"
  shows "inode_of (inode_bytes i @ r) = i"
proof -
  have wf: "length (i_direct_blocks i) = 12" "length (i_os_specific_1 i) = 12" using assms by (auto simp: inode_wf_def)
  define pre where "pre = bytes16 (i_mode i) @ bytes16 (i_user_id i) @ bytes32 (i_size_lo i) @ bytes32 (i_access_time i) @
     bytes32 (i_creation_time i) @ bytes32 (i_modification_time i) @ bytes32 (i_deletion_time i) @
     bytes16 (i_group_id i) @ bytes16 (i_hard_links i) @ bytes32 (i_sector_count i) @ bytes32 (i_flags i) @
     bytes32 (i_os_specific_0 i)"
  have "length pre = 40" by (simp add: pre_def)
  from direct_blocks_decode [OF wf(1) this]
  have "map (\<lambda>k. le32 (inode_bytes i @ r) (40 + 4 * k)) [0..<12] = i_direct_blocks i"
    by (simp add: inode_bytes_def pre_def del: upt_rec_numeral)
  moreover have "slice 0 12 (i_os_specific_1 i @ r) = i_os_specific_1 i" using wf(2) by (simp add: slice_def)
  ultimately show ?thesis
    unfolding inode_of_def inode_bytes_def
    by (simp add: field_skip words_length wf del: upt_rec_numeral)
qed

text \<open>A directory entry as it lies on disk, with \<open>pad\<close> behind the name, and a directory made of such entries.\<close>

definition dirent_bytes :: "u8 list \<times> u32 \<Rightarrow> u8 \<Rightarrow> u8 list \<Rightarrow> u8 list" where
  "dirent_bytes e ft pad = bytes32 (snd e) @ bytes16 (of_nat (8 + length (fst e) + length pad)) @
     [of_nat (length (fst e)), ft] @ fst e @ pad"

definition dirent_ok :: "(u8 list \<times> u32) \<times> u8 \<times> u8 list \<Rightarrow> bool" where
  "dirent_ok x \<longleftrightarrow> (case x of (e, ft, pad) \<Rightarrow> snd e \<noteq> 0 \<and> length (fst e) < 256 \<and> 8 + length (fst e) + length pad < 0x10000)"

definition directory_bytes :: "((u8 list \<times> u32) \<times> u8 \<times> u8 list) list \<Rightarrow> u8 list" where
  "directory_bytes xs = concat (map (\<lambda>(e, ft, pad). dirent_bytes e ft pad) xs)"

lemma dirent_decode:
  assumes "dirent_ok (e, ft, pad)" and "bs = dirent_bytes e ft pad @ r"
  shows "le32 bs 0 = snd e" and "unat (de_len (entry_of bs)) = length (dirent_bytes e ft pad)" and "unat (bs ! 6) = length (fst e)"
    and "de_name (entry_of bs) = fst e" and "de_inode (entry_of bs) = snd e" and "8 + length (fst e) \<le> length bs"
proof -
  have l: "length (fst e) < 256" "8 + length (fst e) + length pad < 0x10000" using assms(1) by (auto simp: dirent_ok_def)
  have n: "unat (of_nat (length (fst e)) :: u8) = length (fst e)" using l(1) by (simp add: unat_of_nat take_bit_nat_eq_self)
  show i: "le32 bs 0 = snd e" by (simp add: assms(2) dirent_bytes_def)
  then show "de_inode (entry_of bs) = snd e" by (simp add: entry_of_def)
  show b6: "unat (bs ! 6) = length (fst e)" using n by (simp add: assms(2) dirent_bytes_def nth_append)
  show "8 + length (fst e) \<le> length bs" by (simp add: assms(2) dirent_bytes_def)
  have "slice 8 (length (fst e)) bs = fst e" by (simp add: assms(2) dirent_bytes_def field_skip) (simp add: slice_def)
  then show "de_name (entry_of bs) = fst e" using b6 by (simp add: entry_of_def)
  have "unat (of_nat (8 + length (fst e) + length pad) :: u16) = 8 + length (fst e) + length pad"
    using l(2) by (simp only: unat_of_nat) (simp add: take_bit_nat_eq_self)
  then show "unat (de_len (entry_of bs)) = length (dirent_bytes e ft pad)"
    by (simp add: entry_of_def assms(2) dirent_bytes_def field_skip)
qed

lemma scan_directory:
  assumes "\<forall>x \<in> set xs. dirent_ok x" and "length (pre @ directory_bytes xs) < 0x100000000"
    and "pre @ directory_bytes xs \<noteq> []"
  shows "scan_entries (pre @ directory_bytes xs) (length pre) acc = Some (Inr (rev (map fst xs) @ acc))"
  using assms
proof (induction xs arbitrary: pre acc)
  case Nil
  then have "entries_end pre = length pre - 1"
    by (simp add: entries_end_def directory_bytes_def unat_sub_u32 unat_of_nat_u32 Suc_leI)
  with Nil show ?case by (subst scan_entries.simps) (auto simp: directory_bytes_def)
next
  case (Cons x xs)
  obtain e ft pad where x: "x = (e, ft, pad)" by (cases x) auto
  define bs where "bs = dirent_bytes e ft pad @ directory_bytes xs"
  have ok: "dirent_ok (e, ft, pad)" using Cons.prems(1) x by simp
  note dec = dirent_decode [OF ok bs_def]
  have dir: "directory_bytes (x # xs) = bs" by (simp add: directory_bytes_def bs_def x)
  have len: "8 \<le> length bs" using dec(6) by linarith
  have "entries_end (pre @ bs) = length (pre @ bs) - 1"
    using len Cons.prems(2) dir
    by (simp only: entries_end_def) (simp add: unat_sub_u32 unat_of_nat_u32 del: of_nat_add)
  then have more: "length pre < entries_end (pre @ bs)" using len by simp
  have "scan_entries (pre @ bs) (length pre) acc =
      scan_entries (pre @ bs) (length pre + length (dirent_bytes e ft pad)) ((fst e, snd e) # acc)"
    using more len dec ok by (subst scan_entries.simps) (simp add: field_skip nth_append dirent_ok_def Let_def)
  also have "\<dots> = scan_entries ((pre @ dirent_bytes e ft pad) @ directory_bytes xs) (length (pre @ dirent_bytes e ft pad)) (e # acc)"
    by (simp add: bs_def)
  also have "\<dots> = Some (Inr (rev (map fst xs) @ e # acc))"
    using Cons.prems dir bs_def by (intro Cons.IH) (auto simp: dirent_bytes_def)
  finally show ?case by (simp only: dir) (simp add: x)
qed

text \<open>Nothing a transfer does to the caller's inode changes the size of the file.\<close>

definition same_file :: "ext2_vfs_payload \<Rightarrow> ext2_vfs_payload \<Rightarrow> bool" where
  "same_file pl pl' \<longleftrightarrow> i_size_lo (pl_inode pl') = i_size_lo (pl_inode pl) \<and> pl_superblock pl' = pl_superblock pl \<and>
     pl_inode_id pl' = pl_inode_id pl \<and> pl_group pl' = pl_group pl"

lemma data_lba_size:
  "data_lba B sb inode idx dir d = Inr (err, lba, inode', wr, d') \<Longrightarrow> i_size_lo inode' = i_size_lo inode"
  by (auto simp: data_lba_def split: if_splits)

lemma inode_data_size:
  "inode_data_transfer B sb inode_i inode idx data dir d = Inr (err, inode', data', d') \<Longrightarrow> i_size_lo inode' = i_size_lo inode"
  by (auto simp: inode_data_transfer_def data_lba_size split: if_splits)

lemma file_step_same:
  "file_step B pl offset len dir block block_end skip w data d = Inr (err, cnt, pl', data', d') \<Longrightarrow> same_file pl pl'"
  by (auto simp: file_step_def same_file_def Let_def split: if_splits data_dir.splits dest!: inode_data_size)

lemma file_loop_same:
  fixes d :: 'd
  assumes "file_loop B pl offset len dir block block_end skip w data d = Some (Inr (n, pl', data', d'))"
  shows "same_file pl pl'"
proof -
  let ?P = "\<lambda>B pl offset len dir block block_end skip w data (d :: 'd) (r :: (u32 \<times> ext2_vfs_payload \<times> u8 list \<times> 'd) result).
    \<forall>n pl' data' d'. r = Inr (n, pl', data', d') \<longrightarrow> same_file pl pl'"
  have "?P B pl offset len dir block block_end skip w data d (Inr (n, pl', data', d'))"
  proof (rule file_loop.raw_induct [where P = ?P, OF _ assms], goal_cases)
    case (1 f B pl offset len dir block block_end skip w data d r)
    show ?case
    proof (cases "file_step B pl offset len dir block block_end skip w data d")
      case (Inl e)
      with 1(2) show ?thesis by auto
    next
      case (Inr x)
      obtain err cnt pl1 data1 d1 where x: "x = (err, cnt, pl1, data1, d1)" by (cases x)
      have same: "same_file pl pl1" using file_step_same [OF Inr [unfolded x]] .
      then have "same_file pl1 pl2 \<Longrightarrow> same_file pl pl2" for pl2 by (simp add: same_file_def)
      with same 1(2) 1(1) [of B pl1 offset len dir "block + 1" "block_end + block_size (pl_superblock pl1)" 0 "w + cnt" data1 d1 r]
      show ?thesis unfolding Inr x by (auto split: if_splits)
    qed
  qed
  then show ?thesis by simp
qed

section \<open>The content of a file\<close>

text \<open>
  The blocks of a file on a disk with the sectors \<open>f\<close>: the first 12 are listed in the inode, the others in
  the singly indirect block. The content is their concatenation.
\<close>

definition block_data :: "(nat \<Rightarrow> u8 list) \<Rightarrow> ext2_superblock \<Rightarrow> u32 \<Rightarrow> u8 list" where
  "block_data f sb blk = sectors_at f (unat (block_lba sb blk)) (unat (sectors_per_block sb))"

definition file_block :: "(nat \<Rightarrow> u8 list) \<Rightarrow> ext2_superblock \<Rightarrow> ext2_inode \<Rightarrow> nat \<Rightarrow> u32" where
  "file_block f sb inode k = (if k < 12 then i_direct_blocks inode ! k
     else le32 (block_data f sb (i_indirect_block_single inode)) (4 * (k - 12)))"

definition file_content :: "(nat \<Rightarrow> u8 list) \<Rightarrow> ext2_superblock \<Rightarrow> ext2_inode \<Rightarrow> nat \<Rightarrow> u8 list" where
  "file_content f sb inode n = concat (map (\<lambda>k. block_data f sb (file_block f sb inode k)) [0..<n])"

text \<open>
  A block that is allocated and on the device, and a file whose first \<open>n\<close> blocks are: block sizes up
  to 64 KiB, so that a block is a transfer of fewer than 256 sectors.
\<close>

definition block_ok :: "nat \<Rightarrow> ext2_superblock \<Rightarrow> u32 \<Rightarrow> bool" where
  "block_ok cap sb blk \<longleftrightarrow> blk \<noteq> 0 \<and> unat blk * unat (block_size sb) < 0x100000000 \<and>
     unat blk * unat (block_size sb) + unat (block_size sb) \<le> 512 * cap"

definition file_ok :: "(nat \<Rightarrow> u8 list) \<Rightarrow> nat \<Rightarrow> ext2_superblock \<Rightarrow> ext2_inode \<Rightarrow> nat \<Rightarrow> bool" where
  "file_ok f cap sb inode n \<longleftrightarrow> sb_block_size_log sb \<le> 6 \<and> n \<le> 12 + unat (block_size sb) div 4 \<and>
     (12 < n \<longrightarrow> block_ok cap sb (i_indirect_block_single inode)) \<and>
     (\<forall>k < n. block_ok cap sb (file_block f sb inode k))"

lemma block_size_bounds:
  assumes "sb_block_size_log sb \<le> 6"
  shows "unat (block_size sb) = 512 * unat (sectors_per_block sb)" and "2 \<le> unat (sectors_per_block sb)"
    and "unat (sectors_per_block sb) \<le> 128"
proof -
  have "unat (sb_block_size_log sb) \<le> 6" using assms by (simp add: word_le_nat_alt)
  then consider "unat (sb_block_size_log sb) = 0" | "unat (sb_block_size_log sb) = 1" | "unat (sb_block_size_log sb) = 2"
    | "unat (sb_block_size_log sb) = 3" | "unat (sb_block_size_log sb) = 4" | "unat (sb_block_size_log sb) = 5"
    | "unat (sb_block_size_log sb) = 6" by linarith
  then have "unat (block_size sb) = 512 * unat (sectors_per_block sb) \<and> 2 \<le> unat (sectors_per_block sb) \<and>
      unat (sectors_per_block sb) \<le> 128"
    by cases (simp_all add: block_size_def sectors_per_block_def SECTOR_SIZE_def)
  then show "unat (block_size sb) = 512 * unat (sectors_per_block sb)" "2 \<le> unat (sectors_per_block sb)"
    "unat (sectors_per_block sb) \<le> 128" by auto
qed

lemma block_lba_nat:
  assumes "sb_block_size_log sb \<le> 6" and "unat blk * unat (block_size sb) < 0x100000000"
  shows "unat (block_lba sb blk) = unat blk * unat (sectors_per_block sb)"
proof -
  have "unat (blk * block_size sb) = unat blk * unat (block_size sb)"
    using assms(2) by (simp add: unat_word_ariths)
  then show ?thesis
    by (simp add: block_lba_def SECTOR_SIZE_def unat_div block_size_bounds(1) [OF assms(1)])
qed

text \<open>No two blocks of a file, its indirect block included, are the same.\<close>

definition file_distinct :: "(nat \<Rightarrow> u8 list) \<Rightarrow> ext2_superblock \<Rightarrow> ext2_inode \<Rightarrow> nat \<Rightarrow> bool" where
  "file_distinct f sb inode n \<longleftrightarrow> inj_on (file_block f sb inode) {..<n} \<and>
     i_indirect_block_single inode \<notin> file_block f sb inode ` {..<n}"

text \<open>One round of the loop moves what is left of the block or of the request, and sets up the next one.\<close>

lemma transfer_count:
  fixes offset len bs skip block_end w :: u32
  assumes "unat bs = b" and "unat block_end = kb + b" and "unat skip < b" and "unat offset + unat w = kb + unat skip"
    and "unat w < unat len" and "unat offset + unat len < 0x100000000" and "kb + b < 0x100000000"
  shows "unat (bs - skip + (if offset + len < block_end then offset + len - block_end else 0)) =
    min (b - unat skip) (unat len - unat w)"
  using assms unat_u32_lt [of len] unat_u32_lt [of w] by (auto simp: u32_nat min_def)

lemma transfer_round:
  fixes offset len skip block block_end w :: u32
  assumes "b = unat (block_size sb)" and "unat block_end = unat block * b + b" and "unat skip < b"
    and "unat offset + unat w = unat block * b + unat skip" and "w < len" and "unat offset + unat len \<le> n * b"
    and "n * b < 0x100000000"
  defines "cnt \<equiv> block_size sb - skip + (if offset + len < block_end then offset + len - block_end else 0)"
  shows "unat block < n" and "unat skip + unat cnt \<le> b" and "unat w + unat cnt \<le> unat len" and "unat (w + cnt) = unat w + unat cnt"
    and "w + cnt \<noteq> len \<Longrightarrow> unat len - unat (w + cnt) < unat len - unat w"
    and "w + cnt \<noteq> len \<Longrightarrow> unat (block_end + block_size sb) = unat (block + 1) * b + b"
    and "w + cnt \<noteq> len \<Longrightarrow> unat offset + unat (w + cnt) = unat (block + 1) * b + unat (0 :: u32)"
    and "w + cnt \<noteq> len \<Longrightarrow> w + cnt < len" and "unat (0 :: u32) < b"
proof -
  have lw: "unat w < unat len" using assms(5) by (simp add: word_less_nat_alt)
  then have "unat block * b < n * b" using assms(4,6) by linarith
  then show k: "unat block < n" by simp
  then have kb: "unat block * b + b \<le> n * b" using mult_le_mono1 [of "Suc (unat block)" n b] by simp
  have cnt: "unat cnt = min (b - unat skip) (unat len - unat w)"
    unfolding cnt_def using assms(1-4,6,7) lw kb by (intro transfer_count) auto
  show c1: "unat skip + unat cnt \<le> b" and c2: "unat w + unat cnt \<le> unat len" using cnt assms(3) lw by auto
  then show wc: "unat (w + cnt) = unat w + unat cnt" using unat_u32_lt [of len] by (simp add: unat_add_u32 del: unat_u32_lt)
  show "unat (0 :: u32) < b" using assms(3) by simp
  assume ne: "w + cnt \<noteq> len"
  then have ne': "unat w + unat cnt \<noteq> unat len" using wc by (auto simp: word_unat_eq_iff)
  then have full: "unat cnt = b - unat skip" using cnt lw by auto
  show "unat len - unat (w + cnt) < unat len - unat w" using full assms(3) wc lw by simp
  show "w + cnt < len" using wc c2 ne' by (simp add: word_less_nat_alt)
  have off: "unat offset + unat (w + cnt) = unat block * b + b" using full assms(3,4) wc by simp
  then have "unat block * b + b < n * b" using assms(6) wc c2 ne' by linarith
  then have "Suc (unat block) * b < n * b" by simp
  then have k1: "Suc (unat block) < n" by (simp only: mult_less_cancel2)
  have "1 \<le> b" using assms(3) by simp
  then have "n \<le> n * b" by simp
  then have "Suc (unat block) < 0x100000000" using k1 assms(7) by linarith
  then have b1: "unat (block + 1) = Suc (unat block)" by (simp add: unat_add_u32)
  have "Suc (Suc (unat block)) * b \<le> n * b" using k1 by (intro mult_le_mono1) simp
  then show "unat (block_end + block_size sb) = unat (block + 1) * b + b"
    using assms(1,2,7) b1 by (simp add: unat_add_u32)
  show "unat offset + unat (w + cnt) = unat (block + 1) * b + unat (0 :: u32)" using off b1 by simp
qed

lemma file_ok_size:
  assumes "file_ok f cap sb inode n"
  shows "n * unat (block_size sb) < 0x100000000"
proof -
  have f: "sb_block_size_log sb \<le> 6" "n \<le> 12 + unat (block_size sb) div 4" using assms by (auto simp: file_ok_def)
  have b: "unat (block_size sb) \<le> 65536" using block_size_bounds [OF f(1)] by linarith
  then have "n \<le> 16396" using f(2) by linarith
  then have "n * unat (block_size sb) \<le> 16396 * 65536" using b by (rule mult_le_mono)
  then show ?thesis by simp
qed

lemma transfer_start:
  fixes offset bs :: u32
  assumes "0 < unat bs" and "unat offset < n * unat bs" and "n * unat bs < 0x100000000"
  shows "unat ((offset div bs + 1) * bs) = unat (offset div bs) * unat bs + unat bs"
    and "unat (offset - offset div bs * bs) < unat bs"
    and "unat offset + unat (0 :: u32) = unat (offset div bs) * unat bs + unat (offset - offset div bs * bs)"
proof -
  have q: "unat (offset div bs) = unat offset div unat bs" by (simp add: unat_div)
  have le: "unat offset div unat bs * unat bs \<le> unat offset" by (rule div_times_less_eq_dividend)
  have "unat offset div unat bs < n" using assms(2) by (simp add: less_mult_imp_div_less)
  then have "unat offset div unat bs * unat bs + unat bs \<le> n * unat bs"
    using mult_le_mono1 [of "Suc (unat offset div unat bs)" n "unat bs"] by simp
  then have lt: "Suc (unat (offset div bs)) * unat bs < 0x100000000" using assms(3) q by simp
  have "Suc (unat (offset div bs)) * 1 \<le> Suc (unat (offset div bs)) * unat bs"
    using assms(1) by (intro mult_le_mono2) simp
  then have "unat (offset div bs + 1) = Suc (unat (offset div bs))" using lt by (simp add: unat_add_u32)
  then show "unat ((offset div bs + 1) * bs) = unat (offset div bs) * unat bs + unat bs"
    using lt by (simp add: unat_word_ariths)
  have m: "unat (offset div bs * bs) = unat offset div unat bs * unat bs"
  proof -
    have "unat offset div unat bs * unat bs < 0x100000000" using le unat_u32_lt [of offset] by linarith
    then show ?thesis using unat_mult_lem [of "offset div bs" bs] q by simp
  qed
  then have s: "unat (offset - offset div bs * bs) = unat offset mod unat bs"
    using le unat_sub_u32 [of offset "offset div bs * bs"] by (simp only: minus_div_mult_eq_mod if_True)
  then show "unat (offset - offset div bs * bs) < unat bs" using assms(1) by simp
  show "unat offset + unat (0 :: u32) = unat (offset div bs) * unat bs + unat (offset - offset div bs * bs)"
    using s q by simp
qed

text \<open>The bits of an allocation bitmap, and the number of the object that bit \<open>k\<close> stands for.\<close>

definition bitmap_bit :: "u8 list \<Rightarrow> nat \<Rightarrow> bool" where
  "bitmap_bit bm k \<longleftrightarrow> bit (bm ! (k div 8)) (k mod 8)"

definition object_number :: "ext2_superblock \<Rightarrow> u32 \<Rightarrow> bool \<Rightarrow> nat \<Rightarrow> u32" where
  "object_number sb g ino k = (if ino then g * sb_inodes_per_group sb + of_nat k + 1 else g * sb_blocks_per_group sb + of_nat k)"

lemma full_byte: "(b :: u8) = 0xFF \<longleftrightarrow> (\<forall>j < 8. bit b j)"
proof
  assume "\<forall>j < 8. bit b j"
  then have "b = - 1" by (intro bit_word_eqI) simp
  then show "b = 0xFF" by simp
next
  assume "b = 0xFF"
  then have "b = - 1" by simp
  then show "\<forall>j < 8. bit b j" by simp
qed

lemma free_bit_first:
  assumes "b \<noteq> 0xFF"
  obtains j where "free_bit b = Some j" and "j < 8" and "\<not> bit b j" and "\<forall>k < j. bit b k"
proof -
  obtain j where j: "free_bit b = Some j" using assms
    by (cases "free_bit b") (auto simp: free_bit_def find_None_iff full_byte)
  then have "j < 8 \<and> \<not> bit b j \<and> (\<forall>k < j. bit b k)" by (auto simp: free_bit_def find_Some_iff)
  with j that show ?thesis by blast
qed

lemma find_free_some:
  assumes "k < 8 * length bs" and "\<not> bitmap_bit bs k"
  obtains i j where "find_free n bs = Some (n + i, j)" and "i < length bs" and "j < 8" and "\<not> bit (bs ! i) j"
    and "\<forall>k < 8 * i + j. bitmap_bit bs k"
  using assms
proof (induction bs arbitrary: n k thesis)
  case (Cons b bs)
  show ?case
  proof (cases "b = 0xFF")
    case True
    then have full: "\<And>j. j < 8 \<Longrightarrow> bit b j" using full_byte by blast
    have k: "8 \<le> k" using Cons.prems(3) full [of k] by (cases "k < 8") (auto simp: bitmap_bit_def)
    then have shift: "bitmap_bit bs (k - 8) = bitmap_bit (b # bs) k" if "8 \<le> k" for k
      using that by (simp add: bitmap_bit_def le_div_geq le_mod_geq)
    have "k - 8 < 8 * length bs" "\<not> bitmap_bit bs (k - 8)" using Cons.prems(2,3) k shift by auto
    from Cons.IH [OF _ this, of "Suc n"] obtain i j where
      ij: "find_free (Suc n) bs = Some (Suc n + i, j)" "i < length bs" "j < 8" "\<not> bit (bs ! i) j" "\<forall>k < 8 * i + j. bitmap_bit bs k"
      by blast
    have "bitmap_bit (b # bs) m" if "m < 8 * Suc i + j" for m
      using that shift [of m] ij(5) full [of m] by (cases "8 \<le> m") (auto simp: bitmap_bit_def)
    with True ij show ?thesis by (intro Cons.prems(1) [of "Suc i" j]) auto
  next
    case False
    then obtain j where "free_bit b = Some j" "j < 8" "\<not> bit b j" "\<forall>k < j. bit b k" by (rule free_bit_first)
    with False show ?thesis by (intro Cons.prems(1) [of 0 j]) (auto simp: bitmap_bit_def)
  qed
qed simp

lemma set_bitmap_bit:
  assumes "i < length bs" and "j < 8" and "k < 8 * length bs"
  shows "bitmap_bit (bs[i := bs ! i OR push_bit j 1]) k \<longleftrightarrow> k = 8 * i + j \<or> bitmap_bit bs k"
proof -
  have "k = 8 * i + j \<longleftrightarrow> k div 8 = i \<and> k mod 8 = j" using assms(2) by auto
  then show ?thesis using assms(1) by (auto simp: bitmap_bit_def nth_list_update bit_simps)
qed

text \<open>Where inode number \<open>i\<close> lies: its group's descriptor, its sector and its offset in it.\<close>

definition inode_group :: "ext2_superblock \<Rightarrow> u32 \<Rightarrow> u32" where
  "inode_group sb i = (i - 1) div sb_inodes_per_group sb"

definition inode_descriptor :: "(nat \<Rightarrow> u8 list) \<Rightarrow> ext2_superblock \<Rightarrow> u32 \<Rightarrow> ext2_block_group_descriptor" where
  "inode_descriptor f sb i =
     descriptor_of (drop (32 * unat (inode_group sb i mod 16)) (f (unat (descriptor_lba sb (inode_group sb i)))))"

definition inode_lba :: "(nat \<Rightarrow> u8 list) \<Rightarrow> ext2_superblock \<Rightarrow> u32 \<Rightarrow> u32" where
  "inode_lba f sb i = ((i - 1) mod sb_inodes_per_group sb) * inode_size sb div SECTOR_SIZE +
     gd_inode_table (inode_descriptor f sb i) * block_size sb div SECTOR_SIZE"

definition inode_offset :: "ext2_superblock \<Rightarrow> u32 \<Rightarrow> nat" where
  "inode_offset sb i = unat (((i - 1) mod sb_inodes_per_group sb) mod (SECTOR_SIZE div inode_size sb) * inode_size sb)"

definition inode_fits :: "ext2_superblock \<Rightarrow> bool" where
  "inode_fits sb \<longleftrightarrow> sb_inodes_per_group sb \<noteq> 0 \<and> 128 \<le> inode_size sb \<and> inode_size sb \<le> 512"

lemma inode_fitsD:
  fixes i :: u32
  assumes "inode_fits sb"
  shows "sb_inodes_per_group sb \<noteq> 0" and "inode_size sb \<noteq> 0" and "SECTOR_SIZE div inode_size sb \<noteq> 0"
    and "inode_offset sb i + 128 \<le> 512"
proof -
  define z where "z = unat (inode_size sb)"
  define k where "k = unat (((i - 1) mod sb_inodes_per_group sb) mod (SECTOR_SIZE div inode_size sb))"
  have z: "128 \<le> z" "z \<le> 512" using assms by (auto simp: inode_fits_def z_def word_le_nat_alt)
  have q: "unat (SECTOR_SIZE div inode_size sb) = 512 div z" by (simp add: SECTOR_SIZE_def unat_div z_def)
  have q1: "1 \<le> 512 div z" using z by (simp add: Suc_le_eq div_greater_zero_iff)
  show "sb_inodes_per_group sb \<noteq> 0" "inode_size sb \<noteq> 0" using assms by (auto simp: inode_fits_def)
  show ne: "SECTOR_SIZE div inode_size sb \<noteq> 0" using q q1 by (auto simp: word_unat_eq_iff)
  have "k < 512 div z" unfolding k_def q [symmetric] using ne by (intro word_mod_less_divisor [THEN iffD1 [OF word_less_nat_alt]]) (simp add: word_neq_0_conv)
  then have "Suc k * z \<le> 512 div z * z" by (intro mult_le_mono1) simp
  also have "\<dots> \<le> 512" by (rule div_times_less_eq_dividend)
  finally have kz: "k * z + z \<le> 512" by simp
  then have "inode_offset sb i = k * z"
    by (simp add: inode_offset_def k_def z_def unat_word_ariths(2))
  then show "inode_offset sb i + 128 \<le> 512" using kz z by linarith
qed

context block_device
begin

lemma block_data_length: "ok d \<Longrightarrow> length (block_data (sector d) sb blk) = 512 * unat (sectors_per_block sb)"
proof -
  assume "ok d"
  then have "map (length \<circ> sector d) xs = replicate (length xs) 512" for xs by (induction xs) (auto simp: sector_length)
  then show ?thesis by (simp add: block_data_def sectors_at_def length_concat sum_list_replicate)
qed

lemma block_xfer_hyps:
  assumes "sb_block_size_log sb \<le> 6" and "block_ok cap sb blk"
  shows "unat (block_lba sb blk) + unat (sectors_per_block sb) \<le> cap" and "0 < sectors_per_block sb"
    and "sectors_per_block sb < 256" and "block_lba sb blk \<noteq> 0"
proof -
  note bs = block_size_bounds [OF assms(1)]
  have b: "blk \<noteq> 0" "unat blk * unat (block_size sb) < 0x100000000"
    "unat blk * unat (block_size sb) + unat (block_size sb) \<le> 512 * cap"
    using assms(2) by (auto simp: block_ok_def)
  note lba = block_lba_nat [OF assms(1) b(2)]
  show "unat (block_lba sb blk) + unat (sectors_per_block sb) \<le> cap" using b(3) lba bs(1) by simp
  show "0 < sectors_per_block sb" "sectors_per_block sb < 256" using bs by (simp_all add: word_less_nat_alt)
  have "0 < unat blk" using b(1) by (simp add: unat_gt_0)
  then have "0 < unat (block_lba sb blk)" using lba bs(2) by simp
  then show "block_lba sb blk \<noteq> 0" by auto
qed

lemma read_block:
  assumes "ok d" and "sb_block_size_log sb \<le> 6" and "block_ok cap sb blk" and "length buf = unat (block_size sb)"
  shows "\<exists>d'. xfer (block_lba sb blk) (sectors_per_block sb) buf DIR_READ d =
    Inr (DRV_SUCCESS, block_data (sector d) sb blk, d') \<and> ok d' \<and> sector d' = sector d"
  using read_law [OF assms(1) block_xfer_hyps(1-3) [OF assms(2,3)], of buf] assms(4) block_size_bounds(1) [OF assms(2)]
  by (simp add: block_data_def)

lemma write_block:
  assumes "ok d" and "sb_block_size_log sb \<le> 6" and "block_ok cap sb blk" and "length buf = unat (block_size sb)"
  shows "\<exists>d'. xfer (block_lba sb blk) (sectors_per_block sb) buf DIR_WRITE d = Inr (DRV_SUCCESS, buf, d') \<and> ok d' \<and>
    (\<forall>b. block_ok cap sb b \<longrightarrow> block_data (sector d') sb b = (if b = blk then buf else block_data (sector d) sb b))"
proof -
  define p q where "p = unat (block_lba sb blk)" and "q = unat (sectors_per_block sb)"
  note bs = block_size_bounds [OF assms(2)]
  from write_law [OF assms(1) block_xfer_hyps(1-3) [OF assms(2,3)], of buf] assms(4) bs(1) obtain d' where
    d': "xfer (block_lba sb blk) (sectors_per_block sb) buf DIR_WRITE d = Inr (DRV_SUCCESS, buf, d')" "ok d'"
      "sector d' = (\<lambda>k. if p \<le> k \<and> k < p + q then slice (512 * (k - p)) 512 buf else sector d k)"
    unfolding p_def q_def by auto
  have "block_data (sector d') sb b = (if b = blk then buf else block_data (sector d) sb b)" if b: "block_ok cap sb b" for b
  proof (cases "b = blk")
    case True
    have "map (sector d') [p..<p + q] = map (\<lambda>i. take 512 (drop (512 * i) buf)) [0..<q]"
      by (rule nth_equalityI) (auto simp: d'(3) slice_def)
    with True concat_take_drop [of buf 512 q] assms(4) bs(1) show ?thesis
      by (simp add: block_data_def sectors_at_def p_def [symmetric] q_def [symmetric])
  next
    case False
    define r where "r = unat (block_lba sb b)"
    have pr: "p = unat blk * q" "r = unat b * q"
      using assms(3) b by (auto simp: p_def q_def r_def block_ok_def block_lba_nat [OF assms(2)])
    have "unat b \<noteq> unat blk" using False by (simp add: word_unat_eq_iff)
    then have "unat b + 1 \<le> unat blk \<or> unat blk + 1 \<le> unat b" by linarith
    then have "r + q \<le> p \<or> p + q \<le> r"
      unfolding pr by (metis add_mult_distrib mult_le_mono1 nat_mult_1)
    then have "map (sector d') [r..<r + q] = map (sector d) [r..<r + q]"
      by (auto simp: d'(3))
    then have "concat (map (sector d') [r..<r + q]) = concat (map (sector d) [r..<r + q])" by (simp only:)
    with False show ?thesis by (simp only: block_data_def sectors_at_def r_def [symmetric] q_def [symmetric] if_False)
  qed
  with d' show ?thesis by auto
qed

lemma file_block_ok: "file_ok f cap sb inode n \<Longrightarrow> k < n \<Longrightarrow> block_ok cap sb (file_block f sb inode k)"
  by (simp add: file_ok_def)

lemma data_lba_ok:
  assumes "ok d" and "file_ok (sector d) cap sb inode n" and "unat idx < n"
  shows "\<exists>d'. data_lba xfer sb inode idx dir d =
    Inr (DRV_SUCCESS, block_lba sb (file_block (sector d) sb inode (unat idx)), inode, False, d') \<and> ok d' \<and> sector d' = sector d"
proof (cases "idx < 12")
  case True
  then have "unat idx < 12" by (simp add: word_less_nat_alt)
  with True file_block_ok [OF assms(2,3)] assms(1) show ?thesis
    by (auto simp: data_lba_def file_block_def block_ok_def)
next
  case False
  then have idx: "12 \<le> unat idx" by (simp add: word_less_nat_alt)
  have f: "sb_block_size_log sb \<le> 6" "n \<le> 12 + unat (block_size sb) div 4" "block_ok cap sb (i_indirect_block_single inode)"
    using assms(2,3) idx by (auto simp: file_ok_def)
  have "unat (12 + block_size sb div 4) = 12 + unat (block_size sb) div 4"
    using block_size_bounds [OF f(1)] by (simp add: unat_add_u32 unat_div)
  then have lt: "idx < 12 + block_size sb div 4" using assms(3) f(2) by (simp add: word_less_nat_alt)
  from read_block [OF assms(1) f(1,3), of "replicate (unat (block_size sb)) 0"] obtain d' where
    d': "xfer (block_lba sb (i_indirect_block_single inode)) (sectors_per_block sb) (replicate (unat (block_size sb)) 0) DIR_READ d =
      Inr (DRV_SUCCESS, block_data (sector d) sb (i_indirect_block_single inode), d')" "ok d'" "sector d' = sector d"
    by auto
  have "unat (idx - 12) = unat idx - 12" using idx by (simp add: unat_sub_u32)
  with idx have "le32 (block_data (sector d) sb (i_indirect_block_single inode)) (4 * unat (idx - 12)) =
      file_block (sector d) sb inode (unat idx)" by (simp add: file_block_def)
  with block_xfer_hyps(4) [OF f(1) file_block_ok [OF assms(2,3)]] d' f(3) False lt show ?thesis
    by (auto simp: data_lba_def indirect_lba_def block_ok_def Let_def)
qed

lemma inode_data_read:
  assumes "ok d" and "file_ok (sector d) cap sb inode n" and "unat idx < n" and "length buf = unat (block_size sb)"
  shows "\<exists>d'. inode_data_transfer xfer sb inode_i inode idx buf DIR_READ d =
    Inr (DRV_SUCCESS, inode, block_data (sector d) sb (file_block (sector d) sb inode (unat idx)), d') \<and> ok d' \<and>
    sector d' = sector d"
proof -
  from data_lba_ok [OF assms(1-3), of DIR_READ] obtain d1 where
    d1: "data_lba xfer sb inode idx DIR_READ d =
      Inr (DRV_SUCCESS, block_lba sb (file_block (sector d) sb inode (unat idx)), inode, False, d1)" "ok d1" "sector d1 = sector d"
    by blast
  have "sb_block_size_log sb \<le> 6" using assms(2) by (simp add: file_ok_def)
  from read_block [OF d1(2) this file_block_ok [OF assms(2,3)] assms(4)] d1 show ?thesis
    by (auto simp: inode_data_transfer_def)
qed

lemma inode_data_write:
  assumes "ok d" and "file_ok (sector d) cap sb inode n" and "unat idx < n" and "length buf = unat (block_size sb)"
    and "file_distinct (sector d) sb inode n"
  shows "\<exists>d'. inode_data_transfer xfer sb inode_i inode idx buf DIR_WRITE d = Inr (DRV_SUCCESS, inode, buf, d') \<and> ok d' \<and>
    (\<forall>k < n. file_block (sector d') sb inode k = file_block (sector d) sb inode k) \<and>
    file_content (sector d') sb inode n = patch (unat idx * unat (block_size sb)) buf (file_content (sector d) sb inode n)"
proof -
  define F where "F = file_block (sector d) sb inode"
  define B where "B = (\<lambda>k. block_data (sector d) sb (F k))"
  from data_lba_ok [OF assms(1-3), of DIR_WRITE] obtain d1 where
    d1: "data_lba xfer sb inode idx DIR_WRITE d = Inr (DRV_SUCCESS, block_lba sb (F (unat idx)), inode, False, d1)" "ok d1"
      "sector d1 = sector d" unfolding F_def by blast
  have f: "sb_block_size_log sb \<le> 6" "\<And>k. k < n \<Longrightarrow> block_ok cap sb (F k)"
    "12 < n \<Longrightarrow> block_ok cap sb (i_indirect_block_single inode)"
    using assms(2) by (auto simp: file_ok_def F_def)
  from write_block [OF d1(2) f(1) f(2) [OF assms(3)] assms(4)] obtain d2 where
    d2: "xfer (block_lba sb (F (unat idx))) (sectors_per_block sb) buf DIR_WRITE d1 = Inr (DRV_SUCCESS, buf, d2)" "ok d2"
      "\<And>b. block_ok cap sb b \<Longrightarrow> block_data (sector d2) sb b = (if b = F (unat idx) then buf else block_data (sector d) sb b)"
    using d1(3) by auto
  have dist: "inj_on F {..<n}" "i_indirect_block_single inode \<notin> F ` {..<n}"
    using assms(5) by (auto simp: file_distinct_def F_def)
  have fb: "file_block (sector d2) sb inode k = F k" if "k < n" for k
    using that dist(2) assms(3) f(3) d2(3) [of "i_indirect_block_single inode"] by (auto simp: file_block_def F_def)
  have "block_data (sector d2) sb (F k) = (B(unat idx := buf)) k" if "k < n" for k
    using d2(3) [OF f(2) [OF that]] that assms(3) dist(1) by (auto simp: B_def inj_on_def)
  then have "file_content (sector d2) sb inode n = concat (map (B(unat idx := buf)) [0..<n])"
    unfolding file_content_def by (intro arg_cong [of _ _ concat] map_cong) (auto simp: fb)
  also have "\<dots> = patch (unat idx * unat (block_size sb)) buf (concat (map B [0..<n]))"
    using assms(1,3,4) block_size_bounds(1) [OF f(1)] by (intro patch_concat) (auto simp: B_def block_data_length)
  finally have "file_content (sector d2) sb inode n =
      patch (unat idx * unat (block_size sb)) buf (file_content (sector d) sb inode n)"
    by (simp add: file_content_def B_def F_def)
  with d1 d2(1,2) fb show ?thesis by (auto simp: inode_data_transfer_def F_def)
qed

lemma file_content_length:
  assumes "ok d" and "sb_block_size_log sb \<le> 6"
  shows "length (file_content (sector d) sb inode n) = n * unat (block_size sb)"
  using concat_length_uniform [of "\<lambda>k. block_data (sector d) sb (file_block (sector d) sb inode k)"] assms
  by (simp add: file_content_def block_data_length block_size_bounds(1))

lemma file_content_slice:
  assumes "ok d" and "sb_block_size_log sb \<le> 6" and "k < n" and "s + c \<le> unat (block_size sb)"
  shows "slice s c (block_data (sector d) sb (file_block (sector d) sb inode k)) =
    slice (k * unat (block_size sb) + s) c (file_content (sector d) sb inode n)"
  using slice_concat [of "\<lambda>k. block_data (sector d) sb (file_block (sector d) sb inode k)" "unat (block_size sb)" k n s c] assms
  by (simp add: file_content_def block_data_length block_size_bounds(1))

lemma file_loop_read:
  assumes "ok d" and "file_ok (sector d) cap (pl_superblock pl) (pl_inode pl) n"
    and "b = unat (block_size (pl_superblock pl))" and "unat block_end = unat block * b + b" and "unat skip < b"
    and "unat offset + unat w = unat block * b + unat skip" and "w < len" and "unat offset + unat len \<le> n * b"
    and "n * b < 0x100000000" and "unat len \<le> length data"
    and "c = file_content (sector d) (pl_superblock pl) (pl_inode pl) n"
  shows "\<exists>d'. file_loop xfer pl offset len DIR_READ block block_end skip w data d =
    Some (Inr (len, pl, patch (unat w) (slice (unat offset + unat w) (unat len - unat w) c) data, d')) \<and> ok d' \<and> sector d' = sector d"
  using assms
proof (induction "unat len - unat w" arbitrary: d block block_end skip w data rule: less_induct)
  case less
  define sb where "sb = pl_superblock pl"
  define cnt where "cnt = block_size sb - skip + (if offset + len < block_end then offset + len - block_end else 0)"
  note step = transfer_round [OF less.prems(3-9), folded sb_def, folded cnt_def]
  have log: "sb_block_size_log sb \<le> 6" using less.prems(2) by (simp add: file_ok_def sb_def)
  from inode_data_read [OF less.prems(1,2) step(1), of "replicate (unat (block_size sb)) 0" "pl_inode_id pl"] obtain d1 where
    d1: "inode_data_transfer xfer sb (pl_inode_id pl) (pl_inode pl) block (replicate (unat (block_size sb)) 0) DIR_READ d =
      Inr (DRV_SUCCESS, pl_inode pl, block_data (sector d) sb (file_block (sector d) sb (pl_inode pl) (unat block)), d1)"
      "ok d1" "sector d1 = sector d" unfolding sb_def by auto
  define B where "B = block_data (sector d) sb (file_block (sector d) sb (pl_inode pl) (unat block))"
  have B: "length B = b" using less.prems(1,3) block_size_bounds(1) [OF log] by (simp add: B_def sb_def block_data_length)
  have cl: "length c = n * b" using less.prems(1,3,11) log by (simp add: file_content_length sb_def)
  have sl: "slice (unat skip) (unat cnt) B = slice (unat offset + unat w) (unat cnt) c"
    using file_content_slice [OF less.prems(1) log step(1), of "unat skip" "unat cnt" "pl_inode pl"] step(2)
      less.prems(3,6,11) by (simp add: B_def sb_def)
  define data1 where "data1 = patch (unat w) (slice (unat offset + unat w) (unat cnt) c) data"
  have len1: "length (slice (unat offset + unat w) (unat cnt) c) = unat cnt"
    using step(3) less.prems(8) cl by (intro slice_length) linarith
  have data1: "length data1 = length data" using step(3) less.prems(10) len1 by (simp add: data1_def patch_length)
  have unfold: "file_loop xfer pl offset len DIR_READ block block_end skip w data d =
      (if w + cnt = len then Some (Inr (len, pl, data1, d1))
       else file_loop xfer pl offset len DIR_READ (block + 1) (block_end + block_size sb) 0 (w + cnt) data1 d1)"
    using d1(1) B step(2,3) less.prems(10) sl
    by (subst file_loop.simps) (simp add: file_step_def sb_def [symmetric] cnt_def [symmetric] B_def [symmetric] Let_def data1_def)
  show ?case
  proof (cases "w + cnt = len")
    case True
    then have "unat cnt = unat len - unat w" using step(4) by auto
    with True unfold d1 show ?thesis by (simp add: data1_def)
  next
    case False
    note next_round = step(5-8) [OF False] step(9)
    have "\<exists>d'. file_loop xfer pl offset len DIR_READ (block + 1) (block_end + block_size sb) 0 (w + cnt) data1 d1 =
      Some (Inr (len, pl, patch (unat (w + cnt)) (slice (unat offset + unat (w + cnt)) (unat len - unat (w + cnt)) c) data1, d')) \<and>
      ok d' \<and> sector d' = sector d1"
      using less.prems d1 data1 next_round by (intro less.hyps) (auto simp: sb_def)
    moreover have "patch (unat (w + cnt)) (slice (unat offset + unat (w + cnt)) (unat len - unat (w + cnt)) c) data1 =
        patch (unat w) (slice (unat offset + unat w) (unat len - unat w) c) data"
      using patch_patch [of "unat w" "slice (unat offset + unat w) (unat cnt) c"
          "slice (unat offset + unat w + unat cnt) (unat len - (unat w + unat cnt)) c" data]
        slice_append [of "unat offset + unat w" "unat cnt" "unat len - (unat w + unat cnt)" c]
        len1 step(3,4) less.prems(8,10) cl
      by (simp add: data1_def slice_length add.assoc)
    ultimately show ?thesis using False unfold d1(3) by auto
  qed
qed

lemma file_loop_write:
  assumes "ok d" and "file_ok (sector d) cap (pl_superblock pl) (pl_inode pl) n"
    and "b = unat (block_size (pl_superblock pl))" and "unat block_end = unat block * b + b" and "unat skip < b"
    and "unat offset + unat w = unat block * b + unat skip" and "w < len" and "unat offset + unat len \<le> n * b"
    and "n * b < 0x100000000" and "unat len \<le> length data"
    and "c = file_content (sector d) (pl_superblock pl) (pl_inode pl) n"
    and "file_distinct (sector d) (pl_superblock pl) (pl_inode pl) n"
  shows "\<exists>d'. file_loop xfer pl offset len DIR_WRITE block block_end skip w data d = Some (Inr (len, pl, data, d')) \<and> ok d' \<and>
    file_content (sector d') (pl_superblock pl) (pl_inode pl) n =
      patch (unat offset + unat w) (slice (unat w) (unat len - unat w) data) c"
  using assms
proof (induction "unat len - unat w" arbitrary: d block block_end skip w c rule: less_induct)
  case less
  define sb where "sb = pl_superblock pl"
  define cnt where "cnt = block_size sb - skip + (if offset + len < block_end then offset + len - block_end else 0)"
  note step = transfer_round [OF less.prems(3-9), folded sb_def, folded cnt_def]
  have log: "sb_block_size_log sb \<le> 6" using less.prems(2) by (simp add: file_ok_def sb_def)
  from inode_data_read [OF less.prems(1,2) step(1), of "replicate (unat (block_size sb)) 0" "pl_inode_id pl"] obtain d1 where
    d1: "inode_data_transfer xfer sb (pl_inode_id pl) (pl_inode pl) block (replicate (unat (block_size sb)) 0) DIR_READ d =
      Inr (DRV_SUCCESS, pl_inode pl, block_data (sector d) sb (file_block (sector d) sb (pl_inode pl) (unat block)), d1)"
      "ok d1" "sector d1 = sector d" unfolding sb_def by auto
  define B where "B = block_data (sector d) sb (file_block (sector d) sb (pl_inode pl) (unat block))"
  define x where "x = slice (unat w) (unat cnt) data"
  have B: "length B = b" using less.prems(1,3) block_size_bounds(1) [OF log] by (simp add: B_def sb_def block_data_length)
  have cl: "length c = n * b" using less.prems(1,3,11) log by (simp add: file_content_length sb_def)
  have lx: "length x = unat cnt" using step(3) less.prems(10) by (simp add: x_def slice_length)
  have Bs: "B = slice (unat block * b) b c"
    using file_content_slice [OF less.prems(1) log step(1), of 0 b "pl_inode pl"] less.prems(3,11) B
    by (simp add: B_def sb_def slice_def)
  have "length (patch (unat skip) x B) = unat (block_size sb)" using step(2) lx B less.prems(3) by (simp add: patch_length sb_def)
  from inode_data_write [OF d1(2), of sb "pl_inode pl" n block, OF _ step(1) this, of "pl_inode_id pl"] d1(3) less.prems(2,12)
  obtain d2 where d2: "inode_data_transfer xfer sb (pl_inode_id pl) (pl_inode pl) block (patch (unat skip) x B) DIR_WRITE d1 =
      Inr (DRV_SUCCESS, pl_inode pl, patch (unat skip) x B, d2)" "ok d2"
    "\<forall>k < n. file_block (sector d2) sb (pl_inode pl) k = file_block (sector d) sb (pl_inode pl) k"
    "file_content (sector d2) sb (pl_inode pl) n = patch (unat block * b) (patch (unat skip) x B) c"
    by (auto simp: sb_def less.prems(3,11))
  have "unat block * b + b \<le> n * b" using step(1) mult_le_mono1 [of "Suc (unat block)" n b] by simp
  then have c2: "file_content (sector d2) sb (pl_inode pl) n = patch (unat offset + unat w) x c"
    using d2(4) Bs patch_inside [of "unat skip" x b "unat block * b" c] step(2) lx cl less.prems(6) by simp
  have unfold: "file_loop xfer pl offset len DIR_WRITE block block_end skip w data d =
      (if w + cnt = len then Some (Inr (len, pl, data, d2))
       else file_loop xfer pl offset len DIR_WRITE (block + 1) (block_end + block_size sb) 0 (w + cnt) data d2)"
    using d1(1) d2(1) B step(2,3) less.prems(10)
    by (subst file_loop.simps) (simp add: file_step_def sb_def [symmetric] cnt_def [symmetric] B_def [symmetric] x_def [symmetric] Let_def)
  show ?case
  proof (cases "w + cnt = len")
    case True
    then have "unat cnt = unat len - unat w" using step(4) by auto
    with True unfold d2(2) c2 show ?thesis by (simp add: x_def sb_def)
  next
    case False
    note next_round = step(5-8) [OF False] step(9)
    have fok: "file_ok (sector d2) cap sb (pl_inode pl) n" "file_distinct (sector d2) sb (pl_inode pl) n"
      using d2(3) less.prems(2,12) by (auto simp: file_ok_def file_distinct_def sb_def inj_on_def)
    have "\<exists>d'. file_loop xfer pl offset len DIR_WRITE (block + 1) (block_end + block_size sb) 0 (w + cnt) data d2 =
      Some (Inr (len, pl, data, d')) \<and> ok d' \<and> file_content (sector d') (pl_superblock pl) (pl_inode pl) n =
        patch (unat offset + unat (w + cnt)) (slice (unat (w + cnt)) (unat len - unat (w + cnt)) data)
          (file_content (sector d2) sb (pl_inode pl) n)"
      using less.prems d2(2) fok next_round by (intro less.hyps) (auto simp: sb_def)
    moreover have "patch (unat offset + unat (w + cnt)) (slice (unat (w + cnt)) (unat len - unat (w + cnt)) data)
        (patch (unat offset + unat w) x c) = patch (unat offset + unat w) (slice (unat w) (unat len - unat w) data) c"
      using patch_patch [of "unat offset + unat w" x "slice (unat w + unat cnt) (unat len - (unat w + unat cnt)) data" c]
        slice_append [of "unat w" "unat cnt" "unat len - (unat w + unat cnt)" data] lx step(3,4) less.prems(8,10) cl
      by (simp add: x_def slice_length add.assoc)
    ultimately show ?thesis using False unfold c2 by auto
  qed
qed

lemma read_file:
  assumes "ok d" and "file_ok (sector d) cap (pl_superblock pl) (pl_inode pl) n"
    and "unat (i_size_lo (pl_inode pl)) \<le> n * unat (block_size (pl_superblock pl))"
    and "offset < i_size_lo (pl_inode pl)" and "0 < len" and "unat offset + unat len < 0x100000000"
    and "m = min (unat len) (unat (i_size_lo (pl_inode pl)) - unat offset)" and "m \<le> length data"
  shows "\<exists>d'. ext2_transfer xfer pl offset len data DIR_READ d =
    Some (Inr (of_nat m, pl, patch 0 (slice (unat offset) m (file_content (sector d) (pl_superblock pl) (pl_inode pl) n)) data, d')) \<and>
    ok d' \<and> sector d' = sector d"
proof -
  define size' where "size' = i_size_lo (pl_inode pl)"
  define bs where "bs = block_size (pl_superblock pl)"
  define l where "l = (if offset + len > size' then size' - offset else len)"
  have os: "unat offset < unat size'" using assms(4) by (simp add: word_less_nat_alt size'_def)
  have l: "unat l = m" using os assms(6,7) by (auto simp: l_def size'_def u32_nat min_def)
  then have lm: "of_nat m = l" by (simp flip: l)
  have l0: "0 < l" using l os assms(5,7) by (simp add: word_less_nat_alt size'_def)
  have b: "0 < unat bs" using assms(2) block_size_bounds [of "pl_superblock pl"] by (auto simp: file_ok_def bs_def)
  note nb = file_ok_size [OF assms(2), folded bs_def]
  have off: "unat offset < n * unat bs" using os assms(3) by (simp add: size'_def bs_def)
  have ol: "unat offset + unat l \<le> n * unat bs" using l os assms(3,7) by (simp add: size'_def bs_def)
  note start = transfer_start [OF b off nb]
  from file_loop_read [OF assms(1,2) bs_def [THEN arg_cong, of unat], of "(offset div bs + 1) * bs" "offset div bs"
      "offset - offset div bs * bs" offset 0 l data, OF start l0 ol nb _ refl] l assms(8)
  obtain d' where "file_loop xfer pl offset l DIR_READ (offset div bs) ((offset div bs + 1) * bs) (offset - offset div bs * bs) 0 data d =
      Some (Inr (l, pl, patch 0 (slice (unat offset) m (file_content (sector d) (pl_superblock pl) (pl_inode pl) n)) data, d'))"
    "ok d'" "sector d' = sector d" by auto
  with b show ?thesis
    unfolding ext2_transfer_def Let_def bs_def [symmetric] size'_def [symmetric] l_def [symmetric] lm by auto
qed

lemma write_file:
  assumes "ok d" and "file_ok (sector d) cap (pl_superblock pl) (pl_inode pl) n"
    and "file_distinct (sector d) (pl_superblock pl) (pl_inode pl) n"
    and "unat (i_size_lo (pl_inode pl)) \<le> n * unat (block_size (pl_superblock pl))"
    and "unat offset + unat len < unat (i_size_lo (pl_inode pl))" and "0 < len" and "unat len \<le> length data"
  shows "\<exists>d'. ext2_transfer xfer pl offset len data DIR_WRITE d = Some (Inr (len, pl, data, d')) \<and> ok d' \<and>
    file_content (sector d') (pl_superblock pl) (pl_inode pl) n =
      patch (unat offset) (take (unat len) data) (file_content (sector d) (pl_superblock pl) (pl_inode pl) n)"
proof -
  define size' where "size' = i_size_lo (pl_inode pl)"
  define bs where "bs = block_size (pl_superblock pl)"
  have os: "unat offset + unat len < unat size'" using assms(5) by (simp add: size'_def)
  then have "unat offset + unat len < 0x100000000" using unat_u32_lt [of size'] by linarith
  then have ov: "unat (offset + len) = unat offset + unat len" by (simp add: unat_add_u32)
  have b: "0 < unat bs" using assms(2) block_size_bounds [of "pl_superblock pl"] by (auto simp: file_ok_def bs_def)
  note nb = file_ok_size [OF assms(2), folded bs_def]
  have off: "unat offset < n * unat bs" and ol: "unat offset + unat len \<le> n * unat bs"
    using os assms(4) by (simp_all add: size'_def bs_def)
  note start = transfer_start [OF b off nb]
  from file_loop_write [OF assms(1,2) bs_def [THEN arg_cong, of unat], of "(offset div bs + 1) * bs" "offset div bs"
      "offset - offset div bs * bs" offset 0 len data, OF start assms(6) ol nb assms(7) refl assms(3)]
  obtain d' where "file_loop xfer pl offset len DIR_WRITE (offset div bs) ((offset div bs + 1) * bs) (offset - offset div bs * bs) 0 data d =
      Some (Inr (len, pl, data, d'))" "ok d'"
    "file_content (sector d') (pl_superblock pl) (pl_inode pl) n =
      patch (unat offset) (take (unat len) data) (file_content (sector d) (pl_superblock pl) (pl_inode pl) n)"
    by (auto simp: slice_def)
  with b ov os show ?thesis
    by (auto simp: ext2_transfer_def Let_def bs_def [symmetric] size'_def [symmetric] word_less_nat_alt word_le_nat_alt)
qed

lemma read_descriptor:
  assumes "ok d" and "unat (descriptor_lba sb g) < cap"
  shows "\<exists>d'. group_descriptor_transfer xfer sb g gd0 DIR_READ d =
    Inr (DRV_SUCCESS, descriptor_of (drop (32 * unat (g mod 16)) (sector d (unat (descriptor_lba sb g)))), d') \<and> ok d' \<and>
    sector d' = sector d"
proof -
  have "unat (descriptor_lba sb g) + unat (1 :: u32) \<le> cap" using assms(2) by simp
  from read_law [OF assms(1) this, of "replicate 512 0"] show ?thesis
    by (auto simp: group_descriptor_transfer_def Let_def sectors_at_def)
qed

lemma alloc_obj:
  assumes "ok d" and "sb_block_size_log sb \<le> 6" and "unat (descriptor_lba sb g) < cap"
    and "gd = descriptor_of (drop (32 * unat (g mod 16)) (sector d (unat (descriptor_lba sb g))))"
    and "(if ino then gd_unallocated_inodes gd else gd_unallocated_blocks gd) \<noteq> 0"
    and "bm = (if ino then gd_inode_bitmap_addr gd else gd_block_bitmap_addr gd)" and "block_ok cap sb bm"
    and "\<exists>k < 8 * unat (block_size sb). \<not> bitmap_bit (block_data (sector d) sb bm) k"
  shows "\<exists>k d'. alloc_ext2_obj xfer sb g ino d = Inr (object_number sb g ino k, d') \<and> ok d' \<and> k < 8 * unat (block_size sb) \<and>
    \<not> bitmap_bit (block_data (sector d) sb bm) k \<and> (\<forall>j < k. bitmap_bit (block_data (sector d) sb bm) j) \<and>
    (\<forall>j < 8 * unat (block_size sb). bitmap_bit (block_data (sector d') sb bm) j \<longleftrightarrow> j = k \<or> bitmap_bit (block_data (sector d) sb bm) j) \<and>
    (\<forall>b. block_ok cap sb b \<and> b \<noteq> bm \<longrightarrow> block_data (sector d') sb b = block_data (sector d) sb b)"
proof -
  define B where "B = block_data (sector d) sb bm"
  have B: "length B = unat (block_size sb)"
    using assms(1) block_size_bounds(1) [OF assms(2)] by (simp add: B_def block_data_length)
  from assms(8) B obtain k where "k < 8 * length B" "\<not> bitmap_bit B k" by (auto simp: B_def)
  then obtain i j where ij: "find_free 0 B = Some (i, j)" "i < length B" "j < 8"
    "\<not> bit (B ! i) j" "\<forall>k < 8 * i + j. bitmap_bit B k" by (rule find_free_some [of k B 0]) simp
  define B' where "B' = B[i := B ! i OR push_bit j 1]"
  from read_descriptor [OF assms(1,3)] obtain d1 where
    d1: "group_descriptor_transfer xfer sb g (descriptor_of (replicate 32 0)) DIR_READ d = Inr (DRV_SUCCESS, gd, d1)" "ok d1"
      "sector d1 = sector d" unfolding assms(4) by blast
  from read_descriptor [OF d1(2) assms(3), of gd] obtain d2 where
    d2: "group_descriptor_transfer xfer sb g gd DIR_READ d1 = Inr (DRV_SUCCESS, gd, d2)" "ok d2" "sector d2 = sector d"
    unfolding d1(3) assms(4) by blast
  from read_block [OF d2(2) assms(2,7), of "replicate (unat (block_size sb)) 0"] obtain d3 where
    d3: "xfer (block_lba sb bm) (sectors_per_block sb) (replicate (unat (block_size sb)) 0) DIR_READ d2 = Inr (DRV_SUCCESS, B, d3)"
      "ok d3" "sector d3 = sector d" unfolding d2(3) B_def by auto
  from write_block [OF d3(2) assms(2,7), of B'] B obtain d4 where
    d4: "xfer (block_lba sb bm) (sectors_per_block sb) B' DIR_WRITE d3 = Inr (DRV_SUCCESS, B', d4)" "ok d4"
      "\<And>b. block_ok cap sb b \<Longrightarrow> block_data (sector d4) sb b = (if b = bm then B' else block_data (sector d) sb b)"
    unfolding d3(3) by (auto simp: B'_def)
  have "alloc_ext2_obj xfer sb g ino d = Inr (object_number sb g ino (8 * i + j), d4)"
    using d1(1) d2(1) d3(1) d4(1) assms(5) ij(1)
    by (auto simp: alloc_ext2_obj_def Let_def assms(6) block_lba_def sectors_per_block_def B'_def object_number_def
      mult.commute split: if_splits)
  moreover have "bitmap_bit B' k \<longleftrightarrow> k = 8 * i + j \<or> bitmap_bit B k" if "k < 8 * unat (block_size sb)" for k
    using set_bitmap_bit [OF ij(2,3), of k] that B by (simp add: B'_def)
  moreover have "\<not> bitmap_bit B (8 * i + j)" "8 * i + j < 8 * unat (block_size sb)"
    using ij B by (auto simp: bitmap_bit_def)
  ultimately show ?thesis using d4 ij(5) assms(7) unfolding B_def [symmetric] by (intro exI [of _ "8 * i + j"] exI [of _ d4]) auto
qed

lemma read_inode:
  assumes "ok d" and "inode_fits sb" and "unat (descriptor_lba sb (inode_group sb i)) < cap"
    and "lba = inode_lba (sector d) sb i" and "unat lba < cap"
  shows "\<exists>d'. inode_transfer xfer sb i j DIR_READ d =
    Inr (DRV_SUCCESS, inode_of (drop (inode_offset sb i) (sector d (unat lba))), d') \<and> ok d' \<and> sector d' = sector d"
proof -
  have fits: "sb_inodes_per_group sb \<noteq> 0" "inode_size sb \<noteq> 0" "SECTOR_SIZE div inode_size sb \<noteq> 0" "inode_offset sb i + 128 \<le> 512"
    using inode_fitsD [OF assms(2)] by auto
  from read_descriptor [OF assms(1,3)] obtain d1 where
    d1: "group_descriptor_transfer xfer sb (inode_group sb i) (descriptor_of (replicate 32 0)) DIR_READ d =
      Inr (DRV_SUCCESS, inode_descriptor (sector d) sb i, d1)" "ok d1" "sector d1 = sector d"
    unfolding inode_descriptor_def by blast
  have "unat lba + unat (1 :: u32) \<le> cap" using assms(5) by simp
  from read_law [OF d1(2) this, of "replicate 512 0"] obtain d2 where
    d2: "xfer lba 1 (replicate 512 0) DIR_READ d1 = Inr (DRV_SUCCESS, sector d (unat lba), d2)" "ok d2" "sector d2 = sector d"
    unfolding d1(3) by (auto simp: sectors_at_def)
  show ?thesis
    using d1(1) d2 fits
    by (auto simp: inode_transfer_def Let_def inode_group_def inode_offset_def assms(4) inode_lba_def not_less)
qed

lemma write_inode:
  assumes "ok d" and "inode_fits sb" and "unat (descriptor_lba sb (inode_group sb i)) < cap"
    and "lba = inode_lba (sector d) sb i" and "unat lba < cap" and "inode_wf j"
  shows "\<exists>d'. inode_transfer xfer sb i j DIR_WRITE d = Inr (DRV_SUCCESS, j, d') \<and> ok d' \<and>
    sector d' = (sector d)(unat lba := patch (inode_offset sb i) (inode_bytes j) (sector d (unat lba)))"
proof -
  define new where "new = patch (inode_offset sb i) (inode_bytes j) (sector d (unat lba))"
  have fits: "sb_inodes_per_group sb \<noteq> 0" "inode_size sb \<noteq> 0" "SECTOR_SIZE div inode_size sb \<noteq> 0" "inode_offset sb i + 128 \<le> 512"
    using inode_fitsD [OF assms(2)] by auto
  from read_descriptor [OF assms(1,3)] obtain d1 where
    d1: "group_descriptor_transfer xfer sb (inode_group sb i) (descriptor_of (replicate 32 0)) DIR_READ d =
      Inr (DRV_SUCCESS, inode_descriptor (sector d) sb i, d1)" "ok d1" "sector d1 = sector d"
    unfolding inode_descriptor_def by blast
  have cap: "unat lba + unat (1 :: u32) \<le> cap" using assms(5) by simp
  from read_law [OF d1(2) cap, of "replicate 512 0"] obtain d2 where
    d2: "xfer lba 1 (replicate 512 0) DIR_READ d1 = Inr (DRV_SUCCESS, sector d (unat lba), d2)" "ok d2" "sector d2 = sector d"
    unfolding d1(3) by (auto simp: sectors_at_def)
  have len: "length new = 512" using fits(4) sector_length [OF assms(1)] inode_bytes_length [OF assms(6)]
    by (simp add: new_def patch_length)
  from write_law [OF d2(2) cap, of new] len obtain d3 where
    d3: "xfer lba 1 new DIR_WRITE d2 = Inr (DRV_SUCCESS, new, d3)" "ok d3" "sector d3 = (sector d)(unat lba := new)"
    unfolding d2(3) by (auto simp: fun_eq_iff slice_def)
  show ?thesis
    using d1(1) d2(1) d3 fits
    by (auto simp: inode_transfer_def Let_def inode_group_def inode_offset_def assms(4) inode_lba_def not_less new_def)
qed

lemma inode_write_then_read:
  assumes "ok d" and "inode_fits sb" and "unat (descriptor_lba sb (inode_group sb i)) < cap"
    and "unat (inode_lba (sector d) sb i) < cap" and "inode_lba (sector d) sb i \<noteq> descriptor_lba sb (inode_group sb i)"
    and "inode_wf j"
  shows "\<exists>d1 d2. inode_transfer xfer sb i j DIR_WRITE d = Inr (DRV_SUCCESS, j, d1) \<and>
    inode_transfer xfer sb i j' DIR_READ d1 = Inr (DRV_SUCCESS, j, d2) \<and> ok d2 \<and>
    (\<forall>k. k \<noteq> unat (inode_lba (sector d) sb i) \<longrightarrow> sector d2 k = sector d k)"
proof -
  define lba where "lba = inode_lba (sector d) sb i"
  from write_inode [OF assms(1-3) lba_def _ assms(6)] assms(4) obtain d1 where
    d1: "inode_transfer xfer sb i j DIR_WRITE d = Inr (DRV_SUCCESS, j, d1)" "ok d1"
      "sector d1 = (sector d)(unat lba := patch (inode_offset sb i) (inode_bytes j) (sector d (unat lba)))"
    unfolding lba_def by blast
  have "unat lba \<noteq> unat (descriptor_lba sb (inode_group sb i))" using assms(5) by (simp add: lba_def word_unat_eq_iff)
  then have "inode_lba (sector d1) sb i = lba" by (simp add: d1(3) lba_def inode_lba_def inode_descriptor_def)
  with read_inode [OF d1(2) assms(2,3) refl, of j'] assms(4) obtain d2 where
    d2: "inode_transfer xfer sb i j' DIR_READ d1 = Inr (DRV_SUCCESS, inode_of (drop (inode_offset sb i) (sector d1 (unat lba))), d2)"
      "ok d2" "sector d2 = sector d1" by (auto simp: lba_def)
  have "inode_offset sb i + 128 \<le> 512" using inode_fitsD [OF assms(2)] by blast
  then have "drop (inode_offset sb i) (sector d1 (unat lba)) =
      inode_bytes j @ drop (inode_offset sb i + 128) (sector d (unat lba))"
    using sector_length [OF assms(1)] inode_bytes_length [OF assms(6)] by (simp add: d1(3) patch_def)
  with d1 d2 inode_of_bytes [OF assms(6)] show ?thesis by (auto simp: lba_def)
qed

end

section \<open>Files on a partition\<close>


text \<open>
  C9: writing inside such a file, strictly before its end, replaces exactly the bytes of the content at
  the offset by those of the buffer, whatever blocks they lie in, when no two blocks of the file are the
  same.
\<close>
theorem ext2_write_file:
  assumes "ide_idle d" and "file_ok (part_sector part d) (part_cap b part) (pl_superblock pl) (pl_inode pl) n"
    and "file_distinct (part_sector part d) (pl_superblock pl) (pl_inode pl) n"
    and "unat (i_size_lo (pl_inode pl)) \<le> n * unat (block_size (pl_superblock pl))"
    and "unat offset + unat len < unat (i_size_lo (pl_inode pl))" and "0 < len" and "unat len \<le> length data"
  shows "\<exists>d'. ext2_transfer (gpt_transfer (ide_ports b) part) pl offset len data DIR_WRITE d = Some (Inr (len, pl, data, d')) \<and>
    ide_idle d' \<and> file_content (part_sector part d') (pl_superblock pl) (pl_inode pl) n =
      patch (unat offset) (take (unat len) data) (file_content (part_sector part d) (pl_superblock pl) (pl_inode pl) n)"
  by (rule gpt.write_file [OF assms])

text \<open>
  A transfer never changes the size of a file, on any device: the request is cut at the current size
  before the code that is to raise the size runs, so data written past the end is dropped.
\<close>
theorem ext2_never_grows:
  assumes "ext2_transfer B pl offset len data dir d = Some (Inr (n, pl', data', d'))"
  shows "i_size_lo (pl_inode pl') = i_size_lo (pl_inode pl)"
proof -
  define l where "l = (if offset + len > i_size_lo (pl_inode pl) then i_size_lo (pl_inode pl) - offset else len)"
  have l: "offset + l \<le> i_size_lo (pl_inode pl)" by (simp add: l_def not_less)
  show ?thesis
    using assms l unfolding ext2_transfer_def Let_def l_def [symmetric]
    by (auto simp: same_file_def split: if_splits option.splits sum.splits dest!: file_loop_same)
qed

text \<open>
  C14: when the descriptor of a group counts free objects and its bitmap has a clear bit, allocation
  returns the number of the object of the first clear bit, sets that bit and no other, and changes no
  other block.
\<close>
theorem ext2_alloc_first_free:
  assumes "ide_idle d" and "sb_block_size_log sb \<le> 6" and "unat (descriptor_lba sb g) < part_cap b part"
    and "gd = descriptor_of (drop (32 * unat (g mod 16)) (part_sector part d (unat (descriptor_lba sb g))))"
    and "(if ino then gd_unallocated_inodes gd else gd_unallocated_blocks gd) \<noteq> 0"
    and "bm = (if ino then gd_inode_bitmap_addr gd else gd_block_bitmap_addr gd)" and "block_ok (part_cap b part) sb bm"
    and "\<exists>k < 8 * unat (block_size sb). \<not> bitmap_bit (block_data (part_sector part d) sb bm) k"
  shows "\<exists>k d'. alloc_ext2_obj (gpt_transfer (ide_ports b) part) sb g ino d = Inr (object_number sb g ino k, d') \<and> ide_idle d' \<and>
    k < 8 * unat (block_size sb) \<and> \<not> bitmap_bit (block_data (part_sector part d) sb bm) k \<and>
    (\<forall>j < k. bitmap_bit (block_data (part_sector part d) sb bm) j) \<and>
    (\<forall>j < 8 * unat (block_size sb). bitmap_bit (block_data (part_sector part d') sb bm) j \<longleftrightarrow>
      j = k \<or> bitmap_bit (block_data (part_sector part d) sb bm) j) \<and>
    (\<forall>b'. block_ok (part_cap b part) sb b' \<and> b' \<noteq> bm \<longrightarrow> block_data (part_sector part d') sb b' = block_data (part_sector part d) sb b')"
  by (rule gpt.alloc_obj [OF assms])

text \<open>
  C34: an inode written to its place in the inode table is read back, field by field, as it was written,
  and no other sector changes.
\<close>
theorem ext2_inode_write_read:
  assumes "ide_idle d" and "inode_fits sb" and "unat (descriptor_lba sb (inode_group sb i)) < part_cap b part"
    and "unat (inode_lba (part_sector part d) sb i) < part_cap b part"
    and "inode_lba (part_sector part d) sb i \<noteq> descriptor_lba sb (inode_group sb i)" and "inode_wf j"
  shows "\<exists>d1 d2. inode_transfer (gpt_transfer (ide_ports b) part) sb i j DIR_WRITE d = Inr (DRV_SUCCESS, j, d1) \<and>
    inode_transfer (gpt_transfer (ide_ports b) part) sb i j' DIR_READ d1 = Inr (DRV_SUCCESS, j, d2) \<and> ide_idle d2 \<and>
    (\<forall>k. k \<noteq> unat (inode_lba (part_sector part d) sb i) \<longrightarrow> part_sector part d2 k = part_sector part d k)"
  by (rule gpt.inode_write_then_read [OF assms])


lemma zero_length_entry_loops:
  assumes "le32 bs 0 \<noteq> 0" and "le16 bs 4 = 0" and "8 + unat (bs ! 6) \<le> length bs" and "length bs < 0x100000000"
  shows "scan_entries bs 0 acc = None"
proof (rule ccontr)
  assume "scan_entries bs 0 acc \<noteq> None"
  then obtain r where r: "scan_entries bs 0 acc = Some r" by blast
  have end0: "0 < entries_end bs"
    using assms(3,4) by (simp add: entries_end_def unat_sub_u32 unat_of_nat_u32)
  have "\<not> (le32 bs 0 \<noteq> 0 \<and> le16 bs 4 = 0 \<and> 8 + unat (bs ! 6) \<le> length bs \<and> 0 < entries_end bs \<and> (0::nat) = 0)"
    by (rule scan_entries.raw_induct [where P = "\<lambda>bs o' acc r. \<not> (le32 bs 0 \<noteq> 0 \<and> le16 bs 4 = 0 \<and>
        8 + unat (bs ! 6) \<le> length bs \<and> 0 < entries_end bs \<and> o' = 0)", OF _ r])
      (auto simp: Let_def entry_of_def split: if_splits, fastforce)
  with assms(1-3) end0 show False by simp
qed

section \<open>Examples\<close>

text \<open>A file of 1500 bytes in blocks 3 and 4 of an empty partition.\<close>

definition demo_superblock :: ext2_superblock where
  "demo_superblock = (superblock_of (replicate 1024 0))\<lparr>sb_block_size_log := 0, sb_inodes_per_group := 8, sb_version_maj := 0\<rparr>"

definition demo_inode :: ext2_inode where
  "demo_inode = (inode_of (replicate 128 0))\<lparr>i_size_lo := 1500, i_direct_blocks := [3, 4, 0, 0, 0, 0, 0, 0, 0, 0, 0, 0]\<rparr>"

definition demo_file :: ext2_vfs_payload where
  "demo_file = \<lparr>pl_inode_id = 12, pl_group = 0, pl_inode = demo_inode, pl_superblock = demo_superblock\<rparr>"

lemma demo_simps [simp]:
  "pl_superblock demo_file = demo_superblock" "pl_inode demo_file = demo_inode" "i_size_lo demo_inode = 1500"
  "block_size demo_superblock = 1024" "inode_size demo_superblock = 128" "sb_inodes_per_group demo_superblock = 8"
  "sb_block_size_log demo_superblock = 0"
  by (simp_all add: demo_file_def demo_inode_def demo_superblock_def block_size_def inode_size_def)

lemma demo_blocks: "file_block f demo_superblock demo_inode 0 = 3" "file_block f demo_superblock demo_inode 1 = 4"
  by (simp_all add: file_block_def demo_inode_def)

lemma less_two: "(\<forall>k < 2. P k) \<longleftrightarrow> P 0 \<and> P (1 :: nat)" "{..<2} = {0, 1 :: nat}"
  by (auto simp: less_2_cases_iff)

lemma demo_file_ok:
  "file_ok f 100 demo_superblock demo_inode 2" "file_distinct f demo_superblock demo_inode 2"
proof -
  show "file_ok f 100 demo_superblock demo_inode 2"
    using demo_blocks [of f] by (simp add: file_ok_def block_ok_def less_two)
  have "i_indirect_block_single demo_inode = 0" by (simp add: demo_inode_def inode_of_def le32_def)
  then show "file_distinct f demo_superblock demo_inode 2"
    using demo_blocks [of f] by (simp add: file_distinct_def less_two)
qed

lemma zero_disk_idle: "ide_idle zero_disk"
  by (simp add: ide_idle_def zero_disk_def)

lemma zero_sector [simp]: "part_sector part zero_disk k = replicate 512 0"
proof -
  have "words_bytes (replicate n 0) = replicate (2 * n) 0" for n by (induction n) auto
  from this [of 256] show ?thesis by (simp only: part_sector_def zero_disk_def ide.simps) simp
qed


theorem ext2_write_file_witness:
  "\<exists>d'. ext2_transfer (gpt_transfer (ide_ports 0x1F0) small_part) demo_file 1000 400 (replicate 400 7) DIR_WRITE zero_disk =
      Some (Inr (400, demo_file, replicate 400 7, d')) \<and>
    file_content (part_sector small_part d') demo_superblock demo_inode 2 =
      patch 1000 (take 400 (replicate 400 7)) (file_content (part_sector small_part zero_disk) demo_superblock demo_inode 2)"
  using ext2_write_file [OF zero_disk_idle, of small_part "0x1F0" demo_file 2 1000 400 "replicate 400 7"] demo_file_ok
  by auto

theorem ext2_never_grows_witness:
  "\<exists>n pl' data' d'. ext2_transfer (gpt_transfer (ide_ports 0x1F0) small_part) demo_file 1000 400 (replicate 400 7) DIR_WRITE zero_disk =
    Some (Inr (n, pl', data', d')) \<and> i_size_lo (pl_inode pl') = 1500"
proof -
  from gpt.write_file [OF zero_disk_idle, of small_part "0x1F0" demo_file 2 1000 400 "replicate 400 7"] demo_file_ok
  obtain d' where t: "ext2_transfer (gpt_transfer (ide_ports 0x1F0) small_part) demo_file 1000 400 (replicate 400 7) DIR_WRITE zero_disk =
      Some (Inr (400, demo_file, replicate 400 7, d'))" by auto
  from ext2_never_grows [OF this] t show ?thesis by auto
qed

text \<open>The same partition with a group descriptor: one free block, the bitmap in block 5.\<close>

definition group_disk :: ide where
  "group_disk = zero_disk\<lparr>ide_sectors := (\<lambda>_. replicate 256 0)(104 := [5, 0, 0, 0, 0, 0, 1, 0] @ replicate 248 0)\<rparr>"

theorem ext2_alloc_first_free_witness:
  "\<exists>k d'. alloc_ext2_obj (gpt_transfer (ide_ports 0x1F0) small_part) demo_superblock 0 False group_disk =
    Inr (object_number demo_superblock 0 False k, d') \<and> (\<forall>j < k. bitmap_bit (replicate 1024 0) j)"
proof -
  have idle: "ide_idle group_disk" by (simp add: ide_idle_def group_disk_def zero_disk_def)
  have lba: "unat (descriptor_lba demo_superblock 0) = 4" by (simp add: descriptor_lba_def SECTOR_SIZE_def)
  define gd where "gd = descriptor_of (drop 0 (part_sector small_part group_disk 4))"
  have gd: "gd_block_bitmap_addr gd = 5" "gd_unallocated_blocks gd = 1"
    by (simp_all add: gd_def descriptor_of_def part_sector_def small_part_def group_disk_def le32_def le16_def)
  have "sectors_per_block demo_superblock = 2" "block_lba demo_superblock 5 = 10"
    by (simp_all add: sectors_per_block_def block_lba_def SECTOR_SIZE_def)
  then have "block_data (part_sector small_part group_disk) demo_superblock 5 =
      part_sector small_part group_disk 10 @ part_sector small_part group_disk 11"
    by (simp add: block_data_def sectors_at_def upt_rec)
  also have "\<dots> = part_sector small_part zero_disk 10 @ part_sector small_part zero_disk 11"
    by (simp only: part_sector_def) (simp add: group_disk_def zero_disk_def small_part_def whole_disk_def)
  finally have bd: "block_data (part_sector small_part group_disk) demo_superblock 5 = replicate 1024 0"
    by (simp add: replicate_add [symmetric])
  have "\<exists>k < 8192. \<not> bitmap_bit (replicate 1024 0) k" by (intro exI [of _ 0]) (simp add: bitmap_bit_def)
  with ext2_alloc_first_free [OF idle, of demo_superblock 0 "0x1F0" small_part gd False 5] lba gd bd
  show ?thesis by (auto simp: gd_def block_ok_def)
qed

theorem ext2_inode_write_read_witness:
  "\<exists>d1 d2. inode_transfer (gpt_transfer (ide_ports 0x1F0) small_part) demo_superblock 6 demo_inode DIR_WRITE zero_disk =
      Inr (DRV_SUCCESS, demo_inode, d1) \<and>
    inode_transfer (gpt_transfer (ide_ports 0x1F0) small_part) demo_superblock 6 (inode_of []) DIR_READ d1 =
      Inr (DRV_SUCCESS, demo_inode, d2)"
proof -
  have wf: "inode_wf demo_inode" by (simp add: inode_wf_def demo_inode_def inode_of_def slice_def)
  have g: "inode_group demo_superblock 6 = 0" "inode_fits demo_superblock"
    by (simp_all add: inode_group_def inode_fits_def)
  have dl: "descriptor_lba demo_superblock 0 = 4" by (simp add: descriptor_lba_def SECTOR_SIZE_def)
  have "inode_lba (part_sector small_part zero_disk) demo_superblock 6 = 1"
    by (simp add: inode_lba_def inode_descriptor_def g descriptor_of_def le32_def SECTOR_SIZE_def)
  with ext2_inode_write_read [OF zero_disk_idle g(2), of 6 "0x1F0" small_part demo_inode "inode_of []"] wf g dl
  show ?thesis by auto
qed


end
