(* ===== verification/Framebuffer.thy ===== *)
theory Framebuffer
  imports Page_Frames
begin

unbundle bit_operations_syntax

text \<open>
  \<^verbatim>\<open>src/common/vga.c\<close> and \<^verbatim>\<open>src/common/psf.c\<close>: pixels, scrolling and glyphs in the linear framebuffer, three
  bytes per pixel. The buffer is the object of \<^verbatim>\<open>pitch * height\<close> bytes at \<^verbatim>\<open>fb.bfr\<close>; an access at a larger
  offset is out of bounds. The font file, which the build embeds, is an argument.
\<close>

section \<open>Pixels\<close>

type_synonym color = u32

record vga_framebuffer =
  fb_bfr :: addr
  fb_width :: u32
  fb_height :: u32
  fb_pitch :: u32

record video =
  v_mem :: bmem
  v_fb :: vga_framebuffer

definition fb_size :: "vga_framebuffer \<Rightarrow> nat" where
  "fb_size fb = unat (fb_pitch fb) * unat (fb_height fb)"

definition fb_store :: "u32 \<Rightarrow> u8 \<Rightarrow> video \<Rightarrow> video result" where
  "fb_store off b v = (if unat off < fb_size (v_fb v)
     then Inr (v\<lparr>v_mem := (v_mem v)(fb_bfr (v_fb v) + off := b)\<rparr>) else Inl OutOfBounds)"

definition store_pixel :: "u32 \<Rightarrow> color \<Rightarrow> video \<Rightarrow> video result" where
  "store_pixel offset c v =
     rbind (fb_store offset (ucast c) v) (\<lambda>v.
     rbind (fb_store (offset + 1) (ucast (drop_bit 8 c)) v) (\<lambda>v.
     fb_store (offset + 2) (ucast (drop_bit 16 c)) v))"

definition put_pixel :: "u32 \<Rightarrow> u32 \<Rightarrow> color \<Rightarrow> video \<Rightarrow> video result" where
  "put_pixel x y c v = store_pixel (x * 3 + y * fb_pitch (v_fb v)) c v"

text \<open>The two counters of a nested loop, outer loop first.\<close>

definition grid :: "u32 \<Rightarrow> u32 \<Rightarrow> (u32 \<times> u32) list" where
  "grid h w = map (map_prod of_nat of_nat) (List.product [0..<unat h] [0..<unat w])"

definition fill_rect :: "u32 \<Rightarrow> u32 \<Rightarrow> u32 \<Rightarrow> u32 \<Rightarrow> color \<Rightarrow> video \<Rightarrow> video result" where
  "fill_rect x_a y_a w h c v =
     (let offset = x_a * 3 + y_a * fb_pitch (v_fb v) in
      rfold (\<lambda>(y, x) v. store_pixel (offset + y * fb_pitch (v_fb v) + x * 3) c v) (grid h w) v)"

text \<open>
  \<^verbatim>\<open>init_vga\<close> without the reservation of the scroll: the loop that clears the screen runs to
  \<^verbatim>\<open>pitch * width\<close>.
\<close>

definition init_vga :: "addr \<Rightarrow> u32 \<Rightarrow> u32 \<Rightarrow> u32 \<Rightarrow> video \<Rightarrow> video result" where
  "init_vga bfr width height pitch v =
     rfold (\<lambda>i v. fb_store (of_nat i) 0 v) [0..<unat (pitch * width)]
       (v\<lparr>v_fb := \<lparr>fb_bfr = bfr, fb_width = width, fb_height = height, fb_pitch = pitch\<rparr>\<rparr>)"

text \<open>\<^verbatim>\<open>scroll\<close>: a forward copy by \<open>d_y\<close> lines and a loop that clears the rest.\<close>

definition fb_scroll :: "u32 \<Rightarrow> video \<Rightarrow> video result" where
  "fb_scroll d_y v =
     (let fb = v_fb v; pitch = fb_pitch fb in
      if d_y = 0 then Inl DivideError
      else let top_aligned = fb_height fb - fb_height fb mod d_y; n = (top_aligned - d_y) * pitch in
           if fb_size fb < unat (pitch * d_y) + unat n then Inl OutOfBounds
           else rfold (\<lambda>(y, x) v. fb_store (y * pitch + x) 0 v)
                  (map (\<lambda>(y, x). (top_aligned - d_y + y, x)) (grid (fb_height fb - (top_aligned - d_y)) pitch))
                  (v\<lparr>v_mem := kmemcpy (v_mem v) (fb_bfr fb) (fb_bfr fb + pitch * d_y) n\<rparr>))"

section \<open>Glyphs\<close>

definition PSF_MAGIC :: u32 where "PSF_MAGIC = 0x864AB572"

text \<open>The header of the font file and the bytes of the file.\<close>

record psf_font =
  psf_magic :: u32
  psf_version :: u32
  psf_header_size :: u32
  psf_flags :: u32
  psf_num :: u32
  psf_glyph_size :: u32
  psf_height :: u32
  psf_width :: u32
  psf_bytes :: "u8 list"

definition glyph_bit :: "psf_font \<Rightarrow> u8 \<Rightarrow> u32 \<Rightarrow> u32 \<Rightarrow> bool result" where
  "glyph_bit font c x y =
     (let line_size = (psf_width font + 7) div 8;
          i = unat (psf_header_size font + psf_glyph_size font * ucast c + y * line_size + x div 8)
      in if i < length (psf_bytes font) then Inr (bit (psf_bytes font ! i) (unat (7 - x mod 8))) else Inl OutOfBounds)"

definition psf_put_char :: "psf_font \<Rightarrow> u8 \<Rightarrow> u32 \<Rightarrow> u32 \<Rightarrow> color \<Rightarrow> video \<Rightarrow> video result" where
  "psf_put_char font c x_c y_c color v =
     (if psf_flags font \<noteq> 0 \<or> psf_magic font \<noteq> PSF_MAGIC then Inr v
      else let x_a = x_c * psf_width font; y_a = y_c * psf_height font in
           rfold (\<lambda>(y, x) v. rbind (glyph_bit font c x y) (\<lambda>on.
             put_pixel (x + x_a) (y + y_a) (if on then color else 0) v))
             (grid (psf_height font) (psf_width font)) v)"

definition TITLE_H :: u32 where "TITLE_H = 11"
definition TITLE_W :: u32 where "TITLE_W = 60"

text \<open>The characters of the title are an argument.\<close>

definition psf_logo :: "psf_font \<Rightarrow> (u32 \<Rightarrow> u32 \<Rightarrow> u8) \<Rightarrow> video \<Rightarrow> video result" where
  "psf_logo font title v =
     (if psf_flags font \<noteq> 0 \<or> psf_magic font \<noteq> PSF_MAGIC then Inr v
      else if psf_width font = 0 \<or> psf_height font = 0 then Inl DivideError
      else let title_w = TITLE_W * psf_width font; title_h = TITLE_H * psf_height font;
               title_x = (fb_width (v_fb v) div 2 - title_w div 2) div psf_width font;
               title_y = (fb_height (v_fb v) div 2 - title_h div 2) div psf_height font
           in rfold (\<lambda>(y, x). psf_put_char font (title y x) (title_x + x) (title_y + y) 0xFFFFFF) (grid TITLE_H TITLE_W) v)"

section \<open>What a drawing operation changes\<close>

text \<open>A framebuffer whose lines hold its pixels and whose size fits the address arithmetic.\<close>

definition fb_ok :: "vga_framebuffer \<Rightarrow> bool" where
  "fb_ok fb \<longleftrightarrow> 3 * unat (fb_width fb) \<le> unat (fb_pitch fb) \<and> fb_size fb < 2 ^ 32"

definition pixel :: "video \<Rightarrow> nat \<Rightarrow> nat \<Rightarrow> u8 \<times> u8 \<times> u8" where
  "pixel v x y = (let a = fb_bfr (v_fb v) + of_nat (3 * x + y * unat (fb_pitch (v_fb v))) in
     (v_mem v a, v_mem v (a + 1), v_mem v (a + 2)))"

definition color_bytes :: "color \<Rightarrow> u8 \<times> u8 \<times> u8" where
  "color_bytes c = (ucast c, ucast (drop_bit 8 c), ucast (drop_bit 16 c))"

definition on_screen :: "vga_framebuffer \<Rightarrow> nat \<Rightarrow> nat \<Rightarrow> bool" where
  "on_screen fb x y \<longleftrightarrow> x < unat (fb_width fb) \<and> y < unat (fb_height fb)"

lemma pixel_offset:
  assumes "fb_ok fb" and "on_screen fb x y"
  shows "3 * x + y * unat (fb_pitch fb) + 2 < fb_size fb"
proof -
  have "3 * x + 3 \<le> unat (fb_pitch fb)" using assms by (simp add: fb_ok_def on_screen_def)
  moreover have "Suc y * unat (fb_pitch fb) \<le> unat (fb_height fb) * unat (fb_pitch fb)"
    using assms(2) by (intro mult_le_mono1) (simp add: on_screen_def)
  ultimately show ?thesis by (simp add: fb_size_def mult.commute)
qed

lemma pixel_offset_inj:
  assumes "fb_ok fb" and "on_screen fb x y" and "on_screen fb x' y'" and "i < 3" and "j < 3"
    and "3 * x + y * unat (fb_pitch fb) + i = 3 * x' + y' * unat (fb_pitch fb) + j"
  shows "x = x' \<and> y = y' \<and> i = j"
proof -
  let ?p = "unat (fb_pitch fb)"
  have lt: "3 * x + i < ?p" "3 * x' + j < ?p" using assms(1-5) by (auto simp: fb_ok_def on_screen_def)
  have e: "(3 * x + i) + y * ?p = (3 * x' + j) + y' * ?p" using assms(6) by simp
  have "y = y'" using arg_cong [OF e, of "\<lambda>n. n div ?p"] lt by simp
  with e have "3 * x + i = 3 * x' + j" by simp
  with assms(4,5) \<open>y = y'\<close> show ?thesis by presburger
qed

lemma of_nat_u32_inj: "a < 2 ^ 32 \<Longrightarrow> b < 2 ^ 32 \<Longrightarrow> (of_nat a :: u32) = of_nat b \<longleftrightarrow> a = b"
  by (auto simp: word_unat_eq_iff unat_of_nat_u32)

lemma put_pixel_draws:
  assumes ok: "fb_ok (v_fb v)" and s: "on_screen (v_fb v) (unat x) (unat y)"
  shows "\<exists>v'. put_pixel x y c v = Inr v' \<and> v_fb v' = v_fb v \<and>
    (\<forall>X Y. on_screen (v_fb v) X Y \<longrightarrow>
      pixel v' X Y = (if X = unat x \<and> Y = unat y then color_bytes c else pixel v X Y))"
proof -
  let ?fb = "v_fb v" and ?n = "\<lambda>X Y. 3 * X + Y * unat (fb_pitch (v_fb v))"
  define n where "n = ?n (unat x) (unat y)"
  have n: "n + 2 < fb_size ?fb" "fb_size ?fb < 2 ^ 32"
    using pixel_offset [OF ok s] ok by (simp_all add: n_def fb_ok_def)
  have off: "x * 3 + y * fb_pitch ?fb = of_nat n" by (simp add: n_def mult.commute)
  have u: "unat (of_nat n + of_nat i :: u32) = n + i" if "i < 3" for i
    using n that unat_of_nat_u32 [of "n + i"] by simp
  note u0 = u [of 0, simplified] and u1 = u [of 1, simplified] and u2 = u [of 2, simplified]
  define m where "m = (v_mem v)(fb_bfr ?fb + of_nat n := ucast c, fb_bfr ?fb + (of_nat n + 1) := ucast (drop_bit 8 c),
    fb_bfr ?fb + (of_nat n + 2) := ucast (drop_bit 16 c))"
  have "put_pixel x y c v = Inr (v\<lparr>v_mem := m\<rparr>)"
    using n u0 u1 u2 by (simp add: put_pixel_def store_pixel_def fb_store_def off m_def)
  moreover have "pixel (v\<lparr>v_mem := m\<rparr>) X Y = (if X = unat x \<and> Y = unat y then color_bytes c else pixel v X Y)"
    if S: "on_screen ?fb X Y" for X Y
  proof -
    have N: "?n X Y + 2 < fb_size ?fb" using pixel_offset [OF ok S] .
    have eq: "(of_nat (?n X Y) + of_nat j :: u32) = of_nat n + of_nat i \<longleftrightarrow> X = unat x \<and> Y = unat y \<and> i = j"
      if "i < 3" "j < 3" for i j
    proof -
      have "(of_nat (?n X Y) + of_nat j :: u32) = of_nat n + of_nat i \<longleftrightarrow> ?n X Y + j = n + i"
        using of_nat_u32_inj [of "?n X Y + j" "n + i"] N n that by simp
      then show ?thesis
        using pixel_offset_inj [OF ok S s that(2,1)] by (auto simp: n_def)
    qed
    note e = eq [of 0 0] eq [of 0 1] eq [of 0 2] eq [of 1 0] eq [of 1 1] eq [of 1 2] eq [of 2 0] eq [of 2 1] eq [of 2 2]
    show ?thesis
      using e by (auto simp: pixel_def m_def color_bytes_def Let_def add.assoc)
  qed
  ultimately show ?thesis by (intro exI [of _ "v\<lparr>v_mem := m\<rparr>"]) simp
qed

text \<open>Drawing a list of pixels whose colours are a function of their positions.\<close>

lemma draw_pixels:
  assumes "fb_ok (v_fb v)" and "\<forall>(y, x) \<in> set ps. on_screen (v_fb v) (unat (px x)) (unat (py y))"
    and "\<And>x y. (y, x) \<in> set ps \<Longrightarrow> f (y, x) = put_pixel (px x) (py y) (col (unat (px x)) (unat (py y)))"
  shows "\<exists>v'. rfold f ps v = Inr v' \<and> v_fb v' = v_fb v \<and>
    (\<forall>X Y. on_screen (v_fb v) X Y \<longrightarrow> pixel v' X Y =
      (if \<exists>(y, x) \<in> set ps. X = unat (px x) \<and> Y = unat (py y) then color_bytes (col X Y) else pixel v X Y))"
  using assms
proof (induction ps arbitrary: v)
  case (Cons p ps)
  obtain x y where p: "p = (y, x)" by (cases p)
  from put_pixel_draws [OF Cons.prems(1), of "px x" "py y" "col (unat (px x)) (unat (py y))"] Cons.prems(2) p
  obtain v1 where v1: "f (y, x) v = Inr v1" "v_fb v1 = v_fb v"
    "\<And>X Y. on_screen (v_fb v) X Y \<Longrightarrow> pixel v1 X Y =
      (if X = unat (px x) \<and> Y = unat (py y) then color_bytes (col (unat (px x)) (unat (py y))) else pixel v X Y)"
    using Cons.prems(3) by (auto simp: p)
  from Cons.IH [of v1] Cons.prems v1(2) obtain v2 where v2: "rfold f ps v1 = Inr v2" "v_fb v2 = v_fb v"
    "\<And>X Y. on_screen (v_fb v) X Y \<Longrightarrow> pixel v2 X Y =
      (if \<exists>(y, x) \<in> set ps. X = unat (px x) \<and> Y = unat (py y) then color_bytes (col X Y) else pixel v1 X Y)"
    by auto
  have "pixel v2 X Y = (if \<exists>(y, x) \<in> set (p # ps). X = unat (px x) \<and> Y = unat (py y)
      then color_bytes (col X Y) else pixel v X Y)" if "on_screen (v_fb v) X Y" for X Y
    using v2(3) [OF that] v1(3) [OF that] by (auto simp: p)
  with v1(1) v2(1,2) show ?case by (auto simp: p)
qed auto

lemma grid_iff: "(y, x) \<in> set (grid h w) \<longleftrightarrow> y < h \<and> x < w"
proof
  assume "(y, x) \<in> set (grid h w)"
  then obtain a b where "y = of_nat a" "x = of_nat b" "a < unat h" "b < unat w" by (auto simp: grid_def)
  moreover from this have "a < 4294967296" "b < 4294967296" using unat_u32_lt [of h] unat_u32_lt [of w] by linarith+
  ultimately show "y < h \<and> x < w" by (simp add: word_less_nat_alt unat_of_nat_u32)
next
  assume "y < h \<and> x < w"
  then have "(unat y, unat x) \<in> set (List.product [0..<unat h] [0..<unat w])" by (simp add: word_less_nat_alt)
  then show "(y, x) \<in> set (grid h w)"
    unfolding grid_def set_map by (rule rev_image_eqI) simp
qed

text \<open>The cell \<open>(x_c, y_c)\<close> is on the screen and the glyph of \<open>c\<close> is in the font file.\<close>

definition cell_on_screen :: "psf_font \<Rightarrow> vga_framebuffer \<Rightarrow> u32 \<Rightarrow> u32 \<Rightarrow> bool" where
  "cell_on_screen font fb x_c y_c \<longleftrightarrow> (unat x_c + 1) * unat (psf_width font) \<le> unat (fb_width fb) \<and>
     (unat y_c + 1) * unat (psf_height font) \<le> unat (fb_height fb)"

definition glyph_loaded :: "psf_font \<Rightarrow> u8 \<Rightarrow> bool" where
  "glyph_loaded font c \<longleftrightarrow> psf_flags font = 0 \<and> psf_magic font = PSF_MAGIC \<and>
     (\<forall>y < psf_height font. \<forall>x < psf_width font. \<exists>b. glyph_bit font c x y = Inr b)"

lemma cell_pixel:
  assumes "cell_on_screen font fb x_c y_c" and "x < psf_width font" and "y < psf_height font"
  shows "unat (x + x_c * psf_width font) = unat x + unat x_c * unat (psf_width font)"
    and "unat (y + y_c * psf_height font) = unat y + unat y_c * unat (psf_height font)"
    and "on_screen fb (unat x + unat x_c * unat (psf_width font)) (unat y + unat y_c * unat (psf_height font))"
proof -
  have b: "unat x + unat x_c * unat (psf_width font) < unat (fb_width fb)"
    "unat y + unat y_c * unat (psf_height font) < unat (fb_height fb)"
    using assms by (simp_all add: cell_on_screen_def word_less_nat_alt)
  then show "on_screen fb (unat x + unat x_c * unat (psf_width font)) (unat y + unat y_c * unat (psf_height font))"
    by (simp add: on_screen_def)
  have l: "unat x + unat x_c * unat (psf_width font) < 4294967296"
    "unat y + unat y_c * unat (psf_height font) < 4294967296"
    using b unat_u32_lt [of "fb_width fb"] unat_u32_lt [of "fb_height fb"] by linarith+
  show "unat (x + x_c * psf_width font) = unat x + unat x_c * unat (psf_width font)"
    "unat (y + y_c * psf_height font) = unat y + unat y_c * unat (psf_height font)"
    using l by (simp_all add: unat_word_ariths)
qed

lemma ex_less_unat: "(\<exists>x < n. P (unat x)) \<longleftrightarrow> (\<exists>k < unat n. P k)" for n :: u32
proof
  assume "\<exists>k < unat n. P k"
  then obtain k where k: "k < unat n" "P k" by blast
  then have "unat (of_nat k :: u32) = k" using unat_u32_lt [of n] by (intro unat_of_nat_u32) linarith
  with k show "\<exists>x < n. P (unat x)" by (intro exI [of _ "of_nat k"]) (simp add: word_less_nat_alt)
qed (auto simp: word_less_nat_alt)

lemma in_cell_iff:
  fixes w h :: nat
  assumes "0 < w" and "0 < h"
  shows "(\<exists>x < w. \<exists>y < h. X = x + xc * w \<and> Y = y + yc * h) \<longleftrightarrow> X div w = xc \<and> Y div h = yc"
proof
  assume "X div w = xc \<and> Y div h = yc"
  then show "\<exists>x < w. \<exists>y < h. X = x + xc * w \<and> Y = y + yc * h"
    using assms by (intro exI [of _ "X mod w"] exI [of _ "Y mod h"] conjI) (auto simp: add.commute)
qed auto

lemma psf_draws:
  assumes "fb_ok (v_fb v)" and "cell_on_screen font (v_fb v) x_c y_c" and "glyph_loaded font c"
    and "0 < psf_width font" and "0 < psf_height font"
  shows "\<exists>v'. psf_put_char font c x_c y_c color v = Inr v' \<and> v_fb v' = v_fb v \<and>
    (\<forall>X Y. on_screen (v_fb v) X Y \<longrightarrow> pixel v' X Y =
      (if X div unat (psf_width font) = unat x_c \<and> Y div unat (psf_height font) = unat y_c
       then if glyph_bit font c (of_nat (X mod unat (psf_width font))) (of_nat (Y mod unat (psf_height font))) = Inr True
            then color_bytes color else (0, 0, 0)
       else pixel v X Y))"
proof -
  let ?w = "unat (psf_width font)" and ?h = "unat (psf_height font)"
  let ?px = "\<lambda>x. x + x_c * psf_width font" and ?py = "\<lambda>y. y + y_c * psf_height font"
  let ?ps = "grid (psf_height font) (psf_width font)"
  define col where "col X Y = (if glyph_bit font c (of_nat (X mod ?w)) (of_nat (Y mod ?h)) = Inr True then color else 0)" for X Y
  define f where "f = (\<lambda>(y, x) v. rbind (glyph_bit font c x y) (\<lambda>on. put_pixel (?px x) (?py y) (if on then color else 0) v))"
  note cp = cell_pixel [OF assms(2)]
  have w: "0 < ?w" "0 < ?h" using assms(4,5) by (simp_all add: word_less_nat_alt)
  have "\<exists>v'. rfold f ?ps v = Inr v' \<and> v_fb v' = v_fb v \<and> (\<forall>X Y. on_screen (v_fb v) X Y \<longrightarrow> pixel v' X Y =
      (if \<exists>(y, x) \<in> set ?ps. X = unat (?px x) \<and> Y = unat (?py y) then color_bytes (col X Y) else pixel v X Y))"
  proof (rule draw_pixels [OF assms(1)])
    show "\<forall>(y, x) \<in> set ?ps. on_screen (v_fb v) (unat (?px x)) (unat (?py y))"
      using cp by (auto simp: grid_iff)
    fix x y assume "(y, x) \<in> set ?ps"
    then have lt: "x < psf_width font" "y < psf_height font" by (auto simp: grid_iff)
    have "unat (?px x) mod ?w = unat x" "unat (?py y) mod ?h = unat y"
      using cp [OF lt] lt by (simp_all add: word_less_nat_alt)
    then have "col (unat (?px x)) (unat (?py y)) = (if glyph_bit font c x y = Inr True then color else 0)"
      by (simp add: col_def)
    moreover obtain b where "glyph_bit font c x y = Inr b" using assms(3) lt by (auto simp: glyph_loaded_def)
    ultimately show "f (y, x) = put_pixel (?px x) (?py y) (col (unat (?px x)) (unat (?py y)))"
      by (simp add: f_def fun_eq_iff)
  qed
  moreover have "(\<exists>(y, x) \<in> set ?ps. X = unat (?px x) \<and> Y = unat (?py y)) \<longleftrightarrow> X div ?w = unat x_c \<and> Y div ?h = unat y_c"
    for X Y
  proof -
    have "(\<exists>(y, x) \<in> set ?ps. X = unat (?px x) \<and> Y = unat (?py y)) \<longleftrightarrow>
        (\<exists>x < psf_width font. \<exists>y < psf_height font. X = unat (?px x) \<and> Y = unat (?py y))"
      by (auto simp: grid_iff Bex_def)
    also have "\<dots> \<longleftrightarrow>
        (\<exists>x < psf_width font. \<exists>y < psf_height font. X = unat x + unat x_c * ?w \<and> Y = unat y + unat y_c * ?h)"
      by (metis cp(1,2))
    also have "\<dots> \<longleftrightarrow> (\<exists>x < ?w. \<exists>y < ?h. X = x + unat x_c * ?w \<and> Y = y + unat y_c * ?h)"
    proof -
      have inner: "(\<exists>y < psf_height font. X = unat x + unat x_c * ?w \<and> Y = unat y + unat y_c * ?h) \<longleftrightarrow>
          (\<exists>y < ?h. X = unat x + unat x_c * ?w \<and> Y = y + unat y_c * ?h)" for x
        by (rule ex_less_unat)
      show ?thesis
        unfolding inner using ex_less_unat [of "psf_width font" "\<lambda>x. \<exists>y < ?h. X = x + unat x_c * ?w \<and> Y = y + unat y_c * ?h"] .
    qed
    finally show ?thesis by (simp only: in_cell_iff [OF w])
  qed
  moreover have "psf_put_char font c x_c y_c color v = rfold f ?ps v"
    using assms(3) by (simp add: psf_put_char_def glyph_loaded_def f_def Let_def)
  moreover have "color_bytes 0 = (0, 0, 0)" by (simp add: color_bytes_def)
  ultimately show ?thesis by (auto simp: col_def)
qed


text \<open>A font of one glyph, eight pixels wide and one high, and a screen of the same size.\<close>

definition one_font :: psf_font where
  "one_font = \<lparr>psf_magic = PSF_MAGIC, psf_version = 0, psf_header_size = 32, psf_flags = 0, psf_num = 1,
     psf_glyph_size = 1, psf_height = 1, psf_width = 8, psf_bytes = replicate 32 0 @ [0x80]\<rparr>"

definition one_screen :: video where
  "one_screen = \<lparr>v_mem = \<lambda>_. 7, v_fb = \<lparr>fb_bfr = 0xA0000, fb_width = 8, fb_height = 1, fb_pitch = 24\<rparr>\<rparr>"

lemma one_glyph:
  "x < 8 \<Longrightarrow> glyph_bit one_font 0 x 0 = Inr (bit (0x80 :: u8) (unat (7 - x)))"
proof -
  assume x: "x < 8"
  then have "x div 8 = 0" "x mod 8 = x" by (simp_all add: word_unat_eq_iff unat_div unat_mod word_less_nat_alt)
  then show ?thesis by (simp add: glyph_bit_def one_font_def Let_def nth_append)
qed


section \<open>Scrolling\<close>

lemma fb_clear:
  assumes "\<forall>(y, x) \<in> set ps. unat (y * p + x) < fb_size (v_fb v)"
  shows "\<exists>v'. rfold (\<lambda>(y, x) v. fb_store (y * p + x) 0 v) ps v = Inr v' \<and> v_fb v' = v_fb v \<and>
    (\<forall>off. v_mem v' (fb_bfr (v_fb v) + off) =
      (if \<exists>(y, x) \<in> set ps. off = y * p + x then 0 else v_mem v (fb_bfr (v_fb v) + off)))"
  using assms
proof (induction ps arbitrary: v)
  case (Cons q ps)
  obtain y x where q: "q = (y, x)" by (cases q)
  let ?v = "v\<lparr>v_mem := (v_mem v)(fb_bfr (v_fb v) + (y * p + x) := 0)\<rparr>"
  have s: "fb_store (y * p + x) 0 v = Inr ?v" using Cons.prems q by (simp add: fb_store_def)
  from Cons.IH [of ?v] Cons.prems obtain v' where v': "rfold (\<lambda>(y, x) v. fb_store (y * p + x) 0 v) ps ?v = Inr v'"
    "v_fb v' = v_fb v" "\<forall>off. v_mem v' (fb_bfr (v_fb v) + off) =
      (if \<exists>(y, x) \<in> set ps. off = y * p + x then 0 else v_mem ?v (fb_bfr (v_fb v) + off))" by auto
  with s show ?case by (auto simp: q)
qed simp

lemma line_offset:
  assumes "Y < unat (fb_height fb)" and "x < unat (fb_pitch fb)" and "fb_ok fb"
  shows "Y * unat (fb_pitch fb) + x < fb_size fb"
proof -
  have "Suc Y * unat (fb_pitch fb) \<le> unat (fb_height fb) * unat (fb_pitch fb)"
    using assms(1) by (intro mult_le_mono1) simp
  with assms(2) show ?thesis by (simp add: fb_size_def mult.commute)
qed

lemma rows_from:
  assumes "unat k = K" and "K \<le> unat h"
  shows "(y, x) \<in> set (map (\<lambda>(y, x). (k + y, x)) (grid (h - k) w)) \<longleftrightarrow>
    K \<le> unat y \<and> unat y < unat h \<and> unat x < unat w"
proof -
  have "(y, x) \<in> set (map (\<lambda>(y, x). (k + y, x)) (grid (h - k) w)) \<longleftrightarrow> (y - k, x) \<in> set (grid (h - k) w)"
    by (force simp: image_iff)
  also have "\<dots> \<longleftrightarrow> y - k < h - k \<and> x < w" by (rule grid_iff)
  also have "\<dots> \<longleftrightarrow> K \<le> unat y \<and> unat y < unat h \<and> unat x < unat w"
    using assms by (auto simp: word_less_nat_alt unat_sub_u32) (use unat_u32_lt [of h] in linarith)
  finally show ?thesis .
qed

definition fb_byte :: "video \<Rightarrow> nat \<Rightarrow> nat \<Rightarrow> u8" where
  "fb_byte v Y x = v_mem v (fb_bfr (v_fb v) + of_nat (Y * unat (fb_pitch (v_fb v)) + x))"

lemma scroll_lines:
  assumes ok: "fb_ok (v_fb v)" and d: "0 < d" "d \<le> fb_height (v_fb v)"
    and K: "K = unat (fb_height (v_fb v)) - unat (fb_height (v_fb v)) mod unat d - unat d"
  shows "\<exists>v'. fb_scroll d v = Inr v' \<and> v_fb v' = v_fb v \<and>
    (\<forall>Y x. Y < unat (fb_height (v_fb v)) \<longrightarrow> x < unat (fb_pitch (v_fb v)) \<longrightarrow>
       fb_byte v' Y x = (if Y < K then fb_byte v (Y + unat d) x else 0))"
proof -
  let ?fb = "v_fb v" and ?H = "unat (fb_height (v_fb v))" and ?p = "unat (fb_pitch (v_fb v))"
  let ?top = "fb_height ?fb - fb_height ?fb mod d"
  have dn: "0 < unat d" "unat d \<le> ?H" using d by (simp_all add: word_less_nat_alt word_le_nat_alt)
  have T: "unat ?top = ?H - ?H mod unat d" by (simp add: unat_sub_u32 unat_mod)
  have le: "unat d \<le> ?H - ?H mod unat d" using dn by (simp add: minus_mod_eq_mult_div Suc_le_eq div_greater_zero_iff)
  then have K': "unat (?top - d) = K" "K + unat d \<le> ?H" using T K by (simp_all add: unat_sub_u32)
  have S: "fb_size ?fb < 2 ^ 32" "fb_size ?fb = ?H * ?p" using ok by (simp_all add: fb_ok_def fb_size_def)
  have KS: "K * ?p + unat d * ?p \<le> fb_size ?fb" using K'(2) S(2) by (metis add_mult_distrib mult_le_mono1)
  have n: "unat ((?top - d) * fb_pitch ?fb) = K * ?p" and pd: "unat (fb_pitch ?fb * d) = unat d * ?p"
    using KS S(1) K'(1) by (simp_all add: unat_word_ariths mult.commute)
  define ps where "ps = map (\<lambda>(y, x). (?top - d + y, x)) (grid (fb_height ?fb - (?top - d)) (fb_pitch ?fb))"
  have mem: "(y, x) \<in> set ps \<longleftrightarrow> K \<le> unat y \<and> unat y < ?H \<and> unat x < ?p" for y x
    unfolding ps_def by (rule rows_from [OF K'(1)]) (use K'(2) in simp)
  have off: "unat (y * fb_pitch ?fb + x) = unat y * ?p + unat x" "unat y * ?p + unat x < fb_size ?fb"
    if "unat y < ?H" "unat x < ?p" for x y
    using line_offset [OF that ok] S(1) by (simp_all add: unat_word_ariths)
  let ?v1 = "v\<lparr>v_mem := kmemcpy (v_mem v) (fb_bfr ?fb) (fb_bfr ?fb + fb_pitch ?fb * d) ((?top - d) * fb_pitch ?fb)\<rparr>"
  have "\<forall>(y, x) \<in> set ps. unat (y * fb_pitch ?fb + x) < fb_size (v_fb ?v1)" using mem off by auto
  from fb_clear [OF this] obtain v' where v': "rfold (\<lambda>(y, x) v. fb_store (y * fb_pitch ?fb + x) 0 v) ps ?v1 = Inr v'"
    "v_fb v' = ?fb" "\<And>o'. v_mem v' (fb_bfr ?fb + o') = (if \<exists>(y, x) \<in> set ps. o' = y * fb_pitch ?fb + x then 0
      else v_mem ?v1 (fb_bfr ?fb + o'))" by auto
  have "fb_scroll d v = Inr v'"
    using dn KS n pd v'(1) unfolding ps_def by (simp add: fb_scroll_def Let_def unat_gt_0)
  moreover have "fb_byte v' Y x = (if Y < K then fb_byte v (Y + unat d) x else 0)" if Y: "Y < ?H" "x < ?p" for Y x
  proof -
    have o: "unat (of_nat (Y * ?p + x) :: u32) = Y * ?p + x"
      using line_offset [OF Y ok] S(1) by (intro unat_of_nat_u32) simp
    have cleared: "(\<exists>(y, x') \<in> set ps. of_nat (Y * ?p + x) = y * fb_pitch ?fb + x') \<longleftrightarrow> K \<le> Y"
    proof
      assume "\<exists>(y, x') \<in> set ps. of_nat (Y * ?p + x) = y * fb_pitch ?fb + x'"
      then obtain y x' where y: "K \<le> unat y" "unat y < ?H" "unat x' < ?p" "of_nat (Y * ?p + x) = y * fb_pitch ?fb + x'"
        using mem by auto
      then have "Y * ?p + x = unat y * ?p + unat x'" using o off(1) [OF y(2,3)] by simp
      from arg_cong [OF this, of "\<lambda>n. n div ?p"] y(1,3) Y(2) show "K \<le> Y" by simp
    next
      assume "K \<le> Y"
      have "unat (of_nat Y :: u32) = Y" "unat (of_nat x :: u32) = x"
        using Y unat_u32_lt [of "fb_height ?fb"] unat_u32_lt [of "fb_pitch ?fb"]
        by (auto intro!: unat_of_nat_u32 elim: order_less_trans simp del: unat_u32_lt)
      with \<open>K \<le> Y\<close> Y have "(of_nat Y, of_nat x) \<in> set ps" unfolding mem by simp
      moreover have "of_nat (Y * ?p + x) = of_nat Y * fb_pitch ?fb + of_nat x" by simp
      ultimately show "\<exists>(y, x') \<in> set ps. of_nat (Y * ?p + x) = y * fb_pitch ?fb + x'" by blast
    qed
    have copied: "v_mem ?v1 (fb_bfr ?fb + of_nat (Y * ?p + x)) = fb_byte v (Y + unat d) x" if "Y < K"
    proof -
      have "Suc Y * ?p \<le> K * ?p" using that by (intro mult_le_mono1) simp
      then have "Y * ?p + x < K * ?p" using Y(2) by simp
      then have lt: "(of_nat (Y * ?p + x) :: u32) < (?top - d) * fb_pitch ?fb"
        unfolding word_less_nat_alt o n .
      have le: "unat (fb_bfr ?fb + fb_pitch ?fb * d - fb_bfr ?fb) + unat ((?top - d) * fb_pitch ?fb) \<le> 2 ^ 32"
        using KS S(1) by (simp add: n pd)
      have "fb_bfr ?fb + fb_pitch ?fb * d + of_nat (Y * ?p + x) = fb_bfr ?fb + of_nat ((Y + unat d) * ?p + x)"
        by (simp add: algebra_simps)
      moreover have "v_mem (v\<lparr>v_mem := f\<rparr>) = f" for f by simp
      ultimately show ?thesis using kernel.cp_inside [OF le lt, of "v_mem v"] by (simp only: fb_byte_def)
    qed
    show ?thesis
      using cleared copied v'(3) [of "of_nat (Y * ?p + x)"] unfolding fb_byte_def [of v'] v'(2) by auto
  qed
  ultimately show ?thesis using v'(2) by blast
qed

text \<open>
  Scrolling by \<open>d\<close> lines, at most the height of the screen, stays inside the framebuffer: of the
  lines above the largest multiple of \<open>d\<close>, each receives the line \<open>d\<close> below it as long as there is
  one, and all further lines are cleared.
\<close>
theorem fb_scroll_correct:
  assumes ok: "fb_ok (v_fb v)" and d: "0 < d" "d \<le> fb_height (v_fb v)"
    and K: "K = unat (fb_height (v_fb v)) - unat (fb_height (v_fb v)) mod unat d - unat d"
  shows "\<exists>v'. fb_scroll d v = Inr v' \<and> v_fb v' = v_fb v \<and>
    (\<forall>Y x. Y < unat (fb_height (v_fb v)) \<longrightarrow> x < unat (fb_pitch (v_fb v)) \<longrightarrow>
       fb_byte v' Y x = (if Y < K then fb_byte v (Y + unat d) x else 0))"
  using scroll_lines [OF assms] .

definition two_lines :: video where
  "two_lines = \<lparr>v_mem = ucast, v_fb = \<lparr>fb_bfr = 0, fb_width = 8, fb_height = 2, fb_pitch = 24\<rparr>\<rparr>"

theorem fb_scroll_correct_witness:
  "\<exists>v'. fb_scroll 1 two_lines = Inr v' \<and> fb_byte v' 0 3 = 27 \<and> fb_byte v' 1 3 = 0"
proof -
  have "\<exists>v'. fb_scroll 1 two_lines = Inr v' \<and> v_fb v' = v_fb two_lines \<and>
    (\<forall>Y x. Y < unat (fb_height (v_fb two_lines)) \<longrightarrow> x < unat (fb_pitch (v_fb two_lines)) \<longrightarrow>
       fb_byte v' Y x = (if Y < 1 then fb_byte two_lines (Y + unat (1 :: u32)) x else 0))"
    by (rule fb_scroll_correct) (simp_all add: two_lines_def fb_ok_def fb_size_def)
  then obtain v' where "fb_scroll 1 two_lines = Inr v'" "fb_byte v' 0 3 = fb_byte two_lines 1 3" "fb_byte v' 1 3 = 0"
    by (auto simp: two_lines_def)
  then show ?thesis by (simp add: fb_byte_def two_lines_def)
qed

end
