(* ===== verification/Terminal.thy ===== *)
theory Terminal
  imports Sync
begin

unbundle bit_operations_syntax

text \<open>
  \<^verbatim>\<open>src/kernel/keyboard.c\<close> and \<^verbatim>\<open>src/kernel/term.c\<close>: translation of scan codes to characters and the line buffer of
  the terminal's standard input, written by the keyboard handler and read by \<^verbatim>\<open>transfer\<close>. The console
  output of a key press (\<^verbatim>\<open>console_put_char\<close>) is in \<^verbatim>\<open>Console.thy\<close>.
\<close>

section \<open>Scan codes\<close>

text \<open>The cases of the switch that only return a character; 255 stands for backspace.\<close>

definition lower_table :: "(u8 \<times> u8) list" where
  "lower_table = [
    (0x01, 0x00), (0x02, 0x31), (0x03, 0x32), (0x04, 0x33), (0x05, 0x34), (0x06, 0x35),
    (0x07, 0x36), (0x08, 0x37), (0x09, 0x38), (0x0A, 0x39), (0x0B, 0x30), (0x0C, 0x2D),
    (0x0D, 0x3D), (0x0E, 0xFF), (0x0F, 0x09), (0x10, 0x71), (0x11, 0x77), (0x12, 0x65),
    (0x13, 0x72), (0x14, 0x74), (0x15, 0x79), (0x16, 0x75), (0x17, 0x69), (0x18, 0x6F),
    (0x19, 0x70), (0x1A, 0x5B), (0x1B, 0x5D), (0x1C, 0x0A), (0x1D, 0x00), (0x1E, 0x61),
    (0x1F, 0x73), (0x20, 0x64), (0x21, 0x66), (0x22, 0x67), (0x23, 0x68), (0x24, 0x6A),
    (0x25, 0x6B), (0x26, 0x6C), (0x27, 0x3B), (0x28, 0x27), (0x29, 0x60), (0x2B, 0x5C),
    (0x2C, 0x7A), (0x2D, 0x78), (0x2E, 0x63), (0x2F, 0x76), (0x30, 0x62), (0x31, 0x6E),
    (0x32, 0x6D), (0x33, 0x2C), (0x34, 0x2E), (0x35, 0x2F), (0x39, 0x20)]"

definition keycode_to_char_lower :: "u8 \<Rightarrow> int \<Rightarrow> u8 \<times> int" where
  "keycode_to_char_lower keycode shift_held =
     (if keycode = 0x2A \<or> keycode = 0x36 then (0, shift_held + 1)
      else if keycode = 0xAA \<or> keycode = 0xB6 then (0, shift_held - 1)
      else case map_of lower_table keycode of Some c \<Rightarrow> (c, shift_held) | None \<Rightarrow> (0, shift_held))"

definition shift_table :: "(u8 \<times> u8) list" where
  "shift_table = [
    (0x60, 0x7E), (0x31, 0x21), (0x32, 0x40), (0x33, 0x23), (0x34, 0x24), (0x35, 0x25),
    (0x36, 0x5E), (0x37, 0x26), (0x38, 0x2A), (0x39, 0x28), (0x30, 0x29), (0x2D, 0x5F),
    (0x3D, 0x2B), (0x5B, 0x7B), (0x5D, 0x7D), (0x5C, 0x7C), (0x3B, 0x3A), (0x27, 0x22),
    (0x2C, 0x3C), (0x2E, 0x3E), (0x2F, 0x3F)]"

definition keycode_to_char :: "u8 \<Rightarrow> int \<Rightarrow> u8 \<times> int" where
  "keycode_to_char keycode shift_held =
     (case keycode_to_char_lower keycode shift_held of (lower, shift_held) \<Rightarrow>
        (if shift_held = 0 then lower
         else if lower \<ge> 0x61 \<and> lower \<le> 0x7A then lower + (0x41 - 0x61)
         else case map_of shift_table lower of Some c \<Rightarrow> c | None \<Rightarrow> lower, shift_held))"

section \<open>The line buffer\<close>

definition TERM_BFR_HEIGHT :: nat where "TERM_BFR_HEIGHT = 8"
definition TERM_BFR_WIDTH :: nat where "TERM_BFR_WIDTH = 64"

text \<open>A line: its length field and the characters of its array.\<close>

record stdin_line =
  sl_len :: nat
  sl_s :: "u8 list"

record stdin =
  active_line :: nat
  bfr_offset :: nat
  in_lines :: "stdin_line list"
  in_lock :: lock_multi

text \<open>The last statements of a write: \<^verbatim>\<open>lock_multi_signal\<close> after a finished line, a release otherwise.\<close>

definition term_stdin_putc :: "u8 \<Rightarrow> stdin \<Rightarrow> stdin result" where
  "term_stdin_putc c inp =
     (case lock_multi_acquire_write (in_lock inp) of
        None \<Rightarrow> Inl Spins
      | Some l \<Rightarrow>
          if length (in_lines inp) \<le> active_line inp \<or>
             TERM_BFR_WIDTH \<le> sl_len (in_lines inp ! active_line inp) then Inl OutOfBounds
          else let a = active_line inp; ln = in_lines inp ! a;
                   ln = ln\<lparr>sl_s := (sl_s ln)[sl_len ln := c], sl_len := sl_len ln + 1\<rparr>;
                   inp = inp\<lparr>in_lines := (in_lines inp)[a := ln], in_lock := l\<rparr>
               in if sl_len ln \<ge> TERM_BFR_WIDTH \<or> c = 0x0A
                  then let inp = inp\<lparr>active_line := a + 1\<rparr>;
                           inp = (if active_line inp = TERM_BFR_HEIGHT
                             then let inp = inp\<lparr>bfr_offset := bfr_offset inp + sl_len (in_lines inp ! 0),
                                          in_lines := tl (in_lines inp) @ [last (in_lines inp)],
                                          active_line := a\<rparr>
                                  in inp\<lparr>in_lines := (in_lines inp)[a := (in_lines inp ! a)\<lparr>sl_len := 0\<rparr>]\<rparr>
                             else inp)
                       in Inr (inp\<lparr>in_lock := lock_multi_signal (in_lock inp)\<rparr>)
                  else Inr (inp\<lparr>in_lock := lock_multi_release_write (in_lock inp)\<rparr>))"

text \<open>
  The loop of \<^verbatim>\<open>term_transfer\<close> that looks for the line holding a file position: the line's index and the
  position of its start, or, when the position is not in the buffer, the active line and the position
  of its end.
\<close>

function find_line :: "stdin \<Rightarrow> nat \<Rightarrow> nat \<Rightarrow> nat \<Rightarrow> nat \<times> nat" where
  "find_line inp offset line_offset line_idx =
     (if line_offset + sl_len (in_lines inp ! line_idx) > offset then (line_idx, line_offset)
      else if line_idx \<ge> active_line inp then (line_idx, line_offset + sl_len (in_lines inp ! line_idx))
      else find_line inp offset (line_offset + sl_len (in_lines inp ! line_idx)) (line_idx + 1))"
  by pat_completeness auto
termination
  by (relation "measure (\<lambda>(inp, o', l, i). active_line inp - i)") auto

text \<open>
  The inner loop that copies lines: the bytes copied, then the line index, the offset in the line and
  the number of bytes still wanted when the loop stops. The subtraction \<^verbatim>\<open>len - char_offset\<close> is
  unsigned: an offset past the length of the line gives a huge number and the minimum is \<^verbatim>\<open>size\<close>.
\<close>

type_synonym reader = "nat \<times> nat \<times> nat"

function copy_lines :: "stdin \<Rightarrow> nat \<Rightarrow> nat \<Rightarrow> nat \<Rightarrow> (u8 list \<times> reader) result" where
  "copy_lines inp line_idx char_offset sz =
     (if sz > 0 \<and> line_idx \<le> active_line inp
      then let ln = in_lines inp ! line_idx;
               transfer_size = (if char_offset \<le> sl_len ln then min sz (sl_len ln - char_offset) else sz) in
           if line_idx = active_line inp \<and> transfer_size < sz then Inr ([], line_idx, char_offset, sz)
           else if char_offset + transfer_size > length (sl_s ln) then Inl OutOfBounds
           else rbind (copy_lines inp (line_idx + 1) 0 (sz - transfer_size)) (\<lambda>(bs, r).
                Inr (take transfer_size (drop char_offset (sl_s ln)) @ bs, r))
      else Inr ([], line_idx, char_offset, sz))"
  by pat_completeness auto
termination
  by (relation "measure (\<lambda>(inp, i, c, n). Suc (active_line inp) - i)") auto

text \<open>
  A read of \<open>sz\<close> bytes at \<open>offset\<close>: where it starts, and one round of the outer loop, after which
  the reader waits for the next finished line if it still wants bytes. The index is moved down in
  advance when that line will scroll the buffer.
\<close>

definition term_read_start :: "stdin \<Rightarrow> nat \<Rightarrow> nat \<Rightarrow> reader" where
  "term_read_start inp offset sz =
     (let (line_idx, line_offset) = find_line inp offset (bfr_offset inp) 0
      in if offset \<le> bfr_offset inp then (0, 0, sz) else (line_idx, offset - line_offset, sz))"

definition term_read_round :: "stdin \<Rightarrow> reader \<Rightarrow> (u8 list \<times> reader) result" where
  "term_read_round inp r =
     (case r of (line_idx, char_offset, sz) \<Rightarrow>
        rbind (copy_lines inp line_idx char_offset sz) (\<lambda>(bs, line_idx, char_offset, sz).
          Inr (bs, if sz > 0 \<and> active_line inp + 1 = TERM_BFR_HEIGHT then line_idx - 1 else line_idx,
               char_offset, sz)))"

text \<open>
  The buffer \<^verbatim>\<open>init_root_term\<close> sets up; the characters \<open>mem\<close> of the lines and the content of the lock are
  what the allocated memory held, as the code initialises neither.
\<close>

definition init_stdin :: "u8 list list \<Rightarrow> lock_multi \<Rightarrow> stdin" where
  "init_stdin mem lock = \<lparr>active_line = 0, bfr_offset = 0, in_lines = map (\<lambda>s. \<lparr>sl_len = 0, sl_s = s\<rparr>) mem,
     in_lock = lock\<rparr>"

declare find_line.simps [simp del] copy_lines.simps [simp del]

section \<open>The keyboard can type every printable character\<close>

text \<open>Pressing a key alone, or with a shift key held down and released afterwards.\<close>

definition type_key :: "bool \<Rightarrow> u8 \<Rightarrow> u8 \<times> int" where
  "type_key shifted k =
     (if shifted
      then (let (_, sh) = keycode_to_char 0x2A 0; (c, sh) = keycode_to_char k sh; (_, sh) = keycode_to_char 0xAA sh
            in (c, sh))
      else keycode_to_char k 0)"

text \<open>The printable characters the keys give, those of shifted keys that differ from the plain ones last.\<close>

definition typed_chars :: "u8 list" where
  "typed_chars = filter (\<lambda>c. 0x20 \<le> c \<and> c \<le> 0x7E)
     (map (fst \<circ> type_key False) (map fst lower_table) @
      map (fst \<circ> type_key True) (filter (\<lambda>k. fst (type_key True k) \<noteq> fst (type_key False k)) (map fst lower_table)))"

lemma typed_chars_eval: "sort (map uint typed_chars) = [32..126]"
  by code_simp


section \<open>The buffer as a stream\<close>

definition line_text :: "stdin_line \<Rightarrow> u8 list" where
  "line_text ln = take (sl_len ln) (sl_s ln)"

text \<open>The bytes from line \<open>i\<close> to the end of the active line.\<close>

definition text_from :: "stdin \<Rightarrow> nat \<Rightarrow> u8 list" where
  "text_from inp i = concat (map line_text (drop i (take (Suc (active_line inp)) (in_lines inp))))"

definition stdin_ok :: "stdin \<Rightarrow> bool" where
  "stdin_ok inp \<longleftrightarrow> length (in_lines inp) = TERM_BFR_HEIGHT \<and> active_line inp < TERM_BFR_HEIGHT \<and>
     (\<forall>ln \<in> set (in_lines inp). length (sl_s ln) = TERM_BFR_WIDTH \<and> sl_len ln \<le> TERM_BFR_WIDTH) \<and>
     sl_len (in_lines inp ! active_line inp) < TERM_BFR_WIDTH \<and>
     (\<forall>i. active_line inp < i \<longrightarrow> i < TERM_BFR_HEIGHT \<longrightarrow> sl_len (in_lines inp ! i) = 0)"

lemmas bfr_consts = TERM_BFR_HEIGHT_def TERM_BFR_WIDTH_def

lemma line_text_put:
  "sl_len ln < length (sl_s ln) \<Longrightarrow>
    line_text (ln\<lparr>sl_s := (sl_s ln)[sl_len ln := c], sl_len := Suc (sl_len ln)\<rparr>) = line_text ln @ [c]"
  by (simp add: line_text_def take_Suc_conv_app_nth take_update_cancel)

lemma text_from_step:
  assumes "i \<le> active_line inp" and "active_line inp < length (in_lines inp)"
  shows "text_from inp i = line_text (in_lines inp ! i) @ text_from inp (Suc i)"
proof -
  have "drop i (take (Suc (active_line inp)) (in_lines inp)) =
      in_lines inp ! i # drop (Suc i) (take (Suc (active_line inp)) (in_lines inp))"
    using assms by (subst Cons_nth_drop_Suc [symmetric]) auto
  then show ?thesis by (simp add: text_from_def)
qed

lemma text_from_end: "active_line inp < i \<Longrightarrow> text_from inp i = []"
  by (simp add: text_from_def)

lemma line_text_length:
  "stdin_ok inp \<Longrightarrow> i < TERM_BFR_HEIGHT \<Longrightarrow> length (line_text (in_lines inp ! i)) = sl_len (in_lines inp ! i)"
  by (simp add: stdin_ok_def line_text_def)

lemma find_line_spec:
  assumes "stdin_ok inp" and "i \<le> active_line inp" and "L \<le> off" and "off < L + length (text_from inp i)"
  shows "\<exists>j M. find_line inp off L i = (j, M) \<and> j \<le> active_line inp \<and> M \<le> off \<and>
    off - M \<le> sl_len (in_lines inp ! j) \<and> drop (off - L) (text_from inp i) = drop (off - M) (text_from inp j) \<and>
    length (text_from inp i) + L = length (text_from inp j) + M"
  using assms
proof (induction inp off L i rule: find_line.induct)
  case (1 inp off L i)
  let ?n = "sl_len (in_lines inp ! i)"
  have a: "active_line inp < length (in_lines inp)" "active_line inp < TERM_BFR_HEIGHT"
    using "1.prems"(1) by (auto simp: stdin_ok_def)
  have n: "length (line_text (in_lines inp ! i)) = ?n"
    using "1.prems"(1,2) a by (intro line_text_length) auto
  note step = text_from_step [OF "1.prems"(2) a(1)]
  show ?case
  proof (cases "L + ?n > off")
    case True
    then have "find_line inp off L i = (i, L)" by (subst find_line.simps) simp
    with True "1.prems" show ?thesis by auto
  next
    case False
    have lt: "i < active_line inp"
    proof (rule ccontr)
      assume "\<not> i < active_line inp"
      then have "text_from inp (Suc i) = []" by (intro text_from_end) simp
      with False "1.prems"(4) step n show False by simp
    qed
    then have fl: "find_line inp off L i = find_line inp off (L + ?n) (i + 1)"
      using False by (subst find_line.simps) simp
    have "off < (L + ?n) + length (text_from inp (i + 1))" using "1.prems"(4) step n by simp
    from "1.IH" [OF False _ "1.prems"(1) _ _ this] lt False obtain j M where j:
      "find_line inp off (L + ?n) (i + 1) = (j, M)" "j \<le> active_line inp" "M \<le> off"
      "off - M \<le> sl_len (in_lines inp ! j)"
      "drop (off - (L + ?n)) (text_from inp (i + 1)) = drop (off - M) (text_from inp j)"
      "length (text_from inp (i + 1)) + (L + ?n) = length (text_from inp j) + M" by auto
    have "drop (off - L) (text_from inp i) = drop (off - (L + ?n)) (text_from inp (i + 1))"
      using False n "1.prems"(3) by (simp add: step)
    with j fl step n show ?thesis by auto
  qed
qed

lemma copy_lines_spec:
  assumes "stdin_ok inp" and "i \<le> Suc (active_line inp)" and "sz = 0 \<or> co \<le> sl_len (in_lines inp ! i)"
    and "sz + co \<le> length (text_from inp i) \<or> sz = 0"
  shows "\<exists>k co'. copy_lines inp i co sz = Inr (take sz (drop co (text_from inp i)), k, co', 0)"
  using assms
proof (induction inp i co sz rule: copy_lines.induct)
  case (1 inp i co sz)
  show ?case
  proof (cases "sz = 0")
    case True
    then show ?thesis by (subst copy_lines.simps) simp
  next
    case False
    let ?ln = "in_lines inp ! i" and ?t = "min sz (sl_len (in_lines inp ! i) - co)"
    have a: "active_line inp < length (in_lines inp)" "active_line inp < TERM_BFR_HEIGHT"
      using "1.prems"(1) by (auto simp: stdin_ok_def)
    have i: "i \<le> active_line inp"
    proof (rule ccontr)
      assume "\<not> i \<le> active_line inp"
      then have "text_from inp i = []" by (intro text_from_end) simp
      with "1.prems"(4) False show False by simp
    qed
    have n: "length (line_text ?ln) = sl_len ?ln" using "1.prems"(1) a i by (intro line_text_length) auto
    note step = text_from_step [OF i a(1)]
    have co: "co \<le> sl_len ?ln" "sz + co \<le> sl_len ?ln + length (text_from inp (Suc i))"
      using "1.prems"(3,4) False step n by auto
    have nb: "\<not> (i = active_line inp \<and> ?t < sz)"
      using co text_from_end [of inp "Suc i"] by auto
    have rest: "sz - ?t = 0 \<or> sz - ?t + 0 \<le> length (text_from inp (i + 1))" using co by auto
    have s: "length (sl_s ?ln) = TERM_BFR_WIDTH" "sl_len ?ln \<le> TERM_BFR_WIDTH" using "1.prems"(1) a i
      by (auto simp: stdin_ok_def)
    have "\<exists>k co'. copy_lines inp (i + 1) 0 (sz - ?t) = Inr (take (sz - ?t) (drop 0 (text_from inp (i + 1))), k, co', 0)"
      using "1.IH" [of ?ln ?t] False i co(1) nb rest "1.prems"(1) s by (auto simp: not_less)
    then obtain k co' where k: "copy_lines inp (i + 1) 0 (sz - ?t) =
        Inr (take (sz - ?t) (text_from inp (i + 1)), k, co', 0)"
      by auto
    have lt: "take ?t (drop co (sl_s ?ln)) = take ?t (drop co (line_text ?ln))"
      using co(1) by (simp add: line_text_def drop_take min_def)
    have "copy_lines inp i co sz =
        Inr (take ?t (drop co (sl_s ?ln)) @ take (sz - ?t) (text_from inp (i + 1)), k, co', 0)"
      using False i co(1) nb k s by (subst copy_lines.simps) (auto simp: Let_def not_less)
    moreover have "take ?t (drop co (sl_s ?ln)) @ take (sz - ?t) (text_from inp (i + 1)) = take sz (drop co (text_from inp i))"
      using n co(1) unfolding lt step by (simp add: min_def)
    ultimately show ?thesis by simp
  qed
qed

text \<open>Writing at the end of the active line, and the scroll of the lines.\<close>

definition put_text :: "u8 \<Rightarrow> stdin \<Rightarrow> stdin" where
  "put_text c inp = inp\<lparr>in_lines := (in_lines inp)[active_line inp :=
     (in_lines inp ! active_line inp)\<lparr>sl_s := (sl_s (in_lines inp ! active_line inp))
        [sl_len (in_lines inp ! active_line inp) := c], sl_len := sl_len (in_lines inp ! active_line inp) + 1\<rparr>]\<rparr>"

lemma put_text_content:
  assumes "stdin_ok inp"
  shows "text_from (put_text c inp) 0 = text_from inp 0 @ [c]"
proof -
  let ?a = "active_line inp" and ?ls = "in_lines inp"
  let ?ln = "(?ls ! ?a)\<lparr>sl_s := (sl_s (?ls ! ?a))[sl_len (?ls ! ?a) := c], sl_len := sl_len (?ls ! ?a) + 1\<rparr>"
  have a: "?a < length ?ls" "sl_len (?ls ! ?a) < length (sl_s (?ls ! ?a))"
    using assms by (auto simp: stdin_ok_def)
  have "take (Suc ?a) (?ls[?a := ?ln]) = take ?a ?ls @ [?ln]"
    using a(1) by (simp add: take_Suc_conv_app_nth)
  moreover have "take (Suc ?a) ?ls = take ?a ?ls @ [?ls ! ?a]"
    using a(1) by (simp add: take_Suc_conv_app_nth)
  ultimately show ?thesis
    by (simp add: text_from_def put_text_def line_text_put [OF a(2)])
qed

text \<open>
  The history the buffer stands for: \<open>h\<close> is everything typed since boot, of which the buffer holds
  the part from \<open>bfr_offset\<close> on.
\<close>

definition stdin_holds :: "stdin \<Rightarrow> u8 list \<Rightarrow> bool" where
  "stdin_holds inp h \<longleftrightarrow> stdin_ok inp \<and> bfr_offset inp \<le> length h \<and> drop (bfr_offset inp) h = text_from inp 0"

text \<open>The buffer after a line is finished, before the lock is released.\<close>

definition next_line :: "stdin \<Rightarrow> stdin" where
  "next_line inp = (if active_line inp + 1 = TERM_BFR_HEIGHT
     then inp\<lparr>bfr_offset := bfr_offset inp + sl_len (in_lines inp ! 0),
       in_lines := tl (in_lines inp) @ [(last (in_lines inp))\<lparr>sl_len := 0\<rparr>]\<rparr>
     else inp\<lparr>active_line := active_line inp + 1\<rparr>)"

lemma stdin_ok_put:
  assumes "stdin_ok inp" and "sl_len (in_lines inp ! active_line inp) + 1 < TERM_BFR_WIDTH"
  shows "stdin_ok (put_text c inp)"
  using assms by (auto simp: stdin_ok_def put_text_def nth_list_update dest!: subsetD [OF set_update_subset_insert])

text \<open>What remains true when the active line is full.\<close>

definition stdin_full :: "stdin \<Rightarrow> bool" where
  "stdin_full inp \<longleftrightarrow> length (in_lines inp) = TERM_BFR_HEIGHT \<and> active_line inp < TERM_BFR_HEIGHT \<and>
     (\<forall>ln \<in> set (in_lines inp). length (sl_s ln) = TERM_BFR_WIDTH \<and> sl_len ln \<le> TERM_BFR_WIDTH) \<and>
     (\<forall>i. active_line inp < i \<longrightarrow> i < TERM_BFR_HEIGHT \<longrightarrow> sl_len (in_lines inp ! i) = 0)"

lemma stdin_full_put: "stdin_ok inp \<Longrightarrow> stdin_full (put_text c inp)"
  by (auto simp: stdin_ok_def stdin_full_def put_text_def nth_list_update
      dest!: subsetD [OF set_update_subset_insert])

lemma stdin_ok_next:
  assumes "stdin_full inp"
  shows "stdin_ok (next_line inp)"
proof (cases "active_line inp + 1 = TERM_BFR_HEIGHT")
  case True
  from assms have "length (in_lines inp) = 8" by (simp add: stdin_full_def bfr_consts)
  then obtain x xs where ls: "in_lines inp = x # xs" "length xs = 7" by (cases "in_lines inp") auto
  then have "xs \<noteq> []" by auto
  with ls True assms show ?thesis
    by (auto simp: stdin_full_def stdin_ok_def next_line_def bfr_consts nth_append)
next
  case False
  with assms show ?thesis by (auto simp: stdin_full_def stdin_ok_def next_line_def bfr_consts)
qed

lemma next_line_content:
  assumes "stdin_full inp"
  shows "\<exists>d. text_from inp 0 = d @ text_from (next_line inp) 0 \<and> bfr_offset (next_line inp) = bfr_offset inp + length d"
proof (cases "active_line inp + 1 = TERM_BFR_HEIGHT")
  case True
  from assms have "length (in_lines inp) = 8" by (simp add: stdin_full_def bfr_consts)
  then obtain x xs where ls: "in_lines inp = x # xs" "length xs = 7" by (cases "in_lines inp") auto
  have "sl_len x \<le> length (sl_s x)" using assms ls by (simp add: stdin_full_def)
  then show ?thesis
    using True ls by (intro exI [of _ "line_text x"]) (simp add: next_line_def text_from_def bfr_consts line_text_def)
next
  case False
  with assms have "line_text (in_lines inp ! Suc (active_line inp)) = []" "Suc (active_line inp) < length (in_lines inp)"
    by (auto simp: stdin_full_def line_text_def)
  with False show ?thesis
    by (intro exI [of _ "[]"]) (simp add: next_line_def text_from_def take_Suc_conv_app_nth [of "Suc (active_line inp)"])
qed

lemma term_stdin_putc_eq:
  assumes "stdin_ok inp" and "lock_multi_acquire_write (in_lock inp) = Some l"
  shows "term_stdin_putc c inp =
    (let inp' = put_text c inp in
     if sl_len (in_lines inp' ! active_line inp) \<ge> TERM_BFR_WIDTH \<or> c = 0x0A
     then Inr ((next_line inp')\<lparr>in_lock := lock_multi_signal l\<rparr>) else Inr (inp'\<lparr>in_lock := lock_multi_release_write l\<rparr>))"
proof -
  have a: "active_line inp < length (in_lines inp)" "length (in_lines inp) = TERM_BFR_HEIGHT"
    "\<not> TERM_BFR_WIDTH \<le> sl_len (in_lines inp ! active_line inp)"
    using assms(1) by (auto simp: stdin_ok_def)
  have tl: "(tl ls @ [last ls])[a := ((tl ls @ [last ls]) ! a)\<lparr>sl_len := 0\<rparr>] = tl ls @ [(last ls)\<lparr>sl_len := 0\<rparr>]"
    if "length ls = Suc a" for ls a using that by (simp add: nth_append list_update_append)
  show ?thesis
    using a assms(2)
    by (simp add: term_stdin_putc_def put_text_def next_line_def Let_def tl)
qed

lemma stdin_ok_lock [simp]:
  "stdin_ok (inp\<lparr>in_lock := l\<rparr>) = stdin_ok inp"
  "text_from (inp\<lparr>in_lock := l\<rparr>) i = text_from inp i"
  by (simp_all add: stdin_ok_def text_from_def)

lemma put_text_simps [simp]:
  "active_line (put_text c inp) = active_line inp" "bfr_offset (put_text c inp) = bfr_offset inp"
  by (simp_all add: put_text_def)

lemma stdin_holds_put:
  assumes "stdin_holds inp h" and "lock_multi_acquire_write (in_lock inp) = Some l"
  shows "\<exists>inp'. term_stdin_putc c inp = Inr inp' \<and> stdin_holds inp' (h @ [c]) \<and> bfr_offset inp \<le> bfr_offset inp' \<and>
    in_lock inp' \<in> {lock_multi_signal l, lock_multi_release_write l}"
proof -
  have ok: "stdin_ok inp" and b: "bfr_offset inp \<le> length h" and t: "drop (bfr_offset inp) h = text_from inp 0"
    using assms(1) by (auto simp: stdin_holds_def)
  have a: "active_line inp < length (in_lines inp)" using ok by (simp add: stdin_ok_def)
  have p: "drop (bfr_offset inp) (h @ [c]) = text_from (put_text c inp) 0"
    using b t by (simp add: put_text_content [OF ok])
  show ?thesis
  proof (cases "sl_len (in_lines (put_text c inp) ! active_line inp) \<ge> TERM_BFR_WIDTH \<or> c = 0x0A")
    case True
    obtain d where d: "text_from (put_text c inp) 0 = d @ text_from (next_line (put_text c inp)) 0"
      "bfr_offset (next_line (put_text c inp)) = bfr_offset inp + length d"
      using next_line_content [OF stdin_full_put [OF ok]] by auto
    have "drop (bfr_offset inp + length d) (h @ [c]) = text_from (next_line (put_text c inp)) 0"
      using p d(1) by (metis add.commute append_eq_conv_conj drop_drop)
    moreover have "bfr_offset inp + length d \<le> length (h @ [c])"
      using arg_cong [OF p, of length] d(1) b by simp
    ultimately show ?thesis
      using True d(2) stdin_ok_next [OF stdin_full_put [OF ok]]
      by (simp add: term_stdin_putc_eq [OF ok assms(2)] stdin_holds_def)
  next
    case False
    with ok a have "stdin_ok (put_text c inp)" by (intro stdin_ok_put) (simp_all add: put_text_def)
    with False p b show ?thesis
      by (simp add: term_stdin_putc_eq [OF ok assms(2)] stdin_holds_def Let_def)
  qed
qed

text \<open>A read that finds all its bytes in the buffer.\<close>

definition stdin_read :: "stdin \<Rightarrow> nat \<Rightarrow> nat \<Rightarrow> u8 list result" where
  "stdin_read inp offset sz = rbind (term_read_round inp (term_read_start inp offset sz))
     (\<lambda>(bs, _, _, n). if n = 0 then Inr bs else Inl Spins)"

lemma stdin_holds_read:
  assumes "stdin_holds inp h" and "bfr_offset inp \<le> off" and "off + sz \<le> length h" and "0 < sz"
  shows "stdin_read inp off sz = Inr (take sz (drop off h))"
proof -
  let ?b = "bfr_offset inp"
  have ok: "stdin_ok inp" and b: "?b \<le> length h" and t: "drop ?b h = text_from inp 0"
    using assms(1) by (auto simp: stdin_holds_def)
  have len: "length h = ?b + length (text_from inp 0)" using b arg_cong [OF t, of length] by simp
  have lt: "off < ?b + length (text_from inp 0)" using assms(3,4) len by simp
  from find_line_spec [OF ok le0 assms(2) lt] obtain j M where j:
    "find_line inp off ?b 0 = (j, M)" "j \<le> active_line inp" "M \<le> off" "off - M \<le> sl_len (in_lines inp ! j)"
    "drop (off - ?b) (text_from inp 0) = drop (off - M) (text_from inp j)"
    "length (text_from inp 0) + ?b = length (text_from inp j) + M" by blast
  have d: "drop off h = drop (off - ?b) (text_from inp 0)" using assms(2) by (simp add: t [symmetric])
  show ?thesis
  proof (cases "off \<le> ?b")
    case True
    with assms(2) have "off = ?b" by simp
    moreover have "\<exists>k co. copy_lines inp 0 0 sz = Inr (take sz (drop 0 (text_from inp 0)), k, co, 0)"
      using assms(3) len \<open>off = ?b\<close> by (intro copy_lines_spec [OF ok]) auto
    ultimately show ?thesis
      using j(1) d by (auto simp: stdin_read_def term_read_round_def term_read_start_def)
  next
    case False
    have "\<exists>k co. copy_lines inp j (off - M) sz = Inr (take sz (drop (off - M) (text_from inp j)), k, co, 0)"
      using assms(3) len j(2,3,4,6) by (intro copy_lines_spec [OF ok]) auto
    with False show ?thesis
      using j(1,5) d by (auto simp: stdin_read_def term_read_round_def term_read_start_def)
  qed
qed

section \<open>Interface: a stream of bytes with a bounded past\<close>

text \<open>
  What a reader of standard input relies on: \<open>put\<close> appends a byte to the history, \<open>get\<close> returns any
  window of the history that has not been dropped, and only \<open>put\<close> drops anything.
\<close>

locale byte_stream =
  fixes put :: "u8 \<Rightarrow> 's \<Rightarrow> 's result" and get :: "'s \<Rightarrow> nat \<Rightarrow> nat \<Rightarrow> u8 list result"
    and holds :: "'s \<Rightarrow> u8 list \<Rightarrow> bool" and base :: "'s \<Rightarrow> nat" and ready :: "'s \<Rightarrow> bool"
  assumes put_holds: "holds s h \<Longrightarrow> ready s \<Longrightarrow>
      \<exists>s'. put c s = Inr s' \<and> holds s' (h @ [c]) \<and> ready s' \<and> base s \<le> base s'"
    and get_holds: "holds s h \<Longrightarrow> base s \<le> off \<Longrightarrow> off + n \<le> length h \<Longrightarrow> 0 < n \<Longrightarrow>
      get s off n = Inr (take n (drop off h))"
begin

fun put_all :: "u8 list \<Rightarrow> 's \<Rightarrow> 's result" where
  "put_all [] s = Inr s"
| "put_all (c # cs) s = rbind (put c s) (put_all cs)"

lemma put_all_holds:
  "holds s h \<Longrightarrow> ready s \<Longrightarrow> \<exists>s'. put_all cs s = Inr s' \<and> holds s' (h @ cs) \<and> ready s' \<and> base s \<le> base s'"
proof (induction cs arbitrary: s h)
  case (Cons c cs)
  from put_holds [OF Cons.prems, of c] obtain t where
    t: "put c s = Inr t" "holds t (h @ [c])" "ready t" "base s \<le> base t" by blast
  from Cons.IH [OF t(2,3)] t(4) show ?case by (auto simp: t(1) intro: order_trans)
qed auto

text \<open>Bytes written and not yet dropped are read back as written, wherever the read starts.\<close>

lemma put_all_get:
  assumes "holds s h" and "ready s" and "put_all cs s = Inr s'" and "base s' \<le> length h + i"
    and "i + n \<le> length cs" and "0 < n"
  shows "get s' (length h + i) n = Inr (take n (drop i cs))"
proof -
  from put_all_holds [OF assms(1,2), of cs] assms(3) have "holds s' (h @ cs)" by auto
  from get_holds [OF this assms(4)] assms(5,6) show ?thesis by simp
qed

end

definition stdin_ready :: "stdin \<Rightarrow> bool" where
  "stdin_ready inp \<longleftrightarrow> lm_stat (in_lock inp) = 0 \<and> lm_waiting_readers (in_lock inp) = 0"

lemma stdin_ready_put:
  assumes "stdin_holds inp h" and "stdin_ready inp"
  shows "\<exists>inp'. term_stdin_putc c inp = Inr inp' \<and> stdin_holds inp' (h @ [c]) \<and> stdin_ready inp' \<and>
    bfr_offset inp \<le> bfr_offset inp'"
proof -
  have "lock_multi_acquire_write (in_lock inp) = Some ((in_lock inp)\<lparr>lm_stat := LSTAT_WRITE\<rparr>)"
    using assms(2) by (simp add: stdin_ready_def lock_multi_acquire_write_def compare_exchange_def)
  from stdin_holds_put [OF assms(1) this, of c] assms(2) show ?thesis
    by (auto simp: stdin_ready_def lock_multi_signal_def lock_multi_release_write_def)
qed

interpretation tty: byte_stream term_stdin_putc stdin_read stdin_holds bfr_offset stdin_ready
  by unfold_locales (erule (1) stdin_ready_put, erule (3) stdin_holds_read)

fun type_text :: "u8 list \<Rightarrow> stdin \<Rightarrow> stdin result" where
  "type_text [] inp = Inr inp"
| "type_text (c # cs) inp = rbind (term_stdin_putc c inp) (type_text cs)"

lemma type_text_put_all: "type_text cs inp = tty.put_all cs inp"
  by (induction cs arbitrary: inp) (auto simp: rbind_def split: sum.splits)

lemma init_stdin_holds:
  "length mem = TERM_BFR_HEIGHT \<Longrightarrow> \<forall>s \<in> set mem. length s = TERM_BFR_WIDTH \<Longrightarrow> stdin_holds (init_stdin mem l) []"
  by (simp add: stdin_holds_def init_stdin_def stdin_ok_def text_from_def line_text_def bfr_consts concat_eq_Nil_conv
      take_map)


definition empty_stdin :: stdin where
  "empty_stdin = init_stdin (replicate 8 (replicate 64 0)) \<lparr>lm_waiting_readers = 0, lm_stat = 0\<rparr>"


lemma find_line_end:
  assumes "stdin_ok inp" and "i \<le> active_line inp" and "L + length (text_from inp i) \<le> off"
  shows "find_line inp off L i = (active_line inp, L + length (text_from inp i))"
  using assms
proof (induction inp off L i rule: find_line.induct)
  case (1 inp off L i)
  have a: "active_line inp < length (in_lines inp)" "active_line inp < TERM_BFR_HEIGHT"
    using "1.prems"(1) by (auto simp: stdin_ok_def)
  have n: "length (line_text (in_lines inp ! i)) = sl_len (in_lines inp ! i)"
    using "1.prems"(1,2) a by (intro line_text_length) auto
  note step = text_from_step [OF "1.prems"(2) a(1)]
  have le: "\<not> L + sl_len (in_lines inp ! i) > off" using "1.prems"(3) step n by simp
  show ?case
  proof (cases "i = active_line inp")
    case True
    then show ?thesis using le step n text_from_end [of inp "Suc i"] by (subst find_line.simps) simp
  next
    case False
    with "1.prems"(2) have lt: "i < active_line inp" by simp
    then show ?thesis
      using "1.IH" [OF le _ "1.prems"(1)] "1.prems"(3) step n by (subst find_line.simps) (use le in \<open>simp add: add.assoc\<close>)
  qed
qed

text \<open>
  A read at the end of everything typed does not wait when the line being typed is at least
  as long as the request: it returns the beginning of that unfinished line again.
\<close>
theorem stdin_read_at_end:
  assumes "stdin_holds inp h" and "0 < sz" and "sz \<le> sl_len (in_lines inp ! active_line inp)"
    and "bfr_offset inp < length h"
  shows "stdin_read inp (length h) sz = Inr (take sz (line_text (in_lines inp ! active_line inp)))"
proof -
  let ?a = "active_line inp"
  have ok: "stdin_ok inp" and t: "drop (bfr_offset inp) h = text_from inp 0"
    using assms(1) by (auto simp: stdin_holds_def)
  then have a: "?a < length (in_lines inp)" "?a < TERM_BFR_HEIGHT" by (auto simp: stdin_ok_def)
  have "length h = bfr_offset inp + length (text_from inp 0)"
    using assms(4) arg_cong [OF t, of length] by simp
  then have "find_line inp (length h) (bfr_offset inp) 0 = (?a, length h)"
    using find_line_end [OF ok le0] by simp
  moreover have f: "text_from inp ?a = line_text (in_lines inp ! ?a)"
    using text_from_step [of ?a inp] text_from_end [of inp "Suc ?a"] a(1) by simp
  moreover have "\<exists>k co. copy_lines inp ?a 0 sz = Inr (take sz (drop 0 (text_from inp ?a)), k, co, 0)"
    using assms(2,3) line_text_length [OF ok a(2)] f by (intro copy_lines_spec [OF ok]) auto
  ultimately show ?thesis
    using assms(4) by (auto simp: stdin_read_def term_read_round_def term_read_start_def)
qed

definition typed_ab :: stdin where
  "typed_ab = empty_stdin\<lparr>in_lines := (in_lines empty_stdin)[0 := \<lparr>sl_len = 2, sl_s = [97, 98] @ replicate 62 0\<rparr>]\<rparr>"

lemma typed_ab_holds: "stdin_holds typed_ab [97, 98]"
  by (simp add: typed_ab_def empty_stdin_def init_stdin_def stdin_holds_def stdin_ok_def text_from_def line_text_def
      bfr_consts eval_nat_numeral nth_Cons split: nat.splits)

theorem stdin_read_at_end_witness: "stdin_read typed_ab 2 1 = Inr [97]"
proof -
  have "stdin_read typed_ab (length [97, 98 :: u8]) 1 =
      Inr (take 1 (line_text (in_lines typed_ab ! active_line typed_ab)))"
    by (rule stdin_read_at_end [OF typed_ab_holds]) (simp_all add: typed_ab_def empty_stdin_def init_stdin_def)
  then show ?thesis
    by (simp add: typed_ab_def empty_stdin_def init_stdin_def line_text_def numeral_2_eq_2 del: Suc_eq_plus1)
qed

end
