(* ===== verification/Console.thy ===== *)
theory Console
  imports Framebuffer Terminal
begin

text \<open>
  \<^verbatim>\<open>src/common/text.c\<close> and \<^verbatim>\<open>src/common/logging.c\<close>: the text console with its cursor, numbers, formatted
  output and log messages; and the callers that tie the console to standard input, the keyboard handler
  of \<^verbatim>\<open>src/kernel/keyboard.c\<close> and the write direction of \<^verbatim>\<open>term_transfer\<close> in \<^verbatim>\<open>src/kernel/term.c\<close>.
  The font and \<open>me\<close>, the id of the running context that the console lock records, are arguments.
\<close>

section \<open>Characters\<close>

record console =
  con_v :: video
  cursor_x :: u32
  cursor_y :: u32
  console_lock :: lock_reentrant

definition reinit_console :: "console \<Rightarrow> console" where
  "reinit_console con = con\<lparr>console_lock := (console_lock con)\<lparr>lr_cnt := 0, lr_owner := 0\<rparr>, cursor_x := 0, cursor_y := 0\<rparr>"

definition CONSOLE_W :: "psf_font \<Rightarrow> console \<Rightarrow> u32" where
  "CONSOLE_W font con = fb_width (v_fb (con_v con)) div psf_width font"

definition CONSOLE_H :: "psf_font \<Rightarrow> console \<Rightarrow> u32" where
  "CONSOLE_H font con = fb_height (v_fb (con_v con)) div psf_height font"

definition con_release :: "console \<Rightarrow> console" where
  "con_release con = con\<lparr>console_lock := lock_reentrant_release (console_lock con)\<rparr>"

definition con_acquire :: "u32 \<Rightarrow> console \<Rightarrow> console result" where
  "con_acquire me con = (case lock_reentrant_acquire me (console_lock con) of
     None \<Rightarrow> Inl Spins | Some l \<Rightarrow> Inr (con\<lparr>console_lock := l\<rparr>))"

text \<open>A call with the newline character, which is also the recursive call at the end of a line.\<close>

definition console_newline :: "u32 \<Rightarrow> psf_font \<Rightarrow> console \<Rightarrow> console result" where
  "console_newline me font con =
     rbind (con_acquire me con) (\<lambda>con.
     let con = con\<lparr>cursor_x := 0\<rparr> in
     if psf_height font = 0 then Inl DivideError
     else rbind (if cursor_y con < CONSOLE_H font con - 1 then Inr (con\<lparr>cursor_y := cursor_y con + 1\<rparr>)
                 else rbind (fb_scroll (psf_height font) (con_v con)) (\<lambda>v. Inr (con\<lparr>con_v := v\<rparr>))) (\<lambda>con.
     Inr (con_release con)))"

definition console_put_char :: "u32 \<Rightarrow> psf_font \<Rightarrow> u8 \<Rightarrow> color \<Rightarrow> console \<Rightarrow> console result" where
  "console_put_char me font c color con =
     (if c = 0x0A then console_newline me font con
      else rbind (con_acquire me con) (\<lambda>con.
           rbind (psf_put_char font c (cursor_x con) (cursor_y con) color (con_v con)) (\<lambda>v.
           let con = con\<lparr>con_v := v\<rparr> in
           if psf_width font = 0 then Inl DivideError
           else rbind (if cursor_x con < CONSOLE_W font con - 1 then Inr (con\<lparr>cursor_x := cursor_x con + 1\<rparr>)
                       else console_newline me font con) (\<lambda>con.
           Inr (con_release con)))))"

definition kprint_fancy :: "u32 \<Rightarrow> psf_font \<Rightarrow> u8 list \<Rightarrow> color \<Rightarrow> console \<Rightarrow> console result" where
  "kprint_fancy me font str color con = rfold (\<lambda>c. console_put_char me font c color) str con"

section \<open>Numbers\<close>

primrec nth_digit :: "u32 \<Rightarrow> nat \<Rightarrow> u32 \<Rightarrow> u32" where
  "nth_digit x 0 base = x mod base"
| "nth_digit x (Suc digit) base = nth_digit (x div base) digit base"

definition digit_char :: "u32 \<Rightarrow> u8" where
  "digit_char digit = (if digit < 10 then 0x30 + ucast digit else 0x41 + ucast digit - 10)"

text \<open>The loop over the digits; the flag tells whether a digit other than 0 has been seen.\<close>

definition kprint_int_fancy :: "u32 \<Rightarrow> psf_font \<Rightarrow> u32 \<Rightarrow> nat \<Rightarrow> color \<Rightarrow> console \<Rightarrow> console result" where
  "kprint_int_fancy me font x base color con =
     (if x = 0 then console_put_char me font 0x30 color con
      else rbind (rfold (\<lambda>i (found_nonzero, con).
             let digit = nth_digit x (base - 1 - i) (of_nat base); found_nonzero = (found_nonzero \<or> digit \<noteq> 0) in
             if found_nonzero
             then rbind (console_put_char me font (digit_char digit) color con) (\<lambda>con. Inr (found_nonzero, con))
             else Inr (found_nonzero, con)) [0..<base] (False, con)) (\<lambda>(_, con). Inr con))"

text \<open>\<^verbatim>\<open>inrange\<close> looks for an overflow of the signed product, which wraps on the target.\<close>

fun inrange_loop :: "u32 \<Rightarrow> u32 \<Rightarrow> nat \<Rightarrow> bool" where
  "inrange_loop base res 0 = True"
| "inrange_loop base res (Suc n) = (if sint (res * base) < sint res then False else inrange_loop base (res * base) n)"

definition inrange :: "nat \<Rightarrow> nat \<Rightarrow> bool" where
  "inrange base exp = inrange_loop (of_nat base) 1 exp"

definition kprint_int_full_fancy :: "u32 \<Rightarrow> psf_font \<Rightarrow> u32 \<Rightarrow> nat \<Rightarrow> color \<Rightarrow> console \<Rightarrow> console result" where
  "kprint_int_full_fancy me font x base color con =
     rfold (\<lambda>i con.
       if \<not> inrange base (base - 1 - i) then Inr con
       else console_put_char me font (digit_char (nth_digit x (base - 1 - i) (of_nat base))) color con) [0..<base] con"

section \<open>Formatted output\<close>

datatype fmt_specifier = FMT_SPC_NONE | FMT_SPC_STR | FMT_SPC_INT | FMT_SPC_HEX

definition consume_specifier :: "u8 \<Rightarrow> fmt_specifier" where
  "consume_specifier c = (if c = 0x73 then FMT_SPC_STR else if c = 0x69 then FMT_SPC_INT
     else if c = 0x78 then FMT_SPC_HEX else FMT_SPC_NONE)"

text \<open>The variable arguments. Taking one that is not there or has another type is undefined.\<close>

datatype fmt_arg = FStr "u8 list" | FInt u32

text \<open>
  The format is the list of its characters. A percent sign at the end makes the code print the
  terminating NUL and go on behind it.
\<close>

fun kvprintf_fancy :: "u32 \<Rightarrow> psf_font \<Rightarrow> u8 list \<Rightarrow> color \<Rightarrow> fmt_arg list \<Rightarrow> console \<Rightarrow> console result" where
  "kvprintf_fancy me font [] color args con = Inr con"
| "kvprintf_fancy me font [f] color args con =
     (if f = 0x25
      then rbind (console_put_char me font 0x25 color con) (\<lambda>con.
           rbind (console_put_char me font 0 color con) (\<lambda>_. Inl OutOfBounds))
      else console_put_char me font f color con)"
| "kvprintf_fancy me font (f # g # fmt) color args con =
     (if f = 0x25
      then case consume_specifier g of
             FMT_SPC_NONE \<Rightarrow>
               rbind (console_put_char me font 0x25 color con) (\<lambda>con.
               rbind (console_put_char me font g color con) (\<lambda>con.
               kvprintf_fancy me font fmt color args con))
           | FMT_SPC_STR \<Rightarrow>
               (case args of
                  FStr s # args \<Rightarrow> rbind (kprint_fancy me font s color con) (\<lambda>con. kvprintf_fancy me font fmt color args con)
                | _ \<Rightarrow> Inl OutOfBounds)
           | FMT_SPC_INT \<Rightarrow>
               (case args of
                  FInt x # args \<Rightarrow> rbind (kprint_int_fancy me font x 10 color con) (\<lambda>con.
                    kvprintf_fancy me font fmt color args con)
                | _ \<Rightarrow> Inl OutOfBounds)
           | FMT_SPC_HEX \<Rightarrow>
               (case args of
                  FInt x # args \<Rightarrow> rbind (kprint_fancy me font [0x30, 0x78] color con) (\<lambda>con.
                    rbind (kprint_int_fancy me font x 16 color con) (\<lambda>con. kvprintf_fancy me font fmt color args con))
                | _ \<Rightarrow> Inl OutOfBounds)
      else rbind (console_put_char me font f color con) (\<lambda>con. kvprintf_fancy me font (g # fmt) color args con))"

definition kprintf :: "u32 \<Rightarrow> psf_font \<Rightarrow> u8 list \<Rightarrow> fmt_arg list \<Rightarrow> console \<Rightarrow> console result" where
  "kprintf me font fmt args con = kvprintf_fancy me font fmt 0xFFFFFF args con"

definition kprintf_fancy :: "u32 \<Rightarrow> psf_font \<Rightarrow> u8 list \<Rightarrow> color \<Rightarrow> fmt_arg list \<Rightarrow> console \<Rightarrow> console result" where
  "kprintf_fancy me font fmt color args con = kvprintf_fancy me font fmt color args con"

section \<open>Log messages\<close>

datatype log_level = LOG_DEBUG | LOG_INFO | LOG_WARN | LOG_ERROR

datatype log_class = LOG_ACPI | LOG_ALLOC | LOG_APIC | LOG_ATA | LOG_EXCEPTION | LOG_EXT2 | LOG_KERNEL | LOG_GPT |
  LOG_MEM | LOG_PAGING | LOG_PCI | LOG_PIC | LOG_PS2 | LOG_HPET | LOG_SYSCALL | LOG_TERM

definition bytes_of :: "string \<Rightarrow> u8 list" where
  "bytes_of s = map of_char s"

fun level_tag :: "log_level \<Rightarrow> u8 list \<times> color" where
  "level_tag LOG_DEBUG = (bytes_of ''[DBG] '', 0xFFFFFF)"
| "level_tag LOG_INFO = (bytes_of ''[INF] '', 0x33CCFF)"
| "level_tag LOG_WARN = (bytes_of ''[WRN] '', 0xFFFF1A)"
| "level_tag LOG_ERROR = (bytes_of ''[ERR] '', 0xFF3300)"

fun class_tag :: "log_class \<Rightarrow> u8 list" where
  "class_tag LOG_ACPI = bytes_of ''acpi: ''"
| "class_tag LOG_ALLOC = bytes_of ''alloc: ''"
| "class_tag LOG_APIC = bytes_of ''apic: ''"
| "class_tag LOG_ATA = bytes_of ''ata: ''"
| "class_tag LOG_EXCEPTION = bytes_of ''exception: ''"
| "class_tag LOG_EXT2 = bytes_of ''ext2: ''"
| "class_tag LOG_KERNEL = bytes_of ''kernel: ''"
| "class_tag LOG_GPT = bytes_of ''gpt: ''"
| "class_tag LOG_MEM = bytes_of ''mem: ''"
| "class_tag LOG_PAGING = bytes_of ''paging: ''"
| "class_tag LOG_PCI = bytes_of ''pci: ''"
| "class_tag LOG_PIC = bytes_of ''pic: ''"
| "class_tag LOG_PS2 = bytes_of ''ps/2: ''"
| "class_tag LOG_HPET = bytes_of ''hpet: ''"
| "class_tag LOG_SYSCALL = bytes_of ''syscall: ''"
| "class_tag LOG_TERM = bytes_of ''term: ''"

text \<open>No class has a level of its own, so debug messages are dropped and all others printed.\<close>

definition vlog :: "bool \<Rightarrow> u32 \<Rightarrow> psf_font \<Rightarrow> log_level \<Rightarrow> log_class \<Rightarrow> u8 list \<Rightarrow> fmt_arg list \<Rightarrow> console \<Rightarrow> console result" where
  "vlog logging_enabled me font level lclass fmt args con =
     (if \<not> logging_enabled then Inr con
      else if level = LOG_DEBUG then Inr con
      else rbind (kprintf_fancy me font (fst (level_tag level)) (snd (level_tag level)) [] con) (\<lambda>con.
           rbind (kprintf me font (class_tag lclass) [] con) (\<lambda>con.
           kvprintf_fancy me font fmt 0xFFFFFF args con)))"

section \<open>Keyboard and terminal\<close>

text \<open>\<^verbatim>\<open>handle_keypress_inner\<close>, without the end-of-interrupt command: \<open>scan_code\<close> is what the port delivers.\<close>

definition handle_keypress_inner ::
  "u32 \<Rightarrow> psf_font \<Rightarrow> u8 \<Rightarrow> int \<times> console \<times> stdin \<Rightarrow> (int \<times> console \<times> stdin) result" where
  "handle_keypress_inner me font scan_code st =
     (case st of (shift_held, con, inp) \<Rightarrow>
        case keycode_to_char scan_code shift_held of (character, shift_held) \<Rightarrow>
          if character \<noteq> 0
          then rbind (console_put_char me font character 0xFFFFFF con) (\<lambda>con.
               rbind (term_stdin_putc character inp) (\<lambda>inp. Inr (shift_held, con, inp)))
          else Inr (shift_held, con, inp))"

definition term_write :: "u32 \<Rightarrow> psf_font \<Rightarrow> u8 list \<Rightarrow> console \<Rightarrow> console result" where
  "term_write me font data con = rfold (\<lambda>c. console_put_char me font c 0xFFFFFF) data con"

section \<open>Numbers are printed in positional notation\<close>

text \<open>The digits of a number, the most significant first and not 0 unless it is the only one.\<close>

function digits :: "nat \<Rightarrow> nat \<Rightarrow> nat list" where
  "digits b n = (if n < b \<or> b \<le> 1 then [n] else digits b (n div b) @ [n mod b])"
  by pat_completeness auto
termination by (relation "measure snd") auto

declare digits.simps [simp del]

lemma nth_digit_eq: "0 < b \<Longrightarrow> unat (nth_digit x k b) = unat x div unat b ^ k mod unat b"
  by (induction k arbitrary: x) (simp_all add: unat_mod unat_div div_mult2_eq)

lemma dropWhile_append_if:
  "dropWhile P (xs @ ys) = (if dropWhile P xs = [] then dropWhile P ys else dropWhile P xs @ ys)"
  by (induction xs) auto

lemma digits_nonempty [simp]: "digits b n \<noteq> []"
  by (simp add: digits.simps [of b n])

lemma padded_digits:
  assumes "1 < b" and "n < b ^ k"
  shows "dropWhile (\<lambda>d. d = 0) (map (\<lambda>i. n div b ^ (k - 1 - i) mod b) [0..<k]) = (if n = 0 then [] else digits b n)"
  using assms(2)
proof (induction k arbitrary: n)
  case (Suc k)
  let ?ds = "map (\<lambda>i. (n div b) div b ^ (k - 1 - i) mod b) [0..<k]"
  have ds: "map (\<lambda>i. n div b ^ (Suc k - 1 - i) mod b) [0..<Suc k] = ?ds @ [n mod b]"
  proof -
    have "n div b ^ (k - i) = n div b div b ^ (k - 1 - i)" if "i < k" for i
      using that by (metis Suc_diff_Suc diff_Suc_1 diff_commute div_mult2_eq power_Suc)
    then show ?thesis by auto
  qed
  have "n div b < b ^ k" using Suc.prems by (simp add: less_mult_imp_div_less mult.commute)
  from Suc.IH [OF this] have IH: "dropWhile (\<lambda>d. d = 0) ?ds = (if n < b then [] else digits b (n div b))"
    using assms(1) by (auto simp: div_eq_0_iff)
  show ?case
    unfolding ds dropWhile_append_if IH using assms(1) by (auto simp: digits.simps [of b n])
qed simp

text \<open>Printing the digits that follow the leading zeros.\<close>

lemma print_digits:
  "rbind (rfold (\<lambda>i (found, con). let digit = g i; found = (found \<or> digit \<noteq> 0) in
      if found then rbind (put (h digit) con) (\<lambda>con. Inr (found, con)) else Inr (found, con)) is (fd, con))
    (\<lambda>(_, con). Inr con) =
   rfold put (map h ((if fd then id else dropWhile (\<lambda>d. d = 0)) (map g is))) con"
proof (induction "is" arbitrary: fd con)
  case (Cons i "is")
  show ?case
  proof (cases "fd \<or> g i \<noteq> 0")
    case True
    then show ?thesis
      using Cons.IH [of True] by (cases "put (h (g i)) con") (auto simp: Let_def)
  next
    case False
    then show ?thesis using Cons.IH [of False con] by (simp add: Let_def)
  qed
qed simp

definition numeral_text :: "nat \<Rightarrow> nat \<Rightarrow> u8 list" where
  "numeral_text b n = map (\<lambda>d. digit_char (of_nat d)) (digits b n)"

lemma kprint_int_numeral:
  assumes "1 < base" and "base < 2 ^ 32" and "2 ^ 32 \<le> base ^ base"
  shows "kprint_int_fancy me font x base color con = kprint_fancy me font (numeral_text base (unat x)) color con"
proof (cases "x = 0")
  case True
  with assms(1) show ?thesis
    by (simp add: kprint_int_fancy_def kprint_fancy_def numeral_text_def digits.simps [of base 0] digit_char_def rbind_def
        split: sum.splits)
next
  case False
  let ?g = "\<lambda>i. nth_digit x (base - 1 - i) (of_nat base)"
  have b: "unat (of_nat base :: u32) = base" using assms(2) by (intro unat_of_nat_u32) simp
  then have "0 < (of_nat base :: u32)" using assms(1) by (simp add: word_less_nat_alt)
  from nth_digit_eq [OF this, of x]
  have g: "unat (nth_digit x (base - Suc i) (of_nat base)) = unat x div base ^ (base - Suc i) mod base" for i
    by (simp add: b)
  have z: "d = 0 \<longleftrightarrow> unat d = 0" for d :: u32 by (simp add: word_unat_eq_iff)
  have "map unat (dropWhile (\<lambda>d. d = 0) (map ?g [0..<base])) =
      dropWhile (\<lambda>d. d = 0) (map (\<lambda>i. unat x div base ^ (base - 1 - i) mod base) [0..<base])"
    using dropWhile_map [of "\<lambda>d. d = 0" unat "map ?g [0..<base]"] by (simp add: comp_def g z [symmetric])
  also have "\<dots> = digits base (unat x)"
  proof -
    have "unat x < base ^ base" using unat_u32_lt [of x] assms(3) by (simp del: unat_u32_lt)
    with padded_digits [OF assms(1) this] False show ?thesis by (simp add: word_unat_eq_iff)
  qed
  finally have d: "map unat (dropWhile (\<lambda>d. d = 0) (map ?g [0..<base])) = digits base (unat x)" .
  have "numeral_text base (unat x) = map digit_char (dropWhile (\<lambda>d. d = 0) (map ?g [0..<base]))"
    by (simp add: numeral_text_def d [symmetric] comp_def)
  then show ?thesis
    using False print_digits [of ?g "\<lambda>c. console_put_char me font c color" digit_char "[0..<base]" False con]
    by (simp add: kprint_int_fancy_def kprint_fancy_def)
qed

text \<open>The digits of the text determine the number.\<close>

lemma digits_value: "1 < b \<Longrightarrow> foldl (\<lambda>v d. v * b + d) 0 (digits b n) = n"
  by (induction b n rule: digits.induct) (subst digits.simps, auto)

section \<open>Formatted output is the text of the format\<close>

text \<open>The text a format stands for; \<open>None\<close> when an argument is missing or the format ends in a percent sign.\<close>

fun render :: "u8 list \<Rightarrow> fmt_arg list \<Rightarrow> u8 list option" where
  "render [] args = Some []"
| "render [f] args = (if f = 0x25 then None else Some [f])"
| "render (f # g # fmt) args =
     (if f = 0x25
      then case (consume_specifier g, args) of
             (FMT_SPC_NONE, _) \<Rightarrow> map_option ((@) [0x25, g]) (render fmt args)
           | (FMT_SPC_STR, FStr s # args) \<Rightarrow> map_option ((@) s) (render fmt args)
           | (FMT_SPC_INT, FInt x # args) \<Rightarrow> map_option ((@) (numeral_text 10 (unat x))) (render fmt args)
           | (FMT_SPC_HEX, FInt x # args) \<Rightarrow>
               map_option ((@) ([0x30, 0x78] @ numeral_text 16 (unat x))) (render fmt args)
           | _ \<Rightarrow> None
      else map_option ((#) f) (render (g # fmt) args))"

lemma kprint_append:
  "kprint_fancy me font (s @ t) color con = rbind (kprint_fancy me font s color con) (\<lambda>con. kprint_fancy me font t color con)"
  by (simp add: kprint_fancy_def rfold_append)

lemma kprint_Cons:
  "kprint_fancy me font (c # t) color con = rbind (console_put_char me font c color con) (\<lambda>con. kprint_fancy me font t color con)"
  by (simp add: kprint_fancy_def)

lemma kprint_Nil [simp]: "kprint_fancy me font [] color con = Inr con"
  by (simp add: kprint_fancy_def)

lemma kprint_int_10_16:
  "kprint_int_fancy me font x 10 color con = kprint_fancy me font (numeral_text 10 (unat x)) color con"
  "kprint_int_fancy me font x 16 color con = kprint_fancy me font (numeral_text 16 (unat x)) color con"
  by (rule kprint_int_numeral; simp)+

lemma digits_hd: "1 < b \<Longrightarrow> n \<noteq> 0 \<Longrightarrow> hd (digits b n) \<noteq> 0"
  by (induction b n rule: digits.induct) (subst digits.simps, auto simp: div_eq_0_iff)



section \<open>The cursor stays on the screen\<close>

definition lock_free :: "lock_reentrant \<Rightarrow> bool" where
  "lock_free l \<longleftrightarrow> lr_owner l = 0 \<and> lr_cnt l = 0"

definition lock_mine :: "u32 \<Rightarrow> lock_reentrant \<Rightarrow> bool" where
  "lock_mine me l \<longleftrightarrow> lr_owner l = me \<and> lr_cnt l = 1"

lemma acquire_release:
  assumes "lock_free l \<or> lock_mine me l"
  shows "\<exists>l'. lock_reentrant_acquire me l = Some l' \<and> lock_reentrant_release l' = l \<and> (lock_free l \<longrightarrow> lock_mine me l')"
  using assms
  by (auto simp: lock_free_def lock_mine_def lock_reentrant_acquire_def lock_reentrant_release_def compare_exchange_def
      Let_def)

text \<open>A font that covers all characters, a screen of at least one cell, and the cursor in it.\<close>

definition screen_ok :: "psf_font \<Rightarrow> console \<Rightarrow> bool" where
  "screen_ok font con \<longleftrightarrow> fb_ok (v_fb (con_v con)) \<and> 0 < psf_width font \<and> 0 < psf_height font \<and>
     cursor_x con < CONSOLE_W font con \<and> cursor_y con < CONSOLE_H font con \<and> (\<forall>c. glyph_loaded font c)"

definition console_ok :: "psf_font \<Rightarrow> console \<Rightarrow> bool" where
  "console_ok font con \<longleftrightarrow> screen_ok font con \<and> lock_free (console_lock con)"

text \<open>Where the cursor goes after a line end, and after a character.\<close>

definition below :: "psf_font \<Rightarrow> console \<Rightarrow> u32 \<times> u32" where
  "below font con = (0, if cursor_y con < CONSOLE_H font con - 1 then cursor_y con + 1 else cursor_y con)"

definition advance :: "psf_font \<Rightarrow> u8 \<Rightarrow> console \<Rightarrow> u32 \<times> u32" where
  "advance font c con = (if c = 0x0A \<or> \<not> cursor_x con < CONSOLE_W font con - 1 then below font con
     else (cursor_x con + 1, cursor_y con))"

lemma grid_bound: "x < w \<Longrightarrow> w = a div b \<Longrightarrow> (unat x + 1) * unat b \<le> unat a" for x w a b :: u32
proof -
  assume "x < w" "w = a div b"
  then have "unat x + 1 \<le> unat a div unat b" by (simp add: word_less_nat_alt unat_div)
  then have "(unat x + 1) * unat b \<le> unat a div unat b * unat b" by (rule mult_le_mono1)
  also have "\<dots> \<le> unat a" by (rule div_times_less_eq_dividend)
  finally show ?thesis .
qed

lemma less_minus_one: "(x :: u32) < n - 1 \<Longrightarrow> y < n \<Longrightarrow> x + 1 < n"
  by unat_arith

lemma newline_ok:
  assumes "screen_ok font con" and "lock_free (console_lock con) \<or> lock_mine me (console_lock con)"
  shows "\<exists>con'. console_newline me font con = Inr con' \<and> screen_ok font con' \<and> console_lock con' = console_lock con \<and>
    v_fb (con_v con') = v_fb (con_v con) \<and> (cursor_x con', cursor_y con') = below font con"
proof -
  let ?fb = "v_fb (con_v con)"
  from acquire_release [OF assms(2)] obtain l' where
    l': "lock_reentrant_acquire me (console_lock con) = Some l'" "lock_reentrant_release l' = console_lock con" by auto
  have ok: "fb_ok ?fb" "0 < psf_height font" "0 < psf_width font" "cursor_y con < CONSOLE_H font con" "\<forall>c. glyph_loaded font c"
    "0 < CONSOLE_W font con"
    using assms(1) le_less_trans [OF word_zero_le] by (auto simp: screen_ok_def)
  have h0: "psf_height font \<noteq> 0" using ok(2) by auto
  show ?thesis
  proof (cases "cursor_y con < CONSOLE_H font con - 1")
    case True
    have "cursor_y con + 1 < CONSOLE_H font con" using less_minus_one [OF True ok(4)] .
    with True ok h0 l' show ?thesis
      by (auto simp: console_newline_def con_acquire_def con_release_def CONSOLE_H_def CONSOLE_W_def screen_ok_def below_def)
  next
    case False
    have "psf_height font \<le> fb_height ?fb"
      using grid_bound [OF ok(4) CONSOLE_H_def] by (simp add: word_le_nat_alt)
    from scroll_lines [OF ok(1,2) this refl] obtain v' where v': "fb_scroll (psf_height font) (con_v con) = Inr v'"
      "v_fb v' = ?fb" by blast
    with False ok h0 l' show ?thesis
      by (auto simp: console_newline_def con_acquire_def con_release_def CONSOLE_H_def CONSOLE_W_def screen_ok_def below_def)
  qed
qed

lemma put_char_ok:
  assumes "console_ok font con"
  shows "\<exists>con'. console_put_char me font c color con = Inr con' \<and> console_ok font con' \<and>
    v_fb (con_v con') = v_fb (con_v con) \<and> (cursor_x con', cursor_y con') = advance font c con"
proof (cases "c = 0x0A")
  case True
  with newline_ok [of font con me] assms show ?thesis by (auto simp: console_ok_def console_put_char_def advance_def)
next
  case False
  let ?fb = "v_fb (con_v con)"
  have s: "screen_ok font con" and free: "lock_free (console_lock con)" using assms by (auto simp: console_ok_def)
  from acquire_release [of "console_lock con" me] free obtain l' where
    l': "lock_reentrant_acquire me (console_lock con) = Some l'" "lock_reentrant_release l' = console_lock con"
    "lock_mine me l'" by auto
  have ok: "fb_ok ?fb" "cursor_x con < CONSOLE_W font con" "cursor_y con < CONSOLE_H font con" "glyph_loaded font c"
    "0 < psf_width font" "0 < psf_height font" using s by (auto simp: screen_ok_def)
  have w0: "psf_width font \<noteq> 0" using ok(5) by auto
  have "cell_on_screen font ?fb (cursor_x con) (cursor_y con)"
    using grid_bound [OF ok(2) CONSOLE_W_def] grid_bound [OF ok(3) CONSOLE_H_def] by (simp add: cell_on_screen_def)
  from psf_draws [OF ok(1) this ok(4-6), of color] obtain v' where
    v': "psf_put_char font c (cursor_x con) (cursor_y con) color (con_v con) = Inr v'" "v_fb v' = ?fb" by blast
  let ?con = "con\<lparr>console_lock := l', con_v := v'\<rparr>"
  have s1: "screen_ok font ?con" using s v'(2) by (simp add: screen_ok_def CONSOLE_H_def CONSOLE_W_def)
  show ?thesis
  proof (cases "cursor_x con < CONSOLE_W font con - 1")
    case True
    have "cursor_x con + 1 < CONSOLE_W font con" using less_minus_one [OF True ok(2)] .
    with True False l' v' s w0 free show ?thesis
      by (auto simp: console_put_char_def con_acquire_def con_release_def console_ok_def screen_ok_def CONSOLE_H_def
          CONSOLE_W_def advance_def)
  next
    case ends: False
    from newline_ok [OF s1, of me] l'(3) obtain con' where c: "console_newline me font ?con = Inr con'"
      "screen_ok font con'" "console_lock con' = l'" "v_fb (con_v con') = ?fb"
      "(cursor_x con', cursor_y con') = below font ?con" using v'(2) by auto
    have "below font ?con = below font con" using v'(2) by (simp add: below_def CONSOLE_H_def)
    moreover have "console_put_char me font c color con = Inr (con_release con')"
      using ends False l' v' w0 c(1) by (simp add: console_put_char_def con_acquire_def CONSOLE_W_def)
    ultimately show ?thesis
      using ends c l'(2) free
      by (auto simp: console_ok_def con_release_def screen_ok_def advance_def CONSOLE_H_def CONSOLE_W_def)
  qed
qed

text \<open>
  C17: printing any text on a console whose cursor is on the screen returns: no character is drawn outside
  the framebuffer, the cursor stays on the screen and the lock is free again. Each character moves the
  cursor to the right, or, at a line end, to the start of the next line, where on the last line
  the screen scrolls instead.
\<close>
theorem console_text_safe:
  assumes "console_ok font con"
  shows "(\<exists>con'. kprint_fancy me font str color con = Inr con' \<and> console_ok font con' \<and>
      v_fb (con_v con') = v_fb (con_v con)) \<and>
    (\<exists>con'. console_put_char me font c color con = Inr con' \<and> (cursor_x con', cursor_y con') = advance font c con)"
proof
  show "\<exists>con'. kprint_fancy me font str color con = Inr con' \<and> console_ok font con' \<and> v_fb (con_v con') = v_fb (con_v con)"
    unfolding kprint_fancy_def
    by (rule rfold_inv) (use assms put_char_ok in \<open>fastforce+\<close>)
  show "\<exists>con'. console_put_char me font c color con = Inr con' \<and> (cursor_x con', cursor_y con') = advance font c con"
    using put_char_ok [OF assms] by blast
qed

definition blank_font :: psf_font where
  "blank_font = one_font\<lparr>psf_bytes := replicate 288 0\<rparr>"

definition one_console :: console where
  "one_console = \<lparr>con_v = one_screen, cursor_x = 0, cursor_y = 0, console_lock = \<lparr>lr_cnt = 0, lr_owner = 0\<rparr>\<rparr>"

lemma blank_glyph: "glyph_loaded blank_font c"
proof -
  have "\<exists>b. glyph_bit blank_font c x y = Inr b" if "x < 8" "y < 1" for x y
  proof -
    have "x div 8 = 0" "y = 0" using that by (simp_all add: word_unat_eq_iff unat_div word_less_nat_alt)
    moreover have "unat (ucast c :: u32) = unat c"
      using unat_u8_lt [of c] by (simp add: unsigned_ucast_eq take_bit_nat_eq_self del: unat_u8_lt)
    then have "unat (32 + ucast c :: u32) < 288"
      using unat_u8_lt [of c] by (simp add: unat_add_u32 del: unat_u8_lt)
    ultimately show ?thesis by (auto simp: glyph_bit_def blank_font_def one_font_def Let_def)
  qed
  then show ?thesis by (simp add: glyph_loaded_def) (simp add: blank_font_def one_font_def)
qed

theorem console_text_safe_witness:
  "\<exists>con'. kprint_fancy 1 blank_font [0x68, 0x0A, 0x69] 7 one_console = Inr con' \<and> console_ok blank_font con'"
proof -
  have "console_ok blank_font one_console"
    using blank_glyph
    by (simp add: console_ok_def screen_ok_def lock_free_def CONSOLE_W_def CONSOLE_H_def one_console_def one_screen_def
        fb_ok_def fb_size_def) (simp add: blank_font_def one_font_def)
  from console_text_safe [OF this] show ?thesis by blast
qed

end
