(* ===== verification/Terminal_Read.thy ===== *)
theory Terminal_Read
  imports Console Vfs
begin

text \<open>
  The whole of \<^verbatim>\<open>term_transfer\<close> of \<^verbatim>\<open>src/kernel/term.c\<close>: a read that does not find all its bytes waits for the keyboard
  to finish a line. What is typed meanwhile is an argument, and the keyboard's writes go through \<^verbatim>\<open>term_stdin_putc\<close> and
  the lock it shares with the reader.
\<close>

section \<open>Reading with waits\<close>

text \<open>
  A wait: the characters typed between \<^verbatim>\<open>lock_multi_release_read\<close> and the announcement of the reader in
  \<^verbatim>\<open>lock_multi_wait\<close>, and those typed until the reader is signalled. A lock that cannot be had, or a signal that does not
  come, leaves the reader or the keyboard handler spinning.
\<close>

type_synonym key_wait = "u8 list \<times> u8 list"

definition got_lock :: "lock_multi option \<Rightarrow> stdin \<Rightarrow> stdin result" where
  "got_lock r inp = (case r of None \<Rightarrow> Inl Spins | Some l \<Rightarrow> Inr (inp\<lparr>in_lock := l\<rparr>))"

definition stdin_wait :: "key_wait \<Rightarrow> stdin \<Rightarrow> stdin result" where
  "stdin_wait w inp =
     rbind (type_text (fst w) inp) (\<lambda>inp.
     rbind (got_lock (lock_multi_wait_enter (in_lock inp)) inp) (\<lambda>inp.
     rbind (type_text (snd w) inp) (\<lambda>inp.
     got_lock (lock_multi_wait_leave (in_lock inp)) inp)))"

text \<open>
  The outer loop, with a bound given by the waits that end: the bytes copied and the buffer. Without another wait a reader
  that still wants bytes stays in \<^verbatim>\<open>lock_multi_wait\<close>.
\<close>

fun term_read_loop :: "key_wait list \<Rightarrow> stdin \<Rightarrow> reader \<Rightarrow> (u8 list \<times> stdin) result" where
  "term_read_loop ws inp (line_idx, char_offset, sz) =
     (if sz = 0 then Inr ([], inp)
      else rbind (term_read_round inp (line_idx, char_offset, sz)) (\<lambda>(bs, line_idx, char_offset, sz).
        let inp = inp\<lparr>in_lock := lock_multi_release_read (in_lock inp)\<rparr> in
        if sz = 0 then Inr (bs, inp)
        else case ws of
            [] \<Rightarrow> Inl Spins
          | w # ws \<Rightarrow>
              rbind (stdin_wait w inp) (\<lambda>inp.
              rbind (term_read_loop ws inp (line_idx, char_offset, sz)) (\<lambda>(bs', inp).
              Inr (bs @ bs', inp)))))"

declare term_read_loop.simps [simp del]

definition term_read :: "key_wait list \<Rightarrow> nat \<Rightarrow> nat \<Rightarrow> stdin \<Rightarrow> (u8 list \<times> stdin) result" where
  "term_read ws offset sz inp =
     rbind (got_lock (lock_multi_acquire_read (in_lock inp)) inp) (\<lambda>inp.
     term_read_loop ws inp (term_read_start inp offset sz))"

text \<open>The result: the size, the bytes read, console and buffer. \<open>data\<close> holds what is written, from its start.\<close>

definition term_transfer ::
  "u32 \<Rightarrow> psf_font \<Rightarrow> key_wait list \<Rightarrow> nat \<Rightarrow> nat \<Rightarrow> u8 list \<Rightarrow> data_dir \<Rightarrow> console \<Rightarrow> stdin \<Rightarrow>
     (nat \<times> u8 list \<times> console \<times> stdin) result" where
  "term_transfer me font ws offset sz data dir con inp =
     (if dir = DIR_WRITE
      then if length data < sz then Inl OutOfBounds
           else rbind (term_write me font (take sz data) con) (\<lambda>con. Inr (sz, [], con, inp))
      else rbind (term_read ws offset sz inp) (\<lambda>(bs, inp). Inr (sz, bs, con, inp)))"

section \<open>A line typed while the reader waits\<close>

text \<open>The characters \<open>t\<close> finish a line of which \<open>l\<close> characters are there, with the last of them.\<close>

fun ends_line :: "nat \<Rightarrow> u8 list \<Rightarrow> bool" where
  "ends_line l [] = False"
| "ends_line l [c] = (l < TERM_BFR_WIDTH \<and> (c = 0x0A \<or> Suc l = TERM_BFR_WIDTH))"
| "ends_line l (c # t) = (c \<noteq> 0x0A \<and> Suc l < TERM_BFR_WIDTH \<and> ends_line (Suc l) t)"

fun typed_lines :: "nat \<Rightarrow> u8 list list \<Rightarrow> bool" where
  "typed_lines l [] = True"
| "typed_lines l (t # ts) = (ends_line l t \<and> typed_lines 0 ts)"

definition active_len :: "stdin \<Rightarrow> nat" where
  "active_len inp = sl_len (in_lines inp ! active_line inp)"

text \<open>The index of the line being typed once it is finished.\<close>

definition finished_idx :: "stdin \<Rightarrow> nat" where
  "finished_idx inp = (if active_line inp + 1 = TERM_BFR_HEIGHT then active_line inp - 1 else active_line inp)"

lemma stdin_holds_lock [simp]: "stdin_holds (inp\<lparr>in_lock := l\<rparr>) h = stdin_holds inp h"
  by (simp add: stdin_holds_def)

lemma put_text_line:
  assumes "stdin_ok inp"
  shows "in_lines (put_text c inp) ! active_line inp = (in_lines inp ! active_line inp)\<lparr>sl_s := (sl_s (in_lines inp ! active_line inp))
      [active_len inp := c], sl_len := Suc (active_len inp)\<rparr>"
    and "line_text (in_lines (put_text c inp) ! active_line inp) = line_text (in_lines inp ! active_line inp) @ [c]"
    and "active_len (put_text c inp) = Suc (active_len inp)"
proof -
  have a: "active_line inp < length (in_lines inp)" "active_len inp < length (sl_s (in_lines inp ! active_line inp))"
    using assms by (auto simp: stdin_ok_def active_len_def)
  show l: "in_lines (put_text c inp) ! active_line inp = (in_lines inp ! active_line inp)\<lparr>sl_s := (sl_s (in_lines inp ! active_line inp))
      [active_len inp := c], sl_len := Suc (active_len inp)\<rparr>" using a(1) by (simp add: put_text_def active_len_def)
  show "line_text (in_lines (put_text c inp) ! active_line inp) = line_text (in_lines inp ! active_line inp) @ [c]"
    using a(2) unfolding l active_len_def by (rule line_text_put)
  show "active_len (put_text c inp) = Suc (active_len inp)" using l by (simp add: active_len_def)
qed

lemma next_line_idx:
  assumes "stdin_full inp"
  shows "active_line (next_line inp) = Suc (finished_idx inp)"
    and "line_text (in_lines (next_line inp) ! finished_idx inp) = line_text (in_lines inp ! active_line inp)"
    and "active_len (next_line inp) = 0"
proof -
  have l: "length (in_lines inp) = 8" using assms by (simp add: stdin_full_def bfr_consts)
  then obtain x xs where ls: "in_lines inp = x # xs" "length xs = 7" by (cases "in_lines inp") auto
  then have "xs \<noteq> []" by auto
  with assms ls show "active_line (next_line inp) = Suc (finished_idx inp)"
    "line_text (in_lines (next_line inp) ! finished_idx inp) = line_text (in_lines inp ! active_line inp)"
    "active_len (next_line inp) = 0"
    by (auto simp: stdin_full_def next_line_def finished_idx_def active_len_def bfr_consts nth_append last_conv_nth)
qed

text \<open>The lock while the reader waits, and when it has been signalled.\<close>

abbreviation one_waits :: lock_multi where "one_waits \<equiv> \<lparr>lm_waiting_readers = 1, lm_stat = 0\<rparr>"
abbreviation one_reads :: lock_multi where "one_reads \<equiv> \<lparr>lm_waiting_readers = 1, lm_stat = LSTAT_READ\<rparr>"

lemma putc_waiting:
  assumes "stdin_holds inp h" and "in_lock inp = one_waits"
  shows "active_len inp + 1 < TERM_BFR_WIDTH \<Longrightarrow> c \<noteq> 0x0A \<Longrightarrow>
      term_stdin_putc c inp = Inr ((put_text c inp)\<lparr>in_lock := one_waits\<rparr>) \<and> stdin_holds (put_text c inp) (h @ [c])"
    and "c = 0x0A \<or> Suc (active_len inp) = TERM_BFR_WIDTH \<Longrightarrow>
      term_stdin_putc c inp = Inr ((next_line (put_text c inp))\<lparr>in_lock := one_reads\<rparr>) \<and> stdin_holds (next_line (put_text c inp)) (h @ [c])"
proof -
  have ok: "stdin_ok inp" using assms(1) by (simp add: stdin_holds_def)
  have l: "lock_multi_acquire_write (in_lock inp) = Some \<lparr>lm_waiting_readers = 1, lm_stat = LSTAT_WRITE\<rparr>"
    by (simp add: assms(2) lock_multi_acquire_write_def compare_exchange_def)
  note p = term_stdin_putc_eq [OF ok l, of c] and h = stdin_holds_put [OF assms(1) l, of c] and n = put_text_line(3) [OF ok, of c]
  show "term_stdin_putc c inp = Inr ((put_text c inp)\<lparr>in_lock := one_waits\<rparr>) \<and> stdin_holds (put_text c inp) (h @ [c])"
    if "active_len inp + 1 < TERM_BFR_WIDTH" "c \<noteq> 0x0A"
    using p h n that by (auto simp: active_len_def lock_multi_release_write_def)
  show "term_stdin_putc c inp = Inr ((next_line (put_text c inp))\<lparr>in_lock := one_reads\<rparr>) \<and> stdin_holds (next_line (put_text c inp)) (h @ [c])"
    if "c = 0x0A \<or> Suc (active_len inp) = TERM_BFR_WIDTH"
    using p h n that by (auto simp: active_len_def lock_multi_signal_def)
qed

lemma type_line_waiting:
  assumes "stdin_holds inp h" and "in_lock inp = one_waits" and "ends_line (active_len inp) t"
  shows "\<exists>inp'. type_text t inp = Inr inp' \<and> in_lock inp' = one_reads \<and> stdin_holds inp' (h @ t) \<and>
    active_line inp' = Suc (finished_idx inp) \<and> active_len inp' = 0 \<and>
    line_text (in_lines inp' ! finished_idx inp) = line_text (in_lines inp ! active_line inp) @ t"
  using assms
proof (induction t arbitrary: inp h)
  case (Cons c t)
  have ok: "stdin_ok inp" using Cons.prems(1) by (simp add: stdin_holds_def)
  note line = put_text_line [OF ok, of c] and put = putc_waiting [OF Cons.prems(1,2), of c]
  show ?case
  proof (cases t)
    case Nil
    have "finished_idx (put_text c inp) = finished_idx inp" by (simp add: finished_idx_def)
    with Nil Cons.prems(3) put(2) next_line_idx [OF stdin_full_put [OF ok], of c] line(2) show ?thesis
      by (auto simp: active_len_def)
  next
    case (Cons b u)
    let ?i = "(put_text c inp)\<lparr>in_lock := one_waits\<rparr>"
    from Cons Cons.prems(3) have e: "c \<noteq> 0x0A" "active_len inp + 1 < TERM_BFR_WIDTH" "ends_line (Suc (active_len inp)) t" by auto
    have n: "active_len ?i = Suc (active_len inp)" "finished_idx ?i = finished_idx inp"
      using line(3) by (simp_all add: active_len_def finished_idx_def)
    from Cons.IH [of ?i "h @ [c]"] put(1) e n line(2) show ?thesis by auto
  qed
qed simp

section \<open>Rounds of the reader\<close>

lemma text_from_active:
  "stdin_ok inp \<Longrightarrow> text_from inp (active_line inp) = line_text (in_lines inp ! active_line inp)"
  using text_from_step [of "active_line inp" inp] text_from_end [of inp "Suc (active_line inp)"] by (simp add: stdin_ok_def)

text \<open>A round that does not find all its bytes copies the finished lines and stops at the active one.\<close>

lemma copy_lines_part:
  assumes "stdin_ok inp" and "i \<le> active_line inp" and "co \<le> sl_len (in_lines inp ! i)" and "length (text_from inp i) < co + sz"
  shows "\<exists>bs co'. copy_lines inp i co sz = Inr (bs, active_line inp, co', sz - length bs) \<and> length bs < sz \<and> co' \<le> active_len inp \<and>
    drop co (text_from inp i) = bs @ drop co' (text_from inp (active_line inp))"
  using assms
proof (induction inp i co sz rule: copy_lines.induct)
  case (1 inp i co sz)
  let ?ln = "in_lines inp ! i" and ?a = "active_line inp"
  have a: "?a < length (in_lines inp)" "?a < TERM_BFR_HEIGHT" using "1.prems"(1) by (auto simp: stdin_ok_def)
  have s: "length (sl_s ?ln) = TERM_BFR_WIDTH" "sl_len ?ln \<le> TERM_BFR_WIDTH" using "1.prems"(1,2) a by (auto simp: stdin_ok_def)
  have n: "length (line_text ?ln) = sl_len ?ln" using "1.prems"(1,2) a by (intro line_text_length) auto
  note step = text_from_step [OF "1.prems"(2) a(1)]
  have sz: "0 < sz" "sl_len ?ln - co < sz" using "1.prems"(3,4) step n by auto
  show ?case
  proof (cases "i = ?a")
    case True
    then have "copy_lines inp i co sz = Inr ([], i, co, sz)" using "1.prems"(3) sz by (subst copy_lines.simps) (simp add: Let_def)
    with True sz "1.prems"(3) show ?thesis by (auto simp: active_len_def)
  next
    case False
    with "1.prems"(2) have i: "i < ?a" by simp
    let ?t = "sl_len ?ln - co"
    have m: "min sz ?t = ?t" using sz(2) by simp
    have "length (text_from inp (i + 1)) < 0 + (sz - ?t)" using "1.prems"(3,4) step n by simp
    then obtain bs co' where k: "copy_lines inp (i + 1) 0 (sz - ?t) = Inr (bs, ?a, co', sz - ?t - length bs)" "length bs < sz - ?t"
      "co' \<le> active_len inp" "text_from inp (i + 1) = bs @ drop co' (text_from inp ?a)"
      using "1.IH" [of ?ln ?t] sz(1) i "1.prems"(1,3) s m by auto
    have b: "take ?t (drop co (sl_s ?ln)) = drop co (line_text ?ln)" using s by (simp add: line_text_def drop_take)
    have "copy_lines inp i co sz = Inr (drop co (line_text ?ln) @ bs, ?a, co', sz - ?t - length bs)"
      using sz(1) i "1.prems"(3) s m k(1) by (subst copy_lines.simps) (simp add: Let_def b)
    with k(2-4) step n "1.prems"(3) show ?thesis by (intro exI [of _ "drop co (line_text ?ln) @ bs"] exI [of _ co']) simp
  qed
qed

text \<open>The reader's next byte is the one at \<open>pos\<close> of everything typed.\<close>

definition reads_at :: "stdin \<Rightarrow> u8 list \<Rightarrow> nat \<Rightarrow> nat \<Rightarrow> nat \<Rightarrow> bool" where
  "reads_at inp h pos i co \<longleftrightarrow> i \<le> active_line inp \<and> co \<le> sl_len (in_lines inp ! i) \<and> pos \<le> length h \<and>
     drop pos h = drop co (text_from inp i)"

lemma reads_atD:
  assumes "reads_at inp h pos i co" and "stdin_ok inp"
  shows "length h - pos = length (text_from inp i) - co" and "co \<le> length (text_from inp i)"
proof -
  have a: "active_line inp < length (in_lines inp)" "active_line inp < TERM_BFR_HEIGHT" using assms(2) by (auto simp: stdin_ok_def)
  with assms have "length (line_text (in_lines inp ! i)) = sl_len (in_lines inp ! i)" by (intro line_text_length) (auto simp: reads_at_def)
  then show "co \<le> length (text_from inp i)" using text_from_step [of i inp] assms(1) a(1) by (auto simp: reads_at_def)
  show "length h - pos = length (text_from inp i) - co" using assms(1) unfolding reads_at_def by (metis length_drop)
qed

text \<open>A wait in which one line is typed.\<close>

lemma stdin_wait_line:
  assumes "stdin_holds inp h" and "in_lock inp = \<lparr>lm_waiting_readers = 0, lm_stat = 0\<rparr>" and "ends_line (active_len inp) t"
    and "drop pos h = drop co (text_from inp (active_line inp))" and "pos \<le> length h" and "co \<le> active_len inp"
  shows "\<exists>inp'. stdin_wait ([], t) inp = Inr inp' \<and> in_lock inp' = one_reads \<and> stdin_holds inp' (h @ t) \<and> active_len inp' = 0 \<and>
    reads_at inp' (h @ t) pos (finished_idx inp) co"
proof -
  let ?i = "inp\<lparr>in_lock := one_waits\<rparr>"
  have e: "lock_multi_wait_enter (in_lock inp) = Some one_waits"
    by (simp add: assms(2) lock_multi_wait_enter_def lock_multi_announce_def LSTAT_defs)
  have "active_len ?i = active_len inp" "finished_idx ?i = finished_idx inp" by (simp_all add: active_len_def finished_idx_def)
  with type_line_waiting [of ?i h t] assms(1,3) obtain inp' where t: "type_text t ?i = Inr inp'" "in_lock inp' = one_reads"
    "stdin_holds inp' (h @ t)" "active_line inp' = Suc (finished_idx inp)" "active_len inp' = 0"
    "line_text (in_lines inp' ! finished_idx inp) = line_text (in_lines inp ! active_line inp) @ t" by auto
  have ok: "stdin_ok inp" "stdin_ok inp'" using assms(1) t(3) by (auto simp: stdin_holds_def)
  then have a: "active_line inp < TERM_BFR_HEIGHT" "active_line inp' < TERM_BFR_HEIGHT" "active_line inp' < length (in_lines inp')"
    by (auto simp: stdin_ok_def)
  have "text_from inp' (Suc (finished_idx inp)) = []"
    using text_from_active [OF ok(2)] t(4,5) by (simp add: line_text_def active_len_def)
  then have f: "text_from inp' (finished_idx inp) = text_from inp (active_line inp) @ t"
    using text_from_step [of "finished_idx inp" inp'] t(4,6) a(3) text_from_active [OF ok(1)] by simp
  have n: "length (line_text (in_lines inp ! active_line inp)) = active_len inp"
    using line_text_length [OF ok(1) a(1)] by (simp add: active_len_def)
  then have c: "co \<le> length (text_from inp (active_line inp))" using assms(6) text_from_active [OF ok(1)] by simp
  have "sl_len (in_lines inp' ! finished_idx inp) = active_len inp + length t"
    using line_text_length [OF ok(2), of "finished_idx inp"] t(4,6) a(2) n by simp
  then have "reads_at inp' (h @ t) pos (finished_idx inp) co"
    using assms(4-6) t(4) f c by (simp add: reads_at_def)
  then show ?thesis using t(1-3,5) e by (simp add: stdin_wait_def got_lock_def lock_multi_wait_leave_def)
      (metis stdin.surjective stdin.update_convs(4))
qed

lemma release_one_reads: "lock_multi_release_read one_reads = \<lparr>lm_waiting_readers = 0, lm_stat = 0\<rparr>"
  by (simp add: lock_multi_release_read_def lock_multi_sub_reader_def lock_multi_free_def)

lemma term_read_loop_lines:
  assumes "stdin_holds inp h" and "in_lock inp = one_reads" and "reads_at inp h pos i co" and "0 < sz"
    and "typed_lines (active_len inp) ts" and "pos + sz \<le> length (h @ concat ts)"
  shows "\<exists>k inp'. term_read_loop (map (Pair []) ts) inp (i, co, sz) = Inr (take sz (drop pos (h @ concat ts)), inp') \<and>
    stdin_holds inp' (h @ concat (take k ts)) \<and> stdin_ready inp'"
  using assms
proof (induction ts arbitrary: inp h pos i co sz)
  case Nil
  have ok: "stdin_ok inp" using Nil.prems(1) by (simp add: stdin_holds_def)
  have "sz + co \<le> length (text_from inp i)" using reads_atD [OF Nil.prems(3) ok] Nil.prems(6) Nil.prems(4) by simp
  with copy_lines_spec [OF ok, of i sz co] Nil.prems(3) obtain k co' where
    "copy_lines inp i co sz = Inr (take sz (drop pos h), k, co', 0)" by (auto simp: reads_at_def)
  then show ?case using Nil.prems(1,2,4)
    by (simp add: term_read_loop.simps term_read_round_def release_one_reads stdin_ready_def)
next
  case (Cons t ts)
  have ok: "stdin_ok inp" using Cons.prems(1) by (simp add: stdin_holds_def)
  note r = reads_atD [OF Cons.prems(3) ok] and at = Cons.prems(3) [unfolded reads_at_def]
  let ?rel = "inp\<lparr>in_lock := \<lparr>lm_waiting_readers = 0, lm_stat = 0\<rparr>\<rparr>"
  show ?case
  proof (cases "pos + sz \<le> length h")
    case True
    then have "sz + co \<le> length (text_from inp i)" using r Cons.prems(4) by simp
    with copy_lines_spec [OF ok, of i sz co] at obtain k co' where
      "copy_lines inp i co sz = Inr (take sz (drop pos h), k, co', 0)" by auto
    then show ?thesis using Cons.prems(1,2,4) True
      by (intro exI [of _ 0] exI [of _ ?rel]) (simp add: term_read_loop.simps term_read_round_def release_one_reads stdin_ready_def)
  next
    case False
    then have "length (text_from inp i) < co + sz" using r at by linarith
    from copy_lines_part [OF ok _ _ this] at obtain bs co' where
      c: "copy_lines inp i co sz = Inr (bs, active_line inp, co', sz - length bs)" "length bs < sz" "co' \<le> active_len inp"
        "drop co (text_from inp i) = bs @ drop co' (text_from inp (active_line inp))" by blast
    have d: "drop pos h = bs @ drop co' (text_from inp (active_line inp))" using at c(4) by simp
    have p: "pos + length bs \<le> length h" "drop (pos + length bs) h = drop co' (text_from inp (active_line inp))"
      using arg_cong [OF d, of length] arg_cong [OF d, of "drop (length bs)"] conjunct1 [OF conjunct2 [OF conjunct2 [OF at]]]
      by (simp_all add: add.commute)
    have "active_len ?rel = active_len inp" "finished_idx ?rel = finished_idx inp" "active_line ?rel = active_line inp"
      by (simp_all add: active_len_def finished_idx_def)
    with stdin_wait_line [of ?rel h t "pos + length bs" co'] Cons.prems(1,5) p c(3) obtain inp' where
      w: "stdin_wait ([], t) ?rel = Inr inp'" "in_lock inp' = one_reads" "stdin_holds inp' (h @ t)" "active_len inp' = 0"
        "reads_at inp' (h @ t) (pos + length bs) (finished_idx inp) co'" by auto
    from Cons.IH [OF w(3,2,5), of "sz - length bs"] c(2) w(4) Cons.prems(5,6) obtain k inp'' where
      e: "term_read_loop (map (Pair []) ts) inp' (finished_idx inp, co', sz - length bs) =
          Inr (take (sz - length bs) (drop (pos + length bs) (h @ t @ concat ts)), inp'')"
        "stdin_holds inp'' (h @ t @ concat (take k ts))" "stdin_ready inp''" by auto
    have "take sz (drop pos (h @ t @ concat ts)) = bs @ take (sz - length bs) (drop (pos + length bs) (h @ t @ concat ts))"
      using d p c(2) by simp
    moreover have "term_read_round inp (i, co, sz) = Inr (bs, finished_idx inp, co', sz - length bs)"
      using c(1,2) by (simp add: term_read_round_def finished_idx_def)
    then have "term_read_loop (map (Pair []) (t # ts)) inp (i, co, sz) =
        Inr (bs @ take (sz - length bs) (drop (pos + length bs) (h @ t @ concat ts)), inp'')"
      using e(1) c(2) w(1) Cons.prems(2,4) unfolding list.map by (subst term_read_loop.simps) (simp add: release_one_reads del: drop_append take_append)
    ultimately show ?thesis using e(2,3) by (intro exI [of _ "Suc k"] exI [of _ inp'']) (simp del: drop_append take_append)
  qed
qed

text \<open>Where a read starts; at the end of the input only when no line is being typed.\<close>

lemma term_read_start_at:
  assumes "stdin_holds inp h" and "bfr_offset inp \<le> off" and "off < length h \<or> off = length h \<and> active_len inp = 0"
  shows "\<exists>i co. term_read_start inp off sz = (i, co, sz) \<and> reads_at inp h off i co"
proof -
  let ?b = "bfr_offset inp"
  have ok: "stdin_ok inp" and b: "?b \<le> length h" and t: "drop ?b h = text_from inp 0"
    using assms(1) by (auto simp: stdin_holds_def)
  have len: "length h = ?b + length (text_from inp 0)" using b arg_cong [OF t, of length] by simp
  have d: "drop off h = drop (off - ?b) (text_from inp 0)" using assms(2) by (simp add: t [symmetric])
  consider "off = ?b" | "?b < off" "off < length h" | "?b < off" "off = length h" "active_len inp = 0" using assms(2,3) by linarith
  then show ?thesis
  proof cases
    case 1
    then show ?thesis using t b by (auto simp: term_read_start_def reads_at_def split: prod.split)
  next
    case 2
    from find_line_spec [OF ok le0 assms(2)] 2(2) len obtain j M where
      "find_line inp off ?b 0 = (j, M)" "j \<le> active_line inp" "M \<le> off" "off - M \<le> sl_len (in_lines inp ! j)"
      "drop (off - ?b) (text_from inp 0) = drop (off - M) (text_from inp j)" by auto
    then show ?thesis using 2 d by (simp add: term_read_start_def reads_at_def)
  next
    case 3
    then have "find_line inp off ?b 0 = (active_line inp, off)" using find_line_end [OF ok le0] len by simp
    then show ?thesis using 3 text_from_active [OF ok]
      by (simp add: term_read_start_def reads_at_def line_text_def active_len_def)
  qed
qed



section \<open>What goes wrong\<close>

text \<open>A read of no bytes takes the lock and does not return it: the next key press spins in the interrupt handler.\<close>

theorem term_read_nothing_keeps_lock:
  assumes "stdin_ready inp"
  shows "\<exists>inp'. term_read ws off 0 inp = Inr ([], inp') \<and> term_stdin_putc c inp' = Inl Spins"
proof -
  let ?i = "inp\<lparr>in_lock := one_reads\<rparr>"
  have "got_lock (lock_multi_acquire_read (in_lock inp)) inp = Inr ?i"
    using assms by (cases "in_lock inp") (simp add: stdin_ready_def got_lock_def lock_multi_acquire_read_def lock_multi_announce_def
        lock_multi_try_read_def compare_exchange_def LSTAT_defs)
  moreover have "snd (snd (term_read_start ?i off 0)) = 0" by (simp add: term_read_start_def Let_def split: prod.splits)
  then obtain i co where "term_read_start ?i off 0 = (i, co, 0)" by (metis prod.collapse)
  moreover have "term_stdin_putc c ?i = Inl Spins"
    by (simp add: term_stdin_putc_def lock_multi_acquire_write_def compare_exchange_def LSTAT_defs)
  ultimately show ?thesis by (simp add: term_read_def term_read_loop.simps)
qed

text \<open>
  A line that is finished after the reader has released the lock and before it has announced itself wakes nobody: the
  reader waits on although its bytes are there, and when the buffer has scrolled meanwhile it takes the next line for it.
\<close>

theorem term_read_missed_line:
  "term_read [([97, 10], [])] 0 2 empty_stdin = Inl Spins"
  "rbind (type_text (concat (replicate 7 [97, 10])) empty_stdin) (\<lambda>inp.
     rbind (term_read [([120, 10], [121, 10])] 14 2 inp) (\<lambda>(bs, _). Inr bs)) = Inr [121, 10]"
  by code_simp+

end
