(* ===== verification/Scheduler.thy ===== *)
theory Scheduler
  imports Muse_Prelude
begin

unbundle bit_operations_syntax

text \<open>
  \<^verbatim>\<open>src/common/scheduler.c\<close>, \<^verbatim>\<open>src/common/context.c\<close>, \<^verbatim>\<open>src/kernel/sleep.c\<close> and the timer handler of
  \<^verbatim>\<open>src/kernel/hpet.c\<close>. Contexts are objects of a store indexed by their addresses, linked by their
  \<^verbatim>\<open>next\<close> fields; 0 is the null pointer, and a field access through it is an access outside any object.
  \<^verbatim>\<open>context_switch\<close> (\<^verbatim>\<open>src/common/context_switch.asm\<close>) saves the stack pointer of the running context and makes
  the other one active; what the resumed context does next is its own continuation.
\<close>

section \<open>Contexts and scheduler state\<close>

definition FOPEN_MAX :: nat where "FOPEN_MAX = 16"

definition MODE_READ :: u8 where "MODE_READ = 1"
definition MODE_WRITE :: u8 where "MODE_WRITE = 2"
definition MODE_APPEND :: u8 where "MODE_APPEND = 4"
definition MODE_TRUNCATE :: u8 where "MODE_TRUNCATE = 8"
definition MODE_CREATE :: u8 where "MODE_CREATE = 16"

lemmas MODE_defs = MODE_READ_def MODE_WRITE_def MODE_APPEND_def MODE_TRUNCATE_def MODE_CREATE_def

definition TASK_STACK_BASE :: addr where "TASK_STACK_BASE = 0xFF8FFFFF"

record vfile =
  f_inode :: addr
  f_pos :: u32
  f_mode :: u8

record ctx =
  cx_esp :: u32
  cx_page_directory :: addr
  cx_present :: bool
  cx_id :: u32
  cx_next :: addr
  cx_heap :: addr
  cx_user :: bool
  cx_limit :: addr
  cx_files :: "vfile list"
  cx_priority :: u8
  cx_alarm :: u32
  cx_slices :: u32

record sched =
  ctxs :: "addr \<Rightarrow> ctx"
  active_ctx :: addr
  next_ctx :: addr
  last_ctx :: addr
  ctx_id :: u32
  first_sleeping_ctx :: addr
  irq_disable_counter :: u32
  irqs_on :: bool

text \<open>An update of one context; through a null pointer it is refused.\<close>

definition upd_ctx :: "addr \<Rightarrow> (ctx \<Rightarrow> ctx) \<Rightarrow> sched \<Rightarrow> sched result" where
  "upd_ctx p f s = (if p = 0 then Inl OutOfBounds else Inr (s\<lparr>ctxs := (ctxs s)(p := f (ctxs s p))\<rparr>))"

definition lock_scheduler :: "sched \<Rightarrow> sched" where
  "lock_scheduler s = s\<lparr>irqs_on := False, irq_disable_counter := irq_disable_counter s + 1\<rparr>"

definition unlock_scheduler :: "sched \<Rightarrow> sched" where
  "unlock_scheduler s =
     (let s = s\<lparr>irq_disable_counter := irq_disable_counter s - 1\<rparr>
      in if irq_disable_counter s = 0 then s\<lparr>irqs_on := True\<rparr> else s)"

text \<open>\<open>esp\<close> is the stack pointer of the running context at the switch.\<close>

definition context_switch :: "u32 \<Rightarrow> addr \<Rightarrow> sched \<Rightarrow> sched result" where
  "context_switch esp ctx_new s =
     rbind (upd_ctx (active_ctx s) (\<lambda>c. c\<lparr>cx_esp := esp\<rparr>) s) (\<lambda>s.
     Inr (s\<lparr>active_ctx := ctx_new\<rparr>))"

definition schedule :: "u32 \<Rightarrow> sched \<Rightarrow> sched result" where
  "schedule esp s =
     (if next_ctx s \<noteq> 0
      then let ctx = next_ctx s in
           context_switch esp ctx (s\<lparr>next_ctx := cx_next (ctxs s (next_ctx s))\<rparr>)
      else Inr s)"

definition preempt :: "u32 \<Rightarrow> sched \<Rightarrow> sched result" where
  "preempt esp s =
     (if next_ctx s \<noteq> 0
      then let ctx = next_ctx s in
           rbind (upd_ctx (active_ctx s) (\<lambda>c. c\<lparr>cx_next := 0\<rparr>) s) (\<lambda>s.
           rbind (upd_ctx (last_ctx s) (\<lambda>c. c\<lparr>cx_next := active_ctx s\<rparr>) s) (\<lambda>s.
           (let s = s\<lparr>last_ctx := cx_next (ctxs s (last_ctx s))\<rparr>;
                s = s\<lparr>next_ctx := cx_next (ctxs s (next_ctx s))\<rparr>
            in context_switch esp ctx s)))
      else Inr s)"

definition terminate :: "u32 \<Rightarrow> sched \<Rightarrow> sched result" where
  "terminate esp s = schedule esp s"

section \<open>Creating contexts\<close>

definition std_file :: "u8 \<Rightarrow> addr \<Rightarrow> vfile" where
  "std_file mode inode = \<lparr>f_inode = inode, f_pos = 0, f_mode = mode\<rparr>"

text \<open>Appending to the ready queue, as both creation routines end.\<close>

definition enqueue_ctx :: "addr \<Rightarrow> sched \<Rightarrow> sched result" where
  "enqueue_ctx ctx_new s =
     (if next_ctx s = 0
      then rbind (upd_ctx (active_ctx s) (\<lambda>c. c\<lparr>cx_next := ctx_new\<rparr>) s) (\<lambda>s.
           Inr (s\<lparr>next_ctx := ctx_new, last_ctx := ctx_new\<rparr>))
      else rbind (upd_ctx (last_ctx s) (\<lambda>c. c\<lparr>cx_next := ctx_new\<rparr>) s) (\<lambda>s.
           Inr (s\<lparr>last_ctx := ctx_new\<rparr>)))"

text \<open>
  \<^verbatim>\<open>create_context\<close>; \<open>ctx_new\<close> is the address \<^verbatim>\<open>kmalloc\<close> returned and \<open>directory\<close> the page directory
  \<^verbatim>\<open>create_task_directory\<close> built. Fields the code does not assign keep what the memory held.
\<close>

definition create_context ::
  "addr \<Rightarrow> addr \<Rightarrow> u8 \<Rightarrow> bool \<Rightarrow> addr \<Rightarrow> addr \<Rightarrow> addr \<Rightarrow> addr \<Rightarrow> sched \<Rightarrow> sched result" where
  "create_context ctx_new directory priority user limit stdin stdout stderr s =
     (let s = lock_scheduler s in
      rbind (upd_ctx ctx_new (\<lambda>c. c\<lparr>cx_priority := priority, cx_heap := cx_heap (ctxs s (active_ctx s)),
          cx_present := True, cx_id := ctx_id s, cx_page_directory := directory, cx_slices := 0,
          cx_esp := TASK_STACK_BASE - 5 * 4, cx_limit := limit, cx_next := 0, cx_user := user,
          cx_files := [std_file MODE_READ stdin, std_file MODE_WRITE stdout, std_file MODE_WRITE stderr] @
            map (\<lambda>f. f\<lparr>f_mode := 0\<rparr>) (drop 3 (cx_files c))\<rparr>) s) (\<lambda>s.
      (let s = s\<lparr>ctx_id := ctx_id s + 1\<rparr> in
       rbind (enqueue_ctx ctx_new s) (\<lambda>s. Inr (unlock_scheduler s)))))"

definition create_kernel_context :: "addr \<Rightarrow> addr \<Rightarrow> sched \<Rightarrow> sched result" where
  "create_kernel_context ctx_new directory s =
     rbind (upd_ctx ctx_new (\<lambda>c. c\<lparr>cx_heap := cx_heap (ctxs s (active_ctx s)),
         cx_present := True, cx_id := ctx_id s, cx_page_directory := directory, cx_slices := 0,
         cx_esp := TASK_STACK_BASE - 5 * 4, cx_next := 0, cx_user := False,
         cx_files := map (\<lambda>f. f\<lparr>f_mode := 0\<rparr>) (cx_files c)\<rparr>) s) (\<lambda>s.
     enqueue_ctx ctx_new (s\<lparr>ctx_id := ctx_id s + 1\<rparr>))"

text \<open>\<open>first\<close> is the address of the static \<^verbatim>\<open>first_ctx\<close>, \<open>directory\<close> the content of \<^verbatim>\<open>cr3\<close>.\<close>

definition init_first_ctx :: "addr \<Rightarrow> addr \<Rightarrow> sched \<Rightarrow> sched result" where
  "init_first_ctx first directory s =
     rbind (upd_ctx first (\<lambda>c. c\<lparr>cx_present := True, cx_id := ctx_id s, cx_next := 0, cx_priority := 1,
         cx_page_directory := directory\<rparr>) s) (\<lambda>s.
     Inr (s\<lparr>active_ctx := first, ctx_id := ctx_id s + 1\<rparr>))"

section \<open>Sleeping\<close>

text \<open>
  The loop of \<^verbatim>\<open>sleep_tick\<close> runs along the list of sleeping contexts. When an alarm goes off, the
  context's \<^verbatim>\<open>next\<close> is cleared before the loop advances through it.
\<close>

partial_function (option) sleep_loop :: "addr \<Rightarrow> addr \<Rightarrow> sched \<Rightarrow> sched result option" where
  "sleep_loop previous sleeping s =
     (if sleeping = 0 then Some (Inr s)
      else let s = s\<lparr>ctxs := (ctxs s)(sleeping := (ctxs s sleeping)\<lparr>cx_alarm := cx_alarm (ctxs s sleeping) - 1\<rparr>)\<rparr> in
        if cx_alarm (ctxs s sleeping) = 0
        then case rbind (upd_ctx (last_ctx s) (\<lambda>c. c\<lparr>cx_next := sleeping\<rparr>) s) (\<lambda>s.
                  (let s = s\<lparr>last_ctx := sleeping\<rparr>; rest = cx_next (ctxs s sleeping) in
                   rbind (if previous = 0 then Inr (s\<lparr>first_sleeping_ctx := rest\<rparr>)
                          else upd_ctx previous (\<lambda>c. c\<lparr>cx_next := rest\<rparr>) s) (\<lambda>s.
                   upd_ctx sleeping (\<lambda>c. c\<lparr>cx_next := 0\<rparr>) s))) of
               Inl e \<Rightarrow> Some (Inl e)
             | Inr s \<Rightarrow> sleep_loop sleeping (cx_next (ctxs s sleeping)) s
        else sleep_loop sleeping (cx_next (ctxs s sleeping)) s)"

definition sleep_tick :: "sched \<Rightarrow> sched result option" where
  "sleep_tick s = sleep_loop 0 (first_sleeping_ctx s) s"

definition sleep_millis :: "u32 \<Rightarrow> u32 \<Rightarrow> sched \<Rightarrow> sched result" where
  "sleep_millis esp millis s =
     (let s = lock_scheduler s in
      rbind (upd_ctx (active_ctx s) (\<lambda>c. c\<lparr>cx_next := first_sleeping_ctx s\<rparr>) s) (\<lambda>s.
      (let s = s\<lparr>first_sleeping_ctx := active_ctx s\<rparr> in
       rbind (upd_ctx (first_sleeping_ctx s) (\<lambda>c. c\<lparr>cx_alarm := millis\<rparr>) s) (\<lambda>s.
       schedule esp s))))"

definition sleep_secs :: "u32 \<Rightarrow> u32 \<Rightarrow> sched \<Rightarrow> sched result" where
  "sleep_secs esp seconds s = sleep_millis esp (seconds * 1000) s"

section \<open>The timer interrupt\<close>

text \<open>The registers of the high-precision event timer that the code uses.\<close>

record hpet_regs =
  general_conf :: u32
  main_counter :: u32
  comparator :: u32

definition start_hpet :: "hpet_regs \<Rightarrow> hpet_regs" where
  "start_hpet h = h\<lparr>general_conf := general_conf h OR 1\<rparr>"

definition stop_hpet :: "hpet_regs \<Rightarrow> hpet_regs" where
  "stop_hpet h = h\<lparr>general_conf := general_conf h AND NOT 1\<rparr>"

definition get_time :: "hpet_regs \<Rightarrow> u32" where
  "get_time h = main_counter h"

definition set_time :: "u32 \<Rightarrow> hpet_regs \<Rightarrow> hpet_regs" where
  "set_time time h = start_hpet ((stop_hpet h)\<lparr>main_counter := time\<rparr>)"

definition set_delay :: "u32 \<Rightarrow> hpet_regs \<Rightarrow> hpet_regs" where
  "set_delay delay h = h\<lparr>comparator := delay\<rparr>"

text \<open>
  \<^verbatim>\<open>handle_timer_inner\<close> up to the point where it returns early or has switched contexts (\<open>True\<close>: it called
  \<^verbatim>\<open>preempt\<close>), and what remains to be done when the preempted context runs again.
\<close>

definition use_slice :: "ctx \<Rightarrow> ctx" where
  "use_slice c =
     (let c = (if cx_slices c = 0 then c\<lparr>cx_slices := ucast (cx_priority c)\<rparr> else c)
      in c\<lparr>cx_slices := cx_slices c - 1\<rparr>)"

definition handle_timer_enter :: "u32 \<Rightarrow> sched \<Rightarrow> (bool \<times> sched) result option" where
  "handle_timer_enter esp s =
     (case sleep_tick (lock_scheduler s) of
        None \<Rightarrow> None
      | Some r \<Rightarrow> Some (rbind r (\<lambda>s.
          rbind (upd_ctx (active_ctx s) use_slice s) (\<lambda>s.
          if cx_slices (ctxs s (active_ctx s)) > 0 then Inr (False, unlock_scheduler s)
          else rbind (preempt esp s) (\<lambda>s. Inr (True, s))))))"

definition handle_timer_resume :: "u32 \<Rightarrow> sched \<Rightarrow> hpet_regs \<Rightarrow> (sched \<times> hpet_regs) result" where
  "handle_timer_resume tick_period s h =
     (let period_nano = tick_period div 1000000 in
      if period_nano = 0 then Inl DivideError
      else Inr (unlock_scheduler s, set_delay (1000000 div period_nano) (set_time 0 h)))"

section \<open>Lists of contexts\<close>

text \<open>The contexts reached from \<open>p\<close> by following \<^verbatim>\<open>next\<close>, ending in null.\<close>

primrec chain :: "(addr \<Rightarrow> ctx) \<Rightarrow> addr \<Rightarrow> addr list \<Rightarrow> bool" where
  "chain m p [] \<longleftrightarrow> p = 0"
| "chain m p (c # cs) \<longleftrightarrow> p = c \<and> c \<noteq> 0 \<and> chain m (cx_next (m c)) cs"

lemma chain_cong: "(\<And>c. c \<in> set cs \<Longrightarrow> cx_next (m' c) = cx_next (m c)) \<Longrightarrow> chain m' p cs = chain m p cs"
  by (induction cs arbitrary: p) auto

lemma chain_upd [simp]: "a \<notin> set cs \<Longrightarrow> chain (m(a := c)) p cs = chain m p cs"
  by (rule chain_cong) auto

lemma chain_not_null: "chain m p cs \<Longrightarrow> 0 \<notin> set cs"
  by (induction cs arbitrary: p) auto

lemma chain_head: "chain m p cs \<Longrightarrow> p = (case cs of [] \<Rightarrow> 0 | c # _ \<Rightarrow> c)"
  by (cases cs) auto

text \<open>Appending at the end of a list whose last element is known.\<close>

lemma chain_snoc:
  assumes "chain m p (cs @ [l])" and "distinct (cs @ [l])" and "a \<noteq> 0" and "cx_next (m a) = 0"
    and "a \<notin> set (cs @ [l])"
  shows "chain (m(l := (m l)\<lparr>cx_next := a\<rparr>)) p (cs @ [l, a])"
  using assms by (induction cs arbitrary: p) auto

text \<open>Taking an element out of the middle.\<close>

lemma chain_remove:
  assumes "chain m p (xs @ [v, w] @ ys)" and "distinct (xs @ [v, w] @ ys)"
  shows "chain (m(v := (m v)\<lparr>cx_next := cx_next (m w)\<rparr>)) p (xs @ [v] @ ys)"
  using assms by (induction xs arbitrary: p) auto

section \<open>The ready queue\<close>

definition run_ok :: "sched \<Rightarrow> addr list \<Rightarrow> bool" where
  "run_ok s q \<longleftrightarrow> chain (ctxs s) (next_ctx s) q \<and> distinct (active_ctx s # q) \<and> active_ctx s \<noteq> 0 \<and>
     (q \<noteq> [] \<longrightarrow> last_ctx s = last q)"

lemma preempt_run_ok:
  assumes "run_ok s (c # cs)"
  shows "\<exists>s'. preempt esp s = Inr s' \<and> active_ctx s' = c \<and> run_ok s' (cs @ [active_ctx s]) \<and>
    first_sleeping_ctx s' = first_sleeping_ctx s \<and> irq_disable_counter s' = irq_disable_counter s \<and>
    (\<forall>p. p \<notin> set (active_ctx s # c # cs) \<longrightarrow> ctxs s' p = ctxs s p)"
proof -
  let ?a = "active_ctx s" and ?l = "last (c # cs)"
  define m1 where "m1 = (ctxs s)(?a := (ctxs s ?a)\<lparr>cx_next := 0\<rparr>)"
  define m2 where "m2 = m1(?l := (m1 ?l)\<lparr>cx_next := ?a\<rparr>)"
  have h: "chain (ctxs s) c (c # cs)" "next_ctx s = c" "distinct (?a # c # cs)" "?a \<noteq> 0" "last_ctx s = ?l" "c \<noteq> 0"
    using assms by (auto simp: run_ok_def)
  have split: "c # cs = butlast (c # cs) @ [?l]" by simp
  have "chain m1 c (c # cs)" using h by (auto simp: m1_def)
  then have "chain m2 c (butlast (c # cs) @ [?l, ?a])"
    unfolding m2_def by (intro chain_snoc) (use h split in \<open>auto simp: m1_def simp del: butlast.simps last.simps\<close>)
  then have ch: "chain m2 c (c # cs @ [?a])"
    using split by (metis append.assoc append_Cons append_Nil)
  have l0: "?l \<noteq> 0" "?l \<noteq> ?a"
    using h chain_not_null [OF h(1)] last_in_set [of "c # cs"] by (metis distinct.simps(2) list.discI)+
  let ?s = "s\<lparr>ctxs := m2(?a := (m2 ?a)\<lparr>cx_esp := esp\<rparr>), last_ctx := ?a, next_ctx := cx_next (m2 c), active_ctx := c\<rparr>"
  have "preempt esp s = Inr ?s"
    using h l0 by (simp add: preempt_def upd_ctx_def context_switch_def Let_def m1_def m2_def fun_upd_def)
  moreover have "run_ok ?s (cs @ [?a])"
  proof -
    have "chain (m2(?a := (m2 ?a)\<lparr>cx_esp := esp\<rparr>)) (cx_next (m2 c)) (cs @ [?a])"
      using ch by (subst chain_cong [where m = m2]) auto
    then show ?thesis using h by (auto simp: run_ok_def)
  qed
  moreover have "\<forall>p. p \<notin> set (?a # c # cs) \<longrightarrow> ctxs ?s p = ctxs s p"
    using last_in_set [of "c # cs"] by (auto simp: m1_def m2_def simp del: last.simps)
  ultimately show ?thesis by (intro exI [of _ ?s]) simp
qed

lemma schedule_run_ok:
  assumes "run_ok s (c # cs)"
  shows "\<exists>s'. schedule esp s = Inr s' \<and> active_ctx s' = c \<and> run_ok s' cs \<and>
    first_sleeping_ctx s' = first_sleeping_ctx s \<and> (\<forall>p. cx_next (ctxs s' p) = cx_next (ctxs s p)) \<and>
    (\<forall>p. cx_alarm (ctxs s' p) = cx_alarm (ctxs s p))"
proof -
  let ?a = "active_ctx s"
  let ?s = "s\<lparr>ctxs := (ctxs s)(?a := (ctxs s ?a)\<lparr>cx_esp := esp\<rparr>), next_ctx := cx_next (ctxs s c), active_ctx := c\<rparr>"
  have "schedule esp s = Inr ?s"
    using assms by (auto simp: run_ok_def schedule_def context_switch_def upd_ctx_def Let_def)
  moreover have "run_ok ?s cs" using assms by (auto simp: run_ok_def)
  ultimately show ?thesis by (intro exI [of _ ?s]) auto
qed

lemma enqueue_run_ok:
  assumes "run_ok s q" and "p \<notin> set (active_ctx s # q)" and "p \<noteq> 0" and "cx_next (ctxs s p) = 0"
  shows "\<exists>s'. enqueue_ctx p s = Inr s' \<and> active_ctx s' = active_ctx s \<and> run_ok s' (q @ [p]) \<and>
    first_sleeping_ctx s' = first_sleeping_ctx s \<and>
    (\<forall>r. r \<notin> set (active_ctx s # q) \<longrightarrow> ctxs s' r = ctxs s r)"
proof (cases q rule: rev_cases)
  case Nil
  with assms show ?thesis by (auto simp: enqueue_ctx_def upd_ctx_def run_ok_def)
next
  case (snoc q' l)
  let ?s = "s\<lparr>ctxs := (ctxs s)(l := (ctxs s l)\<lparr>cx_next := p\<rparr>), last_ctx := p\<rparr>"
  have h: "chain (ctxs s) (next_ctx s) (q' @ [l])" "distinct (active_ctx s # q' @ [l])" "last_ctx s = l"
    using assms(1) by (auto simp: run_ok_def snoc)
  have "next_ctx s \<noteq> 0" "l \<noteq> 0" using h(1) chain_not_null [OF h(1)] by (cases q'; auto)+
  then have "enqueue_ctx p s = Inr ?s" using h(3) by (simp add: enqueue_ctx_def upd_ctx_def)
  moreover have "chain (ctxs ?s) (next_ctx ?s) (q' @ [l, p])"
    using chain_snoc [OF h(1), of p] h(2) assms(2-4) snoc by simp
  then have "run_ok ?s (q @ [p])" using assms h(2) by (auto simp: run_ok_def snoc)
  ultimately show ?thesis using snoc by (intro exI [of _ ?s]) auto
qed

section \<open>Interface: a round-robin queue\<close>

text \<open>
  What a preemptive scheduler promises: the represented queue, running context first, is rotated by
  one at each preemption.
\<close>

fun steps :: "('s \<Rightarrow> 's result) \<Rightarrow> nat \<Rightarrow> 's \<Rightarrow> 's result" where
  "steps f 0 s = Inr s"
| "steps f (Suc n) s = rbind (f s) (steps f n)"

locale round_robin =
  fixes yield :: "'s \<Rightarrow> 's result" and repr :: "'s \<Rightarrow> 'c list \<Rightarrow> bool"
  assumes yield_rotates: "repr s q \<Longrightarrow> \<exists>s'. yield s = Inr s' \<and> repr s' (rotate1 q)"
begin

lemma steps_rotate: "repr s q \<Longrightarrow> \<exists>s'. steps yield n s = Inr s' \<and> repr s' (rotate n q)"
proof (induction n arbitrary: s q)
  case 0
  then show ?case by simp
next
  case (Suc n)
  obtain s' where "yield s = Inr s'" "repr s' (rotate1 q)" using yield_rotates [OF Suc.prems] by blast
  moreover have "rotate n (rotate1 q) = rotate (Suc n) q" by (simp add: rotate1_rotate_swap)
  ultimately show ?case using Suc.IH by fastforce
qed

lemma runs_within:
  assumes "repr s q" and "c \<in> set q"
  shows "\<exists>n < length q. \<exists>s'. steps yield n s = Inr s' \<and> repr s' (rotate n q) \<and> hd (rotate n q) = c"
proof -
  from assms(2) obtain n where n: "n < length q" "q ! n = c" by (auto simp: in_set_conv_nth)
  have "hd (rotate n q) = c" using n by (metis hd_rotate_conv_nth length_0_conv mod_less not_less0)
  with steps_rotate [OF assms(1), of n] n(1) show ?thesis by blast
qed

lemma full_round: "repr s q \<Longrightarrow> \<exists>s'. steps yield (length q) s = Inr s' \<and> repr s' q"
  using steps_rotate [of s q "length q"] by (simp add: rotate_id)

end

definition run_queue :: "sched \<Rightarrow> addr list \<Rightarrow> bool" where
  "run_queue s q \<longleftrightarrow> q \<noteq> [] \<and> active_ctx s = hd q \<and> run_ok s (tl q)"

interpretation rr: round_robin "preempt esp" run_queue for esp
proof (unfold_locales, goal_cases)
  case (1 s q)
  then obtain a r where q: "q = a # r" "active_ctx s = a" "run_ok s r"
    by (cases q) (auto simp: run_queue_def)
  show ?case
  proof (cases r)
    case Nil
    then have "preempt esp s = Inr s" using q by (simp add: preempt_def run_ok_def)
    with 1 q Nil show ?thesis by simp
  next
    case (Cons c cs)
    with preempt_run_ok [of s c cs esp] q show ?thesis by (auto simp: run_queue_def)
  qed
qed

section \<open>Sleeping contexts\<close>

definition dec_alarms :: "addr set \<Rightarrow> (addr \<Rightarrow> ctx) \<Rightarrow> addr \<Rightarrow> ctx" where
  "dec_alarms A m = (\<lambda>p. if p \<in> A then (m p)\<lparr>cx_alarm := cx_alarm (m p) - 1\<rparr> else m p)"

lemma dec_alarms_simps [simp]:
  "dec_alarms {} m = m" "cx_next (dec_alarms A m p) = cx_next (m p)"
  "cx_alarm (dec_alarms A m p) = (if p \<in> A then cx_alarm (m p) - 1 else cx_alarm (m p))"
  by (simp_all add: dec_alarms_def)

lemma chain_dec_alarms [simp]: "chain (dec_alarms A m) p cs = chain m p cs"
  by (rule chain_cong) simp

lemma dec_alarms_insert:
  "c \<notin> A \<Longrightarrow> dec_alarms A (m(c := (m c)\<lparr>cx_alarm := cx_alarm (m c) - 1\<rparr>)) = dec_alarms (insert c A) m"
  by (auto simp: dec_alarms_def fun_eq_iff)

lemma sleep_loop_quiet:
  assumes "chain (ctxs s) sl (pre @ rest)" and "distinct (pre @ rest)"
    and "\<forall>p \<in> set pre. cx_alarm (ctxs s p) \<noteq> 1"
  shows "sleep_loop prev sl s =
    sleep_loop (last (prev # pre)) (case rest of [] \<Rightarrow> 0 | w # _ \<Rightarrow> w) (s\<lparr>ctxs := dec_alarms (set pre) (ctxs s)\<rparr>)"
  using assms
proof (induction pre arbitrary: prev sl s)
  case Nil
  then show ?case using chain_head [of "ctxs s" sl rest] by simp
next
  case (Cons c pre)
  let ?s = "s\<lparr>ctxs := (ctxs s)(c := (ctxs s c)\<lparr>cx_alarm := cx_alarm (ctxs s c) - 1\<rparr>)\<rparr>"
  have c: "sl = c" "c \<noteq> 0" "cx_alarm (ctxs s c) - 1 \<noteq> 0" using Cons.prems by auto
  then have "sleep_loop prev sl s = sleep_loop c (cx_next (ctxs s c)) ?s"
    by (subst sleep_loop.simps) (simp add: Let_def)
  also have "\<dots> = sleep_loop (last (c # pre)) (case rest of [] \<Rightarrow> 0 | w # _ \<Rightarrow> w)
      (?s\<lparr>ctxs := dec_alarms (set pre) (ctxs ?s)\<rparr>)"
  proof (rule Cons.IH)
    have "c \<notin> set (pre @ rest)" using Cons.prems(2) by simp
    then show "chain (ctxs ?s) (cx_next (ctxs s c)) (pre @ rest)" using Cons.prems(1) c(1) by simp
    show "\<forall>p \<in> set pre. cx_alarm (ctxs ?s p) \<noteq> 1" using Cons.prems by auto
  qed (use Cons.prems in simp)
  finally show ?case using Cons.prems(2) by (simp add: dec_alarms_insert)
qed

text \<open>An alarm goes off: the context is appended after \<^verbatim>\<open>last_ctx\<close>, unlinked, and the loop ends.\<close>

lemma sleep_loop_wake:
  assumes "w \<noteq> 0" and "cx_alarm (ctxs s w) = 1" and "last_ctx s \<noteq> 0" and "last_ctx s \<noteq> w" and "prev \<noteq> w"
  shows "sleep_loop prev w s = Some (Inr
    (let m = dec_alarms {w} (ctxs s); rest = cx_next (ctxs s w);
         m1 = m(last_ctx s := (m (last_ctx s))\<lparr>cx_next := w\<rparr>);
         m2 = (if prev = 0 then m1 else m1(prev := (m1 prev)\<lparr>cx_next := rest\<rparr>))
     in s\<lparr>ctxs := m2(w := (m2 w)\<lparr>cx_next := 0\<rparr>), last_ctx := w,
          first_sleeping_ctx := if prev = 0 then rest else first_sleeping_ctx s\<rparr>))"
proof -
  have dec: "(ctxs s)(w := (ctxs s w)\<lparr>cx_alarm := 0\<rparr>) = dec_alarms {w} (ctxs s)"
    using assms(2) by (auto simp: dec_alarms_def fun_eq_iff)
  show ?thesis
    using assms
    by (subst sleep_loop.simps)
      (auto simp: Let_def upd_ctx_def sleep_loop.simps dec fun_upd_twist)
qed

text \<open>The contexts before the first whose alarm goes off, and the rest.\<close>

definition quiet :: "sched \<Rightarrow> addr list \<Rightarrow> addr list" where
  "quiet s ss = takeWhile (\<lambda>p. cx_alarm (ctxs s p) \<noteq> 1) ss"

definition ringing :: "sched \<Rightarrow> addr list \<Rightarrow> addr list" where
  "ringing s ss = dropWhile (\<lambda>p. cx_alarm (ctxs s p) \<noteq> 1) ss"

lemma quiet_ringing: "quiet s ss @ ringing s ss = ss"
  by (simp add: quiet_def ringing_def)

lemma ringing_head: "ringing s ss = w # r \<Longrightarrow> cx_alarm (ctxs s w) = 1"
  unfolding ringing_def by (metis (mono_tags, lifting) dropWhile_eq_Cons_conv)

text \<open>The list of sleeping contexts after the first ringing one has been unlinked.\<close>

lemma unlink_chain:
  assumes "chain m f (pre @ w # post)" and "distinct (pre @ w # post)"
  shows "chain (if pre = [] then m else m(last pre := (m (last pre))\<lparr>cx_next := cx_next (m w)\<rparr>))
    (if pre = [] then cx_next (m w) else f) (pre @ post)"
proof (cases pre rule: rev_cases)
  case (snoc xs v)
  with assms chain_remove [of m f xs v w post] show ?thesis by simp
qed (use assms in simp)

section \<open>Correctness of the scheduler\<close>

text \<open>Disjoint lists of ready and sleeping contexts.\<close>

definition sched_ok :: "sched \<Rightarrow> addr list \<Rightarrow> addr list \<Rightarrow> bool" where
  "sched_ok s q ss \<longleftrightarrow> run_ok s q \<and> chain (ctxs s) (first_sleeping_ctx s) ss \<and> distinct ss \<and>
     set ss \<inter> set (active_ctx s # q) = {}"

lemma chain_snoc_cong:
  assumes "chain m p q" and "distinct q" and "q \<noteq> []" and "w \<noteq> 0" and "w \<notin> set q"
    and "\<And>c. c \<in> set q \<Longrightarrow> c \<noteq> last q \<Longrightarrow> cx_next (m' c) = cx_next (m c)"
    and "cx_next (m' (last q)) = w" and "cx_next (m' w) = 0"
  shows "chain m' p (q @ [w])"
  using assms
proof (induction q arbitrary: p)
  case (Cons c q)
  show ?case
  proof (cases "q = []")
    case False
    then have "c \<noteq> last q" using Cons.prems(2) last_in_set [of q] by auto
    then have "cx_next (m' c) = cx_next (m c)" using Cons.prems(6) False by simp
    moreover have "chain m' (cx_next (m c)) (q @ [w])"
      using Cons.prems False by (intro Cons.IH) auto
    ultimately show ?thesis using Cons.prems(1) by simp
  qed (use Cons.prems in auto)
qed simp

lemma sleep_tick_wakes:
  assumes ok: "sched_ok s q ss" and q: "q \<noteq> []" and r: "ringing s ss = w # post"
  shows "\<exists>s'. sleep_tick s = Some (Inr s') \<and> sched_ok s' (q @ [w]) (quiet s ss @ post) \<and>
    active_ctx s' = active_ctx s \<and> (\<forall>p. cx_alarm (ctxs s' p) =
      (if p \<in> set (quiet s ss @ [w]) then cx_alarm (ctxs s p) - 1 else cx_alarm (ctxs s p)))"
proof -
  define pre where "pre = quiet s ss"
  define s1 where "s1 = s\<lparr>ctxs := dec_alarms (set pre) (ctxs s)\<rparr>"
  define prev where "prev = last (0 # pre)"
  define m where "m = dec_alarms {w} (ctxs s1)"
  define m1 where "m1 = m(last q := (m (last q))\<lparr>cx_next := w\<rparr>)"
  define m2 where "m2 = (if prev = 0 then m1 else m1(prev := (m1 prev)\<lparr>cx_next := cx_next (ctxs s w)\<rparr>))"
  define s' where "s' = s1\<lparr>ctxs := m2(w := (m2 w)\<lparr>cx_next := 0\<rparr>), last_ctx := w,
    first_sleeping_ctx := if prev = 0 then cx_next (ctxs s w) else first_sleeping_ctx s\<rparr>"
  have ss: "ss = pre @ w # post" using quiet_ringing [of s ss] r by (simp add: pre_def)
  have h: "chain (ctxs s) (next_ctx s) q" "distinct (active_ctx s # q)" "active_ctx s \<noteq> 0" "last_ctx s = last q"
    "chain (ctxs s) (first_sleeping_ctx s) (pre @ w # post)" "distinct (pre @ w # post)"
    "set (pre @ w # post) \<inter> set (active_ctx s # q) = {}"
    using ok q by (auto simp: sched_ok_def run_ok_def ss)
  have z: "0 \<notin> set q" "0 \<notin> set pre" "w \<noteq> 0" using chain_not_null [OF h(1)] chain_not_null [OF h(5)] by auto
  have lq: "last q \<in> set q" using q by simp
  then have lz: "last q \<noteq> 0" using z(1) by metis
  have apart: "w \<notin> set q" "last q \<notin> set (pre @ w # post)" "w \<notin> set (pre @ post)" "w \<noteq> active_ctx s"
    using h(6,7) lq by auto
  have last_pre: "last pre \<in> set pre \<and> last pre \<noteq> 0 \<and> last pre \<noteq> w" if "pre \<noteq> []"
    using last_in_set [OF that] z(2) apart(3) by (metis Un_iff set_append)
  have prev: "prev = 0 \<longleftrightarrow> pre = []" "pre \<noteq> [] \<Longrightarrow> prev \<in> set pre \<and> prev = last pre" "prev \<noteq> w"
    using last_pre z(3) by (auto simp: prev_def)
  have "cx_alarm (ctxs s p) \<noteq> 1" if "p \<in> set pre" for p
    using that unfolding pre_def quiet_def by (metis (mono_tags, lifting) set_takeWhileD)
  then have "sleep_loop 0 (first_sleeping_ctx s) s = sleep_loop prev w s1"
    using sleep_loop_quiet [OF h(5,6), of 0] by (simp add: s1_def prev_def)
  also have "\<dots> = Some (Inr s')"
    using sleep_loop_wake [of w s1 prev] z lq lz apart prev(3) ringing_head [OF r] h(4)
    by (auto simp: s1_def s'_def m_def m1_def m2_def Let_def)
  finally have tick: "sleep_tick s = Some (Inr s')" by (simp add: sleep_tick_def)
  have "chain m1 (first_sleeping_ctx s) (pre @ w # post)"
    using h(5) apart(2) by (simp add: m1_def m_def s1_def)
  from unlink_chain [OF this h(6)]
  have "chain m2 (if pre = [] then cx_next (ctxs s w) else first_sleeping_ctx s) (pre @ post)"
    using prev apart(2) by (auto simp: m2_def m1_def m_def s1_def split: if_splits)
  then have sleep: "chain (ctxs s') (first_sleeping_ctx s') (pre @ post)"
    using apart(3) prev(1) by (simp add: s'_def)
  have "chain (ctxs s') (next_ctx s) (q @ [w])"
  proof (rule chain_snoc_cong [OF h(1)])
    have nq: "prev \<notin> set q" using prev h(7) z(1) by (cases "pre = []") auto
    show "cx_next (ctxs s' c) = cx_next (ctxs s c)" if "c \<in> set q" "c \<noteq> last q" for c
      using that nq apart(1) by (auto simp: s'_def m2_def m1_def m_def s1_def)
    show "cx_next (ctxs s' (last q)) = w"
      using nq lq apart(1) by (auto simp: s'_def m2_def m1_def m_def s1_def)
  qed (use h q z apart in \<open>auto simp: s'_def\<close>)
  then have "run_ok s' (q @ [w])"
    using h apart by (auto simp: run_ok_def s'_def s1_def)
  then have "sched_ok s' (q @ [w]) (pre @ post)"
    using sleep h(6,7) apart by (auto simp: sched_ok_def s'_def s1_def)
  moreover have "cx_alarm (ctxs s' p) = (if p \<in> set (pre @ [w]) then cx_alarm (ctxs s p) - 1 else cx_alarm (ctxs s p))" for p
    using h(6) by (auto simp: s'_def m2_def m1_def m_def s1_def)
  ultimately show ?thesis using tick unfolding pre_def by (intro exI [of _ s']) (simp add: s'_def s1_def)
qed

lemma sleep_tick_quiet:
  assumes ok: "sched_ok s q ss" and r: "ringing s ss = []"
  shows "\<exists>s'. sleep_tick s = Some (Inr s') \<and> sched_ok s' q ss \<and> active_ctx s' = active_ctx s \<and>
    (\<forall>p. cx_alarm (ctxs s' p) = (if p \<in> set ss then cx_alarm (ctxs s p) - 1 else cx_alarm (ctxs s p)))"
proof -
  have h: "chain (ctxs s) (first_sleeping_ctx s) (ss @ [])" "distinct (ss @ [])"
    using ok by (simp_all add: sched_ok_def)
  have "\<forall>p \<in> set ss. cx_alarm (ctxs s p) \<noteq> 1"
    using r by (simp add: ringing_def)
  from sleep_loop_quiet [OF h this, of 0]
  have "sleep_tick s = Some (Inr (s\<lparr>ctxs := dec_alarms (set ss) (ctxs s)\<rparr>))"
    by (simp add: sleep_tick_def sleep_loop.simps)
  then show ?thesis using ok by (auto simp: sched_ok_def run_ok_def)
qed

text \<open>A scheduler with context \<open>0x100\<close> running, given ready and sleeping lists and alarms.\<close>

definition blank_ctx :: ctx where
  "blank_ctx = \<lparr>cx_esp = 0, cx_page_directory = 0, cx_present = True, cx_id = 0, cx_next = 0, cx_heap = 0,
     cx_user = False, cx_limit = 0, cx_files = [], cx_priority = 2, cx_alarm = 0, cx_slices = 0\<rparr>"

definition sched_example :: sched where
  "sched_example = \<lparr>ctxs = (\<lambda>_. blank_ctx)(0x200 := blank_ctx\<lparr>cx_next := 0x300\<rparr>,
       0x400 := blank_ctx\<lparr>cx_next := 0x500, cx_alarm := 3\<rparr>,
       0x500 := blank_ctx\<lparr>cx_next := 0x600, cx_alarm := 1\<rparr>, 0x600 := blank_ctx\<lparr>cx_alarm := 2\<rparr>),
     active_ctx = 0x100, next_ctx = 0x200, last_ctx = 0x300, ctx_id = 6, first_sleeping_ctx = 0x400,
     irq_disable_counter = 0, irqs_on = True\<rparr>"

lemma sched_example_ok: "sched_ok sched_example [0x200, 0x300] [0x400, 0x500, 0x600]"
  by (simp add: sched_ok_def run_ok_def sched_example_def blank_ctx_def)

text \<open>
  C7: round-robin fairness: from any state with a well-formed ready queue, repeated \<^verbatim>\<open>preempt\<close> never
  fails, rotates the queue of running and ready contexts, and so runs every context of it before
  any context has run twice; after as many preemptions as there are contexts the queue is as before.
\<close>
theorem preempt_fair:
  assumes "run_queue s q"
  shows "(\<forall>n. \<exists>s'. steps (preempt esp) n s = Inr s' \<and> run_queue s' (rotate n q)) \<and>
    (\<forall>c \<in> set q. \<exists>n < length q. \<exists>s'. steps (preempt esp) n s = Inr s' \<and> active_ctx s' = c) \<and>
    (\<exists>s'. steps (preempt esp) (length q) s = Inr s' \<and> run_queue s' q)"
proof (intro conjI allI ballI)
  show "\<exists>s'. steps (preempt esp) n s = Inr s' \<and> run_queue s' (rotate n q)" for n
    by (rule rr.steps_rotate [OF assms])
  show "\<exists>s'. steps (preempt esp) (length q) s = Inr s' \<and> run_queue s' q"
    by (rule rr.full_round [OF assms])
  fix c assume "c \<in> set q"
  from rr.runs_within [OF assms this, of esp] obtain n s' where "n < length q"
    "steps (preempt esp) n s = Inr s'" "run_queue s' (rotate n q)" "hd (rotate n q) = c" by blast
  then show "\<exists>n < length q. \<exists>s'. steps (preempt esp) n s = Inr s' \<and> active_ctx s' = c"
    by (auto simp: run_queue_def)
qed

theorem preempt_fair_witness:
  "\<exists>n s'. n < 3 \<and> steps (preempt 0) n sched_example = Inr s' \<and> active_ctx s' = 0x300"
proof -
  have "run_queue sched_example [0x100, 0x200, 0x300]"
    using sched_example_ok by (simp add: run_queue_def sched_ok_def) (simp add: sched_example_def)
  from preempt_fair [OF this, of 0] have "\<forall>c \<in> set [0x100, 0x200, 0x300]. \<exists>n < length [0x100, 0x200, 0x300 :: addr].
      \<exists>s'. steps (preempt 0) n sched_example = Inr s' \<and> active_ctx s' = c" by blast
  then have "\<exists>n < length [0x100, 0x200, 0x300 :: addr].
      \<exists>s'. steps (preempt 0) n sched_example = Inr s' \<and> active_ctx s' = 0x300" by (rule bspec) simp
  then show ?thesis by (simp add: numeral_3_eq_3)
qed

lemma create_context_appends:
  assumes "run_ok s q" and "p \<notin> set (active_ctx s # q)" and "p \<noteq> 0"
  shows "\<exists>s'. create_context p dir prio user lim i o' e s = Inr s' \<and> run_ok s' (q @ [p]) \<and>
    active_ctx s' = active_ctx s \<and> ctx_id s' = ctx_id s + 1 \<and> cx_id (ctxs s' p) = ctx_id s \<and>
    cx_page_directory (ctxs s' p) = dir \<and> cx_esp (ctxs s' p) = 0xFF8FFFEB \<and> cx_priority (ctxs s' p) = prio \<and>
    take 3 (cx_files (ctxs s' p)) = [std_file MODE_READ i, std_file MODE_WRITE o', std_file MODE_WRITE e] \<and>
    irq_disable_counter s' = irq_disable_counter s"
proof -
  let ?c = "(ctxs s p)\<lparr>cx_priority := prio, cx_heap := cx_heap (ctxs s (active_ctx s)),
    cx_present := True, cx_id := ctx_id s, cx_page_directory := dir, cx_slices := 0,
    cx_esp := TASK_STACK_BASE - 5 * 4, cx_limit := lim, cx_next := 0, cx_user := user,
    cx_files := [std_file MODE_READ i, std_file MODE_WRITE o', std_file MODE_WRITE e] @
      map (\<lambda>f. f\<lparr>f_mode := 0\<rparr>) (drop 3 (cx_files (ctxs s p)))\<rparr>"
  let ?s = "(lock_scheduler s)\<lparr>ctxs := (ctxs s)(p := ?c), ctx_id := ctx_id s + 1\<rparr>"
  have "run_ok ?s q" using assms(1,2) by (auto simp: run_ok_def lock_scheduler_def)
  moreover have "cx_next (ctxs ?s p) = 0" by simp
  ultimately obtain s1 where s1: "enqueue_ctx p ?s = Inr s1" "active_ctx s1 = active_ctx s" "run_ok s1 (q @ [p])"
    "ctxs s1 p = ?c"
    using enqueue_run_ok [of ?s q p] assms(2,3) by (auto simp: lock_scheduler_def)
  have st: "ctx_id s1 = ctx_id s + 1" "irq_disable_counter s1 = irq_disable_counter s + 1"
    using s1(1) by (auto simp: enqueue_ctx_def upd_ctx_def lock_scheduler_def split: if_splits)
  have "create_context p dir prio user lim i o' e s = Inr (unlock_scheduler s1)"
    using s1(1) assms(3) by (simp add: create_context_def upd_ctx_def Let_def lock_scheduler_def)
  then show ?thesis
    using s1 st by (auto simp: unlock_scheduler_def Let_def run_ok_def TASK_STACK_BASE_def)
qed

text \<open>
  \<^verbatim>\<open>create_context\<close> appends the new context to the ready queue, gives it the next id, three standard
  files and the stack pointer of a fresh task stack, and leaves the interrupt lock as it was.
\<close>
theorem create_context_correct:
  assumes "run_ok s q" and "p \<notin> set (active_ctx s # q)" and "p \<noteq> 0"
  shows "\<exists>s'. create_context p dir prio user lim i o' e s = Inr s' \<and> run_ok s' (q @ [p]) \<and>
    active_ctx s' = active_ctx s \<and> ctx_id s' = ctx_id s + 1 \<and> cx_id (ctxs s' p) = ctx_id s \<and>
    cx_page_directory (ctxs s' p) = dir \<and> cx_esp (ctxs s' p) = 0xFF8FFFEB \<and> cx_priority (ctxs s' p) = prio \<and>
    take 3 (cx_files (ctxs s' p)) = [std_file MODE_READ i, std_file MODE_WRITE o', std_file MODE_WRITE e] \<and>
    irq_disable_counter s' = irq_disable_counter s"
  using assms by (rule create_context_appends)

theorem create_context_correct_witness:
  "\<exists>s'. create_context 0x700 0x1000 1 True 0 0 0 0 sched_example = Inr s' \<and>
    run_ok s' [0x200, 0x300, 0x700] \<and> cx_id (ctxs s' 0x700) = 6"
proof -
  have "run_ok sched_example [0x200, 0x300]" using sched_example_ok by (simp add: sched_ok_def)
  from create_context_correct [OF this, of "0x700" "0x1000" 1 True 0 0 0 0] show ?thesis
    by (auto simp: sched_example_def)
qed



text \<open>
  \<^verbatim>\<open>sleep_millis\<close> with a ready context puts the running one in front of the sleepers with the given
  alarm and switches to the first ready one.
\<close>
theorem sleep_millis_correct:
  assumes "sched_ok s (c # cs) ss"
  shows "\<exists>s'. sleep_millis esp ms s = Inr s' \<and> active_ctx s' = c \<and> sched_ok s' cs (active_ctx s # ss) \<and>
    cx_alarm (ctxs s' (active_ctx s)) = ms"
proof -
  let ?a = "active_ctx s"
  let ?s = "(lock_scheduler s)\<lparr>first_sleeping_ctx := ?a,
    ctxs := (ctxs s)(?a := (ctxs s ?a)\<lparr>cx_next := first_sleeping_ctx s, cx_alarm := ms\<rparr>)\<rparr>"
  have a: "?a \<noteq> 0" "?a \<notin> set (c # cs)" "?a \<notin> set ss" using assms by (auto simp: sched_ok_def run_ok_def)
  have "run_ok ?s (c # cs)" using assms a by (auto simp: sched_ok_def run_ok_def lock_scheduler_def)
  from schedule_run_ok [OF this, of esp] obtain s' where s': "schedule esp ?s = Inr s'" "active_ctx s' = c"
    "run_ok s' cs" "first_sleeping_ctx s' = ?a" "\<forall>p. cx_next (ctxs s' p) = cx_next (ctxs ?s p)"
    "\<forall>p. cx_alarm (ctxs s' p) = cx_alarm (ctxs ?s p)" by auto
  have "chain (ctxs s') ?a (?a # ss) = chain (ctxs ?s) ?a (?a # ss)" by (rule chain_cong) (simp only: s'(5))
  moreover have "chain (ctxs ?s) ?a (?a # ss)" using assms a by (simp add: sched_ok_def)
  ultimately have "sched_ok s' cs (?a # ss)"
    using assms a s'(2-4) by (auto simp: sched_ok_def)
  moreover have "sleep_millis esp ms s = Inr s'"
    using s'(1) a(1) by (simp add: sleep_millis_def upd_ctx_def Let_def lock_scheduler_def)
  ultimately show ?thesis using s'(2,6) by (intro exI [of _ s']) simp
qed

theorem sleep_millis_correct_witness:
  "\<exists>s'. sleep_millis 0 50 sched_example = Inr s' \<and> active_ctx s' = 0x200 \<and>
    sched_ok s' [0x300] [0x100, 0x400, 0x500, 0x600]"
  using sleep_millis_correct [OF sched_example_ok, of 0 50] by (auto simp: sched_example_def)

text \<open>
  A wakeup can be lost: when the last ready context has been scheduled, \<^verbatim>\<open>next_ctx\<close> is null while
  \<^verbatim>\<open>last_ctx\<close> still points to it. A sleeper that wakes up then is linked behind \<^verbatim>\<open>last_ctx\<close>, leaves the
  list of sleepers, and is in no queue: later preemptions do not find it.
\<close>
theorem sleep_tick_lost_wakeup:
  "\<exists>s'. sleep_tick (sched_example\<lparr>next_ctx := 0, last_ctx := 0x100, first_sleeping_ctx := 0x600,
      ctxs := (\<lambda>_. blank_ctx)(0x600 := blank_ctx\<lparr>cx_alarm := 1\<rparr>)\<rparr>) = Some (Inr s') \<and>
    next_ctx s' = 0 \<and> first_sleeping_ctx s' = 0 \<and> preempt 0 s' = Inr s'"
  by (simp add: sleep_tick_def sleep_loop_wake Let_def sched_example_def blank_ctx_def preempt_def)

text \<open>
  The timer handler with nobody sleeping gives the running context as many ticks as its priority
  says: with more than one slice left it uses one up and returns, with interrupts as before; on the
  last one it preempts the context in favour of the first ready one.
\<close>
theorem timer_slice:
  assumes "run_ok s (c # cs)" and "first_sleeping_ctx s = 0"
    and "n = (if cx_slices (ctxs s (active_ctx s)) = 0 then ucast (cx_priority (ctxs s (active_ctx s)))
              else cx_slices (ctxs s (active_ctx s)))" and "0 < n"
  shows "\<exists>s'. handle_timer_enter esp s = Some (Inr (n = 1, s')) \<and>
    (if n = 1 then active_ctx s' = c \<and> run_ok s' (cs @ [active_ctx s]) \<and>
         irq_disable_counter s' = irq_disable_counter s + 1
     else active_ctx s' = active_ctx s \<and> run_ok s' (c # cs) \<and> cx_slices (ctxs s' (active_ctx s)) = n - 1 \<and>
         irq_disable_counter s' = irq_disable_counter s)"
proof -
  let ?a = "active_ctx s"
  let ?s = "(lock_scheduler s)\<lparr>ctxs := (ctxs s)(?a := use_slice (ctxs s ?a))\<rparr>"
  have a: "?a \<noteq> 0" "?a \<notin> set (c # cs)" using assms(1) by (auto simp: run_ok_def)
  have sl: "cx_slices (use_slice (ctxs s ?a)) = n - 1" using assms(3) by (simp add: use_slice_def Let_def)
  have ok: "run_ok ?s (c # cs)" using assms(1) a by (auto simp: run_ok_def lock_scheduler_def)
  have enter: "handle_timer_enter esp s = Some (if n - 1 > 0 then Inr (False, unlock_scheduler ?s)
      else rbind (preempt esp ?s) (\<lambda>s. Inr (True, s)))"
    using a sl assms(2)
    by (simp add: handle_timer_enter_def sleep_tick_def sleep_loop.simps lock_scheduler_def upd_ctx_def)
  show ?thesis
  proof (cases "n = 1")
    case True
    with preempt_run_ok [OF ok, of esp] enter show ?thesis by (auto simp: lock_scheduler_def)
  next
    case False
    then have "n - 1 > 0" by (simp flip: word_neq_0_conv)
    moreover have "run_ok (unlock_scheduler ?s) (c # cs)"
      using ok by (simp add: run_ok_def unlock_scheduler_def Let_def)
    ultimately show ?thesis
      using False enter sl by (auto simp: unlock_scheduler_def lock_scheduler_def Let_def)
  qed
qed

theorem timer_slice_witness:
  "\<exists>s'. handle_timer_enter 0 (sched_example\<lparr>first_sleeping_ctx := 0\<rparr>) = Some (Inr (False, s')) \<and>
    active_ctx s' = 0x100 \<and> cx_slices (ctxs s' 0x100) = 1"
proof -
  let ?s = "sched_example\<lparr>first_sleeping_ctx := 0\<rparr>"
  have "run_ok ?s [0x200, 0x300]" using sched_example_ok by (simp add: sched_ok_def run_ok_def)
  moreover have "(2 :: u32) = (if cx_slices (ctxs ?s (active_ctx ?s)) = 0 then ucast (cx_priority (ctxs ?s (active_ctx ?s)))
      else cx_slices (ctxs ?s (active_ctx ?s)))" by (simp add: sched_example_def blank_ctx_def)
  ultimately obtain s' where "handle_timer_enter 0 ?s = Some (Inr ((2 :: u32) = 1, s'))"
    "if (2 :: u32) = 1 then active_ctx s' = 0x200 \<and> run_ok s' ([0x300] @ [active_ctx ?s]) \<and>
         irq_disable_counter s' = irq_disable_counter ?s + 1
     else active_ctx s' = active_ctx ?s \<and> run_ok s' [0x200, 0x300] \<and> cx_slices (ctxs s' (active_ctx ?s)) = 2 - 1 \<and>
         irq_disable_counter s' = irq_disable_counter ?s"
    using timer_slice [of ?s "0x200" "[0x300]" 2 0] by auto
  moreover have "active_ctx ?s = 0x100" by (simp add: sched_example_def)
  ultimately show ?thesis by (intro exI [of _ s']) simp
qed

end
