(* ===== verification/Syscalls.thy ===== *)
theory Syscalls
  imports Kheap_Chunks Scheduler Vfs
begin

unbundle bit_operations_syntax

text \<open>
  \<^verbatim>\<open>src/kernel/syscall.c\<close> and \<^verbatim>\<open>src/kernel/userspace.c\<close>: the checks of pointers that user programs
  pass in, the system calls, and the hand-over to user mode. The state joins the machine with the
  heap, the contexts and the file tree. The function pointers of an inode are fields of \<open>drivers\<close>,
  an argument of the calls that use them. Log messages are not part of the state.
\<close>

record os =
  o_kern :: kernel
  o_sched :: sched
  o_vfs :: vfs

definition o_mach :: "os \<Rightarrow> machine" where
  "o_mach os = k_mach (o_kern os)"

record drivers =
  dr_transfer :: "addr \<Rightarrow> u32 \<Rightarrow> u32 \<Rightarrow> addr \<Rightarrow> data_dir \<Rightarrow> os \<Rightarrow> (u32 \<times> os) result"
  dr_truncate :: "addr \<Rightarrow> os \<Rightarrow> os result"
  dr_register :: "addr \<Rightarrow> addr \<Rightarrow> vfs \<Rightarrow> vfs"

abbreviation cur :: "os \<Rightarrow> ctx" where
  "cur os \<equiv> ctxs (o_sched os) (active_ctx (o_sched os))"

definition upd_cur :: "(ctx \<Rightarrow> ctx) \<Rightarrow> os \<Rightarrow> os result" where
  "upd_cur f os = rbind (upd_ctx (active_ctx (o_sched os)) f (o_sched os)) (\<lambda>s. Inr (os\<lparr>o_sched := s\<rparr>))"

definition upd_inode :: "addr \<Rightarrow> (vfs_inode \<Rightarrow> vfs_inode) \<Rightarrow> os \<Rightarrow> os result" where
  "upd_inode p f os = (if p = 0 then Inl OutOfBounds
     else Inr (os\<lparr>o_vfs := (o_vfs os)\<lparr>inodes := (inodes (o_vfs os))(p := f (inodes (o_vfs os) p))\<rparr>\<rparr>))"

section \<open>Pointers from user programs\<close>

text \<open>The two nested loops of \<^verbatim>\<open>clean_string\<close>; \<^verbatim>\<open>str\<close> walks through the string page by page.\<close>

partial_function (option) clean_scan :: "machine \<Rightarrow> addr \<Rightarrow> addr \<Rightarrow> bool result option" where
  "clean_scan m str page =
     (if str < page + PAGE_SIZE
      then case vload8 m str of
             Inl e \<Rightarrow> Some (Inl e)
           | Inr c \<Rightarrow> if c = 0 then Some (Inr True) else clean_scan m (str + 1) page
      else case check_user m (page + PAGE_SIZE) of
             Inl e \<Rightarrow> Some (Inl e)
           | Inr u \<Rightarrow> if \<not> u then Some (Inr False) else clean_scan m str (page + PAGE_SIZE))"

text \<open>The result is 0 for a refused string.\<close>

definition clean_string :: "machine \<Rightarrow> addr \<Rightarrow> addr result option" where
  "clean_string m str_a =
     (case check_user m (ALIGN_PG_DOWN str_a) of
        Inl e \<Rightarrow> Some (Inl e)
      | Inr u \<Rightarrow> if \<not> u then Some (Inr 0)
          else case clean_scan m str_a (ALIGN_PG_DOWN str_a) of
                 None \<Rightarrow> None
               | Some (Inl e) \<Rightarrow> Some (Inl e)
               | Some (Inr ok) \<Rightarrow> Some (Inr (if ok then str_a else 0)))"

text \<open>The loop of \<^verbatim>\<open>clean_data\<close>; it need not end when the last page of the address space is reached.\<close>

partial_function (option) clean_pages :: "machine \<Rightarrow> addr \<Rightarrow> addr \<Rightarrow> bool result option" where
  "clean_pages m pg stop =
     (if pg < stop
      then case check_user m pg of
             Inl e \<Rightarrow> Some (Inl e)
           | Inr u \<Rightarrow> if \<not> u then Some (Inr False) else clean_pages m (pg + PAGE_SIZE) stop
      else Some (Inr True))"

definition clean_data :: "machine \<Rightarrow> addr \<Rightarrow> u32 \<Rightarrow> addr result option" where
  "clean_data m data sz =
     (case clean_pages m (ALIGN_PG_DOWN data) (ALIGN_PG_UP (data + sz)) of
        None \<Rightarrow> None
      | Some (Inl e) \<Rightarrow> Some (Inl e)
      | Some (Inr ok) \<Rightarrow> Some (Inr (if ok then data else 0)))"

text \<open>The characters of the string at an address, as the kernel reads them afterwards.\<close>

partial_function (option) load_string :: "machine \<Rightarrow> addr \<Rightarrow> u8 list result option" where
  "load_string m p =
     (case vload8 m p of
        Inl e \<Rightarrow> Some (Inl e)
      | Inr c \<Rightarrow> if c = 0 then Some (Inr [])
          else Option.bind (load_string m (p + 1)) (\<lambda>r. Some (rbind r (\<lambda>cs. Inr (c # cs)))))"

section \<open>Entering user mode\<close>

text \<open>
  The call information of the next user program is guarded by \<^verbatim>\<open>runway_lock\<close>, from
  \<^verbatim>\<open>load_user_call_info\<close> to \<^verbatim>\<open>enter_ring3\<close>; \<^verbatim>\<open>tss[1]\<close> is the stack the processor switches to.
\<close>

record runway =
  runway_lock :: lock_simple
  userspace_runway :: addr
  ru_argc :: u32
  ru_argv :: addr
  tss1 :: addr

definition init_userspace :: "runway \<Rightarrow> runway" where
  "init_userspace r = r\<lparr>runway_lock := (runway_lock r)\<lparr>ls_stat := 0\<rparr>\<rparr>"

definition load_user_call_info :: "addr \<Rightarrow> u32 \<Rightarrow> addr \<Rightarrow> runway \<Rightarrow> runway result" where
  "load_user_call_info func_ptr argc_p argv_p r =
     (case lock_simple_acquire (runway_lock r) of
        None \<Rightarrow> Inl Spins
      | Some l \<Rightarrow> Inr (r\<lparr>runway_lock := l, userspace_runway := func_ptr, ru_argc := argc_p, ru_argv := argv_p\<rparr>))"

text \<open>What the code reads when it jumps is the runway as it is after the lock has been released.\<close>

definition enter_ring3 :: "sched \<Rightarrow> runway \<Rightarrow> sched \<times> runway" where
  "enter_ring3 s r = (unlock_scheduler s,
     r\<lparr>tss1 := TASK_STACK_BASE, runway_lock := lock_simple_release (runway_lock r)\<rparr>)"

section \<open>Memory: \<^verbatim>\<open>sbrk\<close>\<close>

lemma unat_PAGE_SIZE [simp]: "unat PAGE_SIZE = 4096"
  by (simp add: PAGE_SIZE_def)

lemma align_down_nat [simp]: "unat (ALIGN_PG_DOWN x) = unat x - unat x mod 4096"
  by (simp add: ALIGN_PG_DOWN_def unat_sub_u32 unat_mod)

lemma align_down_page: "ALIGN_PG_DOWN x = page_of x"
  by (simp add: word_unat_eq_iff)

text \<open>The number of the page an address lies in.\<close>

definition pgn :: "addr \<Rightarrow> nat" where
  "pgn x = unat x div 4096"

lemma align_down_less: "ALIGN_PG_DOWN x < ALIGN_PG_DOWN y \<longleftrightarrow> pgn x < pgn y"
  by (simp add: word_less_nat_alt pgn_def minus_mod_eq_div_mult)

lemma page_up:
  assumes "pgn x < pgn y"
  shows "pgn (x + PAGE_SIZE) = Suc (pgn x)"
proof -
  have "unat y div 4096 < 1048576" by (simp add: less_mult_imp_div_less)
  then have "unat x + 4096 < 4294967296" using assms unfolding pgn_def by linarith
  then show ?thesis by (simp add: pgn_def unat_add_u32)
qed

lemma page_down: "pgn y < pgn x \<Longrightarrow> pgn x = Suc (pgn (x - PAGE_SIZE))"
proof -
  assume "pgn y < pgn x"
  then have "4096 \<le> unat x" unfolding pgn_def by linarith
  then show ?thesis by (simp add: pgn_def unat_sub_u32 le_div_geq)
qed

text \<open>The loop that maps new pages; \<open>target\<close> is \<^verbatim>\<open>prev_limit + inc\<close>.\<close>

function sbrk_grow :: "machine \<Rightarrow> addr \<Rightarrow> addr \<Rightarrow> (addr \<times> machine) result" where
  "sbrk_grow m limit target =
     (if ALIGN_PG_DOWN (limit - 1) < ALIGN_PG_DOWN (target - 1)
      then let limit = limit + PAGE_SIZE in
           rbind (kpage_alloc (m_frames m)) (\<lambda>(f, fr).
           rbind (map_page (m\<lparr>m_frames := fr\<rparr>) (ALIGN_PG_DOWN (limit - 1)) f) (\<lambda>m.
           sbrk_grow m limit target))
      else Inr (limit, m))"
  by pat_completeness auto
termination
proof (relation "measure (\<lambda>(m, l, t). pgn (t - 1) - pgn (l - 1))", goal_cases)
  case (2 m limit target limit' p f fr m')
  then have "pgn (limit - 1) < pgn (target - 1)" by (simp add: align_down_less)
  moreover from page_up [OF this] have "pgn (limit' - 1) = Suc (pgn (limit - 1))"
    using 2(2) by (simp add: algebra_simps)
  ultimately show ?case by simp
qed simp

text \<open>The loop that gives pages back: it passes \<^verbatim>\<open>false\<close> for the status and does not unmap the page.\<close>

function sbrk_shrink :: "machine \<Rightarrow> addr \<Rightarrow> addr \<Rightarrow> (addr \<times> machine) result" where
  "sbrk_shrink m limit target =
     (if ALIGN_PG_DOWN (target - 1) < ALIGN_PG_DOWN (limit - 1)
      then let limit = limit - PAGE_SIZE in
           rbind (get_page_mapping m limit) (\<lambda>p.
           rbind (kpage_set_status p False (m_frames m)) (\<lambda>fr.
           sbrk_shrink (m\<lparr>m_frames := fr\<rparr>) limit target))
      else Inr (limit, m))"
  by pat_completeness auto
termination
proof (relation "measure (\<lambda>(m, l, t). pgn (l - 1) - pgn (t - 1))", goal_cases)
  case (2 m limit target limit' p fr)
  then have lt: "pgn (target - 1) < pgn (limit - 1)" by (simp add: align_down_less)
  from page_down [OF this] have "pgn (limit - 1) = Suc (pgn (limit' - 1))"
    unfolding 2(2) by (simp only: diff_right_commute [of limit 1])
  with lt show ?case by simp
qed simp

declare sbrk_grow.simps [simp del] sbrk_shrink.simps [simp del]

definition syscall_sbrk :: "u32 \<Rightarrow> os \<Rightarrow> (u32 \<times> os) result" where
  "syscall_sbrk inc os =
     (let prev_limit = cx_limit (cur os) in
      rbind (sbrk_grow (o_mach os) prev_limit (prev_limit + inc)) (\<lambda>(limit, m).
      rbind (sbrk_shrink m limit (prev_limit + inc)) (\<lambda>(limit, m).
      rbind (upd_cur (\<lambda>c. c\<lparr>cx_limit := prev_limit + inc\<rparr>)
        (os\<lparr>o_kern := (o_kern os)\<lparr>k_mach := m\<rparr>\<rparr>)) (\<lambda>os.
      Inr (prev_limit, os)))))"

section \<open>Files\<close>

text \<open>The loop over the file slots: the first with mode 0.\<close>

fun free_slot :: "vfile list \<Rightarrow> nat option" where
  "free_slot [] = None"
| "free_slot (f # fs) = (if f_mode f = 0 then Some 0 else map_option Suc (free_slot fs))"

definition open_inode :: "drivers \<Rightarrow> addr \<Rightarrow> u8 \<Rightarrow> os \<Rightarrow> (u32 \<times> os) result" where
  "open_inode d inode mode os =
     rbind (upd_inode inode (\<lambda>n. n\<lparr>in_refs := in_refs n + 1\<rparr>) os) (\<lambda>os.
     case free_slot (take FOPEN_MAX (cx_files (cur os))) of
       None \<Rightarrow> Inr (- 1, os)
     | Some i \<Rightarrow>
         rbind (upd_cur (\<lambda>c. c\<lparr>cx_files := (cx_files c)[i := \<lparr>f_inode = inode,
             f_pos = if mode AND MODE_APPEND \<noteq> 0 then in_size (inodes (o_vfs os) inode) else 0,
             f_mode = mode\<rparr>]\<rparr>) os) (\<lambda>os.
         rbind (if mode AND MODE_TRUNCATE \<noteq> 0 then dr_truncate d inode os else Inr os) (\<lambda>os.
         Inr (of_nat i, os))))"

definition syscall_open :: "drivers \<Rightarrow> addr \<Rightarrow> u32 \<Rightarrow> os \<Rightarrow> (u32 \<times> os) result option" where
  "syscall_open d path_ptr arg1 os =
     (let mode = ucast arg1 :: u8 in
      case clean_string (o_mach os) path_ptr of
        None \<Rightarrow> None
      | Some (Inl e) \<Rightarrow> Some (Inl e)
      | Some (Inr p) \<Rightarrow>
          if p = 0 then Some (Inr (- 1, os))
          else case load_string (o_mach os) p of
                 None \<Rightarrow> None
               | Some (Inl e) \<Rightarrow> Some (Inl e)
               | Some (Inr path) \<Rightarrow>
                   case vfs_open (dr_register d) path (o_vfs os) of
                     None \<Rightarrow> None
                   | Some (Inl e) \<Rightarrow> Some (Inl e)
                   | Some (Inr (inode, v)) \<Rightarrow>
                       if inode = 0 then Some (Inr (- 1, os\<lparr>o_vfs := v\<rparr>))
                       else Some (open_inode d inode mode (os\<lparr>o_vfs := v\<rparr>)))"

text \<open>Access to \<^verbatim>\<open>active_ctx->files[fd]\<close>; \<open>fd\<close> is a signed index into an array of 16 files.\<close>

definition get_file :: "u32 \<Rightarrow> os \<Rightarrow> vfile result" where
  "get_file fd os = (if unat fd < FOPEN_MAX then Inr (cx_files (cur os) ! unat fd) else Inl OutOfBounds)"

definition upd_file :: "u32 \<Rightarrow> (vfile \<Rightarrow> vfile) \<Rightarrow> os \<Rightarrow> os result" where
  "upd_file fd g os =
     rbind (get_file fd os) (\<lambda>f. upd_cur (\<lambda>c. c\<lparr>cx_files := (cx_files c)[unat fd := g f]\<rparr>) os)"

text \<open>
  \<^verbatim>\<open>transfer\<close>: the sign of the descriptor gives the direction. The most negative integer stays negative
  when negated and passes the test against \<^verbatim>\<open>FOPEN_MAX\<close>.
\<close>

definition syscall_transfer :: "drivers \<Rightarrow> u32 \<Rightarrow> u32 \<Rightarrow> addr \<Rightarrow> os \<Rightarrow> (u32 \<times> os) result option" where
  "syscall_transfer d arg0 sz data_ptr os =
     (let (dir, fd) = (if sint arg0 < 0 then (DIR_WRITE, - arg0) else (DIR_READ, arg0)) in
      if sint fd \<ge> int FOPEN_MAX then Some (Inr (- 1, os))
      else case clean_data (o_mach os) data_ptr sz of
             None \<Rightarrow> None
           | Some (Inl e) \<Rightarrow> Some (Inl e)
           | Some (Inr data) \<Rightarrow>
               if data = 0 then Some (Inr (- 1, os))
               else Some (rbind (get_file fd os) (\<lambda>f.
                      rbind (dr_transfer d (f_inode f) (f_pos f) sz data dir os) (\<lambda>(n, os).
                      rbind (upd_file fd (\<lambda>f. f\<lparr>f_pos := f_pos f + n\<rparr>) os) (\<lambda>os.
                      Inr (n, os))))))"

definition SEEK_SET :: u32 where "SEEK_SET = 0"
definition SEEK_CUR :: u32 where "SEEK_CUR = 1"
definition SEEK_END :: u32 where "SEEK_END = 2"

text \<open>Any other \<^verbatim>\<open>whence\<close> leaves the position. The descriptor is not checked.\<close>

definition syscall_seek :: "u32 \<Rightarrow> u32 \<Rightarrow> u32 \<Rightarrow> os \<Rightarrow> (u32 \<times> os) result" where
  "syscall_seek fd offset whence os =
     rbind (if whence = SEEK_SET then upd_file fd (\<lambda>f. f\<lparr>f_pos := offset\<rparr>) os
            else if whence = SEEK_CUR then upd_file fd (\<lambda>f. f\<lparr>f_pos := f_pos f + offset\<rparr>) os
            else if whence = SEEK_END
            then upd_file fd (\<lambda>f. f\<lparr>f_pos := in_size (inodes (o_vfs os) (f_inode f)) - 1 + offset\<rparr>) os
            else Inr os) (\<lambda>os.
     rbind (get_file fd os) (\<lambda>f. Inr (f_pos f, os)))"

definition syscall_close :: "u32 \<Rightarrow> os \<Rightarrow> (u32 \<times> os) result" where
  "syscall_close fd os =
     rbind (upd_file fd (\<lambda>f. f\<lparr>f_mode := 0, f_pos := 0\<rparr>) os) (\<lambda>os.
     rbind (get_file fd os) (\<lambda>f. let inode = f_inode f in
     rbind (upd_inode inode (\<lambda>n. n\<lparr>in_refs := in_refs n - 1\<rparr>) os) (\<lambda>os.
     rbind (if in_refs (inodes (o_vfs os) inode) = 0
            then rbind (kfree (o_kern os) (in_backend_data (inodes (o_vfs os) inode))) (\<lambda>k.
                 upd_inode inode (\<lambda>n. n\<lparr>in_present := False\<rparr>) (os\<lparr>o_kern := k\<rparr>))
            else Inr os) (\<lambda>os.
     rbind (upd_file fd (\<lambda>f. f\<lparr>f_inode := 0\<rparr>) os) (\<lambda>os.
     Inr (0, os))))))"

definition syscall_exit :: "u32 \<Rightarrow> os \<Rightarrow> os result" where
  "syscall_exit esp os = rbind (terminate esp (o_sched os)) (\<lambda>s. Inr (os\<lparr>o_sched := s\<rparr>))"

section \<open>Dispatch\<close>

text \<open>The table \<^verbatim>\<open>init_syscalls\<close> fills; the other ten entries are null.\<close>

datatype syscall = Sys_exit | Sys_sbrk | Sys_open | Sys_transfer | Sys_seek | Sys_close

definition init_syscalls :: "syscall option list" where
  "init_syscalls = [Some Sys_exit, Some Sys_sbrk, Some Sys_open, Some Sys_transfer, Some Sys_seek, Some Sys_close] @
     replicate 10 None"

text \<open>
  \<^verbatim>\<open>handle_syscall\<close>; \<open>args\<close> are the saved registers \<^verbatim>\<open>args[0]\<close> to \<^verbatim>\<open>args[3]\<close>. The result of a call
  that is made is its return value, which the caller leaves in the register.
\<close>

definition handle_syscall :: "drivers \<Rightarrow> u32 \<Rightarrow> u32 list \<Rightarrow> os \<Rightarrow> (u32 option \<times> os) result option" where
  "handle_syscall d esp args os =
     (if args ! 0 > 15 then Some (Inr (None, os))
      else case init_syscalls ! unat (args ! 0) of
             None \<Rightarrow> Some (Inr (None, os))
           | Some Sys_exit \<Rightarrow> Some (rbind (syscall_exit esp os) (\<lambda>os. Inr (None, os)))
           | Some Sys_sbrk \<Rightarrow> Some (map_sum id (map_prod Some id) (syscall_sbrk (args ! 1) os))
           | Some Sys_open \<Rightarrow>
               map_option (map_sum id (map_prod Some id)) (syscall_open d (args ! 1) (args ! 2) os)
           | Some Sys_transfer \<Rightarrow>
               map_option (map_sum id (map_prod Some id)) (syscall_transfer d (args ! 1) (args ! 2) (args ! 3) os)
           | Some Sys_seek \<Rightarrow> Some (map_sum id (map_prod Some id) (syscall_seek (args ! 1) (args ! 2) (args ! 3) os))
           | Some Sys_close \<Rightarrow> Some (map_sum id (map_prod Some id) (syscall_close (args ! 1) os)))"

section \<open>Growing the data segment\<close>

lemma sbrk_grow_result:
  assumes "tables_ok m" and "\<And>a. pgn (limit - 1) < pgn a \<Longrightarrow> pgn a \<le> pgn (target - 1) \<Longrightarrow> mappable m a"
    and "alloc_seq kpage_alloc (pgn (target - 1) - pgn (limit - 1)) (m_frames m) = Inr (as, fr)"
  shows "\<exists>limit' m'. sbrk_grow m limit target = Inr (limit', m') \<and> tables_ok m' \<and> m_frames m' = fr \<and>
    pgn (limit' - 1) = max (pgn (limit - 1)) (pgn (target - 1)) \<and>
    translate m' = (\<lambda>a. if pgn (limit - 1) < pgn a \<and> pgn a \<le> pgn (target - 1)
      then Some (page_of (as ! (pgn a - Suc (pgn (limit - 1)))) + offset_of a) else translate m a)"
  using assms
proof (induction "pgn (target - 1) - pgn (limit - 1)" arbitrary: m limit as)
  case 0
  then have "\<not> pgn (limit - 1) < pgn (target - 1)" by simp
  with 0 show ?case by (auto simp: sbrk_grow.simps [of m] align_down_less max_def fun_eq_iff)
next
  case (Suc n)
  let ?l = "limit + PAGE_SIZE"
  have lt: "pgn (limit - 1) < pgn (target - 1)" using Suc.hyps(2) by simp
  have l: "pgn (?l - 1) = Suc (pgn (limit - 1))" using page_up [OF lt] by (simp add: algebra_simps)
  obtain f fr1 bs where f: "kpage_alloc (m_frames m) = Inr (f, fr1)" "alloc_seq kpage_alloc n fr1 = Inr (bs, fr)"
    "as = f # bs" using Suc.prems(3) Suc.hyps(2) [symmetric] by auto
  let ?v = "ALIGN_PG_DOWN (?l - 1)" and ?m = "m\<lparr>m_frames := fr1\<rparr>"
  have v: "page_of ?v = page_of (?l - 1)" by (simp add: align_down_page)
  have pv: "page_of a = page_of ?v \<longleftrightarrow> pgn a = Suc (pgn (limit - 1))" for a
    using page_eq_iff [of a "?l - 1"] l by (simp add: pgn_def v)
  have map: "mappable ?m = mappable m" by (simp add: fun_eq_iff mappable_def)
  have "mappable m ?v" using pv [of ?v] lt by (intro Suc.prems(2)) auto
  with kspace.map_law [of ?m ?v f] Suc.prems(1) map obtain m1 where m1: "map_page ?m ?v f = Inr m1" "tables_ok m1"
    "mappable m1 = mappable m"
    "translate m1 = (\<lambda>a. if page_of a = page_of ?v then Some (page_of f + offset_of a) else translate ?m a)" by auto
  have "m_frames m1 = fr1"
    using m1(1) map_page_present [of ?m ?v f] Suc.prems(1) \<open>mappable m ?v\<close>
    by (auto simp: tables_ok_def mappable_def)
  moreover have n: "n = pgn (target - 1) - pgn (?l - 1)" using Suc.hyps(2) l by simp
  ultimately have al: "alloc_seq kpage_alloc (pgn (target - 1) - pgn (?l - 1)) (m_frames m1) = Inr (bs, fr)"
    using f(2) by simp
  from Suc.hyps(1) [OF n m1(2) _ al] Suc.prems(2) m1(3) l obtain limit' m' where r:
    "sbrk_grow m1 ?l target = Inr (limit', m')" "tables_ok m'" "m_frames m' = fr"
    "pgn (limit' - 1) = max (pgn (?l - 1)) (pgn (target - 1))"
    "translate m' = (\<lambda>a. if pgn (?l - 1) < pgn a \<and> pgn a \<le> pgn (target - 1)
      then Some (page_of (bs ! (pgn a - Suc (pgn (?l - 1)))) + offset_of a) else translate m1 a)" by auto
  have "sbrk_grow m limit target = Inr (limit', m')"
    using lt f(1) m1(1) r(1) by (simp add: sbrk_grow.simps [of m] align_down_less Let_def)
  moreover have "translate m' a = (if pgn (limit - 1) < pgn a \<and> pgn a \<le> pgn (target - 1)
      then Some (page_of (as ! (pgn a - Suc (pgn (limit - 1)))) + offset_of a) else translate m a)" for a
    using lt by (cases "pgn a = Suc (pgn (limit - 1))") (auto simp: r(5) m1(4) pv l f(3) nth_Cons')
  ultimately show ?case using r(2-4) l lt by (auto simp: max_def)
qed

text \<open>
  C10: growing the data segment with \<^verbatim>\<open>sbrk\<close>. If the tables of the new pages exist and enough frames can be
  allocated, the call returns the old limit and sets the new one; each new page, from the one after the
  old last byte's to the new last byte's, translates to a frame of its own that was free before and is
  marked as used, and every other translation is as before.
\<close>
theorem sbrk_grows:
  assumes "tables_ok (o_mach os)" and "wf_frames (m_frames (o_mach os))" and "active_ctx (o_sched os) \<noteq> 0"
    and "L = cx_limit (cur os)" and "pgn (L - 1) \<le> pgn (L + inc - 1)"
    and "\<And>a. pgn (L - 1) < pgn a \<Longrightarrow> pgn a \<le> pgn (L + inc - 1) \<Longrightarrow> mappable (o_mach os) a"
    and "alloc_seq kpage_alloc (pgn (L + inc - 1) - pgn (L - 1)) (m_frames (o_mach os)) = Inr (as, fr)"
  shows "\<exists>os'. syscall_sbrk inc os = Inr (L, os') \<and> cx_limit (cur os') = L + inc \<and> tables_ok (o_mach os') \<and>
    distinct as \<and> (\<forall>f \<in> set as. frame_status (m_frames (o_mach os)) f = Some False) \<and>
    frame_status (m_frames (o_mach os')) =
      (\<lambda>f. if f \<in> set as then Some True else frame_status (m_frames (o_mach os)) f) \<and>
    translate (o_mach os') = (\<lambda>a. if pgn (L - 1) < pgn a \<and> pgn a \<le> pgn (L + inc - 1)
      then Some (page_of (as ! (pgn a - Suc (pgn (L - 1)))) + offset_of a) else translate (o_mach os) a)"
proof -
  obtain limit' m' where g: "sbrk_grow (o_mach os) L (L + inc) = Inr (limit', m')" "tables_ok m'" "m_frames m' = fr"
    "pgn (limit' - 1) = max (pgn (L - 1)) (pgn (L + inc - 1))"
    "translate m' = (\<lambda>a. if pgn (L - 1) < pgn a \<and> pgn a \<le> pgn (L + inc - 1)
      then Some (page_of (as ! (pgn a - Suc (pgn (L - 1)))) + offset_of a) else translate (o_mach os) a)"
    using sbrk_grow_result [OF assms(1,6,7)] by blast
  have "sbrk_shrink m' limit' (L + inc) = Inr (limit', m')"
    using g(4) assms(5) by (simp add: sbrk_shrink.simps [of m'] align_down_less max_def)
  with g(1) assms(3) have "syscall_sbrk inc os = Inr (L, os\<lparr>o_kern := (o_kern os)\<lparr>k_mach := m'\<rparr>,
      o_sched := (o_sched os)\<lparr>ctxs := (ctxs (o_sched os))(active_ctx (o_sched os) := (cur os)\<lparr>cx_limit := L + inc\<rparr>)\<rparr>\<rparr>)"
    by (simp add: syscall_sbrk_def assms(4) upd_cur_def upd_ctx_def Let_def)
  with g(2,3,5) kpages.alloc_seq_fresh [OF assms(2,7)] show ?thesis by (auto simp: o_mach_def)
qed

text \<open>Giving memory back.\<close>

lemma sbrk_shrink_result:
  assumes "loopback m" and "wf_frames (m_frames m)" and "n = pgn (limit - 1) - pgn (target - 1)"
    and "\<And>k. 0 < k \<Longrightarrow> k \<le> n \<Longrightarrow>
      \<exists>p. translate m (limit - of_nat k * PAGE_SIZE) = Some p \<and> frame_status (m_frames m) (page_of p) \<noteq> None"
  shows "\<exists>limit' m'. sbrk_shrink m limit target = Inr (limit', m') \<and> translate m' = translate m \<and>
    (\<forall>f. frame_status (m_frames m') f = Some False \<longrightarrow> frame_status (m_frames m) f = Some False)"
  using assms
proof (induction n arbitrary: m limit)
  case 0
  then show ?case by (simp add: sbrk_shrink.simps [of m] align_down_less)
next
  case (Suc n)
  let ?l = "limit - PAGE_SIZE"
  have lt: "pgn (target - 1) < pgn (limit - 1)" using Suc.prems(3) by simp
  have l: "pgn (limit - 1) = Suc (pgn (?l - 1))"
    using page_down [OF lt] by (simp only: diff_right_commute [of limit 1])
  obtain p where p: "translate m ?l = Some p" "frame_status (m_frames m) (page_of p) \<noteq> None"
    using Suc.prems(4) [of 1] by auto
  from kpage_set_status_result [OF Suc.prems(2), of "page_of p"] p(2) obtain f where
    f: "kpage_set_status (page_of p) False (m_frames m) = Inr f"
    "frame_status f = (frame_status (m_frames m))(page_of p \<mapsto> True)" "wf_frames f" by fastforce
  let ?m = "m\<lparr>m_frames := f\<rparr>"
  have ex: "\<exists>q. translate ?m (?l - of_nat k * PAGE_SIZE) = Some q \<and> frame_status (m_frames ?m) (page_of q) \<noteq> None"
    if "0 < k" "k \<le> n" for k
    using Suc.prems(4) [of "Suc k"] that f(2) by (auto simp: algebra_simps)
  have "n = pgn (?l - 1) - pgn (target - 1)" using Suc.prems(3) l by simp
  from Suc.IH [OF _ _ this ex] Suc.prems(1) f(3) obtain limit' m' where r: "sbrk_shrink ?m ?l target = Inr (limit', m')"
    "translate m' = translate m" "\<forall>x. frame_status (m_frames m') x = Some False \<longrightarrow> frame_status f x = Some False"
    by auto
  have "get_page_mapping m ?l = Inr (page_of p)" using get_page_mapping_translate [OF Suc.prems(1), of ?l] p(1) by simp
  with lt f(1) r(1) have "sbrk_shrink m limit target = Inr (limit', m')"
    by (simp add: sbrk_shrink.simps [of m] align_down_less Let_def)
  with r(2,3) f(2) show ?case by (auto split: if_splits)
qed

text \<open>
  \<^verbatim>\<open>sbrk\<close> with a smaller limit gives nothing back: every frame that is free afterwards was free
  before, and all pages above the new limit stay mapped.
\<close>
theorem sbrk_shrink_keeps_memory:
  assumes "loopback (o_mach os)" and "wf_frames (m_frames (o_mach os))" and "active_ctx (o_sched os) \<noteq> 0"
    and "L = cx_limit (cur os)" and "n = pgn (L - 1) - pgn (L + inc - 1)" and "pgn (L + inc - 1) \<le> pgn (L - 1)"
    and "\<And>k. 0 < k \<Longrightarrow> k \<le> n \<Longrightarrow> \<exists>p. translate (o_mach os) (L - of_nat k * PAGE_SIZE) = Some p \<and>
      frame_status (m_frames (o_mach os)) (page_of p) \<noteq> None"
  shows "\<exists>os'. syscall_sbrk inc os = Inr (L, os') \<and> cx_limit (cur os') = L + inc \<and>
    translate (o_mach os') = translate (o_mach os) \<and>
    (\<forall>f. frame_status (m_frames (o_mach os')) f = Some False \<longrightarrow> frame_status (m_frames (o_mach os)) f = Some False)"
proof -
  have g: "sbrk_grow (o_mach os) L (L + inc) = Inr (L, o_mach os)"
    using assms(6) by (simp add: sbrk_grow.simps [of "o_mach os"] align_down_less)
  from sbrk_shrink_result [OF assms(1,2,5,7)] obtain limit' m' where
    r: "sbrk_shrink (o_mach os) L (L + inc) = Inr (limit', m')" "translate m' = translate (o_mach os)"
    "\<forall>f. frame_status (m_frames m') f = Some False \<longrightarrow> frame_status (m_frames (o_mach os)) f = Some False" by blast
  show ?thesis
    using g r assms(3) by (simp add: syscall_sbrk_def assms(4) upd_cur_def upd_ctx_def Let_def o_mach_def)
qed

section \<open>Checked pointers\<close>

text \<open>The page has a table, and its entry is present and carries the user bit.\<close>

definition user_accessible :: "machine \<Rightarrow> addr \<Rightarrow> bool" where
  "user_accessible m a \<longleftrightarrow> present (dir_entry m (PG_DIR_IDX a)) \<and>
     present (tbl_entry m (PG_DIR_IDX a) (PG_TBL_IDX a)) \<and> bit (tbl_entry m (PG_DIR_IDX a) (PG_TBL_IDX a)) 2"

lemma check_user_accessible:
  assumes "loopback m"
  shows "check_user m a = Inr True \<longleftrightarrow> user_accessible m a"
    and "present (dir_entry m (PG_DIR_IDX a)) \<Longrightarrow> check_user m a = Inr (user_accessible m a)"
  using assms by (auto simp: check_user_lookup user_accessible_def Let_def)

lemma check_user_page: "page_of a = page_of b \<Longrightarrow> check_user m a = check_user m b"
  by (simp add: page_eq_indices check_user_def get_page_entry_def)

lemma user_accessible_page: "page_of a = page_of b \<Longrightarrow> user_accessible m a = user_accessible m b"
  by (simp add: page_eq_indices user_accessible_def)

lemma user_accessible_load: "loopback m \<Longrightarrow> user_accessible m a \<Longrightarrow> \<exists>c. vload8 m a = Inr c"
  by (auto simp: user_accessible_def loopback_def vload8_def translate_def Let_def)

lemma nat_page_range: "4096 * q \<le> a \<and> a < 4096 * Suc e \<longleftrightarrow> q \<le> a div 4096 \<and> a div 4096 \<le> e" for a :: nat
  by auto

lemma clean_pages_result:
  assumes "loopback m" and "unat pg mod 4096 = 0" and "unat stop mod 4096 = 0" and "pg \<le> stop"
    and "\<And>a. pg \<le> a \<Longrightarrow> a < stop \<Longrightarrow> present (dir_entry m (PG_DIR_IDX a))"
  shows "clean_pages m pg stop = Some (Inr (\<forall>a. pg \<le> a \<longrightarrow> a < stop \<longrightarrow> user_accessible m a))"
  using assms(2-5)
proof (induction "pgn stop - pgn pg" arbitrary: pg)
  case 0
  then have "unat stop div 4096 \<le> unat pg div 4096" by (simp add: pgn_def)
  moreover have "unat pg \<le> unat stop" using "0.prems"(3) by (simp add: word_le_nat_alt)
  ultimately have "unat stop = unat pg"
    using "0.prems"(1,2) by (metis div_mult_mod_eq add_0_right div_le_mono le_antisym)
  then show ?case by (auto simp: clean_pages.simps word_unat_eq_iff [symmetric])
next
  case (Suc n)
  have lt: "pgn pg < pgn stop" using Suc.hyps(2) by simp
  then have pg: "pg < stop" by (rule contrapos_pp) (simp add: pgn_def div_le_mono word_le_nat_alt not_less)
  let ?p = "pg + PAGE_SIZE"
  note up = page_up [OF lt]
  have "unat pg + 4096 \<le> unat stop"
    using lt Suc.prems(1,2) div_mult_mod_eq [of "unat pg" 4096] div_mult_mod_eq [of "unat stop" 4096]
    unfolding pgn_def by linarith
  then have "unat pg + 4096 < 4294967296" using unat_u32_lt [of stop] by linarith
  then have p: "unat ?p = unat pg + 4096" by (simp add: unat_add_u32)
  have acc: "check_user m pg = Inr (user_accessible m pg)"
    by (rule check_user_accessible(2) [OF assms(1)]) (use Suc.prems(4) pg in auto)
  have range: "pg \<le> a \<and> a < stop \<longleftrightarrow> page_of a = page_of pg \<or> ?p \<le> a \<and> a < stop" for a
  proof -
    have "page_of a = page_of pg \<longleftrightarrow> unat pg \<le> unat a \<and> unat a < unat pg + 4096"
    proof -
      obtain q where q: "unat pg = 4096 * q" using Suc.prems(1) by auto
      show ?thesis using nat_page_range [of q "unat a" q] by (auto simp: page_eq_iff q)
    qed
    then show ?thesis
      using \<open>unat pg + 4096 \<le> unat stop\<close> by (auto simp: word_le_nat_alt word_less_nat_alt p)
  qed
  have IH: "clean_pages m ?p stop = Some (Inr (\<forall>a. ?p \<le> a \<longrightarrow> a < stop \<longrightarrow> user_accessible m a))"
  proof (rule Suc.hyps(1))
    show "n = pgn stop - pgn ?p" using Suc.hyps(2) up by simp
    show "unat ?p mod 4096 = 0" using Suc.prems(1) p by simp
    show "?p \<le> stop" using \<open>unat pg + 4096 \<le> unat stop\<close> by (simp add: word_le_nat_alt p)
  qed (use Suc.prems range in blast)+
  have "(\<forall>a. pg \<le> a \<longrightarrow> a < stop \<longrightarrow> user_accessible m a) \<longleftrightarrow>
      user_accessible m pg \<and> (\<forall>a. ?p \<le> a \<longrightarrow> a < stop \<longrightarrow> user_accessible m a)"
    using range user_accessible_page by blast
  with IH acc pg show ?case by (subst clean_pages.simps) auto
qed

lemma align_up_nat:
  assumes "unat x \<le> 4294963200"
  shows "unat (ALIGN_PG_UP x) mod 4096 = 0" and "unat x \<le> unat (ALIGN_PG_UP x)"
    and "unat (ALIGN_PG_UP x) < unat x + 4096" and "unat (ALIGN_PG_UP x) \<le> 4294963200"
proof -
  have m: "x mod PAGE_SIZE > 0 \<longleftrightarrow> unat x mod 4096 \<noteq> 0"
    by (simp add: word_less_nat_alt unat_mod)
  have "unat (ALIGN_PG_UP x) = (if unat x mod 4096 \<noteq> 0 then unat x - unat x mod 4096 + 4096 else unat x)"
    using assms by (auto simp: ALIGN_PG_UP_def m unat_add_u32)
  moreover obtain q r where "unat x = 4096 * q + r" "r < 4096"
    by (metis mod_less_divisor mult_div_mod_eq zero_less_numeral)
  ultimately show "unat (ALIGN_PG_UP x) mod 4096 = 0" and "unat x \<le> unat (ALIGN_PG_UP x)"
    and "unat (ALIGN_PG_UP x) < unat x + 4096" and "unat (ALIGN_PG_UP x) \<le> 4294963200"
    using assms by (auto split: if_splits)
qed

text \<open>
  \<^verbatim>\<open>clean_data\<close> on a range that ends below the last page of the address space, with tables for all its
  pages, accepts it iff every byte of every page the range touches is accessible to user programs. On
  a range that wraps around to a lower page it accepts without looking at any page, so a user program
  can have the kernel read or write kernel memory.
\<close>
theorem clean_data_behaviour:
  assumes "loopback m" and "data \<noteq> 0"
  shows "(unat data + unat sz \<le> 2 ^ 32 - 4096 \<and> 0 < sz \<and>
      (\<forall>a. pgn data \<le> pgn a \<and> pgn a \<le> pgn (data + sz - 1) \<longrightarrow> present (dir_entry m (PG_DIR_IDX a))) \<longrightarrow>
      clean_data m data sz = Some (Inr (if \<forall>a. pgn data \<le> pgn a \<and> pgn a \<le> pgn (data + sz - 1) \<longrightarrow> user_accessible m a
        then data else 0))) \<and>
    (ALIGN_PG_UP (data + sz) \<le> ALIGN_PG_DOWN data \<longrightarrow> clean_data m data sz = Some (Inr data))"
proof (intro conjI impI)
  assume *: "unat data + unat sz \<le> 2 ^ 32 - 4096 \<and> 0 < sz \<and>
      (\<forall>a. pgn data \<le> pgn a \<and> pgn a \<le> pgn (data + sz - 1) \<longrightarrow> present (dir_entry m (PG_DIR_IDX a)))"
  let ?lo = "ALIGN_PG_DOWN data" and ?hi = "ALIGN_PG_UP (data + sz)"
  have e: "unat (data + sz) = unat data + unat sz" and z: "0 < unat sz"
    using * by (simp_all add: unat_add_u32 word_less_nat_alt)
  then have e1: "unat (data + sz - 1) = unat data + unat sz - 1" by (simp add: unat_sub_u32)
  note up = align_up_nat [of "data + sz", unfolded e]
  have range: "?lo \<le> a \<and> a < ?hi \<longleftrightarrow> pgn data \<le> pgn a \<and> pgn a \<le> pgn (data + sz - 1)" for a
  proof -
    obtain q r where d: "unat data = 4096 * q + r" "r < 4096"
      by (metis mod_less_divisor mult_div_mod_eq zero_less_numeral)
    obtain h where h: "unat ?hi = 4096 * h" using up(1) * by auto
    have "(unat data + unat sz - 1) div 4096 = h - 1"
      using up(2,3) h * z by (intro div_nat_eqI) (auto simp: algebra_simps)
    moreover have "0 < h" using up(2) h * z by (cases h) auto
    ultimately have "h = Suc ((unat data + unat sz - 1) div 4096)" by simp
    with nat_page_range [of q "unat a" "(unat data + unat sz - 1) div 4096"] d h show ?thesis
      by (simp add: word_le_nat_alt word_less_nat_alt pgn_def e1)
  qed
  have "clean_pages m ?lo ?hi = Some (Inr (\<forall>a. ?lo \<le> a \<longrightarrow> a < ?hi \<longrightarrow> user_accessible m a))"
  proof (rule clean_pages_result [OF assms(1)])
    show "unat ?lo mod 4096 = 0" by (simp add: minus_mod_eq_mult_div)
    show "unat ?hi mod 4096 = 0" using up(1) * by simp
    show "?lo \<le> ?hi" using up(2) * by (simp add: word_le_nat_alt)
  qed (use * range in blast)
  then show "clean_data m data sz = Some (Inr (if \<forall>a. pgn data \<le> pgn a \<and> pgn a \<le> pgn (data + sz - 1) \<longrightarrow>
      user_accessible m a then data else 0))"
    using range by (simp add: clean_data_def) blast
next
  assume "ALIGN_PG_UP (data + sz) \<le> ALIGN_PG_DOWN data"
  then show "clean_data m data sz = Some (Inr data)"
    by (simp add: clean_data_def clean_pages.simps [of m "ALIGN_PG_DOWN data"] leD)
qed

text \<open>The string loop.\<close>

lemma load_string_step:
  "vload8 m p = Inr c \<Longrightarrow> c \<noteq> 0 \<Longrightarrow> load_string m (p + 1) = Some (Inr cs) \<Longrightarrow> load_string m p = Some (Inr (c # cs))"
  by (subst load_string.simps) simp

definition string_checked :: "machine \<Rightarrow> addr \<Rightarrow> bool" where
  "string_checked m str \<longleftrightarrow> (\<exists>cs. load_string m str = Some (Inr cs) \<and>
     (\<forall>i \<le> length cs. user_accessible m (str + of_nat i)))"

lemma string_checked_nul:
  "vload8 m str = Inr 0 \<Longrightarrow> user_accessible m str \<Longrightarrow> string_checked m str"
  unfolding string_checked_def by (intro exI [of _ "[]"]) (simp add: load_string.simps)

lemma string_checked_step:
  assumes "vload8 m str = Inr c" and "c \<noteq> 0" and "user_accessible m str" and "string_checked m (str + 1)"
  shows "string_checked m str"
proof -
  from assms(4) obtain cs where cs: "load_string m (str + 1) = Some (Inr cs)"
    "\<forall>i \<le> length cs. user_accessible m (str + 1 + of_nat i)" by (auto simp: string_checked_def)
  have "user_accessible m (str + of_nat i)" if "i \<le> length (c # cs)" for i
    using that cs(2) assms(3) by (cases i) (auto simp: add.assoc)
  with load_string_step [OF assms(1,2) cs(1)] show ?thesis by (auto simp: string_checked_def)
qed

text \<open>Where the loop stands: in the checked page, or at its end.\<close>

definition scan_at :: "machine \<Rightarrow> addr \<Rightarrow> addr \<Rightarrow> bool" where
  "scan_at m str page \<longleftrightarrow> unat page mod 4096 = 0 \<and> unat page \<le> unat str \<and> unat str \<le> unat page + 4096 \<and>
     user_accessible m page"

lemma page_end:
  assumes "unat page mod 4096 = 0"
  shows "page + PAGE_SIZE = 0 \<and> unat page = 4294963200 \<or>
    unat (page + PAGE_SIZE) = unat page + 4096 \<and> unat page + 4096 \<le> 4294963200"
proof -
  obtain q where q: "unat page = 4096 * q" using assms by auto
  then have "q < 1048576" using unat_u32_lt [of page] by linarith
  then show ?thesis
    using q by (cases "q = 1048575") (auto simp: word_unat_eq_iff unat_add_u32)
qed

lemma scan_at_page:
  assumes "scan_at m str page" and "unat str < unat page + 4096"
  shows "user_accessible m str"
proof -
  have "unat str div 4096 = unat page div 4096"
    using assms unfolding scan_at_def by (intro div_nat_eqI) (auto simp: minus_mod_eq_mult_div)
  then show ?thesis
    using assms(1) user_accessible_page [of str page m] by (simp add: page_eq_iff scan_at_def)
qed

lemma clean_scan_step:
  assumes IH: "\<And>str page r. f str page = Some r \<Longrightarrow> r = Inr True \<longrightarrow> unat page mod 4096 = 0 \<longrightarrow>
      unat str < 4294963200 \<and> (scan_at m str page \<longrightarrow> string_checked m str)"
    and "loopback m" and "unat page mod 4096 = 0"
    and ret: "(if str < page + PAGE_SIZE
      then case vload8 m str of Inl e \<Rightarrow> Some (Inl e)
           | Inr c \<Rightarrow> if c = 0 then Some (Inr True) else f (str + 1) page
      else case check_user m (page + PAGE_SIZE) of Inl e \<Rightarrow> Some (Inl e)
           | Inr u \<Rightarrow> if \<not> u then Some (Inr False) else f str (page + PAGE_SIZE)) = Some (Inr True)"
  shows "unat str < 4294963200 \<and> (scan_at m str page \<longrightarrow> string_checked m str)"
proof (cases "str < page + PAGE_SIZE")
  case True
  with page_end [OF assms(3)] have e: "unat str < unat page + 4096" "unat page + 4096 \<le> 4294963200"
    by (auto simp: word_less_nat_alt)
  obtain c where c: "vload8 m str = Inr c" "c = 0 \<or> c \<noteq> 0 \<and> f (str + 1) page = Some (Inr True)"
    using ret True by (auto split: sum.splits if_splits)
  have "string_checked m str" if s: "scan_at m str page"
  proof (cases "c = 0")
    case True
    with c(1) scan_at_page [OF s e(1)] show ?thesis by (simp add: string_checked_nul)
  next
    case False
    have "unat (str + 1) = Suc (unat str)" using e by (simp add: unat_add_u32)
    with s e have "scan_at m (str + 1) page" by (simp add: scan_at_def)
    with IH [of "str + 1" page] c False assms(3) have "string_checked m (str + 1)" by auto
    with c(1) False scan_at_page [OF s e(1)] show ?thesis by - (rule string_checked_step)
  qed
  with e show ?thesis by linarith
next
  case False
  then have u: "check_user m (page + PAGE_SIZE) = Inr True" and f: "f str (page + PAGE_SIZE) = Some (Inr True)"
    using ret by (auto split: sum.splits if_splits)
  have al: "unat (page + PAGE_SIZE) mod 4096 = 0"
    using page_end [OF assms(3)] by (rule disjE) (use assms(3) in simp_all)
  have acc: "user_accessible m (page + PAGE_SIZE)" using u check_user_accessible(1) [OF assms(2)] by simp
  from IH [OF f] al have r: "unat str < 4294963200" "scan_at m str (page + PAGE_SIZE) \<longrightarrow> string_checked m str" by auto
  moreover have "scan_at m str (page + PAGE_SIZE)" if s: "scan_at m str page"
    using page_end [OF assms(3)] s r(1) False al acc by (auto simp: scan_at_def word_less_nat_alt)
  ultimately show ?thesis by blast
qed

lemma clean_scan_result:
  assumes "clean_scan m str page = Some (Inr True)" and "loopback m" and "unat page mod 4096 = 0"
  shows "unat str < 4294963200 \<and> (scan_at m str page \<longrightarrow> string_checked m str)"
proof -
  let ?P = "\<lambda>m str page (r :: bool result). loopback m \<longrightarrow> r = Inr True \<longrightarrow> unat page mod 4096 = 0 \<longrightarrow>
    unat str < 4294963200 \<and> (scan_at m str page \<longrightarrow> string_checked m str)"
  have "?P m str page (Inr True)"
  proof (rule clean_scan.raw_induct [where P = ?P, OF _ assms(1)], intro impI, goal_cases)
    case (1 f m str page r)
    show ?case by (rule clean_scan_step [of "f m", OF _ 1(3,5)]) (use 1(1,3) in simp, use 1(2,4) in simp)
  qed
  with assms show ?thesis by simp
qed

text \<open>
  C11: a string that \<^verbatim>\<open>clean_string\<close> accepts ends in a NUL byte, can be read by the kernel without a fault,
  and each of its bytes, the terminator included, lies in a page that user programs may access.
\<close>
theorem clean_string_sound:
  assumes "loopback m" and "clean_string m str = Some (Inr p)" and "p \<noteq> 0"
  shows "p = str \<and> (\<exists>cs. load_string m str = Some (Inr cs) \<and> (\<forall>i \<le> length cs. user_accessible m (str + of_nat i)))"
proof -
  have c: "check_user m (ALIGN_PG_DOWN str) = Inr True" "clean_scan m str (ALIGN_PG_DOWN str) = Some (Inr True)" "p = str"
    using assms(2,3) by (auto simp: clean_string_def split: sum.splits option.splits if_splits)
  have al: "unat (ALIGN_PG_DOWN str) mod 4096 = 0" by (simp add: minus_mod_eq_mult_div)
  have "user_accessible m (ALIGN_PG_DOWN str)" using c(1) check_user_accessible(1) [OF assms(1)] by simp
  with al have "scan_at m str (ALIGN_PG_DOWN str)"
    using mod_less_divisor [of 4096 "unat str"] by (simp add: scan_at_def) 
  with clean_scan_result [OF c(2) assms(1) al] c(3) show ?thesis by (auto simp: string_checked_def)
qed

section \<open>File descriptors\<close>

lemma free_slot_Some: "free_slot fs = Some i \<Longrightarrow> i < length fs \<and> f_mode (fs ! i) = 0 \<and> (\<forall>j < i. f_mode (fs ! j) \<noteq> 0)"
proof (induction fs arbitrary: i)
  case (Cons f fs)
  then show ?case by (cases i) (auto simp: less_Suc_eq_0_disj split: if_splits)
qed simp

text \<open>
  Opening an inode takes the lowest free descriptor, which then stands at position 0, or at the end of
  the file in append mode; all other descriptors are untouched. Closing that descriptor frees it again and
  restores the inode's reference count, if the inode was already in use.
\<close>
theorem open_close_roundtrip:
  assumes "active_ctx (o_sched os) \<noteq> 0" and "inode \<noteq> 0" and "length (cx_files (cur os)) = FOPEN_MAX"
    and "free_slot (cx_files (cur os)) = Some i" and "mode AND MODE_TRUNCATE = 0"
    and "in_refs (inodes (o_vfs os) inode) \<noteq> 0"
  shows "\<exists>os1 os2. open_inode d inode mode os = Inr (of_nat i, os1) \<and>
    cx_files (cur os1) = (cx_files (cur os))[i := \<lparr>f_inode = inode,
      f_pos = if mode AND MODE_APPEND \<noteq> 0 then in_size (inodes (o_vfs os) inode) else 0, f_mode = mode\<rparr>] \<and>
    f_mode (cx_files (cur os) ! i) = 0 \<and> (\<forall>j < i. f_mode (cx_files (cur os) ! j) \<noteq> 0) \<and>
    syscall_close (of_nat i) os1 = Inr (0, os2) \<and> o_vfs os2 = o_vfs os \<and> o_kern os2 = o_kern os \<and>
    cx_files (cur os2) = (cx_files (cur os))[i := \<lparr>f_inode = 0, f_pos = 0, f_mode = 0\<rparr>]"
proof -
  note i = free_slot_Some [OF assms(4)]
  have n: "unat (of_nat i :: u32) = i" using i assms(3) by (intro unat_of_nat_u32) (simp add: FOPEN_MAX_def)
  have t: "free_slot (take FOPEN_MAX (cx_files (cur os))) = Some i" using assms(3,4) by simp
  define s1 where "s1 = (o_sched os)\<lparr>ctxs := (ctxs (o_sched os))(active_ctx (o_sched os) := (cur os)\<lparr>cx_files :=
    (cx_files (cur os))[i := \<lparr>f_inode = inode,
      f_pos = if mode AND MODE_APPEND \<noteq> 0 then in_size (inodes (o_vfs os) inode) else 0, f_mode = mode\<rparr>]\<rparr>)\<rparr>"
  define os1 where "os1 = os\<lparr>o_sched := s1, o_vfs := (o_vfs os)\<lparr>inodes := (inodes (o_vfs os))
    (inode := (inodes (o_vfs os) inode)\<lparr>in_refs := in_refs (inodes (o_vfs os) inode) + 1\<rparr>)\<rparr>\<rparr>"
  have "open_inode d inode mode os = Inr (of_nat i, os1)"
    using assms(1,2,5) t by (simp add: open_inode_def upd_inode_def upd_cur_def upd_ctx_def os1_def s1_def)
  moreover have "\<exists>os2. syscall_close (of_nat i) os1 = Inr (0, os2) \<and> o_vfs os2 = o_vfs os \<and> o_kern os2 = o_kern os \<and>
    cx_files (cur os2) = (cx_files (cur os))[i := \<lparr>f_inode = 0, f_pos = 0, f_mode = 0\<rparr>]"
    using assms i by (simp add: syscall_close_def upd_file_def get_file_def n upd_inode_def upd_cur_def upd_ctx_def
        os1_def s1_def Let_def)
  moreover have "cx_files (cur os1) = (cx_files (cur os))[i := \<lparr>f_inode = inode,
      f_pos = if mode AND MODE_APPEND \<noteq> 0 then in_size (inodes (o_vfs os) inode) else 0, f_mode = mode\<rparr>]"
    by (simp add: os1_def s1_def)
  ultimately show ?thesis using i by blast
qed

text \<open>
  \<^verbatim>\<open>seek\<close> and \<^verbatim>\<open>close\<close> take any number as a descriptor: from 16 on they access the context's file array
  out of bounds. \<^verbatim>\<open>transfer\<close> refuses 16 and above, but the most negative number is its own negation and
  passes, and every call with it that gets valid data accesses the array out of bounds.
\<close>
theorem descriptors_unchecked:
  "(FOPEN_MAX \<le> unat fd \<longrightarrow> syscall_close fd os = Inl OutOfBounds \<and> syscall_seek fd off whence os = Inl OutOfBounds) \<and>
   (clean_data (o_mach os) data sz = Some (Inr data) \<and> data \<noteq> 0 \<longrightarrow>
     syscall_transfer d 0x80000000 sz data os = Some (Inl OutOfBounds))"
  by (auto simp: syscall_close_def syscall_seek_def upd_file_def get_file_def syscall_transfer_def FOPEN_MAX_def)

section \<open>An example\<close>

definition os_example :: "machine \<Rightarrow> os" where
  "os_example m = \<lparr>o_kern = \<lparr>k_mach = m, k_heap = small_heap 0\<rparr>,
     o_sched = sched_example\<lparr>ctxs := \<lambda>_. blank_ctx\<lparr>cx_limit := 0x101000,
       cx_files := std_file MODE_READ 0x30 # replicate 15 (std_file 0 0)\<rparr>\<rparr>,
     o_vfs = vfs_example\<lparr>inodes := \<lambda>_. blank_inode\<lparr>in_refs := 1\<rparr>\<rparr>\<rparr>"

lemma os_example_simps [simp]:
  "o_mach (os_example m) = m" "active_ctx (o_sched (os_example m)) = 0x100"
  "ctxs (o_sched (os_example m)) = (\<lambda>_. blank_ctx\<lparr>cx_limit := 0x101000,
     cx_files := std_file MODE_READ 0x30 # replicate 15 (std_file 0 0)\<rparr>)"
  "in_refs (inodes (o_vfs (os_example m)) a) = 1"
  by (simp_all add: os_example_def o_mach_def sched_example_def)

definition no_drivers :: drivers where
  "no_drivers = \<lparr>dr_transfer = \<lambda>_ _ _ _ _ os. Inr (0, os), dr_truncate = \<lambda>_ os. Inr os, dr_register = \<lambda>_ _ v. v\<rparr>"

theorem open_close_roundtrip_witness:
  "\<exists>os1 os2. open_inode no_drivers 0x30 MODE_READ (os_example small_machine) = Inr (1, os1) \<and>
    syscall_close 1 os1 = Inr (0, os2) \<and> o_vfs os2 = o_vfs (os_example small_machine)"
proof -
  have fs: "free_slot (replicate 15 (std_file 0 0)) = Some 0" by (simp add: numeral_eq_Suc std_file_def)
  have "\<exists>os1 os2. open_inode no_drivers 0x30 MODE_READ (os_example small_machine) = Inr (of_nat 1, os1) \<and>
    syscall_close (of_nat 1) os1 = Inr (0, os2) \<and> o_vfs os2 = o_vfs (os_example small_machine)"
    using open_close_roundtrip [of "os_example small_machine" "0x30" 1 MODE_READ no_drivers] fs
    by (auto simp: FOPEN_MAX_def std_file_def MODE_defs)
  then show ?thesis by simp
qed

lemma small_mappable: "pgn a < 1024 \<Longrightarrow> mappable small_machine a"
proof -
  assume "pgn a < 1024"
  then have "PG_DIR_IDX a = 0" by (simp add: word_unat_eq_iff pgn_def dir_index_nat)
  then show ?thesis by (simp add: mappable_def small_dir)
qed

theorem sbrk_grows_witness:
  "\<exists>os'. syscall_sbrk 0x1000 (os_example small_machine) = Inr (0x101000, os') \<and> cx_limit (cur os') = 0x102000 \<and>
     translate (o_mach os') 0x101234 = Some 0x100234"
proof -
  have al: "kpage_alloc (one_region 0) = Inr (0x100000, one_region 1)" by code_simp
  have fr: "m_frames small_machine = one_region 0" by (simp add: small_machine_def)
  let ?os = "os_example small_machine"
  have p: "pgn (0x101000 - 1) = 0x100" "pgn (0x101000 + 0x1000 - 1) = 0x101" "pgn 0x101234 = 0x101"
    by (simp_all add: pgn_def)
  have "\<exists>os'. syscall_sbrk 0x1000 ?os = Inr (0x101000, os') \<and> cx_limit (cur os') = 0x101000 + 0x1000 \<and>
    translate (o_mach os') = (\<lambda>a. if pgn (0x101000 - 1) < pgn a \<and> pgn a \<le> pgn (0x101000 + 0x1000 - 1)
      then Some (page_of ([0x100000] ! (pgn a - Suc (pgn (0x101000 - 1)))) + offset_of a) else translate (o_mach ?os) a)"
    using sbrk_grows [of ?os "0x101000" "0x1000" "[0x100000]" "one_region 1"] small_ok small_mappable p al
    by (simp add: fr) blast
  then obtain os' where "syscall_sbrk 0x1000 ?os = Inr (0x101000, os')" "cx_limit (cur os') = 0x101000 + 0x1000"
    "translate (o_mach os') 0x101234 = Some (page_of 0x100000 + offset_of 0x101234)" using p by auto
  then show ?thesis by auto
qed

text \<open>The same machine with the page \<open>0x100000\<close> open to user programs.\<close>

definition user_machine :: machine where
  "user_machine = set_pte small_machine 0 256 0x100007"

lemma user_slot: "pte_slot small_machine 0 256"
  using mappable_slot [OF small_ok small_mappable [of "0x100000"]]
  by (simp add: pgn_def PG_DIR_IDX_def PG_TBL_IDX_def TEN_BITS_def)

lemma user_ok: "tables_ok user_machine" "loopback user_machine"
  using set_pte_ok [OF user_slot small_ok, of "0x100007"] by (auto simp: user_machine_def tables_ok_def)

lemma user_machine_page:
  assumes "pgn a = 256"
  shows "user_accessible user_machine a" and "translate user_machine a = Some (0x100000 + offset_of a)"
    and "present (dir_entry user_machine (PG_DIR_IDX a))"
proof -
  have i: "PG_DIR_IDX a = 0" "PG_TBL_IDX a = 256"
    using assms by (simp_all add: word_unat_eq_iff pgn_def dir_index_nat)
  have d: "present (dir_entry small_machine 0)" by (simp add: small_dir)
  have e: "dir_entry user_machine 0 = 0x2003" "tbl_entry user_machine 0 256 = 0x100007"
    using set_pte_dir [OF user_slot, of 0] set_pte_tbl [OF user_slot _ _ d, of 256]
    by (simp_all add: user_machine_def small_dir)
  then show "user_accessible user_machine a" "present (dir_entry user_machine (PG_DIR_IDX a))"
    by (simp_all add: user_accessible_def i bit_numeral_rec)
  show "translate user_machine a = Some (0x100000 + offset_of a)"
    using tables_paging [OF user_ok(1)] by (simp add: translate_def i e Let_def ADDR_MASK_def)
qed

lemma small_machine_page: "pgn a = 256 \<Longrightarrow> translate small_machine a = Some (0x100000 + offset_of a)"
proof -
  assume "pgn a = 256"
  then have "PG_DIR_IDX a = 0" "PG_TBL_IDX a = 256" by (simp_all add: word_unat_eq_iff pgn_def dir_index_nat)
  then show ?thesis using tables_paging [OF small_ok] by (simp add: translate_def small_dir small_tbl Let_def ADDR_MASK_def)
qed

theorem clean_data_behaviour_witness:
  "clean_data user_machine 0x100000 16 = Some (Inr 0x100000) \<and>
   clean_data user_machine 0xC0000000 0x40000000 = Some (Inr 0xC0000000)"
proof
  have p: "pgn 0x100000 = 256" "pgn (0x100000 + 16 - 1) = 256" by (simp_all add: pgn_def)
  have one: "pgn (0x100000) \<le> pgn a \<and> pgn a \<le> pgn (0x100000 + 16 - 1) \<longleftrightarrow> pgn a = 256" for a
    unfolding p by auto
  show "clean_data user_machine 0x100000 16 = Some (Inr 0x100000)"
    using clean_data_behaviour [OF user_ok(2), of "0x100000" 16] user_machine_page(1,3)
    unfolding one by simp
  show "clean_data user_machine 0xC0000000 0x40000000 = Some (Inr 0xC0000000)"
    using clean_data_behaviour [OF user_ok(2), of "0xC0000000" "0x40000000"]
    by (simp add: ALIGN_PG_UP_def ALIGN_PG_DOWN_def PAGE_SIZE_def)
qed

theorem clean_string_sound_witness:
  "\<exists>cs. load_string user_machine 0x100000 = Some (Inr cs) \<and>
     (\<forall>i \<le> length cs. user_accessible user_machine (0x100000 + of_nat i))"
proof -
  have p: "pgn 0x100000 = 256" by (simp add: pgn_def)
  have al: "ALIGN_PG_DOWN 0x100000 = 0x100000" by (simp add: ALIGN_PG_DOWN_def PAGE_SIZE_def)
  have "pmem user_machine 0x100000 = 0"
    by (simp add: user_machine_def set_pte_def small_dir) (simp add: small_machine_def store32_def slot_def ADDR_MASK_def)
  then have "vload8 user_machine 0x100000 = Inr 0"
    using user_machine_page(2) [OF p] by (simp add: vload8_def)
  moreover have "check_user user_machine 0x100000 = Inr True"
    using check_user_accessible(1) [OF user_ok(2)] user_machine_page(1) [OF p] by simp
  ultimately have "clean_string user_machine 0x100000 = Some (Inr 0x100000)"
    by (simp add: clean_string_def al clean_scan.simps [of user_machine "0x100000"] PAGE_SIZE_def)
  from clean_string_sound [OF user_ok(2) this] show ?thesis by simp
qed

theorem descriptors_unchecked_witness:
  "syscall_close 16 (os_example user_machine) = Inl OutOfBounds \<and>
   syscall_transfer no_drivers 0x80000000 0x40000000 0xC0000000 (os_example user_machine) = Some (Inl OutOfBounds)"
proof -
  have "clean_data user_machine 0xC0000000 0x40000000 = Some (Inr 0xC0000000)"
    by (simp add: clean_data_def clean_pages.simps ALIGN_PG_UP_def ALIGN_PG_DOWN_def PAGE_SIZE_def)
  with descriptors_unchecked [of 16 "os_example user_machine" 0 0 "0xC0000000" "0x40000000" no_drivers]
  show ?thesis by (simp add: FOPEN_MAX_def)
qed

theorem sbrk_shrink_keeps_memory_witness:
  "\<exists>os'. syscall_sbrk (- 0x1000) (os_example small_machine) = Inr (0x101000, os') \<and>
     translate (o_mach os') 0x100008 = Some 0x100008"
proof -
  let ?os = "os_example small_machine"
  have fr: "m_frames small_machine = one_region 0" by (simp add: small_machine_def)
  have p: "pgn (0x101000 - 1) = 0x100" "pgn (0x101000 + (- 0x1000) - 1) = 0xFF" by (simp_all add: pgn_def)
  have lb: "loopback small_machine" using small_ok by (simp add: tables_ok_def)
  have t: "translate small_machine 0x100000 = Some 0x100000" "translate small_machine 0x100008 = Some 0x100008"
    using small_machine_page [of "0x100000"] small_machine_page [of "0x100008"] by (simp_all add: pgn_def)
  have st: "frame_status (one_region 0) 0x100000 = Some False" by code_simp
  have ex: "\<exists>p. translate small_machine (0x101000 - of_nat k * PAGE_SIZE) = Some p \<and>
      frame_status (one_region 0) (page_of p) \<noteq> None" if "0 < k" "k \<le> 1" for k
  proof -
    have "k = 1" using that by simp
    with t(1) st show ?thesis by (auto simp: PAGE_SIZE_def)
  qed
  have "\<exists>os'. syscall_sbrk (- 0x1000) ?os = Inr (0x101000, os') \<and> cx_limit (cur os') = 0x101000 + (- 0x1000) \<and>
      translate (o_mach os') = translate (o_mach ?os) \<and>
      (\<forall>f. frame_status (m_frames (o_mach os')) f = Some False \<longrightarrow> frame_status (m_frames (o_mach ?os)) f = Some False)"
  proof (rule sbrk_shrink_keeps_memory)
    show "1 = pgn (0x101000 - 1) - pgn (0x101000 + (- 0x1000) - 1)" unfolding p by simp
    show "pgn (0x101000 + (- 0x1000) - 1) \<le> pgn (0x101000 - 1)" unfolding p by simp
  qed (use lb ex in \<open>simp_all add: fr\<close>)
  then show ?thesis using t(2) by auto
qed

end
