(* ===== verification/Address_Space.thy ===== *)
theory Address_Space
  imports Syscalls
begin

unbundle bit_operations_syntax

text \<open>
  The part of \<^verbatim>\<open>src/common/paging.c\<close> that needs the heap, and \<^verbatim>\<open>scroll_unmap\<close> of \<^verbatim>\<open>src/common/scroll.c\<close>: mapping
  objects in physical memory, the page directories of new contexts, and the release of the lower half. A
  directory under construction (a manuscript) holds the virtual addresses of its tables, marked with
  \<^verbatim>\<open>MANUSCRIPT_BIND\<close>, until it is bound. Lists of scrolls are lists.
\<close>

section \<open>Objects in physical memory\<close>

definition map_phys_step :: "addr \<Rightarrow> addr \<Rightarrow> nat \<Rightarrow> machine \<Rightarrow> machine result" where
  "map_phys_step region first_pg i m = map_page m (region + of_nat i * PAGE_SIZE) (first_pg + of_nat i * PAGE_SIZE)"

definition map_phys_obj :: "addr \<Rightarrow> u32 \<Rightarrow> kernel \<Rightarrow> (addr \<times> kernel) result" where
  "map_phys_obj obj sz k =
     (let first_pg = ALIGN_PG_DOWN obj; limit_pg = ALIGN_PG_UP (obj + sz); n = (limit_pg - first_pg) div PAGE_SIZE in
      rbind (kmalloc_aligned_multi (k_heap k) n) (\<lambda>(region, h).
      rbind (rfold (map_phys_step region first_pg) (if first_pg < limit_pg then [0..<unat n] else []) (k_mach k)) (\<lambda>m.
      Inr (region + obj mod PAGE_SIZE, k\<lparr>k_mach := m, k_heap := h\<rparr>))))"

section \<open>Manuscripts\<close>

definition MANUSCRIPT_BIND :: u32 where "MANUSCRIPT_BIND = 0x400"
definition USER_STACK_BASE :: u32 where "USER_STACK_BASE = 0x1FFFFF"

definition kunmap :: "addr \<Rightarrow> kernel \<Rightarrow> kernel result" where
  "kunmap v k = rbind (unmap_page (k_mach k) v) (\<lambda>m. Inr (k\<lparr>k_mach := m\<rparr>))"

definition scroll_unmap :: "scroll \<Rightarrow> kernel \<Rightarrow> kernel result" where
  "scroll_unmap scr k =
     (if scr_type scr = SCROLL_ALIGNED then rbind (kfree k (scr_vaddr scr)) (kunmap (scr_page scr)) else Inr k)"

text \<open>One leaf of a manuscript: the table's virtual address is replaced by its physical one.\<close>

definition bind_leaf :: "addr \<Rightarrow> nat \<Rightarrow> kernel \<Rightarrow> kernel result" where
  "bind_leaf manuscript i k =
     (let leaf = manuscript + 4 * of_nat i in
      rbind (kload k leaf) (\<lambda>e.
      if e AND MANUSCRIPT_BIND = 0 then Inr k
      else let page_table = e AND ADDR_MASK in
           rbind (get_page_mapping (k_mach k) page_table) (\<lambda>table_paddr.
           rbind (kstore k leaf (e AND NOT ADDR_MASK)) (\<lambda>k.
           rbind (kload k leaf) (\<lambda>e.
           rbind (kstore k leaf (e OR table_paddr)) (\<lambda>k.
           rbind (kfree k page_table) (\<lambda>k.
           rbind (kunmap page_table k) (\<lambda>k.
           rbind (kload k leaf) (\<lambda>e.
           kstore k leaf (e AND NOT MANUSCRIPT_BIND)))))))))) "

definition bind_manuscript :: "addr \<Rightarrow> kernel \<Rightarrow> kernel result" where
  "bind_manuscript manuscript k =
     rbind (rfold (bind_leaf manuscript) [0..<1024] k) (\<lambda>k.
     rbind (kunmap manuscript k) (\<lambda>k. kfree k manuscript))"

section \<open>Page directories of contexts\<close>

definition store_leaf :: "addr \<Rightarrow> u32 \<Rightarrow> nat \<Rightarrow> kernel \<Rightarrow> kernel result" where
  "store_leaf table w i k = kstore k (table + 4 * of_nat i) w"

definition copy_leaf :: "addr \<Rightarrow> nat \<Rightarrow> kernel \<Rightarrow> kernel result" where
  "copy_leaf table i k = rbind (kload k (LOOPBACK_DIR + 4 * of_nat i)) (\<lambda>e. store_leaf table e i k)"

text \<open>The words the first switch to the context takes from its stack.\<close>

definition fill_stack :: "addr \<Rightarrow> addr \<Rightarrow> kernel \<Rightarrow> kernel result" where
  "fill_stack stack_vaddr func_ptr k =
     (let stack = stack_vaddr + TASK_STACK_BASE mod PAGE_SIZE in
      rbind (kstore k (stack - 4) func_ptr) (\<lambda>k.
      rbind (kstore k (stack - 8) 0) (\<lambda>k.
      rbind (kstore k (stack - 12) 0) (\<lambda>k.
      rbind (kstore k (stack - 16) 0) (\<lambda>k.
      kstore k (stack - 20) TASK_STACK_BASE)))))"

definition new_stack :: "addr \<Rightarrow> kernel \<Rightarrow> (scroll \<times> kernel) result" where
  "new_stack func_ptr k =
     rbind (kmalloc_page k) (\<lambda>(stack_scr, k).
     rbind (fill_stack (scr_vaddr stack_scr) func_ptr k) (\<lambda>k.
     rbind (kunmap (scr_vaddr stack_scr) k) (\<lambda>k.
     rbind (kfree k (scr_vaddr stack_scr)) (\<lambda>k.
     Inr (stack_scr\<lparr>scr_vaddr := ALIGN_PG_DOWN TASK_STACK_BASE\<rparr>, k)))))"

text \<open>Entering a scroll's page in the manuscript, in a new table if its directory entry has none yet.\<close>

definition place_scroll :: "addr \<Rightarrow> scroll \<Rightarrow> kernel \<Rightarrow> kernel result" where
  "place_scroll directory scr k =
     (let leaf = directory + 4 * PG_DIR_IDX (scr_vaddr scr) in
      rbind (kload k leaf) (\<lambda>e.
      rbind (if e AND MANUSCRIPT_BIND \<noteq> 0 then Inr (e AND ADDR_MASK, k)
             else rbind (kmalloc_page k) (\<lambda>(table_scr, k).
                  rbind (kstore k leaf (create_paging_entry (scr_vaddr table_scr) True True True OR MANUSCRIPT_BIND)) (\<lambda>k.
                  rbind (rfold (store_leaf (scr_vaddr table_scr) 0) [0..<1024] k) (\<lambda>k.
                  Inr (scr_vaddr table_scr, k))))) (\<lambda>(table, k).
      kstore k (table + 4 * PG_TBL_IDX (scr_vaddr scr)) (create_paging_entry (scr_page scr) True True True))))"

definition finish_directory :: "scroll \<Rightarrow> scroll list \<Rightarrow> kernel \<Rightarrow> (addr \<times> kernel) result" where
  "finish_directory directory_scr scrs k =
     rbind (rfold (place_scroll (scr_vaddr directory_scr)) scrs k) (\<lambda>k.
     rbind (bind_manuscript (scr_vaddr directory_scr) k) (\<lambda>k.
     rbind (scroll_unmap directory_scr k) (\<lambda>k.
     Inr (scr_page directory_scr, k))))"

definition create_task_directory :: "addr \<Rightarrow> bool \<Rightarrow> scroll list \<Rightarrow> kernel \<Rightarrow> (addr \<times> kernel) result" where
  "create_task_directory func_ptr user scrs k =
     rbind (kmalloc_page k) (\<lambda>(directory_scr, k).
     let directory = scr_vaddr directory_scr in
     rbind (rfold (store_leaf directory 0) [0..<512] k) (\<lambda>k.
     rbind (rfold (copy_leaf directory) [512..<1024] k) (\<lambda>k.
     rbind (kstore k (directory + 4 * 1023) (create_paging_entry (scr_page directory_scr) True True False)) (\<lambda>k.
     rbind (new_stack func_ptr k) (\<lambda>(stack_scr, k).
     rbind (if user
            then rbind (kpage_alloc (m_frames (k_mach k))) (\<lambda>(page, f).
                 Inr ([\<lparr>scr_vaddr = ALIGN_PG_DOWN USER_STACK_BASE, scr_size = PAGE_SIZE, scr_type = SCROLL_ALIGNED, scr_page = page\<rparr>],
                   k\<lparr>k_mach := (k_mach k)\<lparr>m_frames := f\<rparr>\<rparr>))
            else Inr ([], k)) (\<lambda>(user_scrs, k).
     finish_directory directory_scr (user_scrs @ stack_scr # scrs) k))))))"

definition create_kernel_directory :: "addr \<Rightarrow> scroll list \<Rightarrow> kernel \<Rightarrow> (addr \<times> kernel) result" where
  "create_kernel_directory func_ptr scrs k =
     rbind (kmalloc_page k) (\<lambda>(directory_scr, k).
     let directory = scr_vaddr directory_scr in
     rbind (rfold (copy_leaf directory) [0..<512] k) (\<lambda>k.
     rbind (rfold (store_leaf directory 0) [512..<1023] k) (\<lambda>k.
     rbind (kstore k (directory + 4 * 1023) (create_paging_entry (scr_page directory_scr) True True False)) (\<lambda>k.
     rbind (new_stack func_ptr k) (\<lambda>(stack_scr, k).
     finish_directory directory_scr (stack_scr # scrs) k)))))"

section \<open>Releasing the lower half\<close>

text \<open>The loop over a table covers the first 512 of its 1024 entries, and its own frame is named by a virtual address.\<close>

definition set_kernel_frame :: "addr \<Rightarrow> kernel \<Rightarrow> kernel result" where
  "set_kernel_frame a k =
     rbind (kpage_set_status a True (m_frames (k_mach k))) (\<lambda>f. Inr (k\<lparr>k_mach := (k_mach k)\<lparr>m_frames := f\<rparr>\<rparr>))"

definition free_page :: "addr \<Rightarrow> nat \<Rightarrow> kernel \<Rightarrow> kernel result" where
  "free_page table j k =
     rbind (kload k (table + 4 * of_nat j)) (\<lambda>e.
     rbind (if is_present e then set_kernel_frame (e AND ADDR_MASK) k else Inr k) (\<lambda>k.
     store_leaf table 0 j k))"

definition free_table :: "nat \<Rightarrow> kernel \<Rightarrow> kernel result" where
  "free_table i k =
     rbind (kload k (LOOPBACK_DIR + 4 * of_nat i)) (\<lambda>e.
     if \<not> is_present e then Inr k
     else let table = LOOPBACK_TBL (of_nat i) in
          rbind (rfold (free_page table) [0..<512] k) (\<lambda>k.
          rbind (set_kernel_frame table k) (\<lambda>k.
          store_leaf LOOPBACK_DIR 0 i k)))"

definition free_lower_half :: "kernel \<Rightarrow> kernel result" where
  "free_lower_half k = rfold free_table [0..<512] k"

section \<open>Lists of scrolls in memory\<close>

text \<open>
  \<^verbatim>\<open>insert_scroll\<close> works on linked structures: the fields of a scroll at an address (the first is its virtual address), the constants of the enumeration
  as words. One iteration of its loop returns the values of \<^verbatim>\<open>first_scr\<close>, \<^verbatim>\<open>prev_scr\<close> and \<^verbatim>\<open>current_scr\<close>.
\<close>

abbreviation scr_size_at :: "addr \<Rightarrow> addr" where "scr_size_at s \<equiv> s + 4"
abbreviation scr_type_at :: "addr \<Rightarrow> addr" where "scr_type_at s \<equiv> s + 8"
abbreviation scr_page_at :: "addr \<Rightarrow> addr" where "scr_page_at s \<equiv> s + 12"
abbreviation scr_next_at :: "addr \<Rightarrow> addr" where "scr_next_at s \<equiv> s + 16"

definition SCROLL_BYTES :: u32 where "SCROLL_BYTES = 20"
definition SCROLL_ALIGNED_WORD :: u32 where "SCROLL_ALIGNED_WORD = 2"

definition remove_scroll :: "addr \<Rightarrow> addr \<Rightarrow> addr \<Rightarrow> kernel \<Rightarrow> (addr \<times> kernel) result" where
  "remove_scroll first_scr prev_scr current_scr k =
     (if prev_scr \<noteq> 0
      then rbind (kload k (scr_next_at current_scr)) (\<lambda>nx.
           rbind (kstore k (scr_next_at prev_scr) nx) (\<lambda>k.
           rbind (kfree k current_scr) (\<lambda>k. Inr (first_scr, k))))
      else rbind (kload k (scr_next_at first_scr)) (\<lambda>nx.
           rbind (kfree k current_scr) (\<lambda>k. Inr (nx, k))))"

definition split_scroll :: "u32 \<Rightarrow> u32 \<Rightarrow> u32 \<Rightarrow> u32 \<Rightarrow> addr \<Rightarrow> addr \<Rightarrow> kernel \<Rightarrow> kernel result" where
  "split_scroll scr_start scr_end cur_start cur_end first_scr current_scr k =
     rbind (kmalloc k SCROLL_BYTES) (\<lambda>(new_scr, k).
     rbind (kstore k new_scr scr_end) (\<lambda>k.
     rbind (kload k new_scr) (\<lambda>v.
     rbind (kstore k (scr_size_at new_scr) (cur_end - v)) (\<lambda>k.
     rbind (kload k (scr_type_at current_scr)) (\<lambda>t.
     rbind (kstore k (scr_type_at new_scr) t) (\<lambda>k.
     rbind (kload k (scr_type_at current_scr)) (\<lambda>t.
     rbind (if t = SCROLL_ALIGNED_WORD
            then rbind (kload k (scr_page_at current_scr)) (\<lambda>pg.
                 rbind (kload k new_scr) (\<lambda>v.
                 kstore k (scr_page_at new_scr) (pg + v - cur_start)))
            else Inr k) (\<lambda>k.
     rbind (kload k (scr_next_at first_scr)) (\<lambda>nx.
     rbind (kstore k (scr_next_at new_scr) nx) (\<lambda>k.
     rbind (kstore k (scr_next_at first_scr) new_scr) (\<lambda>k.
     kstore k (scr_size_at current_scr) (scr_start - cur_start))))))))))))"

definition insert_step :: "u32 \<Rightarrow> u32 \<Rightarrow> addr \<Rightarrow> addr \<Rightarrow> addr \<Rightarrow> kernel \<Rightarrow> (addr \<times> addr \<times> addr \<times> kernel) result" where
  "insert_step scr_start scr_end first_scr prev_scr current_scr k =
     rbind (kload k current_scr) (\<lambda>cur_start.
     rbind (kload k (scr_size_at current_scr)) (\<lambda>sz.
     let cur_end = cur_start + sz in
     rbind (if scr_start = cur_start \<and> scr_end = cur_end then remove_scroll first_scr prev_scr current_scr k
            else Inr (first_scr, k)) (\<lambda>(first_scr, k).
     if cur_start < scr_start \<and> scr_end < cur_end
     then rbind (split_scroll scr_start scr_end cur_start cur_end first_scr current_scr k) (\<lambda>k.
          Inr (first_scr, prev_scr, current_scr, k))
     else
       rbind (if cur_start < scr_start \<and> scr_start < cur_end
              then kstore k (scr_size_at current_scr) (scr_start - cur_start) else Inr k) (\<lambda>k.
       rbind (if cur_start < scr_end \<and> scr_end < cur_end
              then rbind (kstore k current_scr scr_end) (\<lambda>k.
                   rbind (kload k (scr_size_at current_scr)) (\<lambda>sz.
                   kstore k (scr_size_at current_scr) (sz - (scr_end - cur_start))))
              else Inr k) (\<lambda>k.
       rbind (kload k (scr_next_at current_scr)) (\<lambda>nx.
       Inr (first_scr, current_scr, nx, k)))))))"

partial_function (option) insert_loop ::
  "u32 \<Rightarrow> u32 \<Rightarrow> addr \<Rightarrow> addr \<Rightarrow> addr \<Rightarrow> kernel \<Rightarrow> (addr \<times> kernel) result option" where
  "insert_loop scr_start scr_end first_scr prev_scr current_scr k =
     (if current_scr = 0 then Some (Inr (first_scr, k))
      else case insert_step scr_start scr_end first_scr prev_scr current_scr k of
             Inl e \<Rightarrow> Some (Inl e)
           | Inr (first_scr, prev_scr, current_scr, k) \<Rightarrow> insert_loop scr_start scr_end first_scr prev_scr current_scr k)"

definition insert_scroll :: "addr \<Rightarrow> addr \<Rightarrow> kernel \<Rightarrow> (addr \<times> kernel) result" where
  "insert_scroll scr first_scr k =
     (if first_scr = 0 then Inr (scr, k)
      else rbind (kload k scr) (\<lambda>scr_start.
           rbind (kload k (scr_size_at scr)) (\<lambda>sz.
           rbind (loop_result (insert_loop scr_start (scr_start + sz) first_scr 0 first_scr k)) (\<lambda>(first_scr, k).
           rbind (kstore k (scr_next_at scr) first_scr) (\<lambda>k.
           Inr (scr, k))))))"

section \<open>Correctness of mapped objects\<close>

lemma page_index_nat:
  assumes "unat region = R * 4096" and "(R + n) * 4096 \<le> 0x100000000" and "i < n"
  shows "unat (region + of_nat i * PAGE_SIZE) = (R + i) * 4096"
proof -
  have "(R + i) * 4096 < (R + n) * 4096" using assms(3) by simp
  then have i: "(R + i) * 4096 < 0x100000000" using assms(2) by linarith
  then have "unat (of_nat i * PAGE_SIZE) = i * 4096" by (simp add: unat_word_ariths unat_of_nat_u32)
  then show ?thesis using assms(1) i by (simp add: unat_add_u32)
qed

lemma map_phys_loop:
  assumes "tables_ok m" and "unat region = R * 4096" and "(R + n) * 4096 \<le> 0x100000000" and "j \<le> n"
    and "\<And>a. R \<le> pgn a \<Longrightarrow> pgn a < R + n \<Longrightarrow> mappable m a"
  shows "\<exists>m'. rfold (map_phys_step region fp) [j..<n] m = Inr m' \<and> tables_ok m' \<and>
    translate m' = (\<lambda>a. if R + j \<le> pgn a \<and> pgn a < R + n
      then Some (page_of (fp + of_nat (pgn a - R) * PAGE_SIZE) + offset_of a) else translate m a)"
  using assms(1,4,5)
proof (induction "n - j" arbitrary: j m)
  case 0
  then show ?case by (auto simp: fun_eq_iff)
next
  case (Suc d)
  then have j: "j < n" by simp
  define v where "v = region + of_nat j * PAGE_SIZE"
  have v: "unat v = (R + j) * 4096" unfolding v_def by (rule page_index_nat [OF assms(2,3) j])
  then have pv: "page_of a = page_of v \<longleftrightarrow> pgn a = R + j" for a by (simp add: page_eq_iff pgn_def)
  have "pgn v = R + j" using v by (simp add: pgn_def)
  then have "mappable m v" using j by (intro Suc.prems(3)) auto
  with kspace.map_law [of m v "fp + of_nat j * PAGE_SIZE"] Suc.prems(1) obtain m1 where m1:
    "map_page m v (fp + of_nat j * PAGE_SIZE) = Inr m1" "tables_ok m1" "mappable m1 = mappable m"
    "translate m1 = (\<lambda>a. if page_of a = page_of v then Some (page_of (fp + of_nat j * PAGE_SIZE) + offset_of a) else translate m a)"
    by auto
  have "d = n - Suc j" using Suc.hyps(2) by simp
  from Suc.hyps(1) [OF this m1(2) Suc_leI [OF j]] Suc.prems(3) m1(3) obtain m' where
    r: "rfold (map_phys_step region fp) [Suc j..<n] m1 = Inr m'" "tables_ok m'"
      "translate m' = (\<lambda>a. if R + Suc j \<le> pgn a \<and> pgn a < R + n
        then Some (page_of (fp + of_nat (pgn a - R) * PAGE_SIZE) + offset_of a) else translate m1 a)" by auto
  have "rfold (map_phys_step region fp) [j..<n] m = Inr m'"
    unfolding upt_conv_Cons [OF j] using m1(1) r(1) by (simp add: map_phys_step_def v_def)
  moreover have "translate m' a = (if R + j \<le> pgn a \<and> pgn a < R + n
      then Some (page_of (fp + of_nat (pgn a - R) * PAGE_SIZE) + offset_of a) else translate m a)" for a
    using j by (cases "pgn a = R + j") (auto simp: r(3) m1(4) pv)
  ultimately show ?case using r(2) by auto
qed

text \<open>A byte of an object and its place in a region mapped page by page to the pages from \<open>fp\<close> on.\<close>

lemma mapped_byte:
  assumes "unat fp = F * 4096" and "(F + n) * 4096 \<le> 0x100000000"
    and "unat a = R * 4096 + q" and "unat b = F * 4096 + q" and "q < n * 4096"
  shows "R \<le> pgn a" and "pgn a < R + n" and "page_of (fp + of_nat (pgn a - R) * PAGE_SIZE) + offset_of a = b"
proof -
  have pg: "pgn a = R + q div 4096" and off: "unat a mod 4096 = q mod 4096" using assms(3) by (simp_all add: pgn_def)
  have qn: "q div 4096 < n" using assms(5) by (simp add: less_mult_imp_div_less)
  then show "R \<le> pgn a" "pgn a < R + n" by (simp_all add: pg)
  from page_index_nat [OF assms(1,2) qn]
  have "unat (page_of (fp + of_nat (q div 4096) * PAGE_SIZE)) = (F + q div 4096) * 4096" unfolding unat_page by simp
  moreover have "(F + q div 4096) * 4096 + q mod 4096 = unat b"
    using assms(4) div_mult_mod_eq [of q 4096] by (simp add: algebra_simps)
  moreover have "unat b < 0x100000000" using unat_u32_lt [of b] by simp
  ultimately have "unat (page_of (fp + of_nat (q div 4096) * PAGE_SIZE) + offset_of a) = unat b"
    using off by (simp add: unat_add_u32)
  then show "page_of (fp + of_nat (pgn a - R) * PAGE_SIZE) + offset_of a = b" by (simp only: word_unat_eq_iff pg) simp
qed

text \<open>
  C25: mapping an object in physical memory returns an address from which every byte of the object is reached, page
  offset included, and leaves the translation of every page outside the region it took from the heap as it was. The
  heap must have a run of pages, and these must have page tables.
\<close>
theorem map_phys_obj_correct:
  assumes "tables_ok (k_mach k)" and "0 < sz" and "unat obj + unat sz \<le> 0xFFFFF000"
    and "n = (ALIGN_PG_UP (obj + sz) - ALIGN_PG_DOWN obj) div PAGE_SIZE"
    and "kmalloc_aligned_multi (k_heap k) n = Inr (region, h)" and "unat region = R * 4096"
    and "(R + unat n) * 4096 \<le> 0x100000000"
    and "\<And>a. R \<le> pgn a \<Longrightarrow> pgn a < R + unat n \<Longrightarrow> mappable (k_mach k) a"
  shows "\<exists>r k'. map_phys_obj obj sz k = Inr (r, k') \<and> k_heap k' = h \<and> tables_ok (k_mach k') \<and>
    (\<forall>i < sz. translate (k_mach k') (r + i) = Some (obj + i)) \<and>
    (\<forall>a. pgn a < R \<or> R + unat n \<le> pgn a \<longrightarrow> translate (k_mach k') a = translate (k_mach k) a)"
proof -
  define fp lp where "fp = ALIGN_PG_DOWN obj" and "lp = ALIGN_PG_UP (obj + sz)"
  have s0: "0 < unat sz" using assms(2) by (simp add: word_less_nat_alt)
  have e: "unat (obj + sz) = unat obj + unat sz" using assms(3) by (simp add: unat_add_u32)
  then have "unat (obj + sz) \<le> 4294963200" using assms(3) by simp
  note up = align_up_nat [OF this, folded lp_def, unfolded e]
  obtain L where L: "unat lp = 4096 * L" using up(1) by (auto simp: mod_eq_0_iff_dvd elim: dvdE)
  define F where "F = unat obj div 4096"
  have fp: "unat fp = F * 4096" by (simp add: fp_def F_def minus_mod_eq_div_mult)
  have ob: "F * 4096 \<le> unat obj" "unat obj = F * 4096 + unat obj mod 4096" by (simp_all add: F_def)
  have FL: "F * 4096 < 4096 * L" using ob(1) up(2) s0 L by linarith
  then have lt: "fp < lp" using fp L by (simp add: word_less_nat_alt)
  have "unat (lp - fp) = (L - F) * 4096" using fp L FL by (simp add: unat_sub_u32 diff_mult_distrib)
  then have n: "unat n = L - F" by (simp add: assms(4) fp_def [symmetric] lp_def [symmetric] unat_div)
  have "F * 4096 < L * 4096" using FL by simp
  then have "F < L" by (simp only: mult_less_cancel2)
  then have LF: "(F + unat n) * 4096 = unat lp" using n L by simp
  from map_phys_loop [OF assms(1,6,7), of 0 fp] assms(8) obtain m' where
    m': "rfold (map_phys_step region fp) [0..<unat n] (k_mach k) = Inr m'" "tables_ok m'"
      "translate m' = (\<lambda>a. if R \<le> pgn a \<and> pgn a < R + unat n
        then Some (page_of (fp + of_nat (pgn a - R) * PAGE_SIZE) + offset_of a) else translate (k_mach k) a)" by auto
  define r where "r = region + obj mod PAGE_SIZE"
  have mo: "map_phys_obj obj sz k = Inr (r, k\<lparr>k_mach := m', k_heap := h\<rparr>)"
    using assms(4,5) lt m'(1) by (simp add: map_phys_obj_def fp_def [symmetric] lp_def [symmetric] Let_def r_def)
  have "translate m' (r + i) = Some (obj + i)" if "i < sz" for i
  proof -
    define q where "q = unat obj mod 4096 + unat i"
    have i: "unat i < unat sz" using that by (simp add: word_less_nat_alt)
    have qf: "F * 4096 + q = unat obj + unat i" using ob(2) by (simp add: q_def)
    then have q: "q < unat n * 4096" using i up(2) LF by (simp add: algebra_simps)
    then have "R * 4096 + q < 0x100000000" using assms(7) by (simp add: algebra_simps)
    then have ri: "unat (r + i) = R * 4096 + q" using assms(6) by (simp add: r_def q_def unat_add_u32 unat_mod)
    have oi: "unat (obj + i) = F * 4096 + q" using i assms(3) qf by (simp add: unat_add_u32)
    have "(F + unat n) * 4096 \<le> 0x100000000" using LF unat_u32_lt [of lp] by linarith
    from mapped_byte [OF fp this ri oi q] show ?thesis by (simp add: m'(3))
  qed
  with mo m'(2,3) show ?thesis by (auto simp: not_less)
qed

lemma small_low_mappable:
  assumes "16 \<le> pgn a" and "pgn a < 18"
  shows "mappable small_machine a"
proof -
  have "unat a < 18 * 4096" using assms(2) by (simp add: pgn_def div_less_iff_less_mult)
  then have "unat (PG_DIR_IDX a) = 0" by simp
  then have "PG_DIR_IDX a = 0" by (simp only: unat_eq_zero)
  then show ?thesis using small_dir [of 0] by (simp add: mappable_def)
qed

theorem map_phys_obj_correct_witness:
  "\<exists>r k'. map_phys_obj 0xFED00FF8 0x10 \<lparr>k_mach = small_machine, k_heap = small_heap 0\<lparr>hp_aligned_start := 0x10000\<rparr>\<rparr> = Inr (r, k') \<and>
     translate (k_mach k') (r + 9) = Some 0xFED01001"
proof -
  let ?k = "\<lparr>k_mach = small_machine, k_heap = small_heap 0\<lparr>hp_aligned_start := 0x10000\<rparr>\<rparr>"
  have n: "(2 :: u32) = (ALIGN_PG_UP (0xFED00FF8 + 0x10) - ALIGN_PG_DOWN 0xFED00FF8) div PAGE_SIZE" by code_simp
  have "kmalloc_aligned_multi (small_heap 0\<lparr>hp_aligned_start := 0x10000\<rparr>) 2 =
    Inr (0x10000, small_heap 3\<lparr>hp_aligned_start := 0x10000\<rparr>)" by code_simp
  then have a: "kmalloc_aligned_multi (k_heap ?k) 2 = Inr (0x10000, small_heap 3\<lparr>hp_aligned_start := 0x10000\<rparr>)" by simp
  have "\<exists>r k'. map_phys_obj 0xFED00FF8 0x10 ?k = Inr (r, k') \<and>
      k_heap k' = small_heap 3\<lparr>hp_aligned_start := 0x10000\<rparr> \<and> tables_ok (k_mach k') \<and>
      (\<forall>i < 0x10. translate (k_mach k') (r + i) = Some (0xFED00FF8 + i)) \<and>
      (\<forall>a. pgn a < 16 \<or> 16 + unat (2 :: u32) \<le> pgn a \<longrightarrow> translate (k_mach k') a = translate (k_mach ?k) a)"
    by (rule map_phys_obj_correct [OF _ _ _ n a]) (simp_all add: small_ok small_low_mappable)
  then obtain r k' where r: "map_phys_obj 0xFED00FF8 0x10 ?k = Inr (r, k')"
    "\<forall>i < 0x10. translate (k_mach k') (r + i) = Some (0xFED00FF8 + i)" by blast
  have "(9 :: u32) < 0x10" by simp
  with r(2) have "translate (k_mach k') (r + 9) = Some (0xFED00FF8 + 9)" by blast
  with r(1) show ?thesis by auto
qed

text \<open>
  \<^verbatim>\<open>scroll_unmap\<close> passes the physical page to \<^verbatim>\<open>unmap_page\<close>, which takes a virtual address: unless something is
  mapped there, no translation changes and the scroll's page stays mapped.
\<close>

lemma scroll_unmap_keeps:
  assumes "loopback (k_mach k)" and "\<not> present (dir_entry (k_mach k) (PG_DIR_IDX (scr_page scr)))"
    and "kfree k (scr_vaddr scr) = Inr k1" and "k_mach k1 = k_mach k" and "scr_type scr = SCROLL_ALIGNED"
  shows "\<exists>k'. scroll_unmap scr k = Inr k' \<and> translate (k_mach k') = translate (k_mach k)"
proof -
  have "unmap_page (k_mach k) (scr_page scr) = Inr (k_mach k)"
    using unmap_page_present [OF assms(1)] assms(2) by simp
  with assms(3-5) show ?thesis by (simp add: scroll_unmap_def kunmap_def)
qed

section \<open>Inserting a scroll\<close>

text \<open>A list of scrolls in memory, by the addresses of its nodes.\<close>

fun scroll_list :: "kernel \<Rightarrow> addr \<Rightarrow> addr list \<Rightarrow> bool" where
  "scroll_list k p [] \<longleftrightarrow> p = 0"
| "scroll_list k p (q # qs) \<longleftrightarrow> p = q \<and> q \<noteq> 0 \<and> (\<exists>nx. kload k (scr_next_at q) = Inr nx \<and> scroll_list k nx qs)"

definition scroll_apart :: "kernel \<Rightarrow> u32 \<Rightarrow> u32 \<Rightarrow> addr \<Rightarrow> bool" where
  "scroll_apart k s e q \<longleftrightarrow> (\<exists>v z. kload k q = Inr v \<and> kload k (scr_size_at q) = Inr z \<and>
     (e \<le> v \<or> v + z \<le> s) \<and> v < v + z)"

lemma insert_step_apart:
  assumes "scroll_apart k s e q" and "s < e" and "kload k (scr_next_at q) = Inr nx"
  shows "insert_step s e f p q k = Inr (f, q, nx, k)"
proof -
  from assms(1) obtain v z where v: "kload k q = Inr v" "kload k (scr_size_at q) = Inr z"
    "e \<le> v \<or> v + z \<le> s" "v < v + z" by (auto simp: scroll_apart_def)
  then have "\<not> (s = v \<and> e = v + z)" "\<not> (v < s \<and> e < v + z)" "\<not> (v < s \<and> s < v + z)" "\<not> (v < e \<and> e < v + z)"
    using assms(2) by auto
  then show ?thesis using v(1,2) assms(3) by (auto simp: insert_step_def)
qed

lemma insert_loop_apart:
  assumes "scroll_list k q qs" and "\<forall>x \<in> set qs. scroll_apart k s e x" and "s < e"
  shows "insert_loop s e f p q k = Some (Inr (f, k))"
  using assms
proof (induction qs arbitrary: p q)
  case Nil
  then show ?case by (simp add: insert_loop.simps)
next
  case (Cons x qs)
  then obtain nx where nx: "q = x" "x \<noteq> 0" "kload k (scr_next_at x) = Inr nx" "scroll_list k nx qs" by auto
  then have "insert_step s e f p x k = Inr (f, x, nx, k)" using Cons.prems by (auto intro: insert_step_apart)
  with nx Cons show ?case by (subst insert_loop.simps) simp
qed

text \<open>
  A scroll whose range meets no scroll of the list is put in front of the list: the search comes to an end,
  and its only write is the link of the new scroll.
\<close>
theorem insert_scroll_apart:
  assumes "scroll_list k f (q # qs)" and "\<forall>x \<in> set (q # qs). scroll_apart k s (s + z) x" and "s < s + z"
    and "kload k scr = Inr s" and "kload k (scr_size_at scr) = Inr z"
  shows "insert_scroll scr f k = rbind (kstore k (scr_next_at scr) f) (\<lambda>k. Inr (scr, k))"
proof -
  have "f \<noteq> 0" using assms(1) by auto
  with insert_loop_apart [OF assms(1-3), of f 0] assms(4,5) show ?thesis
    by (simp add: insert_scroll_def loop_result_def)
qed

end
