(* ===== verification/Acpi.thy ===== *)
theory Acpi
  imports Address_Space
begin

unbundle bit_operations_syntax

text \<open>
  \<^verbatim>\<open>src/common/acpi.c\<close>: the checksums of the ACPI tables, the search for a table by its signature and the move of the
  tables into the kernel's address space. Tables are read through the MMU at the offsets of their packed structures.
\<close>

section \<open>Layout\<close>

definition RSDP_CHECKSUM :: u32 where "RSDP_CHECKSUM = 8"
definition RSDP_OEM_ID :: u32 where "RSDP_OEM_ID = 9"
definition RSDP_REVISION :: u32 where "RSDP_REVISION = 15"
definition RSDP_RSDT_ADDRESS :: u32 where "RSDP_RSDT_ADDRESS = 16"
definition RSDP_LENGTH :: u32 where "RSDP_LENGTH = 20"
definition RSDP_XSDT_ADDRESS :: u32 where "RSDP_XSDT_ADDRESS = 24"
definition RSDP_EXTENDED_CHECKSUM :: u32 where "RSDP_EXTENDED_CHECKSUM = 32"
definition RSDP_RESERVED :: u32 where "RSDP_RESERVED = 33"
definition TAG_RSDP :: u32 where "TAG_RSDP = 8"
definition SDT_LENGTH :: u32 where "SDT_LENGTH = 4"
definition SDT_HEADER_BYTES :: u32 where "SDT_HEADER_BYTES = 36"

lemmas acpi_offsets = RSDP_CHECKSUM_def RSDP_OEM_ID_def RSDP_REVISION_def RSDP_RSDT_ADDRESS_def RSDP_LENGTH_def
  RSDP_XSDT_ADDRESS_def RSDP_EXTENDED_CHECKSUM_def RSDP_RESERVED_def

section \<open>Checksums\<close>

text \<open>A loop that adds the \<open>n\<close> bytes at an address to the sum, and one that adds the bytes of a word.\<close>

fun sum_array :: "machine \<Rightarrow> addr \<Rightarrow> nat \<Rightarrow> u8 \<Rightarrow> u8 result" where
  "sum_array m a 0 s = Inr s"
| "sum_array m a (Suc n) s = rbind (vload8 m a) (\<lambda>b. sum_array m (a + 1) n (s + b))"

fun sum_shifts :: "u32 \<Rightarrow> nat list \<Rightarrow> u8 \<Rightarrow> u8" where
  "sum_shifts w [] s = s"
| "sum_shifts w (i # is) s = sum_shifts w is (s + ucast (drop_bit i w AND 0xFF))"

text \<open>
  The second part adds the bytes of \<^verbatim>\<open>rsdt_address\<close> with shifts up to 56: a shift of a 32-bit value by 32 or more is
  undefined in C, and the processor takes the count modulo 32.
\<close>

definition verify_rsdp :: "machine \<Rightarrow> addr \<Rightarrow> bool result" where
  "verify_rsdp m rsdp =
     rbind (sum_array m rsdp 8 0) (\<lambda>sum.
     rbind (vload8 m (rsdp + RSDP_CHECKSUM)) (\<lambda>c.
     rbind (sum_array m (rsdp + RSDP_OEM_ID) 6 (sum + c)) (\<lambda>sum.
     rbind (vload8 m (rsdp + RSDP_REVISION)) (\<lambda>rev.
     rbind (vload32 m (rsdp + RSDP_RSDT_ADDRESS)) (\<lambda>rsdt.
     let sum = sum_shifts rsdt [0, 8, 16, 24] (sum + rev) in
     if sum \<noteq> 0 then Inr False
     else if rev = 2
     then rbind (vload32 m (rsdp + RSDP_LENGTH)) (\<lambda>len.
          let sum = sum_shifts rsdt (map (\<lambda>i. i mod 32) [0, 8, 16, 24, 32, 40, 48, 56]) (sum_shifts len [0, 8, 16, 24] 0) in
          rbind (vload8 m (rsdp + RSDP_EXTENDED_CHECKSUM)) (\<lambda>x.
          rbind (sum_array m (rsdp + RSDP_RESERVED) 3 (sum + x)) (\<lambda>sum.
          Inr (sum = 0))))
     else Inr True)))))"

definition find_rsdp :: "machine \<Rightarrow> addr \<Rightarrow> addr result" where
  "find_rsdp m tag_acpi =
     (let res = tag_acpi + TAG_RSDP in rbind (verify_rsdp m res) (\<lambda>ok. Inr (if ok then res else 0)))"

text \<open>The 64-bit address of the newer table is cut to a pointer.\<close>

definition find_rsdt :: "machine \<Rightarrow> addr \<Rightarrow> addr result" where
  "find_rsdt m rsdp =
     rbind (vload8 m (rsdp + RSDP_REVISION)) (\<lambda>rev.
     if rev = 0 then vload32 m (rsdp + RSDP_RSDT_ADDRESS) else vload32 m (rsdp + RSDP_XSDT_ADDRESS))"

definition verify_sdt :: "machine \<Rightarrow> addr \<Rightarrow> bool result" where
  "verify_sdt m sdt =
     rbind (vload32 m (sdt + SDT_LENGTH)) (\<lambda>len.
     rbind (sum_array m sdt (unat len) 0) (\<lambda>sum. Inr (sum = 0)))"

section \<open>Search\<close>

definition sdt_entries :: "machine \<Rightarrow> addr \<Rightarrow> u32 result" where
  "sdt_entries m rsdt = rbind (vload32 m (rsdt + SDT_LENGTH)) (\<lambda>len. Inr ((len - SDT_HEADER_BYTES) div 4))"

definition sdt_ptr_at :: "addr \<Rightarrow> nat \<Rightarrow> addr" where
  "sdt_ptr_at rsdt i = rsdt + SDT_HEADER_BYTES + 4 * of_nat i"

text \<open>All four bytes are compared, also after a difference.\<close>

fun signature_matches :: "machine \<Rightarrow> addr \<Rightarrow> u8 list \<Rightarrow> bool \<Rightarrow> bool result" where
  "signature_matches m a [] correct = Inr correct"
| "signature_matches m a (c # cs) correct =
     rbind (vload8 m a) (\<lambda>b. signature_matches m (a + 1) cs (if b \<noteq> c then False else correct))"

fun find_sdt_loop :: "machine \<Rightarrow> addr \<Rightarrow> u8 list \<Rightarrow> nat list \<Rightarrow> addr result" where
  "find_sdt_loop m rsdt sig [] = Inr 0"
| "find_sdt_loop m rsdt sig (i # is) =
     rbind (vload32 m (sdt_ptr_at rsdt i)) (\<lambda>header.
     rbind (signature_matches m header sig True) (\<lambda>correct_signature.
     if correct_signature then Inr header else find_sdt_loop m rsdt sig is))"

definition find_sdt :: "machine \<Rightarrow> addr \<Rightarrow> u8 list \<Rightarrow> addr result" where
  "find_sdt m rsdt_global sig =
     rbind (sdt_entries m rsdt_global) (\<lambda>entries. find_sdt_loop m rsdt_global sig [0..<unat entries])"

section \<open>Moving the tables\<close>

definition unmap_step :: "addr \<Rightarrow> nat \<Rightarrow> kernel \<Rightarrow> kernel result" where
  "unmap_step v i k = rbind (kunmap (v + of_nat i * PAGE_SIZE) k) (\<lambda>k. kfree k (v + of_nat i * PAGE_SIZE))"

definition unmap_header :: "addr \<Rightarrow> kernel \<Rightarrow> kernel result" where
  "unmap_header header k =
     (let v = ALIGN_PG_DOWN header; limit = ALIGN_PG_UP (header + SDT_HEADER_BYTES) in
      rfold (unmap_step v) (if v < limit then [0..<unat ((limit - v) div PAGE_SIZE)] else []) k)"

definition remap_sdt :: "addr \<Rightarrow> nat \<Rightarrow> kernel \<Rightarrow> kernel result" where
  "remap_sdt rsdt i k =
     rbind (kload k (sdt_ptr_at rsdt i)) (\<lambda>p.
     rbind (map_phys_obj p SDT_HEADER_BYTES k) (\<lambda>(header, k).
     rbind (kload k (header + SDT_LENGTH)) (\<lambda>len.
     rbind (unmap_header header k) (\<lambda>k.
     rbind (kload k (sdt_ptr_at rsdt i)) (\<lambda>p.
     rbind (map_phys_obj p len k) (\<lambda>(table, k).
     kstore k (sdt_ptr_at rsdt i) table))))))"

text \<open>The physical address and the length of the root table come from the trampoline; the result is \<^verbatim>\<open>rsdt_global\<close>.\<close>

definition reinit_acpi :: "addr \<Rightarrow> u32 \<Rightarrow> kernel \<Rightarrow> (addr \<times> kernel) result" where
  "reinit_acpi acpi_rsdt rsdt_len k =
     rbind (map_phys_obj acpi_rsdt rsdt_len k) (\<lambda>(rsdt_global, k).
     rbind (sdt_entries (k_mach k) rsdt_global) (\<lambda>entries.
     rbind (rfold (remap_sdt rsdt_global) [0..<unat entries] k) (\<lambda>k.
     Inr (rsdt_global, k))))"

section \<open>Words and their bytes\<close>

definition readable :: "machine \<Rightarrow> addr \<Rightarrow> nat \<Rightarrow> (nat \<Rightarrow> u8) \<Rightarrow> bool" where
  "readable m a n B \<longleftrightarrow> (\<forall>i < n. vload8 m (a + of_nat i) = Inr (B i))"

definition join_bytes :: "u8 \<Rightarrow> u8 \<Rightarrow> u8 \<Rightarrow> u8 \<Rightarrow> u32" where
  "join_bytes b0 b1 b2 b3 = ucast b0 OR push_bit 8 (ucast b1) OR push_bit 16 (ucast b2) OR push_bit 24 (ucast b3)"

lemma translate_in_page:
  assumes "translate m a = Some p" and "offset_of a \<le> 0xFFC" and "i < 4"
  shows "translate m (a + of_nat i) = Some (p + of_nat i)"
proof -
  have o: "unat a mod 4096 \<le> 0xFFC" using assms(2) by (simp add: word_le_nat_alt)
  have "unat a div 4096 * 4096 + unat a mod 4096 = unat a" by (rule div_mult_mod_eq)
  moreover have "unat a div 4096 < 1048576" using unat_u32_lt [of a] by (simp add: less_mult_imp_div_less)
  ultimately have "unat a + i < 0x100000000" using o assms(3) by linarith
  moreover have "unat (of_nat i :: u32) = i" using assms(3) by (simp add: unat_of_nat_u32)
  ultimately have u: "unat (a + of_nat i) = unat a + i" by (simp add: unat_add_u32)
  have "unat a mod 4096 + i < 4096" using o assms(3) by linarith
  note pp = page_nat_parts [OF this, of "unat a div 4096"]
  have "unat a + i = 4096 * (unat a div 4096) + (unat a mod 4096 + i)" using mult_div_mod_eq [of 4096 "unat a"] by linarith
  then have d: "(unat a + i) div 4096 = unat a div 4096" and r: "(unat a + i) mod 4096 = unat a mod 4096 + i"
    using pp by (simp_all only:)
  then have "page_of (a + of_nat i) = page_of a" by (simp add: page_eq_iff u)
  moreover have "offset_of (a + of_nat i) = offset_of a + of_nat i"
  proof -
    have "unat (offset_of a + of_nat i) = unat a mod 4096 + i"
      using o assms(3) by (simp add: unat_add_u32 unat_of_nat_u32)
    then show ?thesis using u r by (simp add: word_unat_eq_iff)
  qed
  ultimately show ?thesis using assms(1)
    by (auto simp: translate_def page_eq_indices Let_def add.assoc split: if_splits)
qed

lemma vload32_bytes:
  assumes "readable m a 4 B"
  shows "vload32 m a = Inr (join_bytes (B 0) (B 1) (B 2) (B 3))"
proof -
  have b: "vload8 m a = Inr (B 0)" "vload8 m (a + 1) = Inr (B 1)" "vload8 m (a + 2) = Inr (B 2)" "vload8 m (a + 3) = Inr (B 3)"
    using assms by (auto simp: readable_def dest: spec [of _ 0] spec [of _ 1] spec [of _ 2] spec [of _ 3])
  show ?thesis
  proof (cases "offset_of a \<le> 0xFFC")
    case False
    then show ?thesis by (simp add: vload32_def b join_bytes_def)
  next
    case True
    from b(1) obtain p where p: "translate m a = Some p" "pmem m p = B 0" by (auto simp: vload8_def split: option.splits)
    note t = translate_in_page [OF p(1) True]
    have "pmem m (p + 1) = B 1" "pmem m (p + 2) = B 2" "pmem m (p + 3) = B 3"
      using b(2-4) t [of 1] t [of 2] t [of 3] by (simp_all add: vload8_def)
    then show ?thesis using True p by (simp add: vload32_word load32_def join_bytes_def)
  qed
qed

lemma byte_of_join:
  "ucast (drop_bit 0 (join_bytes b0 b1 b2 b3) AND 0xFF) = b0" "ucast (drop_bit 8 (join_bytes b0 b1 b2 b3) AND 0xFF) = b1"
  "ucast (drop_bit 16 (join_bytes b0 b1 b2 b3) AND 0xFF) = b2" "ucast (drop_bit 24 (join_bytes b0 b1 b2 b3) AND 0xFF) = b3"
proof -
  have ff: "(0xFF :: u32) = mask 8" by (simp add: mask_eq_exp_minus_1)
  have m: "ucast (w AND 0xFF) = (ucast w :: u8)" for w :: u32
  proof (rule bit_eqI)
    fix n
    have "bit (0xFF :: u32) n \<longleftrightarrow> n < 8" unfolding ff by (auto simp: bit_mask_iff)
    then show "bit (ucast (w AND 0xFF) :: u8) n = bit (ucast w :: u8) n" by (auto simp: bit_simps)
  qed
  show "ucast (drop_bit 0 (join_bytes b0 b1 b2 b3) AND 0xFF) = b0" "ucast (drop_bit 8 (join_bytes b0 b1 b2 b3) AND 0xFF) = b1"
    "ucast (drop_bit 16 (join_bytes b0 b1 b2 b3) AND 0xFF) = b2" "ucast (drop_bit 24 (join_bytes b0 b1 b2 b3) AND 0xFF) = b3"
    unfolding m by (rule bit_eqI, auto simp: join_bytes_def bit_simps dest: bit_imp_le_length)+
qed

section \<open>What the checksums accept\<close>

lemma readable_part: "readable m a n B \<Longrightarrow> j + l \<le> n \<Longrightarrow> readable m (a + of_nat j) l (\<lambda>i. B (j + i))"
  by (auto simp: readable_def add.assoc simp flip: of_nat_add)

lemma readable_byte: "readable m a n B \<Longrightarrow> i < n \<Longrightarrow> vload8 m (a + of_nat i) = Inr (B i)"
  by (simp add: readable_def)

lemma sum_array_correct: "readable m a n B \<Longrightarrow> sum_array m a n s = Inr (s + (\<Sum>i < n. B i))"
proof (induction n arbitrary: a s B)
  case (Suc n)
  have "vload8 m a = Inr (B 0)" using readable_byte [OF Suc.prems, of 0] by simp
  moreover have "sum_array m (a + 1) n (s + B 0) = Inr (s + B 0 + (\<Sum>i < n. B (1 + i)))"
    using readable_part [OF Suc.prems, of 1 n] by (intro Suc.IH) simp
  ultimately show ?case by (simp add: sum.lessThan_Suc_shift add.assoc del: sum.lessThan_Suc)
qed simp

lemma sum_shifts_join:
  "sum_shifts (join_bytes b0 b1 b2 b3) [0, 8, 16, 24] s = s + (b0 + b1 + b2 + b3)"
  using byte_of_join [of b0 b1 b2 b3] by (simp add: add.assoc)

lemma sum_shifts_append: "sum_shifts w (is @ js) s = sum_shifts w js (sum_shifts w is s)"
  by (induction "is" arbitrary: s) simp_all

lemma sum_four: "(\<Sum>i = n..<n + 4. B i) = B n + B (n + 1) + B (n + 2) + B (n + 3)" for B :: "nat \<Rightarrow> u8"
  by (simp add: numeral_eq_Suc sum.atLeast_Suc_lessThan add.assoc)

definition checksum :: "(nat \<Rightarrow> u8) \<Rightarrow> nat \<Rightarrow> nat \<Rightarrow> u8" where
  "checksum B i j = (\<Sum>x = i..<j. B x)"

lemma checksum_split: "i \<le> j \<Longrightarrow> j \<le> l \<Longrightarrow> checksum B i j + checksum B j l = checksum B i l"
  by (simp add: checksum_def sum.atLeastLessThan_concat)

lemma sum_array_checksum:
  assumes "readable m a n B" and "j + l \<le> n"
  shows "sum_array m (a + of_nat j) l s = Inr (s + checksum B j (j + l))"
proof -
  have "(\<Sum>i < l. B (j + i)) = checksum B j (j + l)"
    unfolding checksum_def by (simp add: sum.shift_bounds_nat_ivl [of _ 0 j l, simplified, symmetric] lessThan_atLeast0 add.commute)
  then show ?thesis using sum_array_correct [OF readable_part [OF assms]] by simp
qed

lemma vload32_checksum:
  assumes "readable m a n B" and "j + 4 \<le> n"
  obtains w where "vload32 m (a + of_nat j) = Inr w" and "\<And>s. sum_shifts w [0, 8, 16, 24] s = s + checksum B j (j + 4)"
proof
  show "vload32 m (a + of_nat j) = Inr (join_bytes (B j) (B (j + 1)) (B (j + 2)) (B (j + 3)))"
    using vload32_bytes [OF readable_part [OF assms]] by simp
  show "sum_shifts (join_bytes (B j) (B (j + 1)) (B (j + 2)) (B (j + 3))) [0, 8, 16, 24] s = s + checksum B j (j + 4)" for s
    unfolding sum_shifts_join checksum_def sum_four ..
qed

text \<open>
  A root pointer of a revision other than 2 is accepted if and only if its first 20 bytes add up to zero, as the
  standard demands. For revision 2 the bytes of the length, twice the bytes of the 32-bit address, the second
  checksum and the reserved bytes must add up to zero too, where the standard has the sum of all 36 bytes.
\<close>
theorem verify_rsdp_correct:
  assumes "readable m rsdp 36 B"
  shows "verify_rsdp m rsdp = Inr (checksum B 0 20 = 0 \<and>
    (B 15 = 2 \<longrightarrow> checksum B 20 24 + 2 * checksum B 16 20 + checksum B 32 36 = 0))"
proof -
  note at = sum_array_checksum [OF assms] and byte = readable_byte [OF assms]
  have 1: "sum_array m rsdp 8 0 = Inr (checksum B 0 8)" using at [of 0 8 0] by simp
  have 2: "vload8 m (rsdp + RSDP_CHECKSUM) = Inr (B 8)" using byte [of 8] by (simp add: acpi_offsets)
  have 3: "sum_array m (rsdp + RSDP_OEM_ID) 6 s = Inr (s + checksum B 9 15)" for s
    using at [of 9 6] by (simp add: acpi_offsets)
  have 4: "vload8 m (rsdp + RSDP_REVISION) = Inr (B 15)" using byte [of 15] by (simp add: acpi_offsets)
  obtain w where w: "vload32 m (rsdp + RSDP_RSDT_ADDRESS) = Inr w" "\<And>s. sum_shifts w [0, 8, 16, 24] s = s + checksum B 16 20"
    using vload32_checksum [OF assms, of 16] by (auto simp: acpi_offsets)
  obtain l where l: "vload32 m (rsdp + RSDP_LENGTH) = Inr l" "\<And>s. sum_shifts l [0, 8, 16, 24] s = s + checksum B 20 24"
    using vload32_checksum [OF assms, of 20] by (auto simp: acpi_offsets)
  have 5: "vload8 m (rsdp + RSDP_EXTENDED_CHECKSUM) = Inr (B 32)" using byte [of 32] by (simp add: acpi_offsets)
  have 6: "sum_array m (rsdp + RSDP_RESERVED) 3 s = Inr (s + checksum B 33 36)" for s
    using at [of 33 3] by (simp add: acpi_offsets)
  have b: "B i = checksum B i (Suc i)" for i by (simp add: checksum_def)
  have first: "checksum B 0 8 + B 8 + checksum B 9 15 + B 15 + checksum B 16 20 = checksum B 0 20"
    unfolding b [of 8] b [of 15] by (simp add: checksum_split)
  have last: "B 32 + checksum B 33 36 = checksum B 32 36" unfolding b [of 32] by (simp add: checksum_split)
  have "map (\<lambda>i. i mod 32) [0, 8, 16, 24, 32, 40, 48, 56] = [0, 8, 16, 24] @ [0, 8, 16, 24 :: nat]" by simp
  then have twice: "sum_shifts w (map (\<lambda>i. i mod 32) [0, 8, 16, 24, 32, 40, 48, 56]) s = s + 2 * checksum B 16 20" for s
    by (simp only: sum_shifts_append w(2) mult_2 add.assoc)
  show ?thesis unfolding verify_rsdp_def Let_def 1 2 3 4 5 6 w l twice rbind_simps first
    using last by (simp add: add.assoc)
qed

definition bytes_machine :: "u8 list \<Rightarrow> machine" where
  "bytes_machine bs = \<lparr>pmem = (\<lambda>a. if unat a < length bs then bs ! unat a else 0), cr0 = 0, cr3 = 0, m_frames = one_region 0\<rparr>"

lemma readable_bytes_machine:
  "i + n \<le> length bs \<Longrightarrow> length bs \<le> 0x1000 \<Longrightarrow> readable (bytes_machine bs) (of_nat i) n (\<lambda>j. bs ! (i + j))"
  by (simp add: readable_def bytes_machine_def vload8_def translate_def paging_on_def unat_of_nat_u32 flip: of_nat_add)

text \<open>A root pointer with both checksums of the standard that is refused: address 1 of the old, 1 of the new table.\<close>

definition rsdp_example :: "u8 list" where
  "rsdp_example = [0x52, 0x53, 0x44, 0x20, 0x50, 0x54, 0x52, 0x20, 0x64, 0x4D, 0x55, 0x53, 0x45, 0x20, 0x20, 2,
     1, 0, 0, 0, 36, 0, 0, 0, 1, 0, 0, 0, 0, 0, 0, 0, 0xDB, 0, 0, 0]"

theorem verify_rsdp_correct_witness:
  "checksum ((!) rsdp_example) 0 20 = 0 \<and> checksum ((!) rsdp_example) 0 36 = 0 \<and>
   verify_rsdp (bytes_machine rsdp_example) 0 = Inr False"
proof -
  have c: "checksum ((!) rsdp_example) 0 20 = 0" "checksum ((!) rsdp_example) 0 36 = 0"
    "checksum ((!) rsdp_example) 20 24 + 2 * checksum ((!) rsdp_example) 16 20 + checksum ((!) rsdp_example) 32 36 = 1"
    "rsdp_example ! 15 = 2" by code_simp+
  have "readable (bytes_machine rsdp_example) 0 36 ((!) rsdp_example)"
    using readable_bytes_machine [of 0 36 rsdp_example] by (simp add: rsdp_example_def)
  from verify_rsdp_correct [OF this] c show ?thesis by simp
qed

text \<open>
  The search returns the address of the first table of the root table whose signature is the one asked for, and 0
  if there is none.
\<close>
theorem find_sdt_correct:
  assumes "vload32 m (rsdt + SDT_LENGTH) = Inr len" and "n = unat ((len - SDT_HEADER_BYTES) div 4)"
    and "\<And>i. i < n \<Longrightarrow> vload32 m (sdt_ptr_at rsdt i) = Inr (p i)"
    and "\<And>i. i < n \<Longrightarrow> readable m (p i) 4 (S i)" and "length sig = 4"
  shows "find_sdt m rsdt sig = Inr (case find (\<lambda>i. map (S i) [0..<4] = sig) [0..<n] of None \<Rightarrow> 0 | Some i \<Rightarrow> p i)"
proof -
  have sig: "signature_matches m a cs c = Inr (c \<and> map B [0..<length cs] = cs)" if "readable m a (length cs) B" for a cs c B
    using that
  proof (induction cs arbitrary: a c B)
    case (Cons x cs)
    have "vload8 m a = Inr (B 0)" using readable_byte [OF Cons.prems, of 0] by simp
    moreover have "readable m (a + 1) (length cs) (\<lambda>i. B (Suc i))" using readable_part [OF Cons.prems, of 1 "length cs"] by simp
    ultimately show ?case using Cons.IH
      by (simp add: upt_conv_Cons map_Suc_upt [symmetric] comp_def del: upt_Suc)
  qed simp
  have lp: "find_sdt_loop m rsdt sig is = Inr (case find (\<lambda>i. map (S i) [0..<4] = sig) is of None \<Rightarrow> 0 | Some i \<Rightarrow> p i)"
    if "set is \<subseteq> {..<n}" for "is"
    using that
  proof (induction "is")
    case (Cons i "is")
    then have "signature_matches m (p i) sig True = Inr (map (S i) [0..<4] = sig)"
      using sig [of "p i" sig "S i" True] assms(4) [of i] assms(5) by simp
    then show ?case using Cons assms(3) [of i] by (simp del: upt_Suc)
  qed simp
  have "set [0..<n] \<subseteq> {..<n}" by auto
  from lp [OF this] assms(1,2) show ?thesis by (simp add: find_sdt_def sdt_entries_def)
qed

text \<open>A root table with two entries, whose tables have the signatures FACP and HPET.\<close>

definition rsdt_example :: "u8 list" where
  "rsdt_example = [0x52, 0x53, 0x44, 0x54, 44, 0, 0, 0] @ replicate 28 0 @ [44, 0, 0, 0, 48, 0, 0, 0] @
     [0x46, 0x41, 0x43, 0x50, 0x48, 0x50, 0x45, 0x54]"

theorem find_sdt_correct_witness: "find_sdt (bytes_machine rsdt_example) 0 [0x48, 0x50, 0x45, 0x54] = Inr 48"
proof -
  let ?m = "bytes_machine rsdt_example" and ?p = "\<lambda>i. of_nat (44 + 4 * i) :: u32"
  let ?S = "\<lambda>i j. rsdt_example ! (44 + 4 * i + j)"
  have l: "vload32 ?m (0 + SDT_LENGTH) = Inr 44" by code_simp
  have n: "2 = unat ((44 - SDT_HEADER_BYTES) div 4)" by code_simp
  have p: "vload32 ?m (sdt_ptr_at 0 i) = Inr (?p i)" if "i < 2" for i
  proof -
    have "vload32 ?m (sdt_ptr_at 0 0) = Inr (?p 0)" "vload32 ?m (sdt_ptr_at 0 1) = Inr (?p 1)" by code_simp+
    moreover have "i = 0 \<or> i = 1" using that by auto
    ultimately show ?thesis by auto
  qed
  have r: "readable ?m (?p i) 4 (?S i)" if "i < 2" for i
    by (rule readable_bytes_machine) (use that in \<open>simp_all add: rsdt_example_def\<close>)
  have "find (\<lambda>i. map (?S i) [0..<4] = [0x48, 0x50, 0x45, 0x54]) [0..<2] = Some 1" by code_simp
  with find_sdt_correct [OF l n p r, of "[0x48, 0x50, 0x45, 0x54]"] show ?thesis by simp
qed

text \<open>
  A table is accepted if and only if the bytes of its length add up to zero.
\<close>
theorem verify_sdt_correct:
  assumes "readable m sdt n B" and "8 \<le> n" and "unat (join_bytes (B 4) (B 5) (B 6) (B 7)) = n"
  shows "verify_sdt m sdt = Inr (checksum B 0 n = 0)"
proof -
  have "vload32 m (sdt + SDT_LENGTH) = Inr (join_bytes (B 4) (B 5) (B 6) (B 7))"
    using vload32_bytes [OF readable_part [OF assms(1), of 4 4]] assms(2) by (simp add: SDT_LENGTH_def)
  then show ?thesis using sum_array_checksum [OF assms(1), of 0 n 0] assms(3) by (simp add: verify_sdt_def)
qed

theorem verify_sdt_correct_witness: "verify_sdt (bytes_machine [0xF8, 0, 0, 0, 8, 0, 0, 0]) 0 = Inr True"
proof -
  let ?bs = "[0xF8, 0, 0, 0, 8, 0, 0, 0] :: u8 list"
  have "readable (bytes_machine ?bs) 0 8 ((!) ?bs)" using readable_bytes_machine [of 0 8 ?bs] by simp
  moreover have "unat (join_bytes (?bs ! 4) (?bs ! 5) (?bs ! 6) (?bs ! 7)) = 8" "checksum ((!) ?bs) 0 8 = 0" by code_simp+
  ultimately show ?thesis using verify_sdt_correct [of "bytes_machine ?bs" 0 8 "(!) ?bs"] by simp
qed

end
