(* ===== verification/Multiboot.thy ===== *)
theory Multiboot
  imports Acpi
begin

unbundle bit_operations_syntax

text \<open>
  \<^verbatim>\<open>src/trampoline/multiboot.c\<close> and the part of \<^verbatim>\<open>src/trampoline/trampoline.c\<close> that reads the boot loader's
  information: the search for a tag, the memory map and the ACPI root pointer. The information is read through the
  MMU; \<^verbatim>\<open>trampoline_info\<close> is a record whose array of regions has a fixed length, apart from that memory.
\<close>

section \<open>Tags\<close>

definition MULTIBOOT2_BOOTLOADER_MAGIC :: u32 where "MULTIBOOT2_BOOTLOADER_MAGIC = 0x36d76289"
definition MULTIBOOT_TAG_TYPE_MMAP :: u32 where "MULTIBOOT_TAG_TYPE_MMAP = 6"
definition MULTIBOOT_TAG_TYPE_FRAMEBUFFER :: u32 where "MULTIBOOT_TAG_TYPE_FRAMEBUFFER = 8"
definition MULTIBOOT_TAG_TYPE_ELF_SECTIONS :: u32 where "MULTIBOOT_TAG_TYPE_ELF_SECTIONS = 9"
definition MULTIBOOT_TAG_TYPE_ACPI_OLD :: u32 where "MULTIBOOT_TAG_TYPE_ACPI_OLD = 14"
definition MULTIBOOT_TAG_TYPE_ACPI_NEW :: u32 where "MULTIBOOT_TAG_TYPE_ACPI_NEW = 15"
definition MULTIBOOT_MEMORY_AVAILABLE :: u32 where "MULTIBOOT_MEMORY_AVAILABLE = 1"

abbreviation tag_type_at :: "addr \<Rightarrow> addr" where "tag_type_at t \<equiv> t + 0"
abbreviation tag_size_at :: "addr \<Rightarrow> addr" where "tag_size_at t \<equiv> t + 4"

definition next_tag :: "addr \<Rightarrow> u32 \<Rightarrow> addr" where
  "next_tag tag sz = (let tag = tag + sz in if 0 < tag mod 8 then tag + 8 - tag mod 8 else tag)"

definition tag_step :: "machine \<Rightarrow> addr \<Rightarrow> u32 \<Rightarrow> addr \<Rightarrow> (bool \<times> addr) result" where
  "tag_step m multiboot ty tag =
     rbind (vload32 m multiboot) (\<lambda>total.
     if tag < multiboot + total
     then rbind (vload32 m (tag_type_at tag)) (\<lambda>t.
          if t = ty then Inr (False, tag)
          else rbind (vload32 m (tag_size_at tag)) (\<lambda>sz. Inr (True, next_tag tag sz)))
     else Inr (False, 0))"

partial_function (option) find_tag_loop :: "machine \<Rightarrow> addr \<Rightarrow> u32 \<Rightarrow> addr \<Rightarrow> addr result option" where
  "find_tag_loop m multiboot ty tag =
     (case tag_step m multiboot ty tag of
        Inl e \<Rightarrow> Some (Inl e)
      | Inr (go, tag) \<Rightarrow> if go then find_tag_loop m multiboot ty tag else Some (Inr tag))"

definition multiboot_find_tag :: "machine \<Rightarrow> addr \<Rightarrow> u32 \<Rightarrow> addr result" where
  "multiboot_find_tag m multiboot ty = loop_result (find_tag_loop m multiboot ty (multiboot + 8))"

section \<open>The memory map\<close>

definition MMAP_CNT :: nat where "MMAP_CNT = 16"

text \<open>
  The framebuffer that is handed on is that of the console; \<^verbatim>\<open>kernel_limit\<close> is written by the ELF loader. The bitmaps
  of the regions are set up later, by \<^verbatim>\<open>init_memory\<close>.
\<close>

record trampoline_info =
  ti_acpi_rsdt :: addr
  ti_rsdt_len :: u32
  ti_regions :: "(addr \<times> u32) list"
  ti_region_cnt :: u32
  ti_limit :: addr

abbreviation entry_size_at :: "addr \<Rightarrow> addr" where "entry_size_at t \<equiv> t + 8"
abbreviation mmap_entries :: "addr \<Rightarrow> addr" where "mmap_entries t \<equiv> t + 16"

definition vload64 :: "machine \<Rightarrow> addr \<Rightarrow> u64 result" where
  "vload64 m a = rbind (vload32 m a) (\<lambda>lo. rbind (vload32 m (a + 4)) (\<lambda>hi. Inr (ucast lo OR push_bit 32 (ucast hi))))"

definition add_region :: "u64 \<Rightarrow> u64 \<Rightarrow> trampoline_info \<Rightarrow> trampoline_info result" where
  "add_region addr len ti =
     (let i = unat (ti_region_cnt ti) in
      if i < length (ti_regions ti)
      then Inr (ti\<lparr>ti_regions := (ti_regions ti)[i := (ucast addr, ucast (len div 4096))]\<rparr>)
      else Inl OutOfBounds)"

text \<open>The counter is compared with the capacity before it is incremented, after the region has been stored.\<close>

definition mmap_step :: "machine \<Rightarrow> addr \<Rightarrow> addr \<Rightarrow> trampoline_info \<Rightarrow> (bool \<times> addr \<times> trampoline_info) result" where
  "mmap_step m tag_mmap ent ti =
     rbind (vload32 m (tag_size_at tag_mmap)) (\<lambda>sz.
     if ent < tag_mmap + sz
     then rbind (vload32 m (ent + 16)) (\<lambda>ty.
          if ty = MULTIBOOT_MEMORY_AVAILABLE
          then rbind (vload64 m ent) (\<lambda>addr.
               rbind (vload64 m (ent + 8)) (\<lambda>len.
               rbind (add_region addr len ti) (\<lambda>ti.
               let cnt = ti_region_cnt ti; ti = ti\<lparr>ti_region_cnt := cnt + 1\<rparr> in
               if cnt = of_nat MMAP_CNT then Inr (False, ent, ti)
               else rbind (vload32 m (entry_size_at tag_mmap)) (\<lambda>es. Inr (True, ent + es, ti)))))
          else rbind (vload32 m (entry_size_at tag_mmap)) (\<lambda>es. Inr (True, ent + es, ti)))
     else Inr (False, ent, ti))"

partial_function (option) mmap_loop :: "machine \<Rightarrow> addr \<Rightarrow> addr \<Rightarrow> trampoline_info \<Rightarrow> trampoline_info result option" where
  "mmap_loop m tag_mmap ent ti =
     (case mmap_step m tag_mmap ent ti of
        Inl e \<Rightarrow> Some (Inl e)
      | Inr (go, ent, ti) \<Rightarrow> if go then mmap_loop m tag_mmap ent ti else Some (Inr ti))"

definition read_mmap :: "machine \<Rightarrow> addr \<Rightarrow> trampoline_info \<Rightarrow> trampoline_info result" where
  "read_mmap m tag_mmap ti = loop_result (mmap_loop m tag_mmap (mmap_entries tag_mmap) ti)"

section \<open>Collecting the boot information\<close>

text \<open>\<^verbatim>\<open>t_info\<close> is at address 0, so its limit is its size.\<close>

definition TRAMPOLINE_INFO_BYTES :: u32 where "TRAMPOLINE_INFO_BYTES = 228"

text \<open>The start of \<^verbatim>\<open>trampoline_main\<close>, up to the console: \<open>first\<close> is the first context, \<open>directory\<close> the page directory register.\<close>

definition check_boot :: "machine \<Rightarrow> addr \<Rightarrow> u32 \<Rightarrow> addr \<Rightarrow> addr \<Rightarrow> sched \<Rightarrow> (addr \<times> sched) result" where
  "check_boot m multiboot magic first directory s =
     (if magic \<noteq> MULTIBOOT2_BOOTLOADER_MAGIC then Inl Halted
      else rbind (init_first_ctx first directory (s\<lparr>irq_disable_counter := 1\<rparr>)) (\<lambda>s.
           rbind (multiboot_find_tag m multiboot MULTIBOOT_TAG_TYPE_FRAMEBUFFER) (\<lambda>tag_fb.
           if tag_fb = 0 then Inl Halted else Inr (tag_fb, s))))"

definition find_acpi_tag :: "machine \<Rightarrow> addr \<Rightarrow> addr result" where
  "find_acpi_tag m multiboot =
     rbind (multiboot_find_tag m multiboot MULTIBOOT_TAG_TYPE_ACPI_OLD) (\<lambda>tag_acpi.
     if tag_acpi = 0 then multiboot_find_tag m multiboot MULTIBOOT_TAG_TYPE_ACPI_NEW else Inr tag_acpi)"

text \<open>
  After the console: a missing ACPI tag or an invalid root pointer is logged and then used as a null pointer.
  The result holds the tag of the ELF sections for \<^verbatim>\<open>init_memory\<close>.
\<close>

definition collect_boot_info :: "machine \<Rightarrow> addr \<Rightarrow> trampoline_info \<Rightarrow> (addr \<times> trampoline_info) result" where
  "collect_boot_info m multiboot ti =
     rbind (multiboot_find_tag m multiboot MULTIBOOT_TAG_TYPE_MMAP) (\<lambda>tag_mmap.
     if tag_mmap = 0 then Inl Halted
     else rbind (read_mmap m tag_mmap (ti\<lparr>ti_limit := TRAMPOLINE_INFO_BYTES, ti_region_cnt := 0\<rparr>)) (\<lambda>ti.
          rbind (find_acpi_tag m multiboot) (\<lambda>tag_acpi.
          rbind (find_rsdp m tag_acpi) (\<lambda>acpi_rsdp.
          rbind (find_rsdt m acpi_rsdp) (\<lambda>rsdt.
          rbind (vload32 m (rsdt + SDT_LENGTH)) (\<lambda>len.
          rbind (multiboot_find_tag m multiboot MULTIBOOT_TAG_TYPE_ELF_SECTIONS) (\<lambda>tag_elf.
          Inr (tag_elf, ti\<lparr>ti_acpi_rsdt := rsdt, ti_rsdt_len := len\<rparr>))))))))"

section \<open>Finding a tag\<close>

text \<open>Tags follow one another at multiples of eight: the places of tags of given sizes, and the end of the last.\<close>

fun tag_places :: "nat \<Rightarrow> nat list \<Rightarrow> nat list" where
  "tag_places p [] = []"
| "tag_places p (s # ss) = p # tag_places ((p + s + 7) div 8 * 8) ss"

fun tags_end :: "nat \<Rightarrow> nat list \<Rightarrow> nat" where
  "tags_end p [] = p"
| "tags_end p (s # ss) = tags_end ((p + s + 7) div 8 * 8) ss"

definition tag_in :: "machine \<Rightarrow> nat \<Rightarrow> nat \<Rightarrow> u32 \<times> u32 \<Rightarrow> bool" where
  "tag_in m lim p t \<longleftrightarrow> p < lim \<and> vload32 m (tag_type_at (of_nat p)) = Inr (fst t) \<and> vload32 m (tag_size_at (of_nat p)) = Inr (snd t)"

lemma round_up8: "(n + 7) div 8 * 8 = (if 0 < n mod 8 then n + 8 - n mod 8 else n)" for n :: nat
proof -
  define q r where "q = n div 8" and "r = n mod 8"
  have n: "n = 8 * q + r" "r < 8" by (simp_all add: q_def r_def)
  show ?thesis
  proof (cases "r = 0")
    case True
    then show ?thesis using n by simp
  next
    case False
    have "(n + 7) div 8 = q + 1" using n False by (intro div_nat_eqI) auto
    then show ?thesis using n False by (simp add: r_def [symmetric])
  qed
qed

lemma next_tag_place:
  assumes "(p + unat sz + 7) div 8 * 8 < 0x100000000"
  shows "next_tag (of_nat p) sz = of_nat ((p + unat sz + 7) div 8 * 8)"
proof -
  define n where "n = p + unat sz"
  have le: "n \<le> (n + 7) div 8 * 8" unfolding round_up8 by auto
  then have n: "n < 0x100000000" using assms by (simp add: n_def)
  have w: "of_nat p + sz = (of_nat n :: u32)" by (simp add: n_def)
  have "unat (of_nat n mod 8 :: u32) = n mod 8" using n by (simp add: unat_mod unat_of_nat_u32)
  then have r: "of_nat n mod 8 = (of_nat (n mod 8) :: u32)"
    using n by (simp add: word_unat_eq_iff unat_of_nat_u32)
  have "0 < (of_nat n mod 8 :: u32) \<longleftrightarrow> 0 < n mod 8"
    using \<open>unat (of_nat n mod 8 :: u32) = n mod 8\<close> by (simp add: word_less_nat_alt)
  then show ?thesis unfolding next_tag_def w n_def [symmetric] round_up8 Let_def r
    by (simp add: of_nat_diff)
qed

lemma tag_step_at:
  assumes "vload32 m mb = Inr tot" and "unat mb + unat tot < 0x100000000" and "tag_in m (unat mb + unat tot) p t"
  shows "tag_step m mb ty (of_nat p) = Inr (if fst t = ty then (False, of_nat p) else (True, next_tag (of_nat p) (snd t)))"
proof -
  have "(of_nat p :: u32) < mb + tot"
    using assms(2,3) by (simp add: tag_in_def word_less_nat_alt unat_add_u32 unat_of_nat_u32)
  then show ?thesis using assms(1,3) by (simp add: tag_step_def tag_in_def)
qed

lemma find_tag_loop_places:
  fixes ts :: "(u32 \<times> u32) list"
  assumes "vload32 m mb = Inr tot" and "unat mb + unat tot < 0x100000000"
    and "list_all2 (tag_in m (unat mb + unat tot)) (tag_places p (map (\<lambda>t. unat (snd t)) ts)) ts"
    and "unat mb + unat tot \<le> tags_end p (map (\<lambda>t. unat (snd t)) ts)" and "tags_end p (map (\<lambda>t. unat (snd t)) ts) < 0x100000000"
  shows "find_tag_loop m mb ty (of_nat p) = Some (Inr
    (case find (\<lambda>(a, t). fst t = ty) (zip (tag_places p (map (\<lambda>t. unat (snd t)) ts)) ts) of
       None \<Rightarrow> 0 | Some (a, t) \<Rightarrow> of_nat a))"
  using assms(3-5)
proof (induction ts arbitrary: p rule: list.induct)
  case Nil
  then have "\<not> (of_nat p :: u32) < mb + tot" using assms(2) by (simp add: word_less_nat_alt unat_add_u32 unat_of_nat_u32)
  then show ?case using assms(1) by (simp add: find_tag_loop.simps tag_step_def)
next
  case (Cons t ts)
  let ?q = "(p + unat (snd t) + 7) div 8 * 8"
  have le: "x \<le> tags_end x ss" for x ss
  proof (induction ss arbitrary: x)
    case (Cons s ss)
    have "x \<le> (x + s + 7) div 8 * 8" using round_up8 [of "x + s"] by (simp split: if_splits)
    also have "\<dots> \<le> tags_end ((x + s + 7) div 8 * 8) ss" by (rule Cons.IH)
    finally show ?case by simp
  qed simp
  have "tags_end ?q (map (\<lambda>t. unat (snd t)) ts) < 0x100000000" using Cons.prems(3) by (simp only: list.map tags_end.simps)
  with le [of ?q "map (\<lambda>t. unat (snd t)) ts"] have "?q < 0x100000000" by (rule le_less_trans)
  note nx = next_tag_place [OF this]
  have step: "tag_step m mb ty (of_nat p) = Inr (if fst t = ty then (False, of_nat p) else (True, of_nat ?q))"
    using tag_step_at [OF assms(1,2), of p t] Cons.prems(1) nx by simp
  show ?case
  proof (cases "fst t = ty")
    case True
    then show ?thesis using step by (subst find_tag_loop.simps) simp
  next
    case False
    moreover have "find_tag_loop m mb ty (of_nat ?q) = Some (Inr
      (case find (\<lambda>(a, t). fst t = ty) (zip (tag_places ?q (map (\<lambda>t. unat (snd t)) ts)) ts) of
         None \<Rightarrow> 0 | Some (a, t) \<Rightarrow> of_nat a))" using Cons.prems by (intro Cons.IH) simp_all
    ultimately show ?thesis using step by (subst find_tag_loop.simps) simp
  qed
qed

text \<open>
  C27: for boot information whose tags follow one another at multiples of eight up to its total size, the search ends
  and returns the address of the first tag of the wanted type, or 0 if there is none.
\<close>
theorem multiboot_find_tag_correct:
  fixes ts :: "(u32 \<times> u32) list"
  defines "szs \<equiv> map (\<lambda>t. unat (snd t)) ts"
  assumes "vload32 m mb = Inr tot" and "unat mb + unat tot < 0x100000000" and "unat mb + 8 < 0x100000000"
    and "list_all2 (tag_in m (unat mb + unat tot)) (tag_places (unat mb + 8) szs) ts"
    and "unat mb + unat tot \<le> tags_end (unat mb + 8) szs" and "tags_end (unat mb + 8) szs < 0x100000000"
  shows "multiboot_find_tag m mb ty =
    Inr (case find (\<lambda>(a, t). fst t = ty) (zip (tag_places (unat mb + 8) szs) ts) of None \<Rightarrow> 0 | Some (a, t) \<Rightarrow> of_nat a)"
proof -
  have e: "of_nat (unat mb + 8) = mb + 8" by simp
  note r = find_tag_loop_places [OF assms(2,3) assms(5-7) [unfolded szs_def], of ty, unfolded e, folded szs_def]
  show ?thesis unfolding multiboot_find_tag_def r by (simp add: loop_result_def)
qed

text \<open>Boot information with a command line tag of 9 bytes, a tag of the old root pointer and the end tag.\<close>

definition boot_example :: "u8 list" where
  "boot_example = [48, 0, 0, 0, 0, 0, 0, 0] @ [1, 0, 0, 0, 9, 0, 0, 0, 0] @ replicate 7 0 @
     [14, 0, 0, 0, 16, 0, 0, 0] @ replicate 8 0 @ [0, 0, 0, 0, 8, 0, 0, 0]"

theorem multiboot_find_tag_correct_witness:
  "multiboot_find_tag (bytes_machine boot_example) 0 14 = Inr 24 \<and> multiboot_find_tag (bytes_machine boot_example) 0 6 = Inr 0"
proof -
  let ?m = "bytes_machine boot_example" and ?ts = "[(1, 9), (14, 16), (0, 8)] :: (u32 \<times> u32) list"
  have t: "vload32 ?m 0 = Inr 48" by code_simp
  have l: "vload32 ?m 8 = Inr 1" "vload32 ?m 12 = Inr 9" "vload32 ?m 24 = Inr 14" "vload32 ?m 28 = Inr 16"
    "vload32 ?m 40 = Inr 0" "vload32 ?m 44 = Inr 8" by code_simp+
  then have a: "list_all2 (tag_in ?m 48) [8, 24, 40] ?ts" by (simp add: tag_in_def)
  show ?thesis using multiboot_find_tag_correct [OF t, of ?ts] a by simp
qed

section \<open>Reading the memory map\<close>

text \<open>Entry \<open>i\<close> of a map at \<open>tag\<close> with entries of \<open>es\<close> bytes: address, length and type.\<close>

definition entry_place :: "addr \<Rightarrow> u32 \<Rightarrow> nat \<Rightarrow> addr" where
  "entry_place tag es i = of_nat (unat tag + 16 + i * unat es)"

definition mmap_entry :: "machine \<Rightarrow> addr \<Rightarrow> u64 \<times> u64 \<times> u32 \<Rightarrow> bool" where
  "mmap_entry m a e \<longleftrightarrow> vload64 m a = Inr (fst e) \<and> vload64 m (a + 8) = Inr (fst (snd e)) \<and> vload32 m (a + 16) = Inr (snd (snd e))"

definition available :: "(u64 \<times> u64 \<times> u32) list \<Rightarrow> (addr \<times> u32) list" where
  "available es = map (\<lambda>(a, l, _). (ucast a, ucast (l div 4096))) (filter (\<lambda>(_, _, t). t = MULTIBOOT_MEMORY_AVAILABLE) es)"

lemma entry_place_Suc: "entry_place tag es i + es = entry_place tag es (Suc i)"
  by (simp add: entry_place_def)

lemma entry_place_less:
  assumes "unat tag + 16 + n * unat es < 0x100000000" and "i \<le> n" and "0 < es" and "unat sz = 16 + n * unat es"
  shows "entry_place tag es i < tag + sz \<longleftrightarrow> i < n"
proof -
  have "unat (tag + sz) = unat tag + 16 + n * unat es" using assms(1,4) by (simp add: unat_add_u32)
  moreover have "i * unat es \<le> n * unat es" using assms(2) by simp
  then have "unat tag + 16 + i * unat es < 0x100000000" using assms(1) by linarith
  then have "unat (entry_place tag es i) = unat tag + 16 + i * unat es" unfolding entry_place_def by (rule unat_of_nat_u32)
  moreover have "0 < unat es" using assms(3) by (simp add: word_less_nat_alt)
  ultimately show ?thesis by (simp add: word_less_nat_alt)
qed

lemma add_region_at:
  assumes "unat (ti_region_cnt ti) = c" and "length (ti_regions ti) = MMAP_CNT"
  shows "add_region a l ti = (if c < MMAP_CNT
    then Inr (ti\<lparr>ti_regions := (ti_regions ti)[c := (ucast a, ucast (l div 4096))]\<rparr>) else Inl OutOfBounds)"
  using assms by (simp add: add_region_def)

lemma mmap_loop_from:
  assumes tag: "vload32 m (tag_size_at tag) = Inr sz" "vload32 m (entry_size_at tag) = Inr es"
    and fit: "unat tag + 16 + length xs * unat es < 0x100000000" "unat sz = 16 + length xs * unat es" "0 < es"
    and ents: "\<And>i. i < length xs \<Longrightarrow> mmap_entry m (entry_place tag es i) (xs ! i)"
    and ti: "unat (ti_region_cnt ti) = c" "length (ti_regions ti) = MMAP_CNT" "c \<le> MMAP_CNT" and i: "i \<le> length xs"
  shows "mmap_loop m tag (entry_place tag es i) ti = Some (let av = available (drop i xs) in
    if c + length av \<le> MMAP_CNT
    then Inr (ti\<lparr>ti_regions := take c (ti_regions ti) @ av @ drop (c + length av) (ti_regions ti), ti_region_cnt := of_nat (c + length av)\<rparr>)
    else Inl OutOfBounds)"
  using ti i
proof (induction "length xs - i" arbitrary: i c ti)
  case 0
  then have "i = length xs" by simp
  then have "mmap_step m tag (entry_place tag es i) ti = Inr (False, entry_place tag es i, ti)"
    using entry_place_less [OF fit(1) _ fit(3,2), of i] tag(1) by (simp add: mmap_step_def)
  moreover have "ti_region_cnt ti = of_nat c" using 0(2) by (simp flip: 0(2))
  ultimately show ?case using \<open>i = length xs\<close> 0 by (subst mmap_loop.simps) (simp add: available_def)
next
  case (Suc d)
  then have i: "i < length xs" by simp
  obtain a l t where e: "xs ! i = (a, l, t)" by (cases "xs ! i") auto
  have dr: "drop i xs = (a, l, t) # drop (Suc i) xs" using i e by (simp add: Cons_nth_drop_Suc [symmetric])
  have lt: "entry_place tag es i < tag + sz" using entry_place_less [OF fit(1) _ fit(3,2), of i] i by simp
  have ld: "vload64 m (entry_place tag es i) = Inr a" "vload64 m (entry_place tag es i + 8) = Inr l"
    "vload32 m (entry_place tag es i + 16) = Inr t"
    using ents [OF i] e by (simp_all add: mmap_entry_def)
  have d: "d = length xs - Suc i" using Suc.hyps(2) by simp
  show ?case
  proof (cases "t = MULTIBOOT_MEMORY_AVAILABLE")
    case False
    then have "mmap_step m tag (entry_place tag es i) ti = Inr (True, entry_place tag es (Suc i), ti)"
      using lt ld tag by (simp add: mmap_step_def entry_place_Suc)
    moreover have "available (drop i xs) = available (drop (Suc i) xs)" using dr False by (simp add: available_def)
    ultimately show ?thesis using Suc.hyps(1) [OF d Suc.prems(1-3)] i by (subst mmap_loop.simps) simp
  next
    case True
    then have av: "available (drop i xs) = (ucast a, ucast (l div 4096)) # available (drop (Suc i) xs)"
      using dr by (simp add: available_def)
    show ?thesis
    proof (cases "c < MMAP_CNT")
      case False
      then have "add_region a l ti = Inl OutOfBounds" using add_region_at [OF Suc.prems(1,2)] by simp
      then have "mmap_step m tag (entry_place tag es i) ti = Inl OutOfBounds"
        using lt ld tag True by (simp add: mmap_step_def)
      then show ?thesis using False av by (subst mmap_loop.simps) simp
    next
      case c: True
      let ?ti = "ti\<lparr>ti_regions := (ti_regions ti)[c := (ucast a, ucast (l div 4096))], ti_region_cnt := ti_region_cnt ti + 1\<rparr>"
      have cn: "ti_region_cnt ti \<noteq> of_nat MMAP_CNT" using c Suc.prems(1) by (auto simp: MMAP_CNT_def)
      then have "mmap_step m tag (entry_place tag es i) ti = Inr (True, entry_place tag es (Suc i), ?ti)"
        using lt ld tag True c add_region_at [OF Suc.prems(1,2), of a l] by (simp add: mmap_step_def entry_place_Suc Let_def)
      moreover have "unat (ti_region_cnt ?ti) = Suc c"
        using c Suc.prems(1) by (simp add: unat_add_u32 MMAP_CNT_def)
      note Suc.hyps(1) [OF d this _ Suc_leI [OF c] Suc_leI [OF i]]
      moreover have "take (Suc c) ((ti_regions ti)[c := x]) = take c (ti_regions ti) @ [x]"
        "drop (Suc c + n) ((ti_regions ti)[c := x]) = drop (Suc c + n) (ti_regions ti)" for x n
        using c Suc.prems(2) by (simp_all add: take_Suc_conv_app_nth)
      ultimately show ?thesis using av Suc.prems(2) by (subst mmap_loop.simps) (simp add: Let_def)
    qed
  qed
qed


definition mmap_example :: "u8 list" where
  "mmap_example = [6, 0, 0, 0, 64, 0, 0, 0, 24, 0, 0, 0, 0, 0, 0, 0] @
     [0, 0, 1, 0, 0, 0, 0, 0, 0, 0x98, 0, 0, 0, 0, 0, 0, 1, 0, 0, 0, 0, 0, 0, 0] @
     [0, 0, 0x20, 0, 0, 0, 0, 0, 0, 0x10, 0, 0, 0, 0, 0, 0, 2, 0, 0, 0, 0, 0, 0, 0]"


end
