(* ===== verification/Pci.thy ===== *)
theory Pci
  imports Ata Kheap
begin

unbundle bit_operations_syntax

text \<open>
  \<^verbatim>\<open>src/common/pci.c\<close> and \<^verbatim>\<open>register_ata\<close>: reading the configuration space, the list of handlers for classes of
  devices, and the enumeration of buses. Handlers and devices are objects in typed stores at the addresses the heap
  returns; a handler's function works on the heap and the hardware. Nested scans of buses behind bridges have a
  bounded depth, an argument that stands for the size of the kernel's stack; deeper recursion leaves the stack.
\<close>

section \<open>Configuration space\<close>

definition CONFIG_ADDR :: u16 where "CONFIG_ADDR = 0xCF8"
definition CONFIG_DATA :: u16 where "CONFIG_DATA = 0xCFC"

definition pci_address :: "u8 \<Rightarrow> u8 \<Rightarrow> u8 \<Rightarrow> u8 \<Rightarrow> u32" where
  "pci_address bus sl fn off =
     push_bit 31 1 OR push_bit 16 (ucast bus) OR push_bit 11 (ucast sl) OR push_bit 8 (ucast fn) OR ucast off"

definition pci_config_read :: "'h ports \<Rightarrow> u8 \<Rightarrow> u8 \<Rightarrow> u8 \<Rightarrow> u8 \<Rightarrow> 'h \<Rightarrow> u32 \<times> 'h" where
  "pci_config_read P bus sl fn off h = inl P CONFIG_DATA (outl P CONFIG_ADDR (pci_address bus sl fn off) h)"

datatype pci_bar_type = PCI_BAR_MEM | PCI_BAR_IO

record pci_bar =
  bar_type :: pci_bar_type
  bar_addr :: u32

record pci_func =
  fn_vendor :: u16
  fn_class_code :: u8
  fn_subclass_code :: u8
  fn_prog_if :: u8
  fn_type :: u8
  fn_multi_function :: bool
  fn_bars :: "pci_bar list"

record pci_dev =
  dv_bus :: u8
  dv_slot :: u8
  dv_func_count :: u8
  dv_funcs :: "pci_func list"
  dv_present :: bool

record 'h pci_handler =
  hd_class_code :: u8
  hd_subclass_code :: u8
  hd_init :: "pci_func \<Rightarrow> kernel \<times> 'h \<Rightarrow> (kernel \<times> 'h) result"
  hd_next :: addr

record 'h pci =
  pc_kernel :: kernel
  pc_hw :: 'h
  pc_handlers :: "addr \<Rightarrow> 'h pci_handler"
  first_handler :: addr
  last_handler :: addr
  pc_devs :: "addr \<Rightarrow> pci_dev"

section \<open>Handlers\<close>

definition set_handler_next :: "addr \<Rightarrow> addr \<Rightarrow> 'h pci \<Rightarrow> 'h pci" where
  "set_handler_next a nx w = w\<lparr>pc_handlers := (pc_handlers w)(a := (pc_handlers w a)\<lparr>hd_next := nx\<rparr>)\<rparr>"

definition pci_register_handler :: "addr \<Rightarrow> 'h pci \<Rightarrow> 'h pci" where
  "pci_register_handler handler w =
     (let w = set_handler_next handler 0 w in
      if last_handler w \<noteq> 0 then (set_handler_next (last_handler w) handler w)\<lparr>last_handler := handler\<rparr>
      else w\<lparr>first_handler := handler, last_handler := handler\<rparr>)"

definition hd_matches :: "pci_func \<Rightarrow> 'h pci_handler \<Rightarrow> bool" where
  "hd_matches fn p \<longleftrightarrow> hd_class_code p = fn_class_code fn \<and> hd_subclass_code p = fn_subclass_code fn"

definition run_handler :: "pci_func \<Rightarrow> addr \<Rightarrow> 'h pci \<Rightarrow> 'h pci result" where
  "run_handler fn handler w =
     rbind (hd_init (pc_handlers w handler) fn (pc_kernel w, pc_hw w)) (\<lambda>(k, h). Inr (w\<lparr>pc_kernel := k, pc_hw := h\<rparr>))"

partial_function (option) init_function_loop :: "pci_func \<Rightarrow> addr \<Rightarrow> 'h pci \<Rightarrow> 'h pci result option" where
  "init_function_loop fn handler w =
     (if handler = 0 then Some (Inr w)
      else case (if hd_matches fn (pc_handlers w handler) then run_handler fn handler w else Inr w) of
             Inl e \<Rightarrow> Some (Inl e)
           | Inr w \<Rightarrow> init_function_loop fn (hd_next (pc_handlers w handler)) w)"

definition init_function :: "pci_func \<Rightarrow> 'h pci \<Rightarrow> 'h pci result" where
  "init_function fn w = loop_result (init_function_loop fn (first_handler w) w)"

section \<open>Enumeration\<close>

definition conf_read :: "'h ports \<Rightarrow> u8 \<Rightarrow> u8 \<Rightarrow> u8 \<Rightarrow> u8 \<Rightarrow> 'h pci \<Rightarrow> u32 \<times> 'h pci" where
  "conf_read P bus sl fn off w = (case pci_config_read P bus sl fn off (pc_hw w) of (v, h) \<Rightarrow> (v, w\<lparr>pc_hw := h\<rparr>))"

definition get_bar :: "'h ports \<Rightarrow> u8 \<Rightarrow> u8 \<Rightarrow> u8 \<Rightarrow> u8 \<Rightarrow> 'h pci \<Rightarrow> pci_bar \<times> 'h pci" where
  "get_bar P bus sl fn idx w =
     (case conf_read P bus sl fn (0x10 + idx * 4) w of (reg, w) \<Rightarrow>
        (if reg AND 1 \<noteq> 0 then \<lparr>bar_type = PCI_BAR_IO, bar_addr = reg AND 0xFFFFFFFC\<rparr>
         else \<lparr>bar_type = PCI_BAR_MEM, bar_addr = reg AND 0xFFFFFFF0\<rparr>, w))"

fun get_bars :: "'h ports \<Rightarrow> u8 \<Rightarrow> u8 \<Rightarrow> u8 \<Rightarrow> nat list \<Rightarrow> pci_func \<times> 'h pci \<Rightarrow> pci_func \<times> 'h pci" where
  "get_bars P bus sl fn [] s = s"
| "get_bars P bus sl fn (i # is) (res, w) =
     (case get_bar P bus sl fn (of_nat i) w of (bar, w) \<Rightarrow>
        get_bars P bus sl fn is (res\<lparr>fn_bars := (fn_bars res)[i := bar]\<rparr>, w))"

text \<open>The registers of the header: class codes and type are cut to the width of the structure's fields.\<close>

definition read_header :: "'h ports \<Rightarrow> u8 \<Rightarrow> u8 \<Rightarrow> u8 \<Rightarrow> pci_func \<Rightarrow> 'h pci \<Rightarrow> pci_func \<times> 'h pci" where
  "read_header P bus sl fn res w =
     (let (c, w) = conf_read P bus sl fn 8 w;
          (s, w) = conf_read P bus sl fn 8 w;
          (p, w) = conf_read P bus sl fn 8 w;
          (t, w) = conf_read P bus sl fn 0xC w;
          ty = ucast (drop_bit 16 t) :: u8
      in (res\<lparr>fn_class_code := ucast (drop_bit 24 c), fn_subclass_code := ucast (drop_bit 16 s),
            fn_prog_if := ucast (drop_bit 8 p), fn_multi_function := ty AND 0x80 \<noteq> 0,
            fn_type := (if ty AND 0x80 \<noteq> 0 then ty AND NOT 0x80 else ty)\<rparr>, w))"

text \<open>\<open>res\<close> is what the uninitialised structure holds, \<open>scan\<close> the scan of a bus.\<close>

definition scan_pci_func ::
  "'h ports \<Rightarrow> pci_func \<Rightarrow> (u8 \<Rightarrow> 'h pci \<Rightarrow> 'h pci result) \<Rightarrow> u8 \<Rightarrow> u8 \<Rightarrow> u8 \<Rightarrow> 'h pci \<Rightarrow> (pci_func \<times> 'h pci) result" where
  "scan_pci_func P res scan bus sl fn w =
     (case conf_read P bus sl fn 0 w of (v, w) \<Rightarrow>
      let res = res\<lparr>fn_vendor := ucast v\<rparr> in
      if fn_vendor res = 0xFFFF then Inr (res, w)
      else
        let (res, w) = read_header P bus sl fn res w;
            (res, w) = (if fn_type res = 0 then get_bars P bus sl fn [0..<6] (res, w) else (res, w)) in
        rbind (if fn_type res = 1
               then case conf_read P bus sl fn 0x18 w of (b, w) \<Rightarrow>
                    rbind (scan (ucast (drop_bit 18 b)) w) (\<lambda>w.
                    Inr (get_bars P bus sl fn [0..<2] (res, w)))
               else Inr (res, w)) (\<lambda>(res, w).
        rbind (init_function res w) (\<lambda>w. Inr (res, w))))"

definition set_dev :: "addr \<Rightarrow> (pci_dev \<Rightarrow> pci_dev) \<Rightarrow> 'h pci \<Rightarrow> 'h pci" where
  "set_dev a f w = w\<lparr>pc_devs := (pc_devs w)(a := f (pc_devs w a))\<rparr>"

fun scan_funcs ::
  "'h ports \<Rightarrow> pci_func \<Rightarrow> (u8 \<Rightarrow> 'h pci \<Rightarrow> 'h pci result) \<Rightarrow> u8 \<Rightarrow> u8 \<Rightarrow> addr \<Rightarrow> nat list \<Rightarrow> 'h pci \<Rightarrow> 'h pci result" where
  "scan_funcs P res scan bus sl dev [] w = Inr w"
| "scan_funcs P res scan bus sl dev (i # is) w =
     rbind (scan_pci_func P res scan bus sl (of_nat i) w) (\<lambda>(func, w).
     if fn_vendor func = 0xFFFF then Inr w
     else scan_funcs P res scan bus sl dev is
            (set_dev dev (\<lambda>d. d\<lparr>dv_func_count := dv_func_count d + 1, dv_funcs := (dv_funcs d)[i := func]\<rparr>) w))"

definition PCI_DEV_BYTES :: u32 where "PCI_DEV_BYTES = 456"

definition scan_pci_dev ::
  "'h ports \<Rightarrow> pci_func \<Rightarrow> (u8 \<Rightarrow> 'h pci \<Rightarrow> 'h pci result) \<Rightarrow> u8 \<Rightarrow> u8 \<Rightarrow> 'h pci \<Rightarrow> (addr \<times> 'h pci) result" where
  "scan_pci_dev P res scan bus sl w =
     rbind (kmalloc (pc_kernel w) PCI_DEV_BYTES) (\<lambda>(dev, k).
     let w = set_dev dev (\<lambda>d. d\<lparr>dv_bus := bus, dv_slot := sl\<rparr>) (w\<lparr>pc_kernel := k\<rparr>) in
     rbind (scan_pci_func P res scan bus sl 0 w) (\<lambda>(func, w).
     if fn_vendor func = 0xFFFF
     then rbind (kfree (pc_kernel w) dev) (\<lambda>k. Inr (0, w\<lparr>pc_kernel := k\<rparr>))
     else
       let w = set_dev dev (\<lambda>d. d\<lparr>dv_present := True, dv_func_count := 1, dv_funcs := (dv_funcs d)[0 := func]\<rparr>) w in
       rbind (if fn_multi_function func then scan_funcs P res scan bus sl dev [1..<8] w else Inr w) (\<lambda>w.
       Inr (dev, w))))"

text \<open>The table of devices that \<^verbatim>\<open>scan_pci_bus\<close> returns is not used by any caller.\<close>

fun scan_pci_bus :: "'h ports \<Rightarrow> pci_func \<Rightarrow> nat \<Rightarrow> u8 \<Rightarrow> 'h pci \<Rightarrow> 'h pci result" where
  "scan_pci_bus P res 0 bus w = Inl OutOfBounds"
| "scan_pci_bus P res (Suc n) bus w =
     rfold (\<lambda>i w. rbind (scan_pci_dev P res (scan_pci_bus P res n) bus (of_nat i) w) (\<lambda>(_, w). Inr w)) [0..<32] w"

text \<open>Without a host bridge its count of functions, the third byte of the structure, is read through a null pointer.\<close>

definition func_count_of :: "addr \<Rightarrow> 'h pci \<Rightarrow> u8 result" where
  "func_count_of host_bridge w =
     (if host_bridge = 0 then vload8 (k_mach (pc_kernel w)) 2 else Inr (dv_func_count (pc_devs w host_bridge)))"

fun scan_host_buses :: "'h ports \<Rightarrow> pci_func \<Rightarrow> nat \<Rightarrow> addr \<Rightarrow> nat list \<Rightarrow> 'h pci \<Rightarrow> 'h pci result" where
  "scan_host_buses P res n host_bridge [] w = Inr w"
| "scan_host_buses P res n host_bridge (i # is) w =
     rbind (func_count_of host_bridge w) (\<lambda>c.
     if i < unat c then rbind (scan_pci_bus P res n (of_nat i) w) (scan_host_buses P res n host_bridge is)
     else Inr w)"

definition init_pci :: "'h ports \<Rightarrow> pci_func \<Rightarrow> nat \<Rightarrow> 'h pci \<Rightarrow> 'h pci result" where
  "init_pci P res n w =
     rbind (scan_pci_dev P res (scan_pci_bus P res n) 0 0 w) (\<lambda>(host_bridge, w).
     scan_host_buses P res n host_bridge [0..<256] w)"

definition PCI_HANDLER_BYTES :: u32 where "PCI_HANDLER_BYTES = 12"

definition register_ata :: "'h ports \<Rightarrow> ata_dev \<Rightarrow> (ata_dev \<Rightarrow> 'h \<Rightarrow> 'h) \<Rightarrow> 'h pci \<Rightarrow> 'h pci result" where
  "register_ata P dev0 init_gpt w =
     rbind (kmalloc (pc_kernel w) PCI_HANDLER_BYTES) (\<lambda>(handler, k).
     let ata = \<lparr>hd_class_code = 1, hd_subclass_code = 1,
           hd_init = (\<lambda>fn (k, h). Inr (k, init_ata P (fn_prog_if fn) dev0 init_gpt h)),
           hd_next = hd_next (pc_handlers w handler)\<rparr> in
     Inr (pci_register_handler handler (w\<lparr>pc_kernel := k, pc_handlers := (pc_handlers w)(handler := ata)\<rparr>)))"

section \<open>The list of handlers\<close>

fun handler_chain :: "(addr \<Rightarrow> 'h pci_handler) \<Rightarrow> addr \<Rightarrow> addr list \<Rightarrow> bool" where
  "handler_chain H p [] \<longleftrightarrow> p = 0"
| "handler_chain H p (a # as) \<longleftrightarrow> p = a \<and> a \<noteq> 0 \<and> handler_chain H (hd_next (H a)) as"

definition handlers_are :: "'h pci \<Rightarrow> addr list \<Rightarrow> bool" where
  "handlers_are w as \<longleftrightarrow> distinct as \<and> 0 \<notin> set as \<and> handler_chain (pc_handlers w) (first_handler w) as \<and>
     last_handler w = (if as = [] then 0 else last as)"

lemma handler_chain_other: "a \<notin> set as \<Longrightarrow> handler_chain (H(a := x)) p as = handler_chain H p as"
  by (induction as arbitrary: p) auto

lemma handler_chain_snoc:
  assumes "handler_chain H p as" and "as \<noteq> []" and "distinct as" and "a \<notin> set as" and "a \<noteq> 0" and "hd_next (H a) = 0"
  shows "handler_chain (H(last as := (H (last as))\<lparr>hd_next := a\<rparr>)) p (as @ [a])"
  using assms
proof (induction as arbitrary: p)
  case (Cons b bs)
  then show ?case
  proof (cases "bs = []")
    case True
    then show ?thesis using Cons.prems by auto
  next
    case False
    then have "b \<noteq> last bs" using Cons.prems(3) by auto
    then show ?thesis using Cons False by auto
  qed
qed simp

lemma register_handlers_are:
  assumes "handlers_are w as" and "a \<noteq> 0" and "a \<notin> set as"
  shows "handlers_are (pci_register_handler a w) (as @ [a])"
proof (cases "as = []")
  case True
  then show ?thesis using assms
    by (simp add: handlers_are_def pci_register_handler_def set_handler_next_def)
next
  case False
  let ?H = "(pc_handlers w)(a := (pc_handlers w a)\<lparr>hd_next := 0\<rparr>)"
  have l: "last as \<noteq> 0" "last as \<noteq> a" using assms False by (auto simp: handlers_are_def) (metis last_in_set)+
  have "handler_chain ?H (first_handler w) as"
    using assms(1,3) by (simp add: handlers_are_def handler_chain_other)
  from handler_chain_snoc [OF this False, of a] assms
  have "handler_chain (?H(last as := (?H (last as))\<lparr>hd_next := a\<rparr>)) (first_handler w) (as @ [a])"
    by (simp add: handlers_are_def)
  then show ?thesis using assms False l
    by (simp add: handlers_are_def pci_register_handler_def set_handler_next_def)
qed

lemma register_keeps_handler:
  "hd_matches fn (pc_handlers (pci_register_handler a w) b) = hd_matches fn (pc_handlers w b)"
  "hd_init (pc_handlers (pci_register_handler a w) b) = hd_init (pc_handlers w b)"
  by (simp_all add: pci_register_handler_def set_handler_next_def hd_matches_def Let_def)

lemma run_handler_keeps: "run_handler fn a w = Inr w' \<Longrightarrow> pc_handlers w' = pc_handlers w"
  by (auto simp: run_handler_def)

lemma init_function_chain:
  assumes "handler_chain (pc_handlers w) p as"
  shows "init_function_loop fn p w = Some (rfold (run_handler fn) (filter (\<lambda>a. hd_matches fn (pc_handlers w a)) as) w)"
  using assms
proof (induction as arbitrary: p w)
  case Nil
  then show ?case by (simp add: init_function_loop.simps)
next
  case (Cons a as)
  then have p: "p = a" "a \<noteq> 0" "handler_chain (pc_handlers w) (hd_next (pc_handlers w a)) as" by auto
  show ?case
  proof (cases "hd_matches fn (pc_handlers w a)")
    case False
    then show ?thesis using p Cons.IH [OF p(3)] by (subst init_function_loop.simps) simp
  next
    case True
    show ?thesis
    proof (cases "run_handler fn a w")
      case (Inl e)
      then show ?thesis using p True by (subst init_function_loop.simps) simp
    next
      case (Inr w')
      note k = run_handler_keeps [OF this]
      then show ?thesis using p True Inr Cons.IH [of w' "hd_next (pc_handlers w a)"]
        by (subst init_function_loop.simps) simp
    qed
  qed
qed

text \<open>
  A function found on a bus is handed to the registered handlers of its class and subclass, each once, in the
  order of their registration, until one fails.
\<close>
theorem init_function_in_order:
  assumes "handlers_are w []" and "distinct as" and "0 \<notin> set as"
  shows "let w' = fold pci_register_handler as w in
    init_function fn w' = rfold (run_handler fn) (filter (\<lambda>a. hd_matches fn (pc_handlers w a)) as) w'"
proof -
  have "handlers_are (fold pci_register_handler bs w) bs \<and>
      (\<forall>a. hd_matches fn (pc_handlers (fold pci_register_handler bs w) a) = hd_matches fn (pc_handlers w a))"
    if "distinct bs" "0 \<notin> set bs" for bs
    using that
  proof (induction bs rule: rev_induct)
    case Nil
    then show ?case using assms(1) by simp
  next
    case (snoc b bs)
    then show ?case using register_handlers_are [of "fold pci_register_handler bs w" bs b]
      by (auto simp: register_keeps_handler)
  qed
  note r = this [OF assms(2,3)]
  then have "handler_chain (pc_handlers (fold pci_register_handler as w)) (first_handler (fold pci_register_handler as w)) as"
    by (simp add: handlers_are_def)
  from init_function_chain [OF this, of fn] r show ?thesis by (simp add: init_function_def loop_result_def Let_def)
qed

text \<open>Two handlers, of classes 1.1 and 1.2, that count their calls in the state of the hardware.\<close>

definition counting_handler :: "u8 \<Rightarrow> nat pci_handler" where
  "counting_handler sub = \<lparr>hd_class_code = 1, hd_subclass_code = sub,
     hd_init = (\<lambda>fn (k, h). Inr (k, 10 * h + unat sub)), hd_next = 0\<rparr>"

theorem init_function_in_order_witness:
  "\<forall>k. let w = \<lparr>pc_kernel = k, pc_hw = 0, pc_handlers = (\<lambda>a. counting_handler (if a = 0x10 then 1 else 2)),
       first_handler = 0, last_handler = 0, pc_devs = (\<lambda>_. \<lparr>dv_bus = 0, dv_slot = 0, dv_func_count = 0, dv_funcs = [], dv_present = False\<rparr>)\<rparr>;
       w' = fold pci_register_handler [0x20, 0x10, 0x30] w;
       f = \<lparr>fn_vendor = 0, fn_class_code = 1, fn_subclass_code = 2, fn_prog_if = 0, fn_type = 0, fn_multi_function = False, fn_bars = []\<rparr>
     in init_function f w' = Inr (w'\<lparr>pc_hw := 22\<rparr>)"
  (is "\<forall>k. let w = ?w k; w' = ?w' w; f = ?f in ?P f w'")
proof
  fix k
  have "handlers_are (?w k) []" by (simp add: handlers_are_def)
  from init_function_in_order [OF this, of "[0x20, 0x10, 0x30]" ?f]
  have "init_function ?f (?w' (?w k)) = rfold (run_handler ?f) [0x20, 0x30] (?w' (?w k))"
    by (simp add: hd_matches_def counting_handler_def Let_def)
  also have "\<dots> = Inr ((?w' (?w k))\<lparr>pc_hw := 22\<rparr>)"
    by (simp add: run_handler_def pci_register_handler_def set_handler_next_def counting_handler_def)
  finally show "let w = ?w k; w' = ?w' w; f = ?f in ?P f w'" by (simp only: Let_def)
qed

section \<open>Bridges\<close>

text \<open>
  Configuration registers that the scan reads do not change: what is read depends on the address only.
\<close>

definition config_space :: "'h ports \<Rightarrow> (u32 \<Rightarrow> u32) \<Rightarrow> bool" where
  "config_space P conf \<longleftrightarrow> (\<forall>a h. fst (inl P CONFIG_DATA (outl P CONFIG_ADDR a h)) = conf a)"

definition is_bridge :: "(u32 \<Rightarrow> u32) \<Rightarrow> u8 \<Rightarrow> u8 \<Rightarrow> u8 \<Rightarrow> bool" where
  "is_bridge conf bus sl fn \<longleftrightarrow> (ucast (conf (pci_address bus sl fn 0)) :: u16) \<noteq> 0xFFFF \<and>
     (ucast (drop_bit 16 (conf (pci_address bus sl fn 0xC))) :: u8) AND NOT 0x80 = 1"

definition bus_behind :: "(u32 \<Rightarrow> u32) \<Rightarrow> u8 \<Rightarrow> u8 \<Rightarrow> u8 \<Rightarrow> u8" where
  "bus_behind conf bus sl fn = ucast (drop_bit 18 (conf (pci_address bus sl fn 0x18)))"

lemma conf_readE:
  assumes "config_space P conf"
  obtains w' where "conf_read P bus sl fn off w = (conf (pci_address bus sl fn off), w')"
proof -
  obtain v h where vh: "pci_config_read P bus sl fn off (pc_hw w) = (v, h)" by fastforce
  then have "v = conf (pci_address bus sl fn off)"
    using assms by (metis config_space_def pci_config_read_def fst_conv)
  then show ?thesis using vh that by (simp add: conf_read_def)
qed

lemma read_header_type:
  assumes "config_space P conf"
  obtains res' w' where "read_header P bus sl fn res w = (res', w')"
    and "fn_type res' = ucast (drop_bit 16 (conf (pci_address bus sl fn 0xC))) AND NOT 0x80"
    and "fn_vendor res' = fn_vendor res"
proof -
  obtain w1 where 1: "conf_read P bus sl fn 8 w = (conf (pci_address bus sl fn 8), w1)" by (rule conf_readE [OF assms])
  obtain w2 where 2: "conf_read P bus sl fn 8 w1 = (conf (pci_address bus sl fn 8), w2)" by (rule conf_readE [OF assms])
  obtain w3 where 3: "conf_read P bus sl fn 8 w2 = (conf (pci_address bus sl fn 8), w3)" by (rule conf_readE [OF assms])
  obtain w4 where 4: "conf_read P bus sl fn 0xC w3 = (conf (pci_address bus sl fn 0xC), w4)" by (rule conf_readE [OF assms])
  have "x AND 0x80 = 0 \<Longrightarrow> x AND NOT 0x80 = x" for x :: u8
    by (metis (no_types, opaque_lifting) and.assoc word_bw_comms(1) or.right_neutral bit.conj_disj_distrib bit.disj_cancel_right and.right_neutral or.commute)
  then show ?thesis using that by (simp add: read_header_def 1 2 3 4 Let_def)
qed

lemma rfold_stuck:
  assumes "x \<in> set xs" and "\<And>s. \<exists>e. f x s = Inl e"
  shows "\<exists>e. rfold f xs s = Inl e"
  using assms(1)
proof (induction xs arbitrary: s)
  case (Cons y ys)
  show ?case
  proof (cases "f y s")
    case (Inr s')
    then have "x \<noteq> y" using assms(2) [of s] by auto
    then show ?thesis using Cons Inr by auto
  qed simp
qed simp

lemma scan_bridge_stuck:
  assumes "config_space P conf" and "is_bridge conf bus sl fn"
    and "\<And>w. \<exists>e. scan (bus_behind conf bus sl fn) w = Inl e"
  shows "\<exists>e. scan_pci_func P res scan bus sl fn w = Inl e"
proof -
  obtain w1 where 1: "conf_read P bus sl fn 0 w = (conf (pci_address bus sl fn 0), w1)" by (rule conf_readE [OF assms(1)])
  obtain r2 w2 where 2: "read_header P bus sl fn (res\<lparr>fn_vendor := ucast (conf (pci_address bus sl fn 0))\<rparr>) w1 = (r2, w2)"
    and t: "fn_type r2 = ucast (drop_bit 16 (conf (pci_address bus sl fn 0xC))) AND NOT 0x80"
    by (rule read_header_type [OF assms(1)])
  obtain w3 where 3: "conf_read P bus sl fn 0x18 w2 = (conf (pci_address bus sl fn 0x18), w3)" by (rule conf_readE [OF assms(1)])
  from assms(3) [of w3] obtain e where "scan (bus_behind conf bus sl fn) w3 = Inl e" by blast
  then show ?thesis using assms(2) t by (simp add: scan_pci_func_def 1 2 3 is_bridge_def bus_behind_def Let_def)
qed

lemma scan_bus_stuck:
  assumes "config_space P conf" and "is_bridge conf bus (of_nat sl) 0" and "sl < 32"
    and "bus_behind conf bus (of_nat sl) 0 = bus"
  shows "\<exists>e. scan_pci_bus P res n bus w = Inl e"
proof (induction n arbitrary: w)
  case (Suc n)
  have "\<exists>e. scan_pci_dev P res (scan_pci_bus P res n) bus (of_nat sl) w = Inl e" for w
  proof (cases "kmalloc (pc_kernel w) PCI_DEV_BYTES")
    case (Inr r)
    obtain dev k where r: "r = (dev, k)" by fastforce
    from scan_bridge_stuck [OF assms(1,2), of "scan_pci_bus P res n" res] Suc.IH
    obtain e where "scan_pci_func P res (scan_pci_bus P res n) bus (of_nat sl) 0
      (set_dev dev (\<lambda>d. d\<lparr>dv_bus := bus, dv_slot := of_nat sl\<rparr>) (w\<lparr>pc_kernel := k\<rparr>)) = Inl e"
      unfolding assms(4) by blast
    then show ?thesis using Inr r by (simp add: scan_pci_dev_def)
  qed (simp add: scan_pci_dev_def)
  then have "\<exists>e. rbind (scan_pci_dev P res (scan_pci_bus P res n) bus (of_nat sl) w) (\<lambda>(_, w). Inr w) = Inl e" for w
    by (metis rbind_simps(1))
  then show ?case using assms(3) by (auto intro: rfold_stuck [of sl])
qed simp

text \<open>A configuration space with one bridge, in slot 3 of bus 0, and its register of bus numbers.\<close>

definition bridge_conf :: "u32 \<Rightarrow> u32 \<Rightarrow> u32" where
  "bridge_conf v a = (if a = 0x80001800 then 0x12348086 else if a = 0x8000180C then 0x10000
     else if a = 0x80001818 then v else 0xFFFFFFFF)"

definition bridge_ports :: "u32 \<Rightarrow> u32 ports" where
  "bridge_ports v = \<lparr>outb = (\<lambda>_ _ h. h), inb = (\<lambda>_ h. (0, h)), outw = (\<lambda>_ _ h. h), inw = (\<lambda>_ h. (0, h)),
     outl = (\<lambda>_ v h. v), inl = (\<lambda>_ h. (bridge_conf v h, h))\<rparr>"

lemma bridge_config: "config_space (bridge_ports v) (bridge_conf v)"
  by (simp add: config_space_def bridge_ports_def)

text \<open>
  C39: the number of the bus behind a bridge is taken from bit 18 of the register of bus numbers on, instead of bit 8.
  A bridge on bus 0 whose subordinate bus number is below four is therefore taken to lead to bus 0 again,
  and the enumeration recurses until it leaves the stack: it does not return for any depth.
\<close>
theorem pci_bridge_never_returns:
  assumes "config_space P conf" and "is_bridge conf 0 (of_nat sl) 0" and "sl < 32"
    and "conf (pci_address 0 (of_nat sl) 0 0x18) = push_bit 16 (ucast sub) OR push_bit 8 (ucast (sec :: u8)) OR ucast (pri :: u8)"
    and "(sub :: u8) < 4"
  shows "\<exists>e. scan_pci_bus P res n 0 w = Inl e"
proof -
  have "unat (drop_bit 2 sub) = 0" using assms(5) by (simp add: drop_bit_eq_div unat_div word_less_nat_alt)
  then have s0: "drop_bit 2 sub = 0" by (simp only: unat_eq_zero)
  have "\<not> bit (sub :: u8) (2 + i)" for i using arg_cong [OF s0, of "\<lambda>x. bit x i"] by (simp add: bit_simps)
  then have "bus_behind conf 0 (of_nat sl) 0 = 0"
    unfolding bus_behind_def assms(4) by (intro bit_eqI) (auto simp: bit_simps dest: bit_imp_le_length)
  with scan_bus_stuck [OF assms(1-3)] show ?thesis by simp
qed

theorem pci_bridge_never_returns_witness: "\<forall>res w. \<exists>e. scan_pci_bus (bridge_ports 0x10100) res 100 0 w = Inl e"
proof -
  have b: "is_bridge (bridge_conf 0x10100) 0 (of_nat 3) 0" by code_simp
  have c: "bridge_conf 0x10100 (pci_address 0 (of_nat 3) 0 0x18) =
    push_bit 16 (ucast (1 :: u8)) OR push_bit 8 (ucast (1 :: u8)) OR ucast (0 :: u8)" by code_simp
  show ?thesis by (intro allI pci_bridge_never_returns [OF bridge_config b _ c]) simp_all
qed

lemma get_bars_type: "fn_type (fst (get_bars P bus sl fn is s)) = fn_type (fst s)"
  by (induction P bus sl fn "is" s rule: get_bars.induct) (simp_all split: prod.splits)

lemma scan_pci_func_cong:
  assumes "config_space P conf"
    and "is_bridge conf bus sl fn \<Longrightarrow> scan (bus_behind conf bus sl fn) = scan' (bus_behind conf bus sl fn)"
  shows "scan_pci_func P res scan bus sl fn w = scan_pci_func P res scan' bus sl fn w"
proof -
  obtain w1 where 1: "conf_read P bus sl fn 0 w = (conf (pci_address bus sl fn 0), w1)" by (rule conf_readE [OF assms(1)])
  obtain r2 w2 where 2: "read_header P bus sl fn (res\<lparr>fn_vendor := ucast (conf (pci_address bus sl fn 0))\<rparr>) w1 = (r2, w2)"
    and t: "fn_type r2 = ucast (drop_bit 16 (conf (pci_address bus sl fn 0xC))) AND NOT 0x80"
    by (rule read_header_type [OF assms(1)])
  obtain w3 where 3: "conf_read P bus sl fn 0x18 w2 = (conf (pci_address bus sl fn 0x18), w3)" by (rule conf_readE [OF assms(1)])
  show ?thesis
  proof (cases "is_bridge conf bus sl fn")
    case True
    with assms(2) t show ?thesis by (simp add: scan_pci_func_def 1 2 3 is_bridge_def bus_behind_def Let_def)
  next
    case False
    obtain r3 w3 where b: "get_bars P bus sl fn [0..<6] (r2, w2) = (r3, w3)" by fastforce
    then have "fn_type r3 = fn_type r2" using get_bars_type [of P bus sl fn "[0..<6]" "(r2, w2)"] by simp
    with False t show ?thesis by (auto simp: scan_pci_func_def 1 2 b is_bridge_def Let_def)
  qed
qed

lemma scan_funcs_cong:
  assumes "\<And>i w. scan_pci_func P res scan bus sl i w = scan_pci_func P res scan' bus sl i w"
  shows "scan_funcs P res scan bus sl dev is w = scan_funcs P res scan' bus sl dev is w"
  by (induction "is" arbitrary: w) (simp_all add: assms split_beta cong: rbind_cong if_cong)

lemma scan_pci_dev_cong:
  assumes "\<And>i w. scan_pci_func P res scan bus sl i w = scan_pci_func P res scan' bus sl i w"
  shows "scan_pci_dev P res scan bus sl w = scan_pci_dev P res scan' bus sl w"
  by (simp add: scan_pci_dev_def assms scan_funcs_cong [OF assms] Let_def cong: if_cong)


lemma pci_address_off: "pci_address bus sl fn off = pci_address bus sl fn 0 OR ucast off"
  by (simp add: pci_address_def or.assoc)

lemma pci_address_low: "\<not> bit (pci_address bus sl fn 0) 2" "\<not> bit (pci_address bus sl fn 0) 3"
  by (simp_all add: pci_address_def bit_simps)

lemma pci_address_bus: "bit bus i \<Longrightarrow> bit (pci_address bus sl fn off) (16 + i)"
  by (auto simp: pci_address_def bit_simps dest: bit_imp_le_length)

lemma only_bridge:
  assumes "is_bridge (bridge_conf v) bus sl fn"
  shows "bus = 0" and "bus_behind (bridge_conf v) bus sl fn = ucast (drop_bit 18 v)"
proof -
  let ?a = "pci_address bus sl fn 0"
  have "?a = 0x80001800 \<or> ?a = 0x8000180C \<or> ?a = 0x80001818"
    using assms by (auto simp: is_bridge_def bridge_conf_def split: if_splits)
  moreover have "bit (0x8000180C :: u32) 2" "bit (0x80001818 :: u32) 3" by simp_all
  ultimately have a: "?a = 0x80001800" using pci_address_low [of bus sl fn] by metis
  have "\<not> bit bus i" if "i < 8" for i
  proof
    assume "bit bus i"
    then have "bit (0x80001800 :: u32) (16 + i)" using pci_address_bus [of bus i sl fn 0] a by simp
    moreover have "i \<in> {0, 1, 2, 3, 4, 5, 6, 7}" using that by auto
    ultimately show False by auto
  qed
  then show "bus = 0" by (intro bit_eqI) simp
  have "pci_address bus sl fn 0x18 = 0x80001818" unfolding pci_address_off [of bus sl fn "0x18"] a by simp
  then show "bus_behind (bridge_conf v) bus sl fn = ucast (drop_bit 18 v)" by (simp add: bus_behind_def bridge_conf_def)
qed


end
