(* ===== verification/Interrupts.thy ===== *)
theory Interrupts
  imports Acpi Pci Scheduler
begin

unbundle bit_operations_syntax

text \<open>
  Interrupts: the descriptor table (\<^verbatim>\<open>src/kernel/interrupts.c\<close>), the local and the I/O APIC (\<^verbatim>\<open>src/kernel/apic.c\<close>), the
  masking of the old controllers (\<^verbatim>\<open>src/kernel/pic.c\<close>) and the choice of a timer (\<^verbatim>\<open>init_hpet\<close> of
  \<^verbatim>\<open>src/kernel/hpet.c\<close>). Registers in memory are reached through an argument, as the I/O ports are: what a read at an
  address returns and what a read or a write does to the state of the hardware.
\<close>

record 'h mmio =
  rd32 :: "addr \<Rightarrow> 'h \<Rightarrow> u32 \<times> 'h"
  wr32 :: "addr \<Rightarrow> u32 \<Rightarrow> 'h \<Rightarrow> 'h"

text \<open>\<^verbatim>\<open>*p |= w\<close> and \<^verbatim>\<open>*p &= w\<close>.\<close>

definition mmio_or :: "'h mmio \<Rightarrow> addr \<Rightarrow> u32 \<Rightarrow> 'h \<Rightarrow> 'h" where
  "mmio_or M a w h = (case rd32 M a h of (v, h) \<Rightarrow> wr32 M a (v OR w) h)"

definition mmio_and :: "'h mmio \<Rightarrow> addr \<Rightarrow> u32 \<Rightarrow> 'h \<Rightarrow> 'h" where
  "mmio_and M a w h = (case rd32 M a h of (v, h) \<Rightarrow> wr32 M a (v AND w) h)"

section \<open>The descriptor table\<close>

record idt_entry =
  isr_addr_low :: u16
  kernel_cs :: u16
  idt_reserved :: u8
  idt_attributes :: u8
  isr_addr_high :: u16

definition ISR_COUNT :: nat where "ISR_COUNT = 256"

definition idt_set_entry :: "nat \<Rightarrow> addr \<Rightarrow> bool \<Rightarrow> idt_entry list \<Rightarrow> idt_entry list result" where
  "idt_set_entry vector isr user idt =
     (if vector < length idt
      then Inr (idt[vector := \<lparr>isr_addr_low = ucast (isr AND 0xFFFF), kernel_cs = 0x08, idt_reserved = 0,
             idt_attributes = (if user then 0x8E OR 0x60 else 0x8E), isr_addr_high = ucast (drop_bit 16 isr)\<rparr>])
      else Inl OutOfBounds)"

record idtr =
  idtr_limit :: u16
  idtr_base :: u32

text \<open>The handlers' addresses and that of the table are arguments; interrupts are then enabled.\<close>

definition init_idt ::
  "addr \<Rightarrow> addr \<Rightarrow> addr \<Rightarrow> addr \<Rightarrow> addr \<Rightarrow> u32 \<Rightarrow> idt_entry list \<Rightarrow> sched \<Rightarrow> (idt_entry list \<times> idtr \<times> sched) result" where
  "init_idt idt_addr handle_gpf handle_keypress handle_timer syscall_isr timer_irq idt s =
     rbind (idt_set_entry 0xD handle_gpf False idt) (\<lambda>idt.
     rbind (idt_set_entry 0x31 handle_keypress False idt) (\<lambda>idt.
     rbind (idt_set_entry (unat (0x30 + timer_irq)) handle_timer False idt) (\<lambda>idt.
     rbind (idt_set_entry 0x80 syscall_isr True idt) (\<lambda>idt.
     Inr (idt, \<lparr>idtr_limit = of_nat (8 * ISR_COUNT - 1), idtr_base = idt_addr\<rparr>, s\<lparr>irqs_on := True\<rparr>)))))"

text \<open>The general protection handler: \<^verbatim>\<open>terminate\<close> does not come back if it has switched to another context.\<close>

definition handle_gpf :: "u32 \<Rightarrow> sched \<Rightarrow> sched result" where
  "handle_gpf esp s =
     (if cx_user (ctxs s (active_ctx s))
      then rbind (terminate esp s) (\<lambda>s'. if active_ctx s' \<noteq> active_ctx s then Inr s' else Inl Halted)
      else Inl Halted)"

section \<open>The old interrupt controllers\<close>

definition PIC1_CMD :: u16 where "PIC1_CMD = 0x20"
definition PIC1_DATA :: u16 where "PIC1_DATA = 0x21"
definition PIC2_CMD :: u16 where "PIC2_CMD = 0xA0"
definition PIC2_DATA :: u16 where "PIC2_DATA = 0xA1"
definition ICW1_ICW4 :: u8 where "ICW1_ICW4 = 0x01"
definition ICW1_INIT :: u8 where "ICW1_INIT = 0x10"
definition ICW4_8086 :: u8 where "ICW4_8086 = 0x01"
definition CASCADE_IRQ :: nat where "CASCADE_IRQ = 2"
definition PIC_MASTER_OFFSET :: u8 where "PIC_MASTER_OFFSET = 0x20"
definition PIC_SLAVE_OFFSET :: u8 where "PIC_SLAVE_OFFSET = 0x28"

lemmas pic_consts = PIC1_CMD_def PIC1_DATA_def PIC2_CMD_def PIC2_DATA_def ICW1_ICW4_def ICW1_INIT_def ICW4_8086_def
  CASCADE_IRQ_def PIC_MASTER_OFFSET_def PIC_SLAVE_OFFSET_def

definition outb_wait :: "'h ports \<Rightarrow> u16 \<Rightarrow> u8 \<Rightarrow> 'h \<Rightarrow> 'h" where
  "outb_wait P port v h = io_wait P (outb P port v h)"

definition init_pic :: "'h ports \<Rightarrow> 'h \<Rightarrow> 'h" where
  "init_pic P h =
     (let h = outb_wait P PIC1_CMD (ICW1_INIT OR ICW1_ICW4) h;
          h = outb_wait P PIC2_CMD (ICW1_INIT OR ICW1_ICW4) h;
          h = outb_wait P PIC1_DATA PIC_MASTER_OFFSET h;
          h = outb_wait P PIC2_DATA PIC_SLAVE_OFFSET h;
          h = outb_wait P PIC1_DATA (push_bit CASCADE_IRQ 1) h;
          h = outb_wait P PIC2_DATA 2 h;
          h = outb_wait P PIC1_DATA ICW4_8086 h;
          h = outb_wait P PIC2_DATA ICW4_8086 h;
          h = outb P PIC1_DATA 0xFF h
      in outb P PIC2_DATA 0xFF h)"

section \<open>The local APIC\<close>

definition APIC_BASE_MSR :: u32 where "APIC_BASE_MSR = 0x1B"

text \<open>Model-specific registers: the low and the high half of each.\<close>

type_synonym msrs = "u32 \<Rightarrow> u32 \<times> u32"

definition setMSR :: "u32 \<Rightarrow> u32 \<Rightarrow> u32 \<Rightarrow> msrs \<Rightarrow> msrs" where
  "setMSR msr lo hi r = r(msr := (lo, hi))"

definition getMSR :: "u32 \<Rightarrow> msrs \<Rightarrow> u32 \<times> u32" where
  "getMSR msr r = r msr"

definition set_apic_base :: "u32 \<Rightarrow> msrs \<Rightarrow> msrs" where
  "set_apic_base base r = setMSR APIC_BASE_MSR (base OR 0x800) 0 r"

definition get_apic_base :: "msrs \<Rightarrow> u32" where
  "get_apic_base r = fst (getMSR APIC_BASE_MSR r) AND 0xFFFFF000"

definition init_apic :: "'h mmio \<Rightarrow> msrs \<Rightarrow> kernel \<Rightarrow> 'h \<Rightarrow> (addr \<times> msrs \<times> kernel \<times> 'h) result" where
  "init_apic M r k h =
     (let apic_base = get_apic_base r; r = set_apic_base apic_base r in
      rbind (map_phys_obj apic_base 0x400 k) (\<lambda>(apic_base, k).
      Inr (apic_base, r, k, mmio_or M (apic_base + 0xF0) 0x100 h)))"

definition eoi :: "'h mmio \<Rightarrow> addr \<Rightarrow> 'h \<Rightarrow> 'h" where
  "eoi M apic_base h = wr32 M (apic_base + 0xB0) 0 h"

section \<open>The I/O APIC\<close>

definition write_ioapic :: "'h mmio \<Rightarrow> addr \<Rightarrow> u8 \<Rightarrow> u32 \<Rightarrow> 'h \<Rightarrow> 'h" where
  "write_ioapic M base off v h = wr32 M (base + 0x10) v (wr32 M base (ucast off) h)"

text \<open>The displacement is added to a pointer to words: 16 words.\<close>

definition read_ioapic :: "'h mmio \<Rightarrow> addr \<Rightarrow> u8 \<Rightarrow> 'h \<Rightarrow> u32 \<times> 'h" where
  "read_ioapic M base off h = rd32 M (base + 4 * 0x10) (wr32 M base (ucast off) h)"

definition route_entry :: "u32 \<Rightarrow> u8 \<Rightarrow> u32" where
  "route_entry e irq =
     (let e = (e AND NOT 0xFF) OR ((0x30 + ucast irq) AND 0xFF);
          e = e AND NOT (push_bit 8 7);
          e = e AND NOT (push_bit 11 1);
          e = e AND NOT (push_bit 15 1)
      in e AND NOT (push_bit 16 1))"

definition map_irq :: "'h mmio \<Rightarrow> addr \<Rightarrow> u8 \<Rightarrow> 'h \<Rightarrow> 'h" where
  "map_irq M base irq h =
     (let (entry_low, h) = read_ioapic M base (0x10 + irq * 2) h;
          (entry_high, h) = read_ioapic M base (0x11 + irq * 2) h;
          h = write_ioapic M base (0x10 + irq * 2) (route_entry entry_low irq) h
      in write_ioapic M base (0x11 + irq * 2) entry_high h)"

definition MADT_ENTRIES :: u32 where "MADT_ENTRIES = 0x2C"
definition SIG_APIC :: "u8 list" where "SIG_APIC = [0x41, 0x50, 0x49, 0x43]"
definition SIG_HPET :: "u8 list" where "SIG_HPET = [0x48, 0x50, 0x45, 0x54]"

definition madt_step :: "machine \<Rightarrow> addr \<Rightarrow> addr \<Rightarrow> (bool \<times> addr) result" where
  "madt_step m madt ent =
     rbind (vload32 m (madt + SDT_LENGTH)) (\<lambda>len.
     if ent < madt + len
     then rbind (vload8 m ent) (\<lambda>ty.
          if ty = 1 then rbind (vload32 m (ent + 4)) (\<lambda>b. Inr (False, b))
          else rbind (vload8 m (ent + 1)) (\<lambda>l. Inr (True, ent + ucast l)))
     else Inr (False, 0))"

partial_function (option) find_ioapic :: "machine \<Rightarrow> addr \<Rightarrow> addr \<Rightarrow> addr result option" where
  "find_ioapic m madt ent =
     (case madt_step m madt ent of
        Inl e \<Rightarrow> Some (Inl e)
      | Inr (go, a) \<Rightarrow> if go then find_ioapic m madt a else Some (Inr a))"

definition init_ioapic :: "'h mmio \<Rightarrow> addr \<Rightarrow> u32 \<Rightarrow> kernel \<Rightarrow> 'h \<Rightarrow> (addr \<times> kernel \<times> 'h) result" where
  "init_ioapic M rsdt_global timer_irq k h =
     rbind (find_sdt (k_mach k) rsdt_global SIG_APIC) (\<lambda>madt.
     rbind (loop_result (find_ioapic (k_mach k) madt (madt + MADT_ENTRIES))) (\<lambda>ioapic_base.
     rbind (map_phys_obj ioapic_base 0x14 k) (\<lambda>(ioapic_base, k).
     Inr (ioapic_base, k, map_irq M ioapic_base (ucast timer_irq) (map_irq M ioapic_base 1 h)))))"

section \<open>Choosing a timer\<close>

record hpet_state =
  hs_base :: addr
  hs_timer_idx :: u32
  hs_timer_irq :: u32
  hs_tick_period :: u32

definition HPET_ADDRESS :: u32 where "HPET_ADDRESS = 44"

definition free_irq :: "u32 \<Rightarrow> nat option" where
  "free_irq routing_map = find (\<lambda>j. 0 < drop_bit j routing_map AND 1 \<and> j \<noteq> 1) [0..<32]"

fun choose_timer :: "'h mmio \<Rightarrow> nat list \<Rightarrow> hpet_state \<Rightarrow> 'h \<Rightarrow> hpet_state \<times> 'h" where
  "choose_timer M [] hs h = (hs, h)"
| "choose_timer M (i # is) hs h =
     (let timer_conf = hs_base hs + 0x100 + 0x20 * of_nat i;
          h = mmio_or M timer_conf (push_bit 8 1) h;
          (routing_map, h) = rd32 M (timer_conf + 4) h
      in case free_irq routing_map of
           None \<Rightarrow> choose_timer M is hs h
         | Some j \<Rightarrow>
             let hs = hs\<lparr>hs_timer_irq := of_nat j\<rparr>;
                 h = mmio_or M timer_conf (push_bit 9 (hs_timer_irq hs)) h;
                 h = mmio_or M timer_conf (push_bit 2 1) h
             in (hs\<lparr>hs_timer_idx := of_nat i\<rparr>, h))"

definition init_hpet :: "'h mmio \<Rightarrow> addr \<Rightarrow> hpet_state \<Rightarrow> kernel \<Rightarrow> 'h \<Rightarrow> (hpet_state \<times> kernel \<times> 'h) result" where
  "init_hpet M rsdt_global hs k h =
     rbind (find_sdt (k_mach k) rsdt_global SIG_HPET) (\<lambda>hpet_global.
     rbind (kload k (hpet_global + HPET_ADDRESS)) (\<lambda>base_old.
     rbind (map_phys_obj base_old 0x117 k) (\<lambda>(base, k).
     let (cap, h) = rd32 M base h; timer_count = ((drop_bit 8 cap) AND 0x1F) + 1 in
     rbind (kunmap base k) (\<lambda>k.
     rbind (kfree k base) (\<lambda>k.
     rbind (map_phys_obj base_old (0x117 + 0x20 * timer_count) k) (\<lambda>(base, k).
     let (period, h) = rd32 M (base + 4) h;
         h = mmio_and M (base + 0x10) (NOT 1) h;
         (hs, h) = choose_timer M [0..<unat timer_count] (hs\<lparr>hs_base := base, hs_tick_period := period\<rparr>) h
     in Inr (hs, k, h)))))))"

section \<open>The processor's and the I/O APIC's view\<close>

text \<open>What the processor makes of a gate: its target, whether it is present and the privilege it asks for.\<close>

definition gate_target :: "idt_entry \<Rightarrow> addr" where
  "gate_target e = ucast (isr_addr_low e) OR push_bit 16 (ucast (isr_addr_high e))"

definition gate_present :: "idt_entry \<Rightarrow> bool" where
  "gate_present e = bit (idt_attributes e) 7"

definition gate_dpl :: "idt_entry \<Rightarrow> nat" where
  "gate_dpl e = unat (drop_bit 5 (idt_attributes e) AND 3)"

definition gate_serves :: "idt_entry \<Rightarrow> addr \<Rightarrow> nat \<Rightarrow> bool" where
  "gate_serves e isr dpl \<longleftrightarrow> gate_target e = isr \<and> gate_present e \<and> gate_dpl e = dpl"

text \<open>
  An I/O APIC at \<open>base\<close>: the register written at \<open>base\<close> selects which one is behind the window at \<open>base + 0x10\<close>; what
  other addresses return is given.
\<close>

record ioapic =
  io_sel :: u32
  io_regs :: "u32 \<Rightarrow> u32"
  io_other :: "addr \<Rightarrow> u32"

definition ioapic_mmio :: "addr \<Rightarrow> ioapic mmio" where
  "ioapic_mmio base = \<lparr>
     rd32 = (\<lambda>a d. (if a = base then io_sel d else if a = base + 0x10 then io_regs d (io_sel d) else io_other d a, d)),
     wr32 = (\<lambda>a v d. if a = base then d\<lparr>io_sel := v\<rparr>
       else if a = base + 0x10 then d\<lparr>io_regs := (io_regs d)(io_sel d := v)\<rparr> else d)\<rparr>"

lemma split_word: "ucast (ucast (w AND 0xFFFF) :: u16) OR push_bit 16 (ucast (ucast (drop_bit 16 w) :: u16)) = (w :: u32)"
proof (rule bit_eqI)
  fix n assume n: "possible_bit TYPE(u32) n"
  have ff: "(0xFFFF :: u32) = mask 16" by (simp add: mask_eq_exp_minus_1)
  show "bit (ucast (ucast (w AND 0xFFFF) :: u16) OR push_bit 16 (ucast (ucast (drop_bit 16 w) :: u16)) :: u32) n = bit w n"
    using n unfolding ff by (cases "n < 16") (auto simp: bit_simps)
qed

lemma idt_set_entry_serves:
  assumes "v < length idt"
  obtains e where "idt_set_entry v isr user idt = Inr (idt[v := e])" and "gate_serves e isr (if user then 3 else 0)"
proof
  let ?e = "\<lparr>isr_addr_low = ucast (isr AND 0xFFFF), kernel_cs = 0x08, idt_reserved = 0,
    idt_attributes = (if user then 0x8E OR 0x60 else 0x8E), isr_addr_high = ucast (drop_bit 16 isr)\<rparr>"
  show "idt_set_entry v isr user idt = Inr (idt[v := ?e])" using assms by (simp add: idt_set_entry_def)
  have "bit (0x8E :: u8) 7" "bit (0x8E OR 0x60 :: u8) 7" by simp_all
  moreover have "unat (drop_bit 5 (0x8E :: u8) AND 3) = 0" "unat (drop_bit 5 (0x8E OR 0x60 :: u8) AND 3) = 3" by code_simp+
  ultimately show "gate_serves ?e isr (if user then 3 else 0)"
    by (simp add: gate_serves_def gate_target_def gate_present_def gate_dpl_def split_word)
qed

text \<open>
  After \<^verbatim>\<open>init_idt\<close>, with a timer interrupt other than the keyboard's, the processor finds each of the four handlers
  at its vector, with only the system call open to user mode, and every other gate is as before.
\<close>
theorem init_idt_dispatch:
  assumes "length idt = ISR_COUNT" and "timer_irq < 32" and "timer_irq \<noteq> 1"
  shows "\<exists>idt' r s'. init_idt a gpf key tim sys timer_irq idt s = Inr (idt', r, s') \<and>
    gate_serves (idt' ! 0xD) gpf 0 \<and> gate_serves (idt' ! 0x31) key 0 \<and> gate_serves (idt' ! unat (0x30 + timer_irq)) tim 0 \<and>
    gate_serves (idt' ! 0x80) sys 3 \<and>
    (\<forall>v. v \<notin> {0xD, 0x31, unat (0x30 + timer_irq), 0x80} \<longrightarrow> idt' ! v = idt ! v) \<and> irqs_on s'"
proof -
  let ?t = "unat (0x30 + timer_irq)"
  have "unat timer_irq < 32" using assms(2) by (simp add: word_less_nat_alt)
  then have t: "?t = 48 + unat timer_irq" by (simp add: unat_add_u32)
  have "unat timer_irq \<noteq> 1" using assms(3) by (simp add: word_unat_eq_iff)
  then have d: "?t \<noteq> 0xD" "?t \<noteq> 0x31" "?t \<noteq> 0x80" "?t < 256" using t \<open>unat timer_irq < 32\<close> by auto
  have l: "length idt = 256" using assms(1) by (simp add: ISR_COUNT_def)
  obtain e1 where e1: "idt_set_entry 0xD gpf False idt = Inr (idt[0xD := e1])" "gate_serves e1 gpf 0"
    by (rule idt_set_entry_serves [where v = "0xD" and idt = idt and isr = gpf and user = False]) (simp_all add: l)
  obtain e2 where e2: "idt_set_entry 0x31 key False (idt[0xD := e1]) = Inr (idt[0xD := e1, 0x31 := e2])" "gate_serves e2 key 0"
    by (rule idt_set_entry_serves [where v = "0x31" and idt = "idt[0xD := e1]" and isr = key and user = False]) (simp_all add: l)
  obtain e3 where e3: "idt_set_entry ?t tim False (idt[0xD := e1, 0x31 := e2]) = Inr (idt[0xD := e1, 0x31 := e2, ?t := e3])" "gate_serves e3 tim 0"
    by (rule idt_set_entry_serves [where v = ?t and idt = "idt[0xD := e1, 0x31 := e2]" and isr = tim and user = False]) (simp_all add: l d del: unat_add_u32)
  obtain e4 where e4: "idt_set_entry 0x80 sys True (idt[0xD := e1, 0x31 := e2, ?t := e3]) = Inr (idt[0xD := e1, 0x31 := e2, ?t := e3, 0x80 := e4])"
      "gate_serves e4 sys 3"
    by (rule idt_set_entry_serves [where v = "0x80" and idt = "idt[0xD := e1, 0x31 := e2, ?t := e3]" and isr = sys and user = True]) (simp_all add: l)
  have "init_idt a gpf key tim sys timer_irq idt s = Inr (idt[0xD := e1, 0x31 := e2, ?t := e3, 0x80 := e4],
      \<lparr>idtr_limit = of_nat (8 * ISR_COUNT - 1), idtr_base = a\<rparr>, s\<lparr>irqs_on := True\<rparr>)"
    by (simp only: init_idt_def e1(1) e2(1) e3(1) e4(1) rbind_simps)
  moreover have "gate_serves (idt[0xD := e1, 0x31 := e2, ?t := e3, 0x80 := e4] ! 0xD) gpf 0"
    "gate_serves (idt[0xD := e1, 0x31 := e2, ?t := e3, 0x80 := e4] ! 0x31) key 0"
    "gate_serves (idt[0xD := e1, 0x31 := e2, ?t := e3, 0x80 := e4] ! ?t) tim 0"
    "gate_serves (idt[0xD := e1, 0x31 := e2, ?t := e3, 0x80 := e4] ! 0x80) sys 3"
    using e1(2) e2(2) e3(2) e4(2) d l by (simp_all add: nth_list_update)
  moreover have "\<forall>v. v \<notin> {0xD, 0x31, ?t, 0x80} \<longrightarrow> idt[0xD := e1, 0x31 := e2, ?t := e3, 0x80 := e4] ! v = idt ! v" by simp
  ultimately show ?thesis by (intro exI conjI) (assumption | simp)+
qed

definition blank_gate :: idt_entry where
  "blank_gate = \<lparr>isr_addr_low = 0, kernel_cs = 0, idt_reserved = 0, idt_attributes = 0, isr_addr_high = 0\<rparr>"

theorem init_idt_dispatch_witness:
  "\<exists>idt' r s'. init_idt 0x1000 0x10 0x20 0x30 0xC0000040 8 (replicate 256 blank_gate) sched_example = Inr (idt', r, s') \<and>
     gate_target (idt' ! 0x80) = 0xC0000040 \<and> gate_target (idt' ! unat (0x30 + 8 :: u32)) = 0x30"
proof -
  have "length (replicate 256 blank_gate) = ISR_COUNT" by (simp add: ISR_COUNT_def)
  from init_idt_dispatch [OF this, of 8 "0x1000" "0x10" "0x20" "0x30" "0xC0000040" sched_example] show ?thesis
    by (auto simp: gate_serves_def)
qed

lemma bit_low_mask: "bit (0xFF :: u32) n \<longleftrightarrow> n < 8" "bit (push_bit 8 7 :: u32) n \<longleftrightarrow> 8 \<le> n \<and> n < 11"
  "bit (push_bit i 1 :: u32) n \<longleftrightarrow> n = i \<and> n < 32"
proof -
  have "(0xFF :: u32) = mask 8" by (simp add: mask_eq_exp_minus_1)
  then show "bit (0xFF :: u32) n \<longleftrightarrow> n < 8" by (simp only: bit_mask_iff) auto
  have "push_bit 8 7 = push_bit 8 (mask 3 :: u32)" by (simp add: mask_eq_exp_minus_1)
  then show "bit (push_bit 8 7 :: u32) n \<longleftrightarrow> 8 \<le> n \<and> n < 11" by (simp only: bit_push_bit_iff bit_mask_iff) auto
  show "bit (push_bit i 1 :: u32) n \<longleftrightarrow> n = i \<and> n < 32" by (auto simp: bit_simps)
qed

lemma route_entry_bit:
  "bit (route_entry e irq) n \<longleftrightarrow> n < 32 \<and> n \<notin> {8, 9, 10, 11, 15, 16} \<and>
     (if n < 8 then bit (0x30 + ucast irq :: u32) n else bit e n)"
  unfolding route_entry_def Let_def bit_and_iff bit_or_iff bit_not_iff bit_low_mask by (auto dest: bit_imp_le_length)

text \<open>
  \<^verbatim>\<open>map_irq\<close> routes an interrupt to vector 0x30 + irq, unmasked, edge-triggered and with fixed delivery to a
  physical destination, and touches no other register; but the upper half of the entry, which names the destination, is
  replaced by what is read at 0x40 behind the base, because \<^verbatim>\<open>read_ioapic\<close> scales its displacement.
\<close>
theorem map_irq_correct:
  assumes "irq < 120"
  shows "let d' = map_irq (ioapic_mmio base) base irq d; lo = 0x10 + 2 * ucast irq in
    io_regs d' lo AND 0xFF = 0x30 + ucast irq \<and> \<not> bit (io_regs d' lo) 16 \<and> \<not> bit (io_regs d' lo) 15 \<and> \<not> bit (io_regs d' lo) 11 \<and>
    (\<forall>i \<in> {8, 9, 10}. \<not> bit (io_regs d' lo) i) \<and> io_regs d' (lo + 1) = io_other d (base + 0x40) \<and>
    (\<forall>r. r \<noteq> lo \<and> r \<noteq> lo + 1 \<longrightarrow> io_regs d' r = io_regs d r)"
proof -
  have u: "unat irq < 120" using assms by (simp add: word_less_nat_alt)
  have uc: "unat (ucast x :: u32) = unat x" for x :: u8
    using unat_u8_lt [of x] by (simp add: unsigned_ucast_eq take_bit_nat_eq_self del: unat_u8_lt)
  have "unat (ucast (0x10 + irq * 2) :: u32) = 16 + 2 * unat irq"
    using u unfolding uc by (simp add: unat_word_ariths)
  then have lo: "ucast (0x10 + irq * 2) = (0x10 + 2 * ucast irq :: u32)"
    using u by (simp add: word_unat_eq_iff unat_word_ariths uc)
  have "unat (ucast (0x11 + irq * 2) :: u32) = 17 + 2 * unat irq"
    using u unfolding uc by (simp add: unat_word_ariths)
  then have hi: "ucast (0x11 + irq * 2) = (0x10 + 2 * ucast irq + 1 :: u32)"
    using u by (simp add: word_unat_eq_iff unat_word_ariths uc)
  define lo' where "lo' = (0x10 + 2 * ucast irq :: u32)"
  have b: "base + 0x10 \<noteq> base" "base + 0x40 \<noteq> base" "base + 0x40 \<noteq> base + 0x10" by simp_all
  have r: "io_regs (map_irq (ioapic_mmio base) base irq d) =
      (io_regs d)(lo' := route_entry (io_other d (base + 0x40)) irq, lo' + 1 := io_other d (base + 0x40))"
    using b by (simp add: map_irq_def read_ioapic_def write_ioapic_def ioapic_mmio_def Let_def lo hi lo'_def)
  have v: "0x30 + ucast irq AND 0xFF = (0x30 + ucast irq :: u32)"
  proof -
    have "unat (0x30 + ucast irq :: u32) < 256" using u by (simp add: unat_add_u32 uc)
    then have "(0x30 + ucast irq :: u32) < 2 ^ 8" by (simp add: word_less_nat_alt)
    then have "take_bit 8 (0x30 + ucast irq :: u32) = 0x30 + ucast irq" by (rule less_mask_eq [unfolded take_bit_eq_mask [symmetric]])
    then show ?thesis by (simp add: take_bit_eq_mask mask_eq_exp_minus_1)
  qed
  have "route_entry e irq AND 0xFF = (0x30 + ucast irq) AND 0xFF" for e
    by (intro bit_eqI, unfold bit_and_iff route_entry_bit bit_low_mask(1)) auto
  then show ?thesis unfolding Let_def r lo'_def [symmetric] v by (auto simp: route_entry_bit)
qed

theorem map_irq_correct_witness:
  "io_regs (map_irq (ioapic_mmio 0xFEC00000) 0xFEC00000 8 \<lparr>io_sel = 0, io_regs = (\<lambda>_. 0x10000), io_other = (\<lambda>_. 0)\<rparr>) 0x20 AND 0xFF = 0x38"
  using map_irq_correct [of 8 "0xFEC00000" "\<lparr>io_sel = 0, io_regs = (\<lambda>_. 0x10000), io_other = (\<lambda>_. 0)\<rparr>"] by (simp add: Let_def)

lemma free_irq_sound:
  assumes "free_irq w = Some j"
  shows "j < 32" and "j \<noteq> 1" and "bit w j" and "\<And>i. i < j \<Longrightarrow> bit w i \<Longrightarrow> i = 1"
proof -
  have b: "0 < drop_bit i w AND 1 \<longleftrightarrow> bit w i" for i
    by (simp add: bit_iff_odd_drop_bit and_one_eq odd_iff_mod_2_eq_one word_gt_0)
  from assms obtain n where n: "n < 32" "j = n" "bit w j" "j \<noteq> 1" "\<forall>i < n. \<not> (bit w i \<and> i \<noteq> 1)"
    by (auto simp: free_irq_def find_Some_iff b simp del: upt_Suc)
  then show "j < 32" "j \<noteq> 1" "bit w j" "\<And>i. i < j \<Longrightarrow> bit w i \<Longrightarrow> i = 1" by auto
qed

text \<open>
  C22: the interrupts of keyboard and timer reach their handlers: for the first interrupt line that a timer may be
  routed to, the vectors that \<^verbatim>\<open>init_ioapic\<close> enters for the two lines are those at which \<^verbatim>\<open>init_idt\<close> has placed the
  handlers, and both are unmasked.
\<close>
theorem interrupts_reach_handlers:
  assumes "free_irq routing_map = Some j" and "length idt = ISR_COUNT"
  shows "\<exists>idt' r s'. init_idt a gpf key tim sys (of_nat j) idt s = Inr (idt', r, s') \<and>
    (let d' = map_irq (ioapic_mmio base) base (ucast (of_nat j :: u32)) (map_irq (ioapic_mmio base) base 1 d);
         entry_of = (\<lambda>irq. io_regs d' (0x10 + 2 * of_nat irq))
     in gate_serves (idt' ! unat (entry_of j AND 0xFF)) tim 0 \<and> gate_serves (idt' ! unat (entry_of 1 AND 0xFF)) key 0 \<and>
        \<not> bit (entry_of j) 16 \<and> \<not> bit (entry_of 1) 16)"
proof -
  note j = free_irq_sound(1,2) [OF assms(1)]
  let ?d1 = "map_irq (ioapic_mmio base) base 1 d"
  have uj: "unat (of_nat j :: u32) = j" "unat (of_nat j :: u8) = j" using j by (simp_all add: unat_of_nat take_bit_nat_eq_self)
  have cj: "ucast (of_nat j :: u32) = (of_nat j :: u8)" "ucast (of_nat j :: u8) = (of_nat j :: u32)"
    using j by (simp_all add: word_unat_eq_iff unsigned_ucast_eq unat_of_nat take_bit_nat_eq_self)
  have "(of_nat j :: u8) < 120" using j uj by (simp add: word_less_nat_alt)
  note mj = map_irq_correct [OF this, of base ?d1, unfolded Let_def cj]
  have "(1 :: u8) < 120" by simp
  note m1 = map_irq_correct [OF this, of base d, unfolded Let_def, simplified]
  have lo: "unat (0x10 + 2 * of_nat j :: u32) = 16 + 2 * j" and "unat (0x10 + 2 * of_nat j + 1 :: u32) = 17 + 2 * j"
    using j uj by (simp_all add: unat_word_ariths)
  moreover have "unat (0x12 :: u32) = 18" by simp
  moreover have "18 \<noteq> 16 + 2 * j" "18 \<noteq> 17 + 2 * j" using j by presburger+
  ultimately have ne: "0x12 \<noteq> (0x10 + 2 * of_nat j :: u32)" "0x12 \<noteq> (0x10 + 2 * of_nat j + 1 :: u32)" by metis+
  have t: "(of_nat j :: u32) < 32" "(of_nat j :: u32) \<noteq> 1" using j uj by (auto simp: word_less_nat_alt word_unat_eq_iff)
  from init_idt_dispatch [OF assms(2) t, of a gpf key tim sys s] obtain idt' r s' where
    i: "init_idt a gpf key tim sys (of_nat j) idt s = Inr (idt', r, s')" "gate_serves (idt' ! 0x31) key 0"
      "gate_serves (idt' ! unat (0x30 + of_nat j :: u32)) tim 0" by blast
  have one: "(0x10 + 2 * of_nat 1 :: u32) = 0x12" by simp
  have "io_regs (map_irq (ioapic_mmio base) base (of_nat j) ?d1) 0x12 = io_regs ?d1 0x12" using mj ne by blast
  with m1 have k: "io_regs (map_irq (ioapic_mmio base) base (of_nat j) ?d1) 0x12 AND 0xFF = 0x31"
    "\<not> bit (io_regs (map_irq (ioapic_mmio base) base (of_nat j) ?d1) 0x12) 16" by simp_all
  have "unat (0x31 :: u32) = 0x31" by simp
  then show ?thesis using i k mj unfolding Let_def cj one by (intro exI conjI) (simp_all only: simp_thms)
qed

theorem interrupts_reach_handlers_witness:
  "\<exists>idt' r s'. init_idt 0x1000 0x10 0x20 0x30 0x40 2 (replicate 256 blank_gate) sched_example = Inr (idt', r, s') \<and>
     gate_serves (idt' ! 0x32) 0x30 0"
proof -
  let ?d = "\<lparr>io_sel = 0, io_regs = (\<lambda>_. 0x10000), io_other = (\<lambda>_. 0)\<rparr>"
  have f: "free_irq 0xF6 = Some 2" by code_simp
  have l: "length (replicate 256 blank_gate) = ISR_COUNT" by (simp add: ISR_COUNT_def)
  have e: "unat (io_regs (map_irq (ioapic_mmio 0xFEC00000) 0xFEC00000 (ucast (of_nat 2 :: u32))
    (map_irq (ioapic_mmio 0xFEC00000) 0xFEC00000 1 ?d)) (0x10 + 2 * of_nat 2) AND 0xFF) = 0x32" by code_simp
  from interrupts_reach_handlers [OF f l, of "0x1000" "0x10" "0x20" "0x30" "0x40" sched_example "0xFEC00000" ?d]
  show ?thesis unfolding Let_def e by auto
qed

section \<open>The old controllers are masked\<close>

text \<open>
  A pair of 8259 controllers: after the first initialisation word the next three bytes on the data port are the vector
  offset, the cascade and the mode, and then bytes are masks.
\<close>

record pic_chip =
  pic_step :: nat
  pic_offset :: u8
  pic_cascade :: u8
  pic_mode :: u8
  pic_mask :: u8

definition pic_cmd :: "u8 \<Rightarrow> pic_chip \<Rightarrow> pic_chip" where
  "pic_cmd v c = (if bit v 4 then c\<lparr>pic_step := 2\<rparr> else c)"

definition pic_data :: "u8 \<Rightarrow> pic_chip \<Rightarrow> pic_chip" where
  "pic_data v c = (if pic_step c = 2 then c\<lparr>pic_step := 3, pic_offset := v\<rparr>
     else if pic_step c = 3 then c\<lparr>pic_step := 4, pic_cascade := v\<rparr>
     else if pic_step c = 4 then c\<lparr>pic_step := 0, pic_mode := v\<rparr> else c\<lparr>pic_mask := v\<rparr>)"

definition pic_outb :: "u16 \<Rightarrow> u8 \<Rightarrow> pic_chip \<times> pic_chip \<Rightarrow> pic_chip \<times> pic_chip" where
  "pic_outb p v = (\<lambda>(m, s). if p = PIC1_CMD then (pic_cmd v m, s) else if p = PIC1_DATA then (pic_data v m, s)
     else if p = PIC2_CMD then (m, pic_cmd v s) else if p = PIC2_DATA then (m, pic_data v s) else (m, s))"

definition pic_ports :: "(pic_chip \<times> pic_chip) ports" where
  "pic_ports = \<lparr>outb = pic_outb, inb = (\<lambda>_ h. (0, h)), outw = (\<lambda>_ _ h. h), inw = (\<lambda>_ h. (0, h)),
     outl = (\<lambda>_ _ h. h), inl = (\<lambda>_ h. (0, h))\<rparr>"

text \<open>
  Whatever the state of the two old controllers, after \<^verbatim>\<open>init_pic\<close> both are initialised with vectors from 0x20
  and 0x28 on, chained through line 2, and mask all their lines.
\<close>
theorem init_pic_masks:
  "init_pic pic_ports (m, s) =
    (\<lparr>pic_step = 0, pic_offset = 0x20, pic_cascade = 4, pic_mode = 1, pic_mask = 0xFF\<rparr>,
     \<lparr>pic_step = 0, pic_offset = 0x28, pic_cascade = 2, pic_mode = 1, pic_mask = 0xFF\<rparr>)"
  by (simp add: init_pic_def outb_wait_def io_wait_def pic_ports_def pic_outb_def pic_cmd_def pic_data_def pic_consts Let_def)

end
