(* ===== verification/Ps2.thy ===== *)
theory Ps2
  imports Ata Kheap
begin

unbundle bit_operations_syntax

text \<open>
  \<^verbatim>\<open>src/kernel/ps2.c\<close> and \<^verbatim>\<open>init_keyboard\<close> of \<^verbatim>\<open>src/kernel/keyboard.c\<close>: the initialisation of the keyboard controller.
  The polling loops end only if the hardware, an argument, reports that it is ready. The last sections show what the
  code achieves on a controller that follows the protocol.
\<close>

section \<open>Registers and commands\<close>

definition PS2_DATA :: u16 where "PS2_DATA = 0x60"
definition PS2_STAT :: u16 where "PS2_STAT = 0x64"
definition PS2_CMD :: u16 where "PS2_CMD = 0x64"
definition PS2_OBUF_STAT :: u8 where "PS2_OBUF_STAT = 0x1"
definition PS2_IBUF_STAT :: u8 where "PS2_IBUF_STAT = 0x2"
definition PS2_INT_0 :: u8 where "PS2_INT_0 = 0x1"
definition PS2_INT_1 :: u8 where "PS2_INT_1 = 0x2"
definition PS2_CLK_0 :: u8 where "PS2_CLK_0 = 0x10"
definition PS2_CLK_1 :: u8 where "PS2_CLK_1 = 0x20"
definition PS2_CMD_DISABLE_0 :: u8 where "PS2_CMD_DISABLE_0 = 0xAD"
definition PS2_CMD_DISABLE_1 :: u8 where "PS2_CMD_DISABLE_1 = 0xA7"
definition PS2_CMD_CONF_R :: u8 where "PS2_CMD_CONF_R = 0x20"
definition PS2_CMD_CONF_W :: u8 where "PS2_CMD_CONF_W = 0x60"
definition PS2_CMD_CHK :: u8 where "PS2_CMD_CHK = 0xAA"
definition PS2_CMD_ENABLE_0 :: u8 where "PS2_CMD_ENABLE_0 = 0xAE"
definition PS2_CMD_ENABLE_1 :: u8 where "PS2_CMD_ENABLE_1 = 0xA8"

lemmas ps2_consts = PS2_DATA_def PS2_STAT_def PS2_CMD_def PS2_OBUF_STAT_def PS2_IBUF_STAT_def PS2_INT_0_def PS2_INT_1_def
  PS2_CLK_0_def PS2_CLK_1_def PS2_CMD_DISABLE_0_def PS2_CMD_DISABLE_1_def PS2_CMD_CONF_R_def PS2_CMD_CONF_W_def
  PS2_CMD_CHK_def PS2_CMD_ENABLE_0_def PS2_CMD_ENABLE_1_def

section \<open>Polling\<close>

partial_function (option) ps2_poll_write :: "'h ports \<Rightarrow> 'h \<Rightarrow> 'h option" where
  "ps2_poll_write P h =
     (case inb P PS2_STAT h of (s, h) \<Rightarrow> if s AND PS2_IBUF_STAT \<noteq> 0 then ps2_poll_write P h else Some h)"

partial_function (option) ps2_poll_read :: "'h ports \<Rightarrow> 'h \<Rightarrow> 'h option" where
  "ps2_poll_read P h =
     (case inb P PS2_STAT h of (s, h) \<Rightarrow> if s AND PS2_OBUF_STAT = 0 then ps2_poll_read P h else Some h)"

definition poll_result :: "'h option \<Rightarrow> 'h result" where
  "poll_result r = (case r of None \<Rightarrow> Inl Spins | Some h \<Rightarrow> Inr h)"

text \<open>A byte written to the data port, and one read from it, once the controller is ready.\<close>

definition ps2_write :: "'h ports \<Rightarrow> u8 \<Rightarrow> 'h \<Rightarrow> 'h result" where
  "ps2_write P d h = rbind (poll_result (ps2_poll_write P h)) (\<lambda>h. Inr (outb P PS2_DATA d h))"

definition ps2_read :: "'h ports \<Rightarrow> 'h \<Rightarrow> (u8 \<times> 'h) result" where
  "ps2_read P h = rbind (poll_result (ps2_poll_read P h)) (\<lambda>h. Inr (inb P PS2_DATA h))"

definition ps2_send_0 :: "'h ports \<Rightarrow> u8 \<Rightarrow> 'h \<Rightarrow> 'h result" where
  "ps2_send_0 P d h = ps2_write P d h"

definition ps2_send_1 :: "'h ports \<Rightarrow> u8 \<Rightarrow> 'h \<Rightarrow> 'h result" where
  "ps2_send_1 P d h = ps2_write P d (outb P PS2_CMD 0xD4 h)"

section \<open>Initialisation\<close>

definition ps2_cmd :: "'h ports \<Rightarrow> u8 \<Rightarrow> 'h \<Rightarrow> 'h" where
  "ps2_cmd P c h = outb P PS2_CMD c h"

text \<open>A failed reset of the first device is only logged; the flag says whether it succeeded.\<close>

definition init_ps2 :: "'h ports \<Rightarrow> 'h \<Rightarrow> (bool \<times> 'h) result" where
  "init_ps2 P h =
     rbind (ps2_read P (ps2_cmd P PS2_CMD_CONF_R (ps2_cmd P PS2_CMD_DISABLE_1 (ps2_cmd P PS2_CMD_DISABLE_0 h)))) (\<lambda>(conf, h).
     let conf = conf AND NOT (PS2_INT_0 OR PS2_INT_1 OR PS2_CLK_0) in
     rbind (ps2_write P conf (ps2_cmd P PS2_CMD_CONF_W h)) (\<lambda>h.
     rbind (ps2_read P (ps2_cmd P PS2_CMD_CHK h)) (\<lambda>(t, h).
     if t \<noteq> 0x55 then Inl Halted
     else
       rbind (ps2_write P conf (ps2_cmd P PS2_CMD_CONF_W h)) (\<lambda>h.
       rbind (ps2_read P (ps2_cmd P PS2_CMD_CONF_R (ps2_cmd P PS2_CMD_ENABLE_1 (ps2_cmd P PS2_CMD_ENABLE_0 h)))) (\<lambda>(c, h).
       let dual_channel = (c AND PS2_CLK_1 = 0);
           conf = conf OR PS2_INT_0;
           conf = (if dual_channel then conf OR PS2_INT_1 else conf) in
       rbind (ps2_write P conf (ps2_cmd P PS2_CMD_CONF_W h)) (\<lambda>h.
       rbind (ps2_send_0 P 0xFF h) (\<lambda>h.
       rbind (ps2_read P h) (\<lambda>(a, h).
       rbind (ps2_read P h) (\<lambda>(b, h).
       Inr (\<not> ((a \<noteq> 0xFA \<or> b \<noteq> 0xAA) \<and> (a \<noteq> 0xAA \<or> b \<noteq> 0xFA)), h))))))))))"

definition init_keyboard :: "'h ports \<Rightarrow> 'h \<Rightarrow> 'h result" where
  "init_keyboard P h =
     rbind (ps2_send_0 P 0xF0 h) (\<lambda>h.
     rbind (ps2_send_0 P 1 h) (\<lambda>h.
     rbind (ps2_read P h) (\<lambda>(res, h).
     if res \<noteq> 0xFA then Inl Halted else Inr h)))"

section \<open>A controller\<close>

text \<open>
  An 8042 controller with a keyboard: its configuration byte, the command that waits for a byte, the bytes to be
  read, whether there is a second channel and the keyboard's scan code set. The keyboard acknowledges each byte.
\<close>

record i8042 =
  kc_conf :: u8
  kc_cmd :: "u8 option"
  kc_out :: "u8 list"
  kc_dual :: bool
  kb_cmd :: "u8 option"
  kb_set :: u8

definition kc_command :: "u8 \<Rightarrow> i8042 \<Rightarrow> i8042" where
  "kc_command c d =
     (if c = 0x20 then d\<lparr>kc_out := kc_out d @ [kc_conf d]\<rparr>
      else if c = 0x60 then d\<lparr>kc_cmd := Some 0x60\<rparr>
      else if c = 0xAA then d\<lparr>kc_out := kc_out d @ [0x55]\<rparr>
      else if c = 0xAD then d\<lparr>kc_conf := kc_conf d OR 0x10\<rparr>
      else if c = 0xAE then d\<lparr>kc_conf := kc_conf d AND NOT 0x10\<rparr>
      else if c = 0xA7 \<and> kc_dual d then d\<lparr>kc_conf := kc_conf d OR 0x20\<rparr>
      else if c = 0xA8 \<and> kc_dual d then d\<lparr>kc_conf := kc_conf d AND NOT 0x20\<rparr> else d)"

definition kb_byte :: "u8 \<Rightarrow> i8042 \<Rightarrow> i8042" where
  "kb_byte b d =
     (case kb_cmd d of
        Some _ \<Rightarrow> d\<lparr>kb_cmd := None, kb_set := b, kc_out := kc_out d @ [0xFA]\<rparr>
      | None \<Rightarrow> if b = 0xFF then d\<lparr>kc_out := kc_out d @ [0xFA, 0xAA]\<rparr>
                else if b = 0xF0 then d\<lparr>kb_cmd := Some b, kc_out := kc_out d @ [0xFA]\<rparr>
                else d\<lparr>kc_out := kc_out d @ [0xFA]\<rparr>)"

definition kc_data :: "u8 \<Rightarrow> i8042 \<Rightarrow> i8042" where
  "kc_data b d = (case kc_cmd d of Some _ \<Rightarrow> d\<lparr>kc_cmd := None, kc_conf := b\<rparr> | None \<Rightarrow> kb_byte b d)"

definition kc_ports :: "i8042 ports" where
  "kc_ports = \<lparr>outb = (\<lambda>p v d. if p = 0x64 then kc_command v d else if p = 0x60 then kc_data v d else d),
     inb = (\<lambda>p d. if p = 0x64 then (if kc_out d = [] then 0 else 1, d)
       else if p = 0x60 then (case kc_out d of [] \<Rightarrow> (0, d) | x # xs \<Rightarrow> (x, d\<lparr>kc_out := xs\<rparr>)) else (0, d)),
     outw = (\<lambda>_ _ d. d), inw = (\<lambda>_ d. (0, d)), outl = (\<lambda>_ _ d. d), inl = (\<lambda>_ d. (0, d))\<rparr>"

lemma kc_write: "ps2_write kc_ports b d = Inr (kc_data b d)"
  by (simp add: ps2_write_def poll_result_def kc_ports_def ps2_consts) (subst ps2_poll_write.simps, simp add: ps2_consts)

lemma kc_read: "kc_out d = x # xs \<Longrightarrow> ps2_read kc_ports d = Inr (x, d\<lparr>kc_out := xs\<rparr>)"
  by (simp add: ps2_read_def poll_result_def kc_ports_def ps2_consts) (subst ps2_poll_read.simps, simp add: ps2_consts)

lemma kc_cmd_ports: "ps2_cmd kc_ports c d = kc_command c d"
  by (simp add: ps2_cmd_def kc_ports_def ps2_consts)

lemma bit_byte: "bit (0x10 :: u8) n \<longleftrightarrow> n = 4" "bit (0x20 :: u8) n \<longleftrightarrow> n = 5" "bit (0x13 :: u8) n \<longleftrightarrow> n \<in> {0, 1, 4}"
  "bit (1 :: u8) n \<longleftrightarrow> n = 0" "bit (2 :: u8) n \<longleftrightarrow> n = 1"
proof -
  have l: "(0x10 :: u8) = push_bit 4 1" "(0x20 :: u8) = push_bit 5 1" "(2 :: u8) = push_bit 1 1" "(0x13 :: u8) = push_bit 4 1 OR 1 OR push_bit 1 1"
    by simp_all
  show "bit (0x10 :: u8) n \<longleftrightarrow> n = 4" "bit (0x20 :: u8) n \<longleftrightarrow> n = 5" "bit (1 :: u8) n \<longleftrightarrow> n = 0" "bit (2 :: u8) n \<longleftrightarrow> n = 1"
    "bit (0x13 :: u8) n \<longleftrightarrow> n \<in> {0, 1, 4}"
    unfolding l bit_or_iff bit_push_bit_iff by (auto simp: bit_1_iff)
qed

lemma and_single_bit: "(w :: u8) AND 0x20 = 0 \<longleftrightarrow> \<not> bit w 5"
proof
  assume "w AND 0x20 = 0"
  then have "\<not> bit (w AND 0x20) 5" by simp
  then show "\<not> bit w 5" by (simp only: bit_and_iff bit_byte(2)) simp
next
  assume "\<not> bit w 5"
  then show "w AND 0x20 = 0" by (intro bit_eqI) (simp only: bit_and_iff bit_byte(2) bit_0_eq, auto)
qed

text \<open>The byte that is written first and, with the interrupt bits, last.\<close>

definition kc_base :: "i8042 \<Rightarrow> u8" where
  "kc_base d = ((if kc_dual d then (kc_conf d OR 0x10) OR 0x20 else kc_conf d OR 0x10) AND NOT 0x13)"

lemma init_ps2_run:
  assumes "kc_out d = []" and "kc_cmd d = None" and "kb_cmd d = None" and "kc_dual d \<or> bit (kc_conf d) 5"
  shows "init_ps2 kc_ports d = Inr (True, d\<lparr>kc_conf := (if kc_dual d then (kc_base d OR 1) OR 2 else kc_base d OR 1)\<rparr>)"
proof -
  have eq: "d\<lparr>kc_cmd := None, kc_conf := x, kc_out := []\<rparr> = d\<lparr>kc_conf := x\<rparr>" for x using assms(1,2) by (cases d) simp
  have m: "PS2_INT_0 OR PS2_INT_1 OR PS2_CLK_0 = 0x13" by (simp add: ps2_consts)
  show ?thesis
  proof (cases "kc_dual d")
    case True
    have c: "((kc_base d AND NOT 0x10) AND NOT 0x20) AND 0x20 = 0"
      by (simp only: and_single_bit bit_and_iff bit_not_iff bit_byte) simp
    show ?thesis using assms True c [unfolded kc_base_def] unfolding init_ps2_def m
      by (simp add: kc_cmd_ports kc_command_def ps2_consts kc_read kc_write kc_data_def kb_byte_def Let_def ps2_send_0_def kc_base_def eq)
  next
    case False
    then have "bit (kc_base d AND NOT 0x10) 5"
      using assms(4) by (simp only: kc_base_def bit_and_iff bit_or_iff bit_not_iff bit_byte if_False) simp
    then have c: "(kc_base d AND NOT 0x10) AND 0x20 \<noteq> 0" by (simp only: and_single_bit) simp
    show ?thesis using assms False c [unfolded kc_base_def] unfolding init_ps2_def m
      by (simp add: kc_cmd_ports kc_command_def ps2_consts kc_read kc_write kc_data_def kb_byte_def Let_def ps2_send_0_def kc_base_def eq)
  qed
qed

text \<open>
  C40: on a controller that follows the protocol \<^verbatim>\<open>init_ps2\<close> ends, reports a successful reset and leaves nothing to be
  read; the interrupt of the first channel is on, that of the second exactly if there is one, and the first clock
  runs. The second clock is left off: its bit was set by the command that disables the channel and is
  written back.
\<close>
theorem init_ps2_configures:
  assumes "kc_out d = []" and "kc_cmd d = None" and "kb_cmd d = None" and "kc_dual d \<or> bit (kc_conf d) 5"
  shows "\<exists>d'. init_ps2 kc_ports d = Inr (True, d') \<and> kc_out d' = [] \<and> kc_cmd d' = None \<and>
    bit (kc_conf d') 0 \<and> bit (kc_conf d') 1 = kc_dual d \<and> \<not> bit (kc_conf d') 4 \<and> bit (kc_conf d') 5 \<and>
    (\<forall>n \<in> {2, 3, 6, 7}. bit (kc_conf d') n = bit (kc_conf d) n)"
proof -
  have p: "possible_bit TYPE(u8) n \<longleftrightarrow> n < 8" for n by simp
  let ?c = "if kc_dual d then (kc_base d OR 1) OR 2 else kc_base d OR 1"
  have "bit ?c n \<longleftrightarrow> n = 0 \<or> (n = 1 \<and> kc_dual d) \<or> (n < 8 \<and> n \<notin> {0, 1, 4} \<and> (bit (kc_conf d) n \<or> n = 4 \<or> kc_dual d \<and> n = 5))" for n
    by (cases "kc_dual d") (simp_all only: kc_base_def bit_or_iff bit_and_iff bit_not_iff bit_byte p if_True if_False, auto dest: bit_imp_le_length)
  then have b: "bit ?c 0" "bit ?c 1 = kc_dual d" "\<not> bit ?c 4" "bit ?c 5" "\<forall>n \<in> {2, 3, 6, 7}. bit ?c n = bit (kc_conf d) n"
    using assms(4) by auto
  show ?thesis unfolding init_ps2_run [OF assms]
    by (rule exI, rule conjI [OF refl]) (use b assms(1,2) in simp)
qed

definition kc_example :: i8042 where
  "kc_example = \<lparr>kc_conf = 0x47, kc_cmd = None, kc_out = [], kc_dual = True, kb_cmd = None, kb_set = 2\<rparr>"

theorem init_ps2_configures_witness: "\<exists>d'. init_ps2 kc_ports kc_example = Inr (True, d') \<and> bit (kc_conf d') 5"
  using init_ps2_configures [of kc_example] by (auto simp: kc_example_def)

text \<open>
  \<^verbatim>\<open>init_keyboard\<close> selects scan code set 1, but reads one acknowledgement for the two bytes it sends: the second
  stays in the controller and is taken for a scan code by the next interrupt.
\<close>
theorem init_keyboard_unread:
  assumes "kc_out d = []" and "kc_cmd d = None" and "kb_cmd d = None"
  shows "\<exists>d'. init_keyboard kc_ports d = Inr d' \<and> kb_set d' = 1 \<and> kc_out d' = [0xFA]"
  using assms by (simp add: init_keyboard_def ps2_send_0_def kc_write kc_read kc_data_def kb_byte_def)

theorem init_keyboard_unread_witness: "\<exists>d'. init_keyboard kc_ports kc_example = Inr d' \<and> kc_out d' = [0xFA]"
  using init_keyboard_unread [of kc_example] by (auto simp: kc_example_def)

end
