(* ===== verification/Elf.thy ===== *)
theory Elf
  imports Syscalls Gpt
begin

unbundle bit_operations_syntax

text \<open>
  \<^verbatim>\<open>src/common/elf.c\<close>: reading executables and filling their pages. The content of
  the file is the list of bytes in the buffer it was read into; structures are read from it at the offsets of
  the C declarations, an offset behind its end is an access outside the object. The linked list of scrolls is
  a list; the nodes' own memory is not part of the state. Frames come from \<^verbatim>\<open>kpage_alloc\<close>, and the pages are filled
  through a page of the kernel that is mapped to one frame after the other.
\<close>

section \<open>Structures\<close>

record elf_header =
  eh_signature :: u32
  eh_word_size :: u8
  eh_endianness :: u8
  eh_header_version :: u8
  eh_os_abi :: u8
  eh_rsvd :: "u8 list"
  eh_type :: u16
  eh_isa :: u16
  eh_elf_version :: u32
  eh_entry_point :: u32
  eh_program_table_offset :: u32
  eh_section_table_offset :: u32
  eh_flags :: u32
  eh_header_size :: u16
  eh_program_table_entry_size :: u16
  eh_program_table_length :: u16
  eh_section_table_entry_size :: u16
  eh_section_table_length :: u16
  eh_section_string_table_index :: u16

definition elf_header_of :: "u8 list \<Rightarrow> elf_header" where
  "elf_header_of bs = \<lparr>eh_signature = le32 bs 0, eh_word_size = bs ! 4, eh_endianness = bs ! 5, eh_header_version = bs ! 6,
     eh_os_abi = bs ! 7, eh_rsvd = slice 8 8 bs, eh_type = le16 bs 16, eh_isa = le16 bs 18, eh_elf_version = le32 bs 20,
     eh_entry_point = le32 bs 24, eh_program_table_offset = le32 bs 28, eh_section_table_offset = le32 bs 32,
     eh_flags = le32 bs 36, eh_header_size = le16 bs 40, eh_program_table_entry_size = le16 bs 42,
     eh_program_table_length = le16 bs 44, eh_section_table_entry_size = le16 bs 46, eh_section_table_length = le16 bs 48,
     eh_section_string_table_index = le16 bs 50\<rparr>"

record elf_program_header =
  ph_type :: u32
  ph_offset :: u32
  ph_vaddr :: u32
  ph_paddr :: u32
  ph_filesz :: u32
  ph_memsz :: u32
  ph_flags :: u32
  ph_alignment :: u32

definition elf_program_header_of :: "u8 list \<Rightarrow> elf_program_header" where
  "elf_program_header_of bs = \<lparr>ph_type = le32 bs 0, ph_offset = le32 bs 4, ph_vaddr = le32 bs 8, ph_paddr = le32 bs 12,
     ph_filesz = le32 bs 16, ph_memsz = le32 bs 20, ph_flags = le32 bs 24, ph_alignment = le32 bs 28\<rparr>"

record elf_section_header =
  sh_name :: u32
  sh_type :: u32
  sh_flags :: u32
  sh_addr :: u32
  sh_offset :: u32
  sh_size :: u32
  sh_link :: u32
  sh_info :: u32
  sh_addralign :: u32
  sh_entsize :: u32

record elf_info =
  ei_first_scr :: "scroll list"
  ei_limit :: addr
  ei_header :: elf_header
  ei_contents :: "u8 list"
  ei_contents_ptr :: addr

definition PT_LOAD :: u32 where "PT_LOAD = 1"

section \<open>Segments\<close>

text \<open>The offsets a loop over the program table visits; a table whose end wraps around may make it run forever.\<close>

partial_function (option) table_offsets :: "u32 \<Rightarrow> u32 \<Rightarrow> u32 \<Rightarrow> u32 list option" where
  "table_offsets offset limit step =
     (if offset < limit then Option.bind (table_offsets (offset + step) limit step) (\<lambda>os. Some (offset # os)) else Some [])"

definition program_offsets :: "elf_header \<Rightarrow> u32 list option" where
  "program_offsets h =
     table_offsets (eh_program_table_offset h)
       (eh_program_table_offset h + ucast (eh_program_table_length h) * ucast (eh_program_table_entry_size h))
       (ucast (eh_program_table_entry_size h))"

fun program_headers :: "u8 list \<Rightarrow> u32 list \<Rightarrow> elf_program_header list result" where
  "program_headers bs [] = Inr []"
| "program_headers bs (o' # os) =
     (if length bs < unat o' + 32 then Inl OutOfBounds
      else rbind (program_headers bs os) (\<lambda>hs. Inr (elf_program_header_of (drop (unat o') bs) # hs)))"

definition load_headers :: "elf_program_header list \<Rightarrow> elf_program_header list" where
  "load_headers hs = filter (\<lambda>h. ph_type h = PT_LOAD) hs"

text \<open>The pages \<^verbatim>\<open>parse_elf\<close> reserves for a segment. Both bounds are multiples of the page size.\<close>

definition first_page :: "elf_program_header \<Rightarrow> u32" where
  "first_page h = ph_vaddr h - ph_vaddr h mod PAGE_SIZE"

definition limit_page :: "elf_program_header \<Rightarrow> u32" where
  "limit_page h = (let vaddr_end = ph_vaddr h + ph_memsz h in vaddr_end + PAGE_SIZE - vaddr_end mod PAGE_SIZE)"

definition segment_pages :: "elf_program_header \<Rightarrow> u32 list" where
  "segment_pages h =
     (if first_page h < limit_page h
      then map (\<lambda>i. first_page h + of_nat i * PAGE_SIZE) [0..<unat ((limit_page h - first_page h) div PAGE_SIZE)] else [])"

fun reserve_pages :: "u32 list \<Rightarrow> frames \<Rightarrow> (scroll list \<times> frames) result" where
  "reserve_pages [] f = Inr ([], f)"
| "reserve_pages (p # ps) f =
     rbind (kpage_alloc f) (\<lambda>(page, f). rbind (reserve_pages ps f) (\<lambda>(scrs, f).
     Inr (\<lparr>scr_vaddr = p, scr_size = PAGE_SIZE, scr_type = SCROLL_ALIGNED, scr_page = page\<rparr> # scrs, f)))"

definition elf_limit :: "elf_program_header list \<Rightarrow> u32" where
  "elf_limit hs = foldl (\<lambda>l h. if limit_page h > l then limit_page h else l) 0 hs"

definition parse_contents :: "u8 list \<Rightarrow> addr \<Rightarrow> frames \<Rightarrow> (elf_info \<times> frames) result option" where
  "parse_contents bs ptr f =
     (if length bs < 52 then Some (Inl OutOfBounds)
      else let h = elf_header_of bs in
           Option.bind (program_offsets h) (\<lambda>os.
           Some (rbind (program_headers bs os) (\<lambda>hs.
             let hs = load_headers hs in
             rbind (reserve_pages (concat (map segment_pages hs)) f) (\<lambda>(scrs, f).
             Inr (\<lparr>ei_first_scr = scrs, ei_limit = elf_limit hs, ei_header = h, ei_contents = bs, ei_contents_ptr = ptr\<rparr>, f))))))"

text \<open>\<^verbatim>\<open>parse_elf\<close>: no result is an executable that is not present.\<close>

fun read_bytes :: "machine \<Rightarrow> addr \<Rightarrow> nat \<Rightarrow> u8 list result" where
  "read_bytes m a 0 = Inr []"
| "read_bytes m a (Suc n) = rbind (vload8 m a) (\<lambda>b. rbind (read_bytes m (a + 1) n) (\<lambda>bs. Inr (b # bs)))"

definition set_frames :: "frames \<Rightarrow> os \<Rightarrow> os" where
  "set_frames f os = os\<lparr>o_kern := (o_kern os)\<lparr>k_mach := (o_mach os)\<lparr>m_frames := f\<rparr>\<rparr>\<rparr>"

definition parse_elf :: "drivers \<Rightarrow> u8 list \<Rightarrow> os \<Rightarrow> (elf_info option \<times> os) result option" where
  "parse_elf D path os =
     (case vfs_open (dr_register D) path (o_vfs os) of
        None \<Rightarrow> None
      | Some (Inl e) \<Rightarrow> Some (Inl e)
      | Some (Inr (file, v)) \<Rightarrow>
          let os = os\<lparr>o_vfs := v\<rparr>; file_size = in_size (inodes v file) in
          if file = 0 then Some (Inr (None, os))
          else case rbind (kmalloc (o_kern os) file_size) (\<lambda>(contents, k).
                    rbind (dr_transfer D file 0 file_size contents DIR_READ (os\<lparr>o_kern := k\<rparr>)) (\<lambda>(n, os).
                    if n \<noteq> file_size
                    then rbind (kfree (o_kern os) contents) (\<lambda>k. Inr (contents, None, os\<lparr>o_kern := k\<rparr>))
                    else rbind (read_bytes (o_mach os) contents (unat file_size)) (\<lambda>bs.
                         Inr (contents, Some bs, os)))) of
                 Inl e \<Rightarrow> Some (Inl e)
               | Inr (_, None, os) \<Rightarrow> Some (Inr (None, os))
               | Inr (contents, Some bs, os) \<Rightarrow>
                   Option.bind (parse_contents bs contents (m_frames (o_mach os))) (\<lambda>r.
                   Some (rbind r (\<lambda>(info, f). Inr (Some info, set_frames f os)))))"

section \<open>Filling the pages\<close>

text \<open>
  The two loops over one page: bytes of the file first, then zeros. Both positions are 32-bit numbers; the
  condition of the second loop subtracts the segment's offset in the file from the position in the page.
\<close>

lemma page_loop_measure: "d < PAGE_SIZE \<Longrightarrow> 4096 - unat (d + 1) < 4096 - unat d"
  using word_loop_measure [of d PAGE_SIZE] by simp

function copy_loop :: "elf_program_header \<Rightarrow> u8 list \<Rightarrow> addr \<Rightarrow> u32 \<Rightarrow> u32 \<Rightarrow> machine \<Rightarrow> (u32 \<times> u32 \<times> machine) result" where
  "copy_loop h bs data file_offset data_offset m =
     (if file_offset - ph_offset h < ph_filesz h \<and> data_offset < PAGE_SIZE
      then if length bs \<le> unat file_offset then Inl OutOfBounds
           else rbind (vstore8 m (data + data_offset) (bs ! unat file_offset)) (\<lambda>m.
                copy_loop h bs data (file_offset + 1) (data_offset + 1) m)
      else Inr (file_offset, data_offset, m))"
  by pat_completeness auto
termination
  by (relation "measure (\<lambda>(h, bs, d, fo, do, m). 4096 - unat do)") (auto intro: page_loop_measure)

function zero_loop :: "elf_program_header \<Rightarrow> addr \<Rightarrow> u32 \<Rightarrow> machine \<Rightarrow> (u32 \<times> machine) result" where
  "zero_loop h data data_offset m =
     (if data_offset - ph_offset h < ph_memsz h \<and> data_offset < PAGE_SIZE
      then rbind (vstore8 m (data + data_offset) 0) (\<lambda>m. zero_loop h data (data_offset + 1) m)
      else Inr (data_offset, m))"
  by pat_completeness auto
termination
  by (relation "measure (\<lambda>(h, d, do, m). 4096 - unat do)") (auto intro: page_loop_measure)

declare copy_loop.simps [simp del] zero_loop.simps [simp del]

text \<open>The pages \<^verbatim>\<open>load_elf_data\<close> fills for a segment, which it counts with \<^verbatim>\<open>ALIGN_PG_UP\<close>.\<close>

definition page_count :: "elf_program_header \<Rightarrow> u32" where
  "page_count h = (ALIGN_PG_UP (ph_vaddr h + ph_memsz h) - first_page h) div PAGE_SIZE"

text \<open>One segment: \<open>n\<close> pages are left, \<open>scrs\<close> the scrolls from \<^verbatim>\<open>current_scr\<close> on.\<close>

fun fill_pages ::
  "elf_program_header \<Rightarrow> u8 list \<Rightarrow> addr \<Rightarrow> nat \<Rightarrow> u32 \<Rightarrow> u32 \<Rightarrow> scroll list \<Rightarrow> machine \<Rightarrow> (scroll list \<times> machine) result" where
  "fill_pages h bs data 0 file_offset data_offset scrs m = Inr (scrs, m)"
| "fill_pages h bs data (Suc n) file_offset data_offset [] m = Inl OutOfBounds"
| "fill_pages h bs data (Suc n) file_offset data_offset (scr # scrs) m =
     rbind (map_page m data (scr_page scr)) (\<lambda>m.
     rbind (copy_loop h bs data file_offset data_offset m) (\<lambda>(file_offset, data_offset, m).
     rbind (zero_loop h data data_offset m) (\<lambda>(_, m).
     fill_pages h bs data n file_offset 0 scrs m)))"

fun fill_segments :: "u8 list \<Rightarrow> addr \<Rightarrow> elf_program_header list \<Rightarrow> scroll list \<Rightarrow> machine \<Rightarrow> (scroll list \<times> machine) result" where
  "fill_segments bs data [] scrs m = Inr (scrs, m)"
| "fill_segments bs data (h # hs) scrs m =
     rbind (fill_pages h bs data (unat (page_count h)) (ph_offset h) (ph_vaddr h - first_page h) scrs m) (\<lambda>(scrs, m).
     fill_segments bs data hs scrs m)"

definition load_elf_data :: "elf_info \<Rightarrow> kernel \<Rightarrow> kernel result option" where
  "load_elf_data elf k =
     Option.bind (program_offsets (ei_header elf)) (\<lambda>os.
     Some (rbind (kmalloc_aligned (k_heap k)) (\<lambda>(data, hp).
     rbind (program_headers (ei_contents elf) os) (\<lambda>hs.
     rbind (fill_segments (ei_contents elf) data (load_headers hs) (ei_first_scr elf) (k_mach k)) (\<lambda>(_, m).
     rbind (unmap_page m data) (\<lambda>m.
     rbind (kfree \<lparr>k_mach = m, k_heap = hp\<rparr> (ei_contents_ptr elf)) (\<lambda>k.
     kfree k data)))))))"

section \<open>The kernel's own sections\<close>

definition section_used :: "elf_section_header \<Rightarrow> bool" where
  "section_used s \<longleftrightarrow> sh_addr s \<noteq> 0 \<and> sh_type s \<noteq> 0 \<and> sh_flags s AND 2 \<noteq> 0"

definition kernel_range :: "elf_section_header list \<Rightarrow> u32 \<times> u32" where
  "kernel_range ss = foldl (\<lambda>(lo, hi) s. (min (sh_addr s) lo, max (sh_addr s + sh_size s) hi)) (- 1, 0) (filter section_used ss)"

text \<open>The loop includes the last page, so a range up to the last page of memory makes it run forever.\<close>

partial_function (option) reserve_range :: "addr \<Rightarrow> addr \<Rightarrow> frames \<Rightarrow> frames result option" where
  "reserve_range p last_pg f =
     (if p \<le> last_pg
      then case kpage_set_status p False f of
             Inl e \<Rightarrow> Some (Inl e)
           | Inr f \<Rightarrow> reserve_range (p + PAGE_SIZE) last_pg f
      else Some (Inr f))"

definition reserve_multiboot_kernel :: "elf_section_header list \<Rightarrow> frames \<Rightarrow> (scroll \<times> frames) result option" where
  "reserve_multiboot_kernel sections f =
     (let (kernel_start, kernel_end) = kernel_range sections in
      map_option (\<lambda>r. rbind r (\<lambda>f.
        Inr (\<lparr>scr_vaddr = ALIGN_PG_DOWN kernel_start, scr_size = ALIGN_PG_UP kernel_end - ALIGN_PG_DOWN kernel_start,
          scr_type = SCROLL_ALIGNED, scr_page = ALIGN_PG_DOWN kernel_start\<rparr>, f)))
        (reserve_range (ALIGN_PG_DOWN kernel_start) (ALIGN_PG_DOWN kernel_end) f))"

section \<open>Pages of segments\<close>

lemma page_round: "e + 4096 - e mod 4096 = (e div 4096 + 1) * (4096 :: nat)"
proof -
  have "4096 + e - e mod 4096 = 4096 + (e - e mod 4096)" by (rule diff_add_assoc) (rule mod_less_eq_dividend)
  then show ?thesis by (simp add: minus_mod_eq_div_mult add.commute)
qed

lemma page_ceil:
  fixes e q :: nat
  assumes "e \<le> 4096 * q" and "4096 * q < e + 4096"
  shows "q = (if e mod 4096 = 0 then e div 4096 else e div 4096 + 1)"
proof -
  define d r where "d = e div 4096" and "r = e mod 4096"
  have e: "e = 4096 * d + r" "r < 4096" by (simp_all add: d_def r_def)
  show ?thesis
  proof (cases "r = 0")
    case True
    with e(1) assms have "d \<le> q" "q < d + 1" by linarith+
    with True show ?thesis by (simp add: d_def r_def)
  next
    case False
    with e assms have "d < q" "q < d + 2" by linarith+
    with False show ?thesis by (simp add: d_def r_def)
  qed
qed

lemma segment_bounds:
  assumes "unat (ph_vaddr h) + unat (ph_memsz h) + 4096 < 0x100000000"
  defines "e \<equiv> unat (ph_vaddr h) + unat (ph_memsz h)"
  shows "unat (first_page h) = unat (ph_vaddr h) div 4096 * 4096" and "unat (limit_page h) = (e div 4096 + 1) * 4096"
    and "unat (ph_vaddr h + ph_memsz h) = e"
proof -
  show e: "unat (ph_vaddr h + ph_memsz h) = e" using assms by (simp add: unat_add_u32)
  have "unat (ph_vaddr h mod PAGE_SIZE) = unat (ph_vaddr h) mod 4096" by (simp add: unat_mod)
  then have "unat (ph_vaddr h - ph_vaddr h mod PAGE_SIZE) = unat (ph_vaddr h) - unat (ph_vaddr h) mod 4096"
    using unat_sub_u32 [of "ph_vaddr h" "ph_vaddr h mod PAGE_SIZE"] by (simp only: mod_less_eq_dividend if_True)
  then show "unat (first_page h) = unat (ph_vaddr h) div 4096 * 4096"
    by (simp only: first_page_def minus_mod_eq_div_mult)
  have "unat ((ph_vaddr h + ph_memsz h) mod PAGE_SIZE) = e mod 4096" using e by (simp add: unat_mod)
  moreover have "unat (ph_vaddr h + ph_memsz h + PAGE_SIZE) = e + 4096" using e assms by (simp add: unat_add_u32)
  moreover have "e mod 4096 \<le> e + 4096" "e + 4096 - e mod 4096 = (e div 4096 + 1) * 4096"
    using mod_less_eq_dividend [of e 4096] page_round by auto
  ultimately show "unat (limit_page h) = (e div 4096 + 1) * 4096"
    by (simp only: limit_page_def Let_def unat_sub_u32 if_True)
qed

lemma segment_pages_nat:
  assumes "unat (ph_vaddr h) + unat (ph_memsz h) + 4096 < 0x100000000"
  shows "map unat (segment_pages h) =
    map (\<lambda>i. i * 4096) [unat (ph_vaddr h) div 4096..<(unat (ph_vaddr h) + unat (ph_memsz h)) div 4096 + 1]"
proof -
  define a e where "a = unat (ph_vaddr h) div 4096" and "e = (unat (ph_vaddr h) + unat (ph_memsz h)) div 4096"
  note b = segment_bounds [OF assms, folded a_def e_def]
  have ae: "a \<le> e" by (simp add: a_def e_def div_le_mono)
  have "e * 4096 \<le> unat (ph_vaddr h) + unat (ph_memsz h)" unfolding e_def by (rule div_times_less_eq_dividend)
  then have e: "(e + 1) * 4096 < 0x100000000" using assms by simp
  have lt: "first_page h < limit_page h" using b(1,2) ae by (simp add: word_less_nat_alt)
  have n: "unat ((limit_page h - first_page h) div PAGE_SIZE) = e + 1 - a"
  proof -
    have "unat (limit_page h - first_page h) = (e + 1 - a) * 4096"
      using b(1,2) ae by (simp add: unat_sub_u32 diff_mult_distrib)
    then show ?thesis by (simp add: unat_div)
  qed
  have "unat (first_page h + of_nat i * PAGE_SIZE) = (a + i) * 4096" if "i < e + 1 - a" for i
  proof -
    have "a + i \<le> e" using that ae by linarith
    then have i: "(a + i) * 4096 < 0x100000000" using e by simp
    then have "unat (of_nat i * PAGE_SIZE) = i * 4096" by (simp add: unat_word_ariths unat_of_nat_u32)
    then show ?thesis using b(1) i by (simp add: unat_add_u32)
  qed
  then have "map unat (segment_pages h) = map (\<lambda>i. (a + i) * 4096) [0..<e + 1 - a]"
    using lt by (simp add: segment_pages_def n)
  also have "\<dots> = map (\<lambda>i. i * 4096) [a..<e + 1]"
    by (rule nth_equalityI) (simp_all add: add_mult_distrib del: upt_Suc)
  finally show ?thesis unfolding a_def e_def .
qed

lemma segment_pages_cover:
  assumes "unat (ph_vaddr h) + unat (ph_memsz h) + 4096 < 0x100000000"
    and "unat (ph_vaddr h) \<le> unat a" and "unat a < unat (ph_vaddr h) + unat (ph_memsz h)"
  shows "ALIGN_PG_DOWN a \<in> set (segment_pages h)"
proof -
  have "unat a div 4096 * 4096 \<in> set (map unat (segment_pages h))"
    unfolding segment_pages_nat [OF assms(1)] using assms(2,3) by (auto simp: div_le_mono less_Suc_eq_le)
  moreover have "unat (ALIGN_PG_DOWN a) = unat a div 4096 * 4096"
    by (simp add: minus_mod_eq_div_mult)
  ultimately have "unat (ALIGN_PG_DOWN a) \<in> unat ` set (segment_pages h)" by (simp only: set_map)
  then show ?thesis by (metis imageE word_unat_eq_iff)
qed

lemma reserve_pages_alloc:
  "reserve_pages ps f = Inr (scrs, f') \<Longrightarrow> map scr_vaddr scrs = ps \<and>
    alloc_seq kpage_alloc (length ps) f = Inr (map scr_page scrs, f')"
  by (induction ps arbitrary: f scrs) auto

text \<open>
  When an executable has been parsed, every byte of every segment to be loaded lies in the page of a
  scroll, the scrolls are in the order of the segments and their pages, and their frames are pairwise distinct,
  were free before and are in use afterwards.
\<close>
theorem parse_elf_pages:
  assumes "wf_frames f" and "parse_contents bs ptr f = Some (Inr (info, f'))"
    and "program_offsets (elf_header_of bs) = Some os" and "program_headers bs os = Inr hs"
  shows "map scr_vaddr (ei_first_scr info) = concat (map segment_pages (load_headers hs)) \<and>
    distinct (map scr_page (ei_first_scr info)) \<and>
    (\<forall>s \<in> set (ei_first_scr info). frame_status f (scr_page s) = Some False \<and> frame_status f' (scr_page s) = Some True) \<and>
    wf_frames f' \<and>
    (\<forall>h a. h \<in> set (load_headers hs) \<and> unat (ph_vaddr h) + unat (ph_memsz h) + 4096 < 0x100000000 \<and>
      unat (ph_vaddr h) \<le> unat a \<and> unat a < unat (ph_vaddr h) + unat (ph_memsz h) \<longrightarrow>
      (\<exists>s \<in> set (ei_first_scr info). scr_vaddr s = ALIGN_PG_DOWN a))"
proof -
  define ps where "ps = concat (map segment_pages (load_headers hs))"
  obtain scrs where r: "reserve_pages ps f = Inr (scrs, f')" "ei_first_scr info = scrs"
    using assms(2-4) by (auto simp: parse_contents_def Let_def ps_def split: if_splits)
  note a = reserve_pages_alloc [OF r(1)]
  have v: "map scr_vaddr scrs = ps" using a by blast
  from kpages.alloc_seq_fresh [OF assms(1), of "length ps" "map scr_page scrs" f'] a
  have fr: "distinct (map scr_page scrs)" "\<forall>x \<in> set (map scr_page scrs). frame_status f x = Some False"
    "frame_status f' = (\<lambda>x. if x \<in> set (map scr_page scrs) then Some True else frame_status f x)" "wf_frames f'" by auto
  have "\<exists>s \<in> set scrs. scr_vaddr s = ALIGN_PG_DOWN a"
    if "h \<in> set (load_headers hs)" "unat (ph_vaddr h) + unat (ph_memsz h) + 4096 < 0x100000000"
      "unat (ph_vaddr h) \<le> unat a" "unat a < unat (ph_vaddr h) + unat (ph_memsz h)" for h a
  proof -
    have "ALIGN_PG_DOWN a \<in> set (map scr_vaddr scrs)"
      unfolding v ps_def using segment_pages_cover [OF that(2-4)] that(1) by auto
    then show ?thesis by auto
  qed
  with v fr r(2) show ?thesis unfolding ps_def by auto
qed

text \<open>
  The pages of a segment are counted differently when they are filled: one less when the segment ends at a page
  boundary.
\<close>

lemma page_count_mismatch:
  assumes "unat (ph_vaddr h) + unat (ph_memsz h) + 4096 < 0x100000000"
  shows "length (segment_pages h) = unat (page_count h) + (if (ph_vaddr h + ph_memsz h) mod PAGE_SIZE = 0 then 1 else 0)"
proof -
  define a e where "a = unat (ph_vaddr h)" and "e = unat (ph_vaddr h) + unat (ph_memsz h)"
  note b = segment_bounds [OF assms, folded a_def e_def]
  have "length (segment_pages h) = length (map unat (segment_pages h))" by simp
  then have len: "length (segment_pages h) = e div 4096 + 1 - a div 4096"
    unfolding segment_pages_nat [OF assms, folded a_def e_def] by (simp add: Suc_diff_le)
  have ae: "a div 4096 \<le> e div 4096" by (simp add: a_def e_def div_le_mono)
  have m: "(ph_vaddr h + ph_memsz h) mod PAGE_SIZE = 0 \<longleftrightarrow> e mod 4096 = 0"
    using b(3) by (simp add: word_unat_eq_iff unat_mod)
  have le: "unat (ph_vaddr h + ph_memsz h) \<le> 4294963200" using assms b(3) by (simp add: e_def)
  define u where "u = unat (ALIGN_PG_UP (ph_vaddr h + ph_memsz h))"
  note up = align_up_nat [OF le, folded u_def, unfolded b(3)]
  obtain q where q: "u = 4096 * q" using up(1) by (auto simp: mod_eq_0_iff_dvd elim: dvdE)
  have "q = (if e mod 4096 = 0 then e div 4096 else e div 4096 + 1)" using up(2,3) unfolding q by (rule page_ceil)
  then have u: "u = (if e mod 4096 = 0 then e div 4096 else e div 4096 + 1) * 4096" using q by simp
  have "unat (ALIGN_PG_UP (ph_vaddr h + ph_memsz h) - first_page h) = u - a div 4096 * 4096"
    using b(1) u ae by (simp add: unat_sub_u32 u_def [symmetric])
  then have "unat (page_count h) = (if e mod 4096 = 0 then e div 4096 else e div 4096 + 1) - a div 4096"
    using u by (simp add: page_count_def unat_div diff_mult_distrib [symmetric])
  then show ?thesis unfolding m len using ae by simp
qed

lemma fill_pages_rest:
  "fill_pages h bs data n fo do' scrs m = Inr (rest, m') \<Longrightarrow> rest = drop n scrs"
proof (induction n arbitrary: fo do' scrs m)
  case (Suc n)
  then show ?case by (cases scrs) auto
qed simp

text \<open>
  When a segment ends at a page boundary, the first page of the next segment is filled into the scroll of the
  page behind it: \<^verbatim>\<open>parse_elf\<close> has reserved one page more than \<^verbatim>\<open>load_elf_data\<close> passes over.
\<close>
theorem elf_segments_shifted:
  assumes "unat (ph_vaddr h) + unat (ph_memsz h) + 4096 < 0x100000000" and "(ph_vaddr h + ph_memsz h) mod PAGE_SIZE = 0"
    and "map scr_vaddr scrs = segment_pages h @ segment_pages h'"
    and "fill_pages h bs data (unat (page_count h)) fo do' scrs m = Inr (rest, m')"
  shows "scr_vaddr (hd rest) = ph_vaddr h + ph_memsz h"
proof -
  define n where "n = unat (page_count h)"
  have len: "length (segment_pages h) = Suc n" using page_count_mismatch [OF assms(1)] assms(2) by (simp add: n_def)
  have rest: "rest = drop n scrs" using fill_pages_rest [OF assms(4)] by (simp add: n_def)
  have "n < length scrs" using arg_cong [OF assms(3), of length] len by simp
  then have "scr_vaddr (hd rest) = map scr_vaddr scrs ! n" by (simp add: rest hd_drop_conv_nth)
  also have "\<dots> = segment_pages h ! n" using len by (simp add: assms(3) nth_append)
  finally have hd: "scr_vaddr (hd rest) = segment_pages h ! n" .
  define a e where "a = unat (ph_vaddr h) div 4096" and "e = (unat (ph_vaddr h) + unat (ph_memsz h)) div 4096"
  have ae: "a \<le> e" by (simp add: a_def e_def div_le_mono)
  note pages = segment_pages_nat [OF assms(1), folded a_def e_def]
  have "Suc n = e + 1 - a" using arg_cong [OF pages, of length] len by (simp add: Suc_diff_le)
  then have "n = e - a" "n < Suc e - a" by linarith+
  then have "map unat (segment_pages h) ! n = e * 4096" unfolding pages using ae by (simp add: nth_append)
  then have "unat (segment_pages h ! n) = e * 4096" using len by simp
  moreover have "unat (ph_vaddr h + ph_memsz h) = unat (ph_vaddr h) + unat (ph_memsz h)"
    using segment_bounds(3) [OF assms(1)] by simp
  moreover have "(unat (ph_vaddr h) + unat (ph_memsz h)) mod 4096 = 0"
    using assms(2) segment_bounds(3) [OF assms(1)] by (simp add: word_unat_eq_iff unat_mod)
  ultimately have "unat (scr_vaddr (hd rest)) = unat (ph_vaddr h + ph_memsz h)"
    unfolding hd e_def using div_mult_mod_eq [of "unat (ph_vaddr h) + unat (ph_memsz h)" 4096] by linarith
  then show ?thesis by (simp add: word_unat_eq_iff)
qed

text \<open>An executable with one segment of 16 bytes at \<open>0x1000\<close>.\<close>

definition demo_elf :: "u8 list" where
  "demo_elf = replicate 28 0 @ [52, 0, 0, 0] @ replicate 10 0 @ [32, 0, 1, 0] @ replicate 6 0 @
     [1, 0, 0, 0, 0, 0, 0, 0, 0, 0x10, 0, 0] @ replicate 8 0 @ [0x10, 0, 0, 0] @ replicate 8 0"

lemma demo_elf_headers:
  "program_offsets (elf_header_of demo_elf) = Some [52]"
  "program_headers demo_elf [52] = Inr [elf_program_header_of (drop 52 demo_elf)]"
  "load_headers [elf_program_header_of (drop 52 demo_elf)] = [elf_program_header_of (drop 52 demo_elf)]"
  "segment_pages (elf_program_header_of (drop 52 demo_elf)) = [0x1000]"
proof -
  have h: "eh_program_table_offset (elf_header_of demo_elf) = 52" "eh_program_table_length (elf_header_of demo_elf) = 1"
    "eh_program_table_entry_size (elf_header_of demo_elf) = 32"
    by (simp_all add: elf_header_of_def le32_def le16_def demo_elf_def nth_append)
  show "program_offsets (elf_header_of demo_elf) = Some [52]" by (simp add: program_offsets_def h table_offsets.simps)
  show "program_headers demo_elf [52] = Inr [elf_program_header_of (drop 52 demo_elf)]" by (simp add: demo_elf_def)
  have p: "ph_type (elf_program_header_of (drop 52 demo_elf)) = 1" "ph_vaddr (elf_program_header_of (drop 52 demo_elf)) = 0x1000"
    "ph_memsz (elf_program_header_of (drop 52 demo_elf)) = 0x10"
    by (simp_all add: elf_program_header_of_def le32_def demo_elf_def nth_append)
  show "load_headers [elf_program_header_of (drop 52 demo_elf)] = [elf_program_header_of (drop 52 demo_elf)]"
    by (simp add: load_headers_def p PT_LOAD_def)
  show "segment_pages (elf_program_header_of (drop 52 demo_elf)) = [0x1000]"
    by (simp add: segment_pages_def first_page_def limit_page_def p PAGE_SIZE_def)
qed

theorem parse_elf_pages_witness:
  "\<exists>info f'. parse_contents demo_elf 0 (one_region 1) = Some (Inr (info, f')) \<and>
    map scr_vaddr (ei_first_scr info) = [0x1000] \<and> wf_frames f'"
proof -
  have "length demo_elf = 84" by (simp add: demo_elf_def)
  then obtain info f' where r: "parse_contents demo_elf 0 (one_region 1) = Some (Inr (info, f'))"
    by (simp add: parse_contents_def demo_elf_headers Let_def kpage_alloc_one_region)
  from parse_elf_pages [OF wf_one_region r demo_elf_headers(1,2)] r show ?thesis by (simp add: demo_elf_headers)
qed

theorem elf_segments_shifted_witness:
  "\<exists>rest m'. fill_pages \<lparr>ph_type = 1, ph_offset = 0, ph_vaddr = 0x1000, ph_paddr = 0, ph_filesz = 0, ph_memsz = 0, ph_flags = 0,
      ph_alignment = 0\<rparr> [] 0 0 0 0
      [\<lparr>scr_vaddr = 0x1000, scr_size = PAGE_SIZE, scr_type = SCROLL_ALIGNED, scr_page = 0x100000\<rparr>,
       \<lparr>scr_vaddr = 0x8000, scr_size = PAGE_SIZE, scr_type = SCROLL_ALIGNED, scr_page = 0x101000\<rparr>] small_machine = Inr (rest, m') \<and>
    scr_vaddr (hd rest) = 0x1000"
proof -
  define h where "h = \<lparr>ph_type = 1, ph_offset = 0, ph_vaddr = 0x1000, ph_paddr = 0, ph_filesz = 0, ph_memsz = 0, ph_flags = 0,
    ph_alignment = 0\<rparr>"
  have s: "segment_pages h = [0x1000]" "segment_pages (h\<lparr>ph_vaddr := 0x8000, ph_memsz := 8\<rparr>) = [0x8000]" "page_count h = 0"
    by (simp_all add: h_def segment_pages_def first_page_def limit_page_def page_count_def ALIGN_PG_UP_def ALIGN_PG_DOWN_def
      PAGE_SIZE_def)
  have "scr_vaddr (hd [\<lparr>scr_vaddr = 0x1000, scr_size = PAGE_SIZE, scr_type = SCROLL_ALIGNED, scr_page = 0x100000\<rparr>,
      \<lparr>scr_vaddr = 0x8000, scr_size = PAGE_SIZE, scr_type = SCROLL_ALIGNED, scr_page = 0x101000\<rparr>]) = ph_vaddr h + ph_memsz h"
    by (rule elf_segments_shifted [of h _ "h\<lparr>ph_vaddr := 0x8000, ph_memsz := 8\<rparr>" "[]" 0 0 0 small_machine])
      (simp_all add: s, simp_all add: h_def PAGE_SIZE_def)
  then show ?thesis by (simp add: h_def)
qed

section \<open>Reserving the kernel\<close>

lemma page_step:
  fixes x y :: nat
  assumes "x mod 4096 = 0" and "y mod 4096 = 0"
  shows "x \<le> y \<longleftrightarrow> y = x \<or> x + 4096 \<le> y"
proof -
  obtain i j where "x = 4096 * i" "y = 4096 * j" using assms by (auto simp: mod_eq_0_iff_dvd elim!: dvdE)
  then show ?thesis by auto
qed

lemma reserve_range_result:
  assumes "wf_frames f" and "unat p mod 4096 = 0" and "unat l mod 4096 = 0" and "unat l < 0xFFFFF000"
    and "\<And>a. p \<le> a \<Longrightarrow> a \<le> l \<Longrightarrow> unat a mod 4096 = 0 \<Longrightarrow> frame_status f a \<noteq> None"
  shows "\<exists>f'. reserve_range p l f = Some (Inr f') \<and> wf_frames f' \<and>
    frame_status f' = (\<lambda>a. if p \<le> a \<and> a \<le> l \<and> unat a mod 4096 = 0 then Some True else frame_status f a)"
  using assms(1,2,5)
proof (induction "unat l + 4096 - unat p" arbitrary: p f rule: less_induct)
  case less
  show ?case
  proof (cases "p \<le> l")
    case False
    then have "\<not> (p \<le> a \<and> a \<le> l)" for a by auto
    with False less.prems(1) show ?thesis by (auto simp: reserve_range.simps fun_eq_iff)
  next
    case True
    then have pl: "unat p \<le> unat l" by (simp add: word_le_nat_alt)
    have pp: "unat (p + PAGE_SIZE) = unat p + 4096" using pl assms(4) by (simp add: unat_add_u32)
    have "frame_status f p \<noteq> None" using less.prems(3) [of p] less.prems(2) True by simp
    then obtain b where "frame_status f p = Some b" by auto
    from kpage_set_status_result [OF less.prems(1) this, of False] obtain f1 where
      f1: "kpage_set_status p False f = Inr f1" "frame_status f1 = (frame_status f)(p \<mapsto> True)" "wf_frames f1" by auto
    have "\<exists>f'. reserve_range (p + PAGE_SIZE) l f1 = Some (Inr f') \<and> wf_frames f' \<and>
      frame_status f' = (\<lambda>a. if p + PAGE_SIZE \<le> a \<and> a \<le> l \<and> unat a mod 4096 = 0 then Some True else frame_status f1 a)"
    proof (rule less.hyps)
      show "unat l + 4096 - unat (p + PAGE_SIZE) < unat l + 4096 - unat p" using pp pl by simp
      show "wf_frames f1" by (rule f1(3))
      show "unat (p + PAGE_SIZE) mod 4096 = 0" using pp less.prems(2) by simp
      show "frame_status f1 a \<noteq> None" if "p + PAGE_SIZE \<le> a" "a \<le> l" "unat a mod 4096 = 0" for a
      proof -
        have "p \<le> a" using that(1) pp by (simp add: word_le_nat_alt)
        then show ?thesis using less.prems(3) that f1(2) by auto
      qed
    qed
    then obtain f' where f': "reserve_range (p + PAGE_SIZE) l f1 = Some (Inr f')" "wf_frames f'"
      "frame_status f' = (\<lambda>a. if p + PAGE_SIZE \<le> a \<and> a \<le> l \<and> unat a mod 4096 = 0 then Some True else frame_status f1 a)" by blast
    have "frame_status f' a = (if p \<le> a \<and> a \<le> l \<and> unat a mod 4096 = 0 then Some True else frame_status f a)" for a
    proof (cases "unat a mod 4096 = 0")
      case True
      then have "p \<le> a \<longleftrightarrow> a = p \<or> p + PAGE_SIZE \<le> a"
        using page_step [OF less.prems(2) True] pp by (simp only: word_le_nat_alt word_unat_eq_iff)
      then show ?thesis using True \<open>p \<le> l\<close> f1(2) by (auto simp: f'(3))
    next
      case False
      then have "a \<noteq> p" using less.prems(2) by auto
      with False show ?thesis by (simp add: f'(3) f1(2))
    qed
    with True f1(1) f'(1,2) show ?thesis by (auto simp: reserve_range.simps [of p])
  qed
qed

text \<open>
  Reserving the kernel marks every frame from the page of its first section to the page its last section ends
  in as used and no other, and returns a scroll for the range, when the allocator knows these frames and they end
  before the last page of memory.
\<close>
theorem reserve_kernel_marks:
  assumes "wf_frames f" and "kernel_range sections = (lo, hi)" and "unat hi < 0xFFFFF000"
    and "\<And>a. ALIGN_PG_DOWN lo \<le> a \<Longrightarrow> a \<le> ALIGN_PG_DOWN hi \<Longrightarrow> unat a mod 4096 = 0 \<Longrightarrow> frame_status f a \<noteq> None"
  shows "\<exists>scr f'. reserve_multiboot_kernel sections f = Some (Inr (scr, f')) \<and> wf_frames f' \<and>
    scr_vaddr scr = ALIGN_PG_DOWN lo \<and> scr_page scr = ALIGN_PG_DOWN lo \<and> scr_vaddr scr + scr_size scr = ALIGN_PG_UP hi \<and>
    frame_status f' = (\<lambda>a. if ALIGN_PG_DOWN lo \<le> a \<and> a \<le> ALIGN_PG_DOWN hi \<and> unat a mod 4096 = 0 then Some True else frame_status f a)"
proof -
  have d: "unat (ALIGN_PG_DOWN x) = unat x div 4096 * 4096" for x by (simp add: minus_mod_eq_div_mult)
  have m: "unat (ALIGN_PG_DOWN x) mod 4096 = 0" for x unfolding d by simp
  have "unat (ALIGN_PG_DOWN hi) \<le> unat hi" unfolding d by (rule div_times_less_eq_dividend)
  then have "unat (ALIGN_PG_DOWN hi) < 0xFFFFF000" using assms(3) by linarith
  from reserve_range_result [OF assms(1) m [of lo] m [of hi] this assms(4)] obtain f' where
    "reserve_range (ALIGN_PG_DOWN lo) (ALIGN_PG_DOWN hi) f = Some (Inr f')" "wf_frames f'"
    "frame_status f' = (\<lambda>a. if ALIGN_PG_DOWN lo \<le> a \<and> a \<le> ALIGN_PG_DOWN hi \<and> unat a mod 4096 = 0 then Some True else frame_status f a)"
    by blast
  then show ?thesis by (simp add: reserve_multiboot_kernel_def assms(2))
qed

end
