(* ===== verification/Boot.thy ===== *)
theory Boot
  imports Multiboot Interrupts Ps2 Elf
begin

unbundle bit_operations_syntax

text \<open>
  The two stages of the boot: \<^verbatim>\<open>init_memory\<close> of \<^verbatim>\<open>src/common/memory.c\<close> in the trampoline, and \<^verbatim>\<open>kmain\<close> of
  \<^verbatim>\<open>src/kernel/kernel.c\<close> up to the devices, composed of the models of the parts they initialise. The console and the start
  of programs are in \<open>Kernel_Main\<close>. The bitmaps of the frame allocator are lists, so that copying
  them only takes memory from the heap.
\<close>

section \<open>Memory of the trampoline\<close>

definition TRAMPOLINE_ALIGNED_HEAP_SIZE :: u32 where "TRAMPOLINE_ALIGNED_HEAP_SIZE = 8 * PAGE_SIZE * 8"
definition KERNEL_ALIGNED_HEAP_SIZE :: u32 where "KERNEL_ALIGNED_HEAP_SIZE = 1024 * PAGE_SIZE"

definition reserve_scroll :: "scroll \<Rightarrow> scroll list \<Rightarrow> scroll list" where
  "reserve_scroll scr rsvd_scrolls = scr # rsvd_scrolls"

text \<open>\<open>h0\<close> is what the uninitialised structure holds.\<close>

definition trampoline_heap :: "addr \<Rightarrow> addr \<Rightarrow> heap \<Rightarrow> heap" where
  "trampoline_heap t_limit kernel_vaddr h0 =
     h0\<lparr>hp_aligned_start := ALIGN_PG_UP t_limit, hp_bitmap_cnt := TRAMPOLINE_ALIGNED_HEAP_SIZE div PAGE_SIZE div 8,
       hp_max_limit := kernel_vaddr, hp_limit := ALIGN_PG_UP t_limit + TRAMPOLINE_ALIGNED_HEAP_SIZE\<rparr>"

definition boot_regions :: "trampoline_info \<Rightarrow> trampoline_region list" where
  "boot_regions ti = map (\<lambda>(a, n). \<lparr>tr_addr = a, tr_pg_cnt = n, tr_bitmap = []\<rparr>) (take (unat (ti_region_cnt ti)) (ti_regions ti))"

text \<open>
  \<open>rsvd_scrolls\<close> are the scrolls reserved before, that of the framebuffer. The result holds the page directory, for the
  running context.
\<close>

definition init_memory :: "elf_section_header list \<Rightarrow> scroll list \<Rightarrow> heap \<Rightarrow> trampoline_info \<Rightarrow> kernel \<Rightarrow> (addr \<times> trampoline_info \<times> kernel) result" where
  "init_memory sections rsvd_scrolls h0 ti k =
     (let rs = boot_regions ti; t_limit = snd (init_bitmaps rs (ti_limit ti)) in
      rbind (loop_result (init_frames 0 (ti_limit ti) rs)) (\<lambda>f.
      rbind (loop_result (reserve_multiboot_kernel sections f)) (\<lambda>(kernel_scr, f).
      let t_info_scr = \<lparr>scr_vaddr = 0, scr_size = ALIGN_PG_UP t_limit, scr_type = SCROLL_ALIGNED, scr_page = 0\<rparr>;
          rsvd_scrolls = reserve_scroll t_info_scr (reserve_scroll kernel_scr rsvd_scrolls) in
      rbind (init_paging ((k_mach k)\<lparr>m_frames := f\<rparr>) rsvd_scrolls) (\<lambda>(directory, m).
      rbind (init_heap (k\<lparr>k_mach := m\<rparr>) (trampoline_heap t_limit (scr_vaddr kernel_scr) h0)) (\<lambda>k.
      Inr (directory, ti\<lparr>ti_limit := t_limit\<rparr>, k))))))"

section \<open>Memory of the kernel\<close>

definition TASK_STACK_SIZE :: u32 where "TASK_STACK_SIZE = PAGE_SIZE"

definition kernel_heap :: "addr \<Rightarrow> heap \<Rightarrow> heap" where
  "kernel_heap kernel_limit h0 =
     h0\<lparr>hp_bitmap_cnt := KERNEL_ALIGNED_HEAP_SIZE div PAGE_SIZE div 8, hp_aligned_start := ALIGN_PG_UP kernel_limit,
       hp_max_limit := TASK_STACK_BASE - TASK_STACK_SIZE + 1, hp_limit := ALIGN_PG_UP kernel_limit + KERNEL_ALIGNED_HEAP_SIZE\<rparr>"

definition copy_bitmap :: "trampoline_region \<Rightarrow> kernel \<Rightarrow> kernel result" where
  "copy_bitmap r k = rbind (kmalloc k (tr_pg_cnt r div 8)) (\<lambda>(_, k). Inr k)"

definition kmain_memory :: "addr \<Rightarrow> heap \<Rightarrow> kernel \<Rightarrow> kernel result" where
  "kmain_memory kernel_limit h0 k =
     rbind (init_heap k (kernel_heap kernel_limit h0)) (\<lambda>k.
     rbind (kmalloc k TRAMPOLINE_INFO_BYTES) (\<lambda>(_, k).
     rfold copy_bitmap (regions (m_frames (k_mach k))) k))"

section \<open>The descriptor table with the task state segment\<close>

text \<open>\<^verbatim>\<open>memcpy\<close> between virtual addresses.\<close>

definition vcopy_byte :: "addr \<Rightarrow> addr \<Rightarrow> nat \<Rightarrow> kernel \<Rightarrow> kernel result" where
  "vcopy_byte dst src i k =
     rbind (vload8 (k_mach k) (src + of_nat i)) (\<lambda>b.
     rbind (vstore8 (k_mach k) (dst + of_nat i) b) (\<lambda>m. Inr (k\<lparr>k_mach := m\<rparr>)))"

definition vmemcpy :: "addr \<Rightarrow> addr \<Rightarrow> nat \<Rightarrow> kernel \<Rightarrow> kernel result" where
  "vmemcpy dst src n k = rfold (vcopy_byte dst src) [0..<n] k"

definition TSS_BYTES :: u32 where "TSS_BYTES = 0x6C"

definition kstore8 :: "addr \<Rightarrow> u8 \<Rightarrow> kernel \<Rightarrow> kernel result" where
  "kstore8 a b k = rbind (vstore8 (k_mach k) a b) (\<lambda>m. Inr (k\<lparr>k_mach := m\<rparr>))"

text \<open>A segment descriptor has its base in bytes 2 to 4 and 7, its access byte at 5.\<close>

definition seg_base :: "addr \<Rightarrow> kernel \<Rightarrow> addr result" where
  "seg_base d k =
     rbind (vload8 (k_mach k) (d + 2)) (\<lambda>b0. rbind (vload8 (k_mach k) (d + 3)) (\<lambda>b1.
     rbind (vload8 (k_mach k) (d + 4)) (\<lambda>b2. rbind (vload8 (k_mach k) (d + 7)) (\<lambda>b3.
     Inr (push_bit 24 (ucast b3) OR (ucast b0 OR push_bit 8 (ucast b1) OR push_bit 16 (ucast b2)))))))"

definition set_seg_base :: "addr \<Rightarrow> addr \<Rightarrow> kernel \<Rightarrow> kernel result" where
  "set_seg_base d b k =
     rbind (kstore8 (d + 7) (ucast (drop_bit 24 b)) k) (\<lambda>k. rbind (kstore8 (d + 2) (ucast b) k) (\<lambda>k.
     rbind (kstore8 (d + 3) (ucast (drop_bit 8 b)) k) (\<lambda>k. kstore8 (d + 4) (ucast (drop_bit 16 b)) k)))"

definition is_tss :: "u8 \<Rightarrow> bool" where
  "is_tss access_byte \<longleftrightarrow> access_byte AND 0x10 = 0 \<and> (access_byte AND 0xF = 9 \<or> access_byte AND 0xF = 0xB)"

definition move_tss :: "addr \<Rightarrow> kernel \<Rightarrow> (addr \<times> kernel) result" where
  "move_tss d k =
     rbind (seg_base d k) (\<lambda>tss_old.
     rbind (kmalloc k TSS_BYTES) (\<lambda>(tss, k).
     rbind (vmemcpy tss tss_old (unat TSS_BYTES) k) (\<lambda>k.
     rbind (set_seg_base d tss k) (\<lambda>k. Inr (tss, k)))))"

text \<open>The loop over the table, and the offset at which it ends; \<open>tss\<close> is the global, null at the start.\<close>

function find_tss :: "addr \<Rightarrow> u32 \<Rightarrow> u32 \<Rightarrow> addr \<Rightarrow> kernel \<Rightarrow> (addr \<times> u32 \<times> kernel) result" where
  "find_tss gdt sz offs tss k =
     (if offs < sz \<and> sz \<le> 0x10000
      then rbind (vload8 (k_mach k) (gdt + offs + 5)) (\<lambda>access_byte.
           if is_tss access_byte then rbind (move_tss (gdt + offs) k) (\<lambda>(tss, k). Inr (tss, offs, k))
           else find_tss gdt sz (offs + 8) tss k)
      else Inr (tss, offs, k))"
  by pat_completeness auto
termination
proof (relation "measure (\<lambda>(gdt, sz, offs, tss, k). unat sz - unat offs)", goal_cases)
  case (2 gdt sz offs tss k)
  then have "unat offs < unat sz" "unat sz \<le> 0x10000" by (simp_all add: word_less_nat_alt word_le_nat_alt)
  then show ?case by (simp add: unat_add_u32)
qed simp

declare find_tss.simps [simp del]

definition move_gdt :: "u16 \<Rightarrow> addr \<Rightarrow> kernel \<Rightarrow> (addr \<times> addr \<times> u32 \<times> kernel) result" where
  "move_gdt size_dec start k =
     (let sz = ucast size_dec + 1 in
      rbind (kmalloc k sz) (\<lambda>(gdt, k).
      rbind (vmemcpy gdt start (unat sz) k) (\<lambda>k.
      rbind (find_tss gdt sz 0 0 k) (\<lambda>(tss, offs, k).
      if tss = 0 then Inl Halted else Inr (gdt, tss, offs, k)))))"

section \<open>Devices\<close>

record 'h boot =
  bt_pci :: "'h pci"
  bt_sched :: sched
  bt_msrs :: msrs
  bt_idt :: "idt_entry list"
  bt_idtr :: idtr
  bt_hpet :: hpet_state
  bt_rsdt :: addr
  bt_apic_base :: addr
  bt_ioapic_base :: addr

definition with_machine :: "kernel \<Rightarrow> 'h \<Rightarrow> 'h boot \<Rightarrow> 'h boot" where
  "with_machine k h b = b\<lparr>bt_pci := (bt_pci b)\<lparr>pc_kernel := k, pc_hw := h\<rparr>\<rparr>"

text \<open>
  The calls of \<^verbatim>\<open>kmain\<close> from \<^verbatim>\<open>reinit_acpi\<close> to \<^verbatim>\<open>init_pci\<close>. The arguments are the hardware, the addresses of the
  interrupt table and of the handlers, the root table found by the trampoline, and the contents of
  uninitialised structures.
\<close>

definition init_devices ::
  "'h ports \<Rightarrow> 'h mmio \<Rightarrow> addr \<times> addr \<times> addr \<times> addr \<times> addr \<Rightarrow> addr \<times> u32 \<Rightarrow> pci_func \<Rightarrow> nat \<Rightarrow> ata_dev \<Rightarrow>
     (ata_dev \<Rightarrow> 'h \<Rightarrow> 'h) \<Rightarrow> 'h boot \<Rightarrow> 'h boot result" where
  "init_devices P M isrs acpi fn0 n dev0 gpt b =
     (let (idt_addr, gpf, key, tim, sys) = isrs; (acpi_rsdt, rsdt_len) = acpi in
      rbind (reinit_acpi acpi_rsdt rsdt_len (pc_kernel (bt_pci b))) (\<lambda>(rsdt_global, k).
      rbind (init_ps2 P (pc_hw (bt_pci b))) (\<lambda>(_, h).
      rbind (init_keyboard P h) (\<lambda>h.
      rbind (init_hpet M rsdt_global (bt_hpet b) k h) (\<lambda>(hs, k, h).
      rbind (init_idt idt_addr gpf key tim sys (hs_timer_irq hs) (bt_idt b) (bt_sched b)) (\<lambda>(idt, idtr, s).
      let h = init_pic P h in
      rbind (init_apic M (bt_msrs b) k h) (\<lambda>(apic_base, r, k, h).
      rbind (init_ioapic M rsdt_global (hs_timer_irq hs) k h) (\<lambda>(ioapic_base, k, h).
      let b = with_machine k h (b\<lparr>bt_sched := s, bt_msrs := r, bt_idt := idt, bt_idtr := idtr, bt_hpet := hs,
            bt_rsdt := rsdt_global, bt_apic_base := apic_base, bt_ioapic_base := ioapic_base\<rparr>) in
      rbind (register_ata P dev0 gpt (bt_pci b)) (\<lambda>w.
      rbind (init_pci P fn0 n w) (\<lambda>w.
      Inr (b\<lparr>bt_pci := w\<rparr>)))))))))))"

section \<open>The areas of the heap overlap\<close>

lemma kernel_heap_pages:
  "hp_bitmap_cnt (kernel_heap kl h0) = 128" "hp_bitmap_cnt (trampoline_heap lim kv h0) = 8"
  by (simp_all add: kernel_heap_def trampoline_heap_def KERNEL_ALIGNED_HEAP_SIZE_def TRAMPOLINE_ALIGNED_HEAP_SIZE_def PAGE_SIZE_def)

lemma kfree_aligned_range:
  assumes "wf_pages (k_heap k)" and "unat (hp_bitmap_cnt (k_heap k)) * 0x20000 < 0x100000000"
    and "hp_aligned_start (k_heap k) \<le> p" and "unat (p - hp_aligned_start (k_heap k)) < unat (hp_bitmap_cnt (k_heap k)) * 0x20000"
  shows "\<exists>h'. kfree k p = Inr (k\<lparr>k_heap := h'\<rparr>) \<and> h' = (k_heap k)\<lparr>hp_page_bitmap := hp_page_bitmap h'\<rparr> \<and>
    page_used h' (unat (p - hp_aligned_start (k_heap k)) div 4096)"
proof -
  let ?h = "k_heap k" and ?d = "p - hp_aligned_start (k_heap k)"
  have "unat (hp_bitmap_cnt ?h * 32 * PAGE_SIZE) = unat (hp_bitmap_cnt ?h) * 0x20000"
    using assms(2) by (simp add: unat_word_ariths PAGE_SIZE_def)
  then have r: "in_aligned_range ?h p" using assms(3,4) by (simp add: in_aligned_range_def word_less_nat_alt)
  have n: "unat (?d div PAGE_SIZE) = unat ?d div 4096" by (simp add: unat_div PAGE_SIZE_def)
  have "unat ?d < page_cnt ?h * 4096" using assms(1,4) by (simp add: wf_pages_def page_cnt_def)
  then have "unat (?d div PAGE_SIZE) < page_cnt ?h" unfolding n by (simp add: less_mult_imp_div_less)
  from set_page_bit_result [OF this] obtain h' where "set_page_bit ?h (?d div PAGE_SIZE) = Inr h'"
    "\<forall>q. page_used h' q = (page_used ?h q \<or> q = unat ?d div 4096)" "h' = ?h\<lparr>hp_page_bitmap := hp_page_bitmap h'\<rparr>"
    unfolding n by blast
  then show ?thesis using r by (auto simp: kfree_def)
qed

text \<open>
  C23: a word of the heap's page bitmap covers 32 pages, but \<^verbatim>\<open>kmain\<close> reserves 1024 pages with 1024 / 8 words: the pages
  of the aligned area reach 12 MiB into the area of chunks, which starts behind the reserved pages. Freeing a
  chunk there marks a page as used and does not give the chunk back.
\<close>
theorem kernel_heap_overlap:
  assumes "wf_pages (k_heap k)" and "hp_aligned_start (k_heap k) = hp_aligned_start (kernel_heap kl h0)"
    and "hp_bitmap_cnt (k_heap k) = hp_bitmap_cnt (kernel_heap kl h0)" and "unat (ALIGN_PG_UP kl) + 0x1000000 \<le> 0x100000000"
    and "d < 0xC00000"
  shows "\<exists>h'. kfree k (hp_limit (kernel_heap kl h0) + d) = Inr (k\<lparr>k_heap := h'\<rparr>) \<and> hp_tiers h' = hp_tiers (k_heap k) \<and>
    hp_free h' = hp_free (k_heap k) \<and> page_used h' (1024 + unat d div 4096)"
proof -
  let ?s = "hp_aligned_start (k_heap k)" and ?p = "hp_limit (kernel_heap kl h0) + d"
  have s: "?s = ALIGN_PG_UP kl" using assms(2) by (simp add: kernel_heap_def)
  have p: "?p = ?s + (0x400000 + d)" unfolding s by (simp add: kernel_heap_def KERNEL_ALIGNED_HEAP_SIZE_def PAGE_SIZE_def)
  have d: "unat d < 0xC00000" using assms(5) by (simp add: word_less_nat_alt)
  then have o: "unat (0x400000 + d) = 0x400000 + unat d" by (simp add: unat_add_u32)
  have "unat ?p = unat ?s + (0x400000 + unat d)" unfolding p using d assms(4) o by (simp add: s unat_add_u32)
  then have le: "?s \<le> ?p" by (simp add: word_le_nat_alt)
  have diff: "?p - ?s = 0x400000 + d" unfolding p by simp
  have c: "unat (hp_bitmap_cnt (k_heap k)) = 128" using assms(3) by (simp add: kernel_heap_pages)
  have "unat (?p - ?s) < 128 * 0x20000" unfolding diff o using d by simp
  from kfree_aligned_range [OF assms(1) _ le] this c obtain h' where
    h': "kfree k ?p = Inr (k\<lparr>k_heap := h'\<rparr>)" "h' = (k_heap k)\<lparr>hp_page_bitmap := hp_page_bitmap h'\<rparr>"
      "page_used h' (unat (?p - ?s) div 4096)" by auto
  have "unat (?p - ?s) div 4096 = 1024 + unat d div 4096" unfolding diff o by simp
  moreover have "hp_tiers h' = hp_tiers (k_heap k)" "hp_free h' = hp_free (k_heap k)" by (subst h'(2), simp)+
  ultimately show ?thesis using h'(1,3) by auto
qed

theorem kernel_heap_overlap_witness:
  "\<exists>h'. kfree \<lparr>k_mach = small_machine, k_heap = (kernel_heap 0xC0123456 (small_heap 0))\<lparr>hp_page_bitmap := replicate 128 0\<rparr>\<rparr>
     (hp_limit (kernel_heap 0xC0123456 (small_heap 0)) + 0x2010) =
     Inr \<lparr>k_mach = small_machine, k_heap = h'\<rparr> \<and> page_used h' 1026"
proof -
  let ?k = "\<lparr>k_mach = small_machine, k_heap = (kernel_heap 0xC0123456 (small_heap 0))\<lparr>hp_page_bitmap := replicate 128 0\<rparr>\<rparr>"
  have w: "wf_pages (k_heap ?k)" by (simp add: wf_pages_def kernel_heap_pages)
  have s: "hp_aligned_start (k_heap ?k) = hp_aligned_start (kernel_heap 0xC0123456 (small_heap 0))"
    "hp_bitmap_cnt (k_heap ?k) = hp_bitmap_cnt (kernel_heap 0xC0123456 (small_heap 0))" by simp_all
  have "ALIGN_PG_UP 0xC0123456 = 0xC0124000" by code_simp
  then have a: "unat (ALIGN_PG_UP 0xC0123456) + 0x1000000 \<le> 0x100000000" by simp
  have "(0x2010 :: u32) < 0xC00000" by simp
  from kernel_heap_overlap [OF w s a this] obtain h' where
    h': "kfree ?k (hp_limit (kernel_heap 0xC0123456 (small_heap 0)) + 0x2010) = Inr (?k\<lparr>k_heap := h'\<rparr>)"
      "page_used h' (1024 + unat (0x2010 :: u32) div 4096)" by blast
  have "?k\<lparr>k_heap := h'\<rparr> = \<lparr>k_mach = small_machine, k_heap = h'\<rparr>" by simp
  moreover have "1024 + unat (0x2010 :: u32) div 4096 = 1026" by simp
  ultimately show ?thesis using h' by metis
qed

end
