(* ===== verification/Owned_Pages.thy ===== *)
theory Owned_Pages
  imports Address_Space
begin

unbundle bit_operations_syntax

text \<open>
  Pages the kernel owns while it builds a page directory: each has a virtual page of the heap (\<^verbatim>\<open>kmalloc_page\<close>) and a
  frame, and no page walk reads the frame. Allocating a page, storing into it, unmapping it and freeing it are described once
  by their effect on the owned pages, and what they leave alone by two relations between states.
\<close>

section \<open>Kernel states in which pages can be taken\<close>

text \<open>\<open>n\<close> allocations in a row succeed.\<close>

fun supplied :: "('s \<Rightarrow> ('a \<times> 's) result) \<Rightarrow> nat \<Rightarrow> 's \<Rightarrow> bool" where
  "supplied alloc 0 s = True"
| "supplied alloc (Suc n) s = (case alloc s of Inl e \<Rightarrow> False | Inr (a, s') \<Rightarrow> supplied alloc n s')"

lemma supplied_SucE:
  assumes "supplied alloc (Suc n) s"
  obtains a s' where "alloc s = Inr (a, s')" and "supplied alloc n s'"
  using assms by (auto split: sum.splits)

lemma supplied_le: "supplied alloc n s \<Longrightarrow> i \<le> n \<Longrightarrow> supplied alloc i s"
proof (induction n arbitrary: s i)
  case (Suc n)
  then show ?case by (cases i) (auto split: sum.splits)
qed simp

text \<open>A page of the aligned range of the heap that is in use.\<close>

definition heap_page :: "heap \<Rightarrow> addr \<Rightarrow> bool" where
  "heap_page h v \<longleftrightarrow> (\<exists>n. unat n < page_cnt h \<and> v = hp_aligned_start h + n * PAGE_SIZE \<and> page_used h (unat n))"

definition heap_fits :: "heap \<Rightarrow> bool" where
  "heap_fits h \<longleftrightarrow> wf_pages h \<and> page_of (hp_aligned_start h) = hp_aligned_start h \<and> hp_aligned_start h \<noteq> 0 \<and>
     unat (hp_aligned_start h) + 4096 * page_cnt h < 2 ^ 32"

definition heap_mapped :: "machine \<Rightarrow> heap \<Rightarrow> bool" where
  "heap_mapped m h \<longleftrightarrow> (\<forall>n. unat n < page_cnt h \<longrightarrow> mappable m (hp_aligned_start h + n * PAGE_SIZE))"

text \<open>Free frames are pages below the window of the recursive entry, and no directory or table of the current address space.\<close>

definition frames_apart :: "machine \<Rightarrow> bool" where
  "frames_apart m \<longleftrightarrow> (\<forall>p. frame_status (m_frames m) p = Some False \<longrightarrow>
     page_of p = p \<and> p \<noteq> 0 \<and> PG_DIR_IDX p < 1023 \<and> walk_free m p)"

definition space_ok :: "kernel \<Rightarrow> bool" where
  "space_ok k \<longleftrightarrow> tables_ok (k_mach k) \<and> wf_frames (m_frames (k_mach k)) \<and> frames_apart (k_mach k) \<and>
     heap_fits (k_heap k) \<and> heap_mapped (k_mach k) (k_heap k)"

lemma heap_page_number:
  assumes "heap_fits h" and "unat n < page_cnt h"
  shows "unat (hp_aligned_start h + n * PAGE_SIZE) = unat (hp_aligned_start h) + 4096 * unat n"
proof -
  have b: "unat (hp_aligned_start h) + 4096 * page_cnt h < 2 ^ 32" using assms(1) by (simp add: heap_fits_def)
  have l: "unat (hp_aligned_start h) + 4096 * unat n < 2 ^ 32" using b assms(2) by linarith
  then have "unat (n * PAGE_SIZE) = 4096 * unat n" by (simp add: unat_word_ariths)
  then show ?thesis using l by (simp add: unat_add_u32)
qed

lemma heap_page_aligned:
  assumes "heap_fits h" and "unat n < page_cnt h"
  shows "page_of (hp_aligned_start h + n * PAGE_SIZE) = hp_aligned_start h + n * PAGE_SIZE"
    and "hp_aligned_start h + n * PAGE_SIZE \<noteq> 0"
proof -
  note u = heap_page_number [OF assms]
  have "unat (page_of (hp_aligned_start h)) = unat (hp_aligned_start h)" using assms(1) by (simp add: heap_fits_def)
  then have "unat (hp_aligned_start h) mod 4096 = 0"
    using mod_less_eq_dividend [of "unat (hp_aligned_start h)" 4096] by simp
  then have "unat (hp_aligned_start h + n * PAGE_SIZE) mod 4096 = 0" unfolding u by (simp add: mod_add_eq [symmetric])
  then show "page_of (hp_aligned_start h + n * PAGE_SIZE) = hp_aligned_start h + n * PAGE_SIZE"
    by (simp only: word_unat_eq_iff unat_page)
  have "unat (hp_aligned_start h) \<noteq> 0" using assms(1) by (simp add: heap_fits_def unat_eq_zero)
  then show "hp_aligned_start h + n * PAGE_SIZE \<noteq> 0" using u by (metis add_is_0 unat_0)
qed

lemma heap_page_inj:
  assumes "heap_fits h" and "unat n < page_cnt h" and "unat i < page_cnt h"
    and "hp_aligned_start h + n * PAGE_SIZE = hp_aligned_start h + i * PAGE_SIZE"
  shows "n = i"
  using heap_page_number [OF assms(1,2)] heap_page_number [OF assms(1,3)] assms(4) by (simp add: word_unat_eq_iff)

lemma heap_pageD: "heap_fits h \<Longrightarrow> heap_page h v \<Longrightarrow> page_of v = v"
  using heap_page_aligned(1) by (auto simp: heap_page_def)

lemma heap_page_mappable: "heap_mapped m h \<Longrightarrow> heap_page h v \<Longrightarrow> mappable m v"
  by (auto simp: heap_mapped_def heap_page_def)

text \<open>Freeing a used page of the heap changes nothing: its bit is set again.\<close>

lemma kfree_used:
  assumes "space_ok k" and "heap_page (k_heap k) v"
  shows "kfree k v = Inr k"
proof -
  from assms(2) obtain n where n: "unat n < page_cnt (k_heap k)" "v = hp_aligned_start (k_heap k) + n * PAGE_SIZE"
    "page_used (k_heap k) (unat n)" by (auto simp: heap_page_def)
  with kfree_page [of k n] set_page_bit_used [of n "k_heap k"] assms(1) show ?thesis
    by (simp add: space_ok_def heap_fits_def)
qed

section \<open>What the steps leave alone\<close>

text \<open>
  The walk of the current address space goes through the same directory and tables, memory outside these and outside the
  pages \<open>W\<close> is the same, and so is the translation of every address outside the pages \<open>X\<close>.
\<close>

definition keeps :: "addr set \<Rightarrow> addr set \<Rightarrow> machine \<Rightarrow> machine \<Rightarrow> bool" where
  "keeps W X m m' \<longleftrightarrow> cr0 m' = cr0 m \<and> cr3 m' = cr3 m \<and> (\<forall>i < 1024. dir_entry m' i = dir_entry m i) \<and>
     (\<forall>a. walk_free m a \<and> page_of a \<notin> W \<longrightarrow> pmem m' a = pmem m a) \<and>
     (\<forall>a. page_of a \<notin> X \<longrightarrow> translate m' a = translate m a)"

lemma keeps_refl [simp]: "keeps W X m m"
  by (simp add: keeps_def)

lemma keeps_frames [simp]: "keeps W X m (m\<lparr>m_frames := f\<rparr>)"
  by (simp add: keeps_def dir_entry_def translate_def tbl_entry_def paging_on_def)

lemma keeps_walk_free: "keeps W X m m' \<Longrightarrow> walk_free m' = walk_free m"
  by (simp add: fun_eq_iff keeps_def walk_free_def)

lemma keeps_tables_ok: "keeps W X m m' \<Longrightarrow> tables_ok m' = tables_ok m"
  by (simp add: keeps_def tables_ok_def loopback_def tables_apart_def paging_on_def)

lemma keeps_mappable: "keeps W X m m' \<Longrightarrow> mappable m' = mappable m"
  by (simp add: fun_eq_iff keeps_def mappable_def)

lemma keeps_trans:
  assumes "keeps W X m m'" and "keeps W' X' m' m''" and "W \<subseteq> B" and "W' \<subseteq> B" and "X \<subseteq> Y" and "X' \<subseteq> Y"
  shows "keeps B Y m m''"
proof -
  have "pmem m'' a = pmem m a" if "walk_free m a" "page_of a \<notin> B" for a
    using assms that keeps_walk_free [OF assms(1)] unfolding keeps_def by (metis subsetD)
  moreover have "translate m'' a = translate m a" if "page_of a \<notin> Y" for a
    using assms that unfolding keeps_def by (metis subsetD)
  ultimately show ?thesis using assms(1,2) by (simp add: keeps_def)
qed

text \<open>The words of a page.\<close>

definition pword :: "machine \<Rightarrow> addr \<Rightarrow> u32 \<Rightarrow> u32" where
  "pword m p i = load32 (pmem m) (slot p i)"

lemma keeps_pword:
  assumes "keeps W X m m'" and "walk_free m p" and "page_of p \<notin> W" and "i < 1024"
  shows "pword m' p i = pword m p i"
  unfolding pword_def
proof (rule load32_slot_cong [OF assms(4)])
  fix a assume a: "page_of a = page_of p"
  then have "walk_free m a" using assms(2) by (simp add: walk_free_page [of a p])
  then show "pmem m' a = pmem m a" using assms(1,3) a by (simp add: keeps_def)
qed

lemma keeps_set_pte:
  assumes "tables_ok m" and "mappable m v" and "page_of v \<in> X"
  shows "keeps W X m (set_pte m (PG_DIR_IDX v) (PG_TBL_IDX v) w)"
proof -
  note sl = mappable_slot [OF assms(1,2)]
  have pr: "present (dir_entry m (PG_DIR_IDX v))" using assms(2) by (simp add: mappable_def)
  have "pmem (set_pte m (PG_DIR_IDX v) (PG_TBL_IDX v) w) a = pmem m a" if "walk_free m a" for a
  proof -
    have "page_of a \<noteq> page_of (dir_entry m (PG_DIR_IDX v))" using that pr index_bounds(1) [of v] by (metis walk_free_def)
    then show ?thesis using same_outside_store [of "PG_TBL_IDX v" "dir_entry m (PG_DIR_IDX v)" m w]
      by (simp add: same_outside_def set_pte_def)
  qed
  then show ?thesis
    using set_pte_dir [OF sl] translate_set_pte [OF sl tables_paging [OF assms(1)]] assms(3)
    by (auto simp: keeps_def) (simp add: set_pte_def)
qed

section \<open>Owned pages\<close>

definition owns :: "kernel \<Rightarrow> (addr \<rightharpoonup> addr) \<Rightarrow> bool" where
  "owns k P \<longleftrightarrow> space_ok k \<and>
     (\<forall>v p. P v = Some p \<longrightarrow> heap_page (k_heap k) v \<and> page_of p = p \<and> walk_free (k_mach k) p \<and>
        frame_status (m_frames (k_mach k)) p = Some True \<and>
        (\<forall>a. page_of a = v \<longrightarrow> translate (k_mach k) a = Some (p + offset_of a))) \<and>
     (\<forall>v v' p. P v = Some p \<and> P v' = Some p \<longrightarrow> v = v')"

lemma ownsD:
  assumes "owns k P" and "P v = Some p"
  shows "heap_page (k_heap k) v" and "page_of v = v" and "page_of p = p" and "walk_free (k_mach k) p"
    and "frame_status (m_frames (k_mach k)) p = Some True"
    and "page_of a = v \<Longrightarrow> translate (k_mach k) a = Some (p + offset_of a)"
    and "mappable (k_mach k) v"
  using assms heap_pageD [of "k_heap k" v] heap_page_mappable [of "k_mach k" "k_heap k" v]
  by (auto simp: owns_def space_ok_def)

lemma owns_inj: "owns k P \<Longrightarrow> P v = Some p \<Longrightarrow> P v' = Some p \<Longrightarrow> v = v'"
  by (auto simp: owns_def)

lemma space_keeps:
  assumes "space_ok k" and "keeps W X (k_mach k) m" and "m_frames m = m_frames (k_mach k)"
  shows "space_ok (k\<lparr>k_mach := m\<rparr>)"
  using assms by (simp add: space_ok_def keeps_tables_ok frames_apart_def heap_mapped_def
      keeps_walk_free [OF assms(2)] keeps_mappable [OF assms(2)])

lemma owns_keeps:
  assumes "owns k P" and "keeps W X (k_mach k) m" and "m_frames m = m_frames (k_mach k)"
    and "P' \<subseteq>\<^sub>m P" and "X \<inter> dom P' = {}"
  shows "owns (k\<lparr>k_mach := m\<rparr>) P'"
proof -
  have sub: "P v = Some p" if "P' v = Some p" for v p using assms(4) that by (auto simp: map_le_def dom_def)
  have tr: "translate m a = Some (p + offset_of a)" if "P' v = Some p" "page_of a = v" for v p a
  proof -
    have "page_of a \<notin> X" using assms(5) that by auto
    then show ?thesis using assms(2) ownsD(6) [OF assms(1) sub, of v p a] that by (simp add: keeps_def)
  qed
  have "space_ok k" using assms(1) by (simp add: owns_def)
  from space_keeps [OF this assms(2,3)] show ?thesis
    using sub tr assms(1,3) keeps_walk_free [OF assms(2)] unfolding owns_def by (simp; blast)
qed

text \<open>Words within a page.\<close>

lemma page_word:
  assumes "page_of v = v" and "i < 1024"
  shows "v + 4 * i = slot v i" and "page_of (v + 4 * i) = v" and "offset_of (v + 4 * i) = 4 * i"
  using assms(1) slot_parts [OF assms(2), of v] by (simp_all add: slot_def)

lemma page_bytes:
  assumes "page_of p = p" and "x \<le> 0xFFC" and "unat d < 4"
  shows "page_of (p + x + d) = p"
proof -
  have x: "unat x \<le> 4092" using assms(2) by (simp add: word_le_nat_alt)
  have m: "unat p = 4096 * (unat p div 4096)"
    using arg_cong [OF assms(1), of unat] by (simp add: minus_mod_eq_mult_div)
  have q: "unat p div 4096 < 1048576" by (simp add: less_mult_imp_div_less)
  have "unat p + unat x + unat d < 4294967296" using m q x assms(3) by linarith
  then have "unat (p + x + d) = 4096 * (unat p div 4096) + (unat x + unat d)" using m by (simp add: unat_add_u32)
  then have "page_of (p + x + d) = page_of p" using x assms(3) by (simp add: page_eq_iff page_nat_parts)
  then show ?thesis using assms(1) by simp
qed

lemma store_in_page:
  assumes "page_of p = p" and "x \<le> 0xFFC"
  shows "same_outside p m (m\<lparr>pmem := store32 (pmem m) (p + x) w\<rparr>)"
proof -
  have "store32 (pmem m) (p + x) w a = pmem m a" if "page_of a \<noteq> p" for a
  proof -
    have "a \<noteq> p + x + d" if "unat d < 4" for d using page_bytes [OF assms that] \<open>page_of a \<noteq> p\<close> by auto
    from this [of 0] this [of 1] this [of 2] this [of 3] show ?thesis by (simp add: store32_def)
  qed
  then show ?thesis using assms(1) by (simp add: same_outside_def)
qed

lemma keeps_outside: "walk_free m p \<Longrightarrow> page_of p = p \<Longrightarrow> same_outside p m m' \<Longrightarrow> keeps {p} X m m'"
  using same_outside_walk [of m p m'] by (simp add: keeps_def same_outside_def)

subsection \<open>Storing into and loading from an owned page\<close>

lemma owned_store:
  assumes "owns k P" and "P v = Some p" and "page_of a = v" and "offset_of a \<le> 0xFFC"
    and "m = (k_mach k)\<lparr>pmem := store32 (pmem (k_mach k)) (p + offset_of a) w\<rparr>"
  shows "kstore k a w = Inr (k\<lparr>k_mach := m\<rparr>)" and "keeps {p} {} (k_mach k) m" and "owns (k\<lparr>k_mach := m\<rparr>) P"
proof -
  note p = ownsD [OF assms(1,2)]
  show "kstore k a w = Inr (k\<lparr>k_mach := m\<rparr>)"
    using vstore32_word [OF assms(4) p(6) [OF assms(3)]] by (simp add: kstore_def assms(5))
  show s: "keeps {p} {} (k_mach k) m" unfolding assms(5) using p(3,4) assms(4) by (intro keeps_outside store_in_page)
  show "owns (k\<lparr>k_mach := m\<rparr>) P" by (rule owns_keeps [OF assms(1) s]) (simp_all add: assms(5))
qed

lemma owned_word:
  assumes "owns k P" and "P v = Some p" and "i < 1024"
  shows "kload k (v + 4 * i) = Inr (pword (k_mach k) p i)"
    and "\<exists>m. kstore k (v + 4 * i) w = Inr (k\<lparr>k_mach := m\<rparr>) \<and> keeps {p} {} (k_mach k) m \<and> owns (k\<lparr>k_mach := m\<rparr>) P \<and>
      m_frames m = m_frames (k_mach k) \<and>
      (\<forall>j < 1024. pword m p j = (if j = i then w else pword (k_mach k) p j))"
proof -
  note p = ownsD [OF assms(1,2)] and a = page_word [OF ownsD(2) [OF assms(1,2)] assms(3)]
  have sl: "p + 4 * i = slot p i" using p(3) by (simp add: slot_def)
  have off: "offset_of (v + 4 * i) \<le> 0xFFC" using word_offset [OF assms(3)] by (simp only: a(3))
  show "kload k (v + 4 * i) = Inr (pword (k_mach k) p i)"
    using vload32_word [OF off p(6) [OF a(2)]] by (simp add: kload_def a(3) sl pword_def)
  let ?m = "(k_mach k)\<lparr>pmem := store32 (pmem (k_mach k)) (p + offset_of (v + 4 * i)) w\<rparr>"
  have "pword ?m p j = (if j = i then w else pword (k_mach k) p j)" if "j < 1024" for j
    using slot_apart [OF assms(3) that, of p p] by (auto simp: pword_def a(3) sl)
  with owned_store [OF assms(1,2) a(2) off refl, of w]
  show "\<exists>m. kstore k (v + 4 * i) w = Inr (k\<lparr>k_mach := m\<rparr>) \<and> keeps {p} {} (k_mach k) m \<and> owns (k\<lparr>k_mach := m\<rparr>) P \<and>
      m_frames m = m_frames (k_mach k) \<and> (\<forall>j < 1024. pword m p j = (if j = i then w else pword (k_mach k) p j))"
    by (intro exI [of _ ?m]) simp
qed

subsection \<open>Unmapping\<close>

lemma kunmap_keeps:
  assumes "tables_ok (k_mach k)" and "PG_DIR_IDX v < 1023" and "page_of v = v"
  shows "\<exists>m. kunmap v k = Inr (k\<lparr>k_mach := m\<rparr>) \<and> keeps {} {v} (k_mach k) m \<and> m_frames m = m_frames (k_mach k)"
proof (cases "present (dir_entry (k_mach k) (PG_DIR_IDX v))")
  case True
  let ?m = "set_pte (k_mach k) (PG_DIR_IDX v) (PG_TBL_IDX v) 0"
  have "kunmap v k = Inr (k\<lparr>k_mach := ?m\<rparr>)"
    using True assms(1) unmap_page_present [of "k_mach k" v] by (simp add: kunmap_def tables_ok_def)
  moreover have "mappable (k_mach k) v" using True assms(2) by (simp add: mappable_def)
  ultimately show ?thesis using keeps_set_pte [OF assms(1), of v "{v}" "{}" 0] assms(3) by (intro exI [of _ ?m]) simp
next
  case False
  then have "kunmap v k = Inr (k\<lparr>k_mach := k_mach k\<rparr>)"
    using assms(1) unmap_page_present [of "k_mach k" v] by (simp add: kunmap_def tables_ok_def)
  then show ?thesis by (intro exI [of _ "k_mach k"]) simp
qed

lemma owned_unmap:
  assumes "owns k P" and "P v = Some p"
  shows "\<exists>m. kunmap v k = Inr (k\<lparr>k_mach := m\<rparr>) \<and> keeps {} {v} (k_mach k) m \<and> m_frames m = m_frames (k_mach k) \<and>
    owns (k\<lparr>k_mach := m\<rparr>) (P(v := None))"
proof -
  note p = ownsD [OF assms]
  have "tables_ok (k_mach k)" using assms(1) by (simp add: owns_def space_ok_def)
  moreover have "PG_DIR_IDX v < 1023" using p(7) by (simp add: mappable_def)
  ultimately obtain m where m: "kunmap v k = Inr (k\<lparr>k_mach := m\<rparr>)" "keeps {} {v} (k_mach k) m"
    "m_frames m = m_frames (k_mach k)" using kunmap_keeps [OF _ _ p(2)] by blast
  have "owns (k\<lparr>k_mach := m\<rparr>) (P(v := None))"
    by (rule owns_keeps [OF assms(1) m(2,3)]) (auto simp: map_le_def)
  with m show ?thesis by blast
qed

subsection \<open>Allocating\<close>

definition heap_pages :: "heap \<Rightarrow> addr set" where
  "heap_pages h = {hp_aligned_start h + n * PAGE_SIZE | n. unat n < page_cnt h}"

text \<open>
  The progress of the construction: besides the pages \<open>W\<close>, only frames that were free are written, and besides the pages
  of the heap only the page tables of the current address space; a frame that was free may have been taken.
\<close>

definition grows :: "addr set \<Rightarrow> kernel \<Rightarrow> kernel \<Rightarrow> bool" where
  "grows W k k' \<longleftrightarrow>
     keeps (W \<union> {p. frame_status (m_frames (k_mach k)) p = Some False}) (heap_pages (k_heap k)) (k_mach k) (k_mach k') \<and>
     heap_pages (k_heap k') = heap_pages (k_heap k) \<and>
     (\<forall>p. frame_status (m_frames (k_mach k')) p \<noteq> frame_status (m_frames (k_mach k)) p \<longrightarrow>
        frame_status (m_frames (k_mach k)) p = Some False \<and> frame_status (m_frames (k_mach k')) p = Some True)"

lemma grows_refl [simp]: "grows W k k"
  by (simp add: grows_def)

lemma grows_trans:
  assumes "grows W k k'" and "grows W' k' k''"
    and "W' \<subseteq> W \<union> {p. frame_status (m_frames (k_mach k)) p = Some False}"
  shows "grows W k k''"
proof -
  let ?st = "\<lambda>k. frame_status (m_frames (k_mach k))"
  have st: "?st k' p \<noteq> ?st k p \<Longrightarrow> ?st k p = Some False \<and> ?st k' p = Some True"
    "?st k'' p \<noteq> ?st k' p \<Longrightarrow> ?st k' p = Some False \<and> ?st k'' p = Some True" for p
    using assms(1,2) by (auto simp: grows_def)
  let ?F = "\<lambda>k. {p. ?st k p = Some False}"
  have "?st k p = Some False" if "?st k' p = Some False" for p using st(1) [of p] that by force
  then have F: "?F k' \<subseteq> ?F k" by blast
  have K: "keeps (W \<union> ?F k) (heap_pages (k_heap k)) (k_mach k) (k_mach k')"
    "keeps (W' \<union> ?F k') (heap_pages (k_heap k)) (k_mach k') (k_mach k'')"
    using assms(1,2) by (simp_all add: grows_def)
  have "W' \<union> ?F k' \<subseteq> W \<union> ?F k" using F assms(3) by blast
  from keeps_trans [OF K subset_refl this subset_refl subset_refl]
  have "keeps (W \<union> ?F k) (heap_pages (k_heap k)) (k_mach k) (k_mach k'')" .
  moreover have "?st k'' p \<noteq> ?st k p \<Longrightarrow> ?st k p = Some False \<and> ?st k'' p = Some True" for p
    using st [of p] by (cases "?st k' p = ?st k p") force+
  ultimately show ?thesis using assms(1,2) by (simp add: grows_def)
qed

lemma grows_keeps:
  assumes "keeps W' X (k_mach k) m" and "m_frames m = m_frames (k_mach k)"
    and "W' \<subseteq> W \<union> {p. frame_status (m_frames (k_mach k)) p = Some False}" and "X \<subseteq> heap_pages (k_heap k)"
  shows "grows W k (k\<lparr>k_mach := m\<rparr>)"
  using assms keeps_trans [OF assms(1) keeps_refl assms(3) empty_subsetI assms(4) empty_subsetI]
  by (simp add: grows_def)

lemma heap_page_in: "heap_page h v \<Longrightarrow> v \<in> heap_pages h"
  by (auto simp: heap_page_def heap_pages_def)

text \<open>Marking the page \<open>n\<close> of the heap.\<close>

definition marks_page :: "heap \<Rightarrow> u32 \<Rightarrow> heap \<Rightarrow> bool" where
  "marks_page h n h' \<longleftrightarrow> unat n < page_cnt h \<and> \<not> page_used h (unat n) \<and>
     (\<forall>q. page_used h' q = (page_used h q \<or> q = unat n)) \<and> wf_pages h' \<and> h' = h\<lparr>hp_page_bitmap := hp_page_bitmap h'\<rparr>"

lemma marks_same:
  assumes "marks_page h n h'" and "wf_pages h"
  shows "hp_aligned_start h' = hp_aligned_start h" and "page_cnt h' = page_cnt h" and "heap_pages h' = heap_pages h"
proof -
  have s: "h' = h\<lparr>hp_page_bitmap := hp_page_bitmap h'\<rparr>" using assms(1) by (simp add: marks_page_def)
  show a: "hp_aligned_start h' = hp_aligned_start h" by (subst s) simp
  have "hp_bitmap_cnt h' = hp_bitmap_cnt h" by (subst s) simp
  then show c: "page_cnt h' = page_cnt h" using assms by (simp add: marks_page_def wf_pages_def page_cnt_def)
  show "heap_pages h' = heap_pages h" by (simp add: heap_pages_def a c)
qed

lemma marks_pageD:
  assumes "marks_page h n h'"
  shows "unat n < page_cnt h" and "\<not> page_used h (unat n)" and "page_used h' q \<longleftrightarrow> page_used h q \<or> q = unat n" and "wf_pages h'"
  using assms by (simp_all add: marks_page_def)

lemma owns_marks:
  assumes "owns k P" and "marks_page (k_heap k) n h"
  shows "owns (k\<lparr>k_heap := h\<rparr>) P" and "P (hp_aligned_start (k_heap k) + n * PAGE_SIZE) = None"
    and "heap_page h (hp_aligned_start (k_heap k) + n * PAGE_SIZE)"
proof -
  have f: "heap_fits (k_heap k)" and w: "wf_pages (k_heap k)" using assms(1) by (simp_all add: owns_def space_ok_def heap_fits_def)
  note s = marks_same [OF assms(2) w] and d = marks_pageD [OF assms(2)]
  have "heap_page h v" if "heap_page (k_heap k) v" for v
    using that by (auto simp: heap_page_def s(1,2) d(3))
  then show "owns (k\<lparr>k_heap := h\<rparr>) P"
    using assms(1) by (simp add: owns_def space_ok_def heap_fits_def heap_mapped_def s d(4))
  show "heap_page h (hp_aligned_start (k_heap k) + n * PAGE_SIZE)"
    using d(1) by (auto simp: heap_page_def s(1,2) d(3))
  show "P (hp_aligned_start (k_heap k) + n * PAGE_SIZE) = None"
  proof (rule ccontr)
    assume "P (hp_aligned_start (k_heap k) + n * PAGE_SIZE) \<noteq> None"
    then have "heap_page (k_heap k) (hp_aligned_start (k_heap k) + n * PAGE_SIZE)" using ownsD(1) [OF assms(1)] by blast
    then obtain i where i: "unat i < page_cnt (k_heap k)" "page_used (k_heap k) (unat i)"
      "hp_aligned_start (k_heap k) + n * PAGE_SIZE = hp_aligned_start (k_heap k) + i * PAGE_SIZE" by (auto simp: heap_page_def)
    have "n = i" by (rule heap_page_inj [OF f _ i(1,3)]) (rule d(1))
    with i(2) d(2) show False by simp
  qed
qed

lemma owned_frame:
  assumes "owns k P" and "kpage_alloc (m_frames (k_mach k)) = Inr (p, f)" and "k' = k\<lparr>k_mach := (k_mach k)\<lparr>m_frames := f\<rparr>\<rparr>"
  shows "owns k' P" and "p \<notin> ran P" and "frame_status (m_frames (k_mach k)) p = Some False"
    and "frame_status f p = Some True" and "page_of p = p" and "p \<noteq> 0" and "PG_DIR_IDX p < 1023"
    and "walk_free (k_mach k') p" and "grows {} k k'"
proof -
  have ok: "space_ok k" using assms(1) by (simp add: owns_def)
  then have wf: "wf_frames (m_frames (k_mach k))" by (simp add: space_ok_def)
  from kpages.alloc_law [OF wf assms(2)] have f: "frame_status (m_frames (k_mach k)) p = Some False"
    "frame_status f = (frame_status (m_frames (k_mach k)))(p \<mapsto> True)" "wf_frames f" by auto
  then show "frame_status (m_frames (k_mach k)) p = Some False" "frame_status f p = Some True" by simp_all
  show nr: "p \<notin> ran P" using f(1) ownsD(5) [OF assms(1)] by (force simp: ran_def)
  have wff: "walk_free (k_mach k') = walk_free (k_mach k)"
    by (simp add: assms(3) keeps_walk_free [OF keeps_frames])
  from ok f(1) show "page_of p = p" "p \<noteq> 0" "PG_DIR_IDX p < 1023" "walk_free (k_mach k') p"
    by (auto simp: space_ok_def frames_apart_def wff)
  have "frames_apart (k_mach k')"
    using ok f(2) by (simp add: space_ok_def frames_apart_def wff) (simp add: assms(3))
  then have "space_ok k'" using ok f(3) keeps_tables_ok [OF keeps_frames] keeps_mappable [OF keeps_frames]
    by (simp add: space_ok_def heap_mapped_def assms(3))
  moreover have "translate (k_mach k') = translate (k_mach k)"
    using keeps_frames [of "{}" "{}" "k_mach k" f] by (simp add: keeps_def fun_eq_iff assms(3))
  moreover have "frame_status f q = Some True" if "frame_status (m_frames (k_mach k)) q = Some True" for q
    using that f(2) by simp
  ultimately show "owns k' P" using assms(1) wff by (auto simp: owns_def) (simp_all add: assms(3))
  show "grows {} k k'" using f(1,2) by (simp add: grows_def assms(3))
qed

lemma kmalloc_aligned_marks:
  assumes "heap_fits h" and "kmalloc_aligned h = Inr (v, h')"
  shows "\<exists>n. v = hp_aligned_start h + n * PAGE_SIZE \<and> marks_page h n h'"
  using kmalloc_aligned_result [of h] assms by (auto simp: heap_fits_def marks_page_def)

text \<open>A new page: its virtual page was not owned and its frame was free.\<close>

definition new_page :: "kernel \<Rightarrow> (addr \<rightharpoonup> addr) \<Rightarrow> addr \<Rightarrow> addr \<Rightarrow> kernel \<Rightarrow> bool" where
  "new_page k P v p k' \<longleftrightarrow> owns k' (P(v \<mapsto> p)) \<and> P v = None \<and> p \<notin> ran P \<and>
     frame_status (m_frames (k_mach k)) p = Some False \<and> PG_DIR_IDX p < 1023 \<and> grows {} k k'"

lemma map_new:
  assumes "owns k P" and "heap_page (k_heap k) v" and "P v = None" and "p \<notin> ran P" and "page_of p = p"
    and "walk_free (k_mach k) p" and "frame_status (m_frames (k_mach k)) p = Some True"
  shows "\<exists>m. map_page (k_mach k) v p = Inr m \<and> m_frames m = m_frames (k_mach k) \<and> owns (k\<lparr>k_mach := m\<rparr>) (P(v \<mapsto> p)) \<and>
    keeps {} {v} (k_mach k) m"
proof -
  have ok: "tables_ok (k_mach k)" "heap_fits (k_heap k)" "heap_mapped (k_mach k) (k_heap k)"
    using assms(1) by (simp_all add: owns_def space_ok_def)
  note v = heap_pageD [OF ok(2) assms(2)] heap_page_mappable [OF ok(3) assms(2)]
  let ?m = "set_pte (k_mach k) (PG_DIR_IDX v) (PG_TBL_IDX v)
    (new_entry (tbl_entry (k_mach k) (PG_DIR_IDX v) (PG_TBL_IDX v)) p True)"
  have m: "map_page (k_mach k) v p = Inr ?m"
    using ok(1) v(2) by (intro map_page_present) (auto simp: tables_ok_def mappable_def)
  have kp: "keeps {} {v} (k_mach k) ?m" by (rule keeps_set_pte [OF ok(1) v(2)]) (simp add: v(1))
  have tr: "translate ?m a = Some (p + offset_of a)" if "page_of a = v" for a
    using translate_set_pte [OF mappable_slot [OF ok(1) v(2)] tables_paging [OF ok(1)]] that v(1) assms(5) by simp
  have o: "owns (k\<lparr>k_mach := ?m\<rparr>) P" by (rule owns_keeps [OF assms(1) kp]) (use assms(3) in auto)
  have "owns (k\<lparr>k_mach := ?m\<rparr>) (P(v \<mapsto> p))"
    using o assms(2,4-7) tr keeps_walk_free [OF kp] unfolding owns_def by (auto simp: ran_def)
  with m kp show ?thesis by auto
qed

lemma owned_new:
  assumes "owns k P" and "supplied kmalloc_aligned (Suc n) (k_heap k)" and "supplied kpage_alloc (Suc n) (m_frames (k_mach k))"
  shows "\<exists>v p k'. kmalloc_page k = Inr (\<lparr>scr_vaddr = v, scr_size = PAGE_SIZE, scr_type = SCROLL_ALIGNED, scr_page = p\<rparr>, k') \<and>
    new_page k P v p k' \<and> supplied kmalloc_aligned n (k_heap k') \<and> supplied kpage_alloc n (m_frames (k_mach k'))"
proof -
  have fits: "heap_fits (k_heap k)" using assms(1) by (simp add: owns_def space_ok_def)
  from assms(2) obtain v h where h: "kmalloc_aligned (k_heap k) = Inr (v, h)" "supplied kmalloc_aligned n h"
    by (rule supplied_SucE)
  from kmalloc_aligned_marks [OF fits h(1)] obtain i where i: "v = hp_aligned_start (k_heap k) + i * PAGE_SIZE"
    "marks_page (k_heap k) i h" by blast
  define k1 where "k1 = k\<lparr>k_heap := h\<rparr>"
  note o1 = owns_marks [OF assms(1) i(2), folded i(1) k1_def]
  have v0: "v \<noteq> 0" using heap_page_aligned(2) [OF fits marks_pageD(1) [OF i(2)]] by (simp add: i(1))
  have "m_frames (k_mach k1) = m_frames (k_mach k)" by (simp add: k1_def)
  with assms(3) obtain p f where p: "kpage_alloc (m_frames (k_mach k1)) = Inr (p, f)" "supplied kpage_alloc n f"
    by (metis supplied_SucE)
  define k2 where "k2 = k1\<lparr>k_mach := (k_mach k1)\<lparr>m_frames := f\<rparr>\<rparr>"
  note o2 = owned_frame [OF o1(1) p(1) k2_def]
  have heap2: "k_heap k2 = h" by (simp add: k2_def k1_def)
  have "frame_status (m_frames (k_mach k2)) p = Some True" using o2(4) by (simp add: k2_def)
  from map_new [OF o2(1) _ o1(2) o2(2,5,8) this, unfolded heap2, OF o1(3)] obtain m where
    m: "map_page (k_mach k2) v p = Inr m" "m_frames m = m_frames (k_mach k2)" "owns (k2\<lparr>k_mach := m\<rparr>) (P(v \<mapsto> p))"
      "keeps {} {v} (k_mach k2) m" by blast
  define k' where "k' = k2\<lparr>k_mach := m\<rparr>"
  have "kmalloc_page k = Inr (\<lparr>scr_vaddr = v, scr_size = PAGE_SIZE, scr_type = SCROLL_ALIGNED, scr_page = p\<rparr>, k')"
    using h(1) p(1) m(1) v0 o2(6) by (simp add: kmalloc_page_def Let_def k1_def k2_def k'_def)
  moreover have "grows {} k k1" using marks_same(3) [OF i(2)] fits by (simp add: grows_def k1_def heap_fits_def)
  then have "grows {} k k'" unfolding k'_def
    by (rule grows_trans [OF grows_trans [OF _ o2(9)] grows_keeps [OF m(4,2)]])
      (use heap_page_in [OF o1(3)] heap2 in auto)
  moreover have "frame_status (m_frames (k_mach k)) p = Some False" using o2(3) by (simp add: k1_def)
  ultimately show ?thesis using m(2,3) o1(2) o2(2,7) h(2) p(2) heap2
    by (auto simp: new_page_def k'_def) (simp add: k2_def)
qed

section \<open>Filling a page\<close>

lemma of_nat_index: "i < 1024 \<Longrightarrow> (of_nat i :: u32) < 1024"
  by (simp add: word_less_nat_alt unat_of_nat_u32)

text \<open>A loop that stores the word \<open>g i\<close> at each index of a range.\<close>

lemma fill_page:
  assumes "owns k P" and "P v = Some p" and "a \<le> b" and "b \<le> 1024"
    and "\<And>i k'. a \<le> i \<Longrightarrow> i < b \<Longrightarrow> owns k' P \<Longrightarrow> keeps {p} {} (k_mach k) (k_mach k') \<Longrightarrow>
      step i k' = kstore k' (v + 4 * of_nat i) (g i)"
  shows "\<exists>m. rfold step [a..<b] k = Inr (k\<lparr>k_mach := m\<rparr>) \<and> keeps {p} {} (k_mach k) m \<and> owns (k\<lparr>k_mach := m\<rparr>) P \<and>
    m_frames m = m_frames (k_mach k) \<and>
    (\<forall>j < 1024. pword m p j = (if a \<le> unat j \<and> unat j < b then g (unat j) else pword (k_mach k) p j))"
  using assms(1,3,5)
proof (induction "b - a" arbitrary: a k)
  case 0
  then show ?case by (intro exI [of _ "k_mach k"]) auto
next
  case (Suc d)
  then have a: "a < b" "a < 1024" using assms(4) by simp_all
  from owned_word(2) [OF Suc.prems(1) assms(2) of_nat_index [OF a(2)], of "g a"] obtain m where
    m: "kstore k (v + 4 * of_nat a) (g a) = Inr (k\<lparr>k_mach := m\<rparr>)" "keeps {p} {} (k_mach k) m"
      "owns (k\<lparr>k_mach := m\<rparr>) P" "m_frames m = m_frames (k_mach k)"
      "\<forall>j < 1024. pword m p j = (if j = of_nat a then g a else pword (k_mach k) p j)" by blast
  have s: "step a k = Inr (k\<lparr>k_mach := m\<rparr>)" using Suc.prems(3) [of a k] a(1) Suc.prems(1) m(1) by simp
  have st: "step i k' = kstore k' (v + 4 * of_nat i) (g i)"
    if "Suc a \<le> i" "i < b" "owns k' P" "keeps {p} {} (k_mach (k\<lparr>k_mach := m\<rparr>)) (k_mach k')" for i k'
    using that keeps_trans [OF m(2), of "{p}" "{}" "k_mach k'" "{p}" "{}"] by (intro Suc.prems(3)) auto
  have "d = b - Suc a" "Suc a \<le> b" using Suc.hyps(2) a(1) by simp_all
  from Suc.hyps(1) [OF this(1) m(3) this(2) st] obtain m' where
    m': "rfold step [Suc a..<b] (k\<lparr>k_mach := m\<rparr>) = Inr (k\<lparr>k_mach := m'\<rparr>)" "keeps {p} {} m m'"
      "owns (k\<lparr>k_mach := m'\<rparr>) P" "m_frames m' = m_frames m"
      "\<forall>j < 1024. pword m' p j = (if Suc a \<le> unat j \<and> unat j < b then g (unat j) else pword m p j)" by auto
  have "pword m' p j = (if a \<le> unat j \<and> unat j < b then g (unat j) else pword (k_mach k) p j)" if "j < 1024" for j
  proof -
    have "j = of_nat a \<longleftrightarrow> unat j = a" using a(2) by (auto simp: word_unat_eq_iff unat_of_nat_u32)
    with m(5) m'(5) that a(1) show ?thesis by (auto simp: not_less_eq_eq)
  qed
  moreover have "rfold step [a..<b] k = Inr (k\<lparr>k_mach := m'\<rparr>)"
    unfolding upt_conv_Cons [OF a(1)] by (simp add: s m'(1))
  ultimately show ?case using m'(3,4) m(4) keeps_trans [OF m(2) m'(2), of "{p}" "{}"] by auto
qed

lemma clear_words:
  assumes "owns k P" and "P v = Some p" and "a \<le> b" and "b \<le> 1024"
  shows "\<exists>m. rfold (store_leaf v w) [a..<b] k = Inr (k\<lparr>k_mach := m\<rparr>) \<and> keeps {p} {} (k_mach k) m \<and>
    owns (k\<lparr>k_mach := m\<rparr>) P \<and> m_frames m = m_frames (k_mach k) \<and>
    (\<forall>j < 1024. pword m p j = (if a \<le> unat j \<and> unat j < b then w else pword (k_mach k) p j))"
  using fill_page [OF assms, of "store_leaf v w" "\<lambda>_. w"] by (simp add: store_leaf_def)

lemma copy_words:
  assumes "owns k P" and "P v = Some p" and "a \<le> b" and "b \<le> 1024"
  shows "\<exists>m. rfold (copy_leaf v) [a..<b] k = Inr (k\<lparr>k_mach := m\<rparr>) \<and> keeps {p} {} (k_mach k) m \<and>
    owns (k\<lparr>k_mach := m\<rparr>) P \<and> m_frames m = m_frames (k_mach k) \<and>
    (\<forall>j < 1024. pword m p j = (if a \<le> unat j \<and> unat j < b then dir_entry (k_mach k) j else pword (k_mach k) p j))"
proof -
  have "copy_leaf v i k' = kstore k' (v + 4 * of_nat i) (dir_entry (k_mach k) (of_nat i))"
    if "i < b" "owns k' P" "keeps {p} {} (k_mach k) (k_mach k')" for i k'
  proof -
    have i: "(of_nat i :: u32) < 1024" using that(1) assms(4) by (intro of_nat_index) simp
    have "loopback (k_mach k')" using that(2) by (simp add: owns_def space_ok_def tables_ok_def)
    then have "kload k' (LOOPBACK_DIR + 4 * of_nat i) = Inr (dir_entry (k_mach k') (of_nat i))"
      using i by (simp add: kload_def)
    moreover have "dir_entry (k_mach k') (of_nat i) = dir_entry (k_mach k) (of_nat i)"
      using that(3) i by (simp add: keeps_def)
    ultimately show ?thesis by (simp add: copy_leaf_def store_leaf_def)
  qed
  note f = fill_page [OF assms this]
  have "(of_nat (unat j) :: u32) = j" for j :: u32 by (simp add: word_unat_eq_iff unat_of_nat_u32)
  with f show ?thesis by (simp only:)
qed

end
