(* ===== verification/Task_Space.thy ===== *)
theory Task_Space
  imports Owned_Pages
begin

unbundle bit_operations_syntax

text \<open>
  What \<^verbatim>\<open>create_task_directory\<close> and \<^verbatim>\<open>create_kernel_directory\<close> of \<^verbatim>\<open>src/common/paging.c\<close> build. The loops of the code are
  followed by the contents of the pages they fill: the stack, the directory under construction (a manuscript) with its
  tables, and the directory after binding, of which the page walk then makes an address space.
\<close>

section \<open>The stack of a new context\<close>

lemma page_join:
  assumes "page_of v = v" and "x \<le> 0xFFC"
  shows "page_of (v + x) = v" and "offset_of (v + x) = x"
proof -
  show p: "page_of (v + x) = v" using page_bytes [OF assms, of 0] by simp
  have "page_of (v + x) + offset_of (v + x) = v + x" by (rule page_offset_join)
  then show "offset_of (v + x) = x" by (simp add: p)
qed

lemma owned_stores:
  assumes "owns k P" and "P v = Some p" and "\<forall>(x, w) \<in> set xs. x \<le> 0xFFC"
  shows "\<exists>m. rfold (\<lambda>(x, w) k. kstore k (v + x) w) xs k = Inr (k\<lparr>k_mach := m\<rparr>) \<and> keeps {p} {} (k_mach k) m \<and>
    owns (k\<lparr>k_mach := m\<rparr>) P \<and> m_frames m = m_frames (k_mach k) \<and>
    pmem m = fold (\<lambda>(x, w) mem. store32 mem (p + x) w) xs (pmem (k_mach k))"
  using assms(1,3)
proof (induction xs arbitrary: k)
  case Nil
  then show ?case by (intro exI [of _ "k_mach k"]) simp
next
  case (Cons xw xs)
  obtain x w where xw: "xw = (x, w)" by force
  with Cons.prems have x: "x \<le> 0xFFC" by simp
  note a = page_join [OF ownsD(2) [OF Cons.prems(1) assms(2)] x]
  define m where "m = (k_mach k)\<lparr>pmem := store32 (pmem (k_mach k)) (p + offset_of (v + x)) w\<rparr>"
  have "offset_of (v + x) \<le> 0xFFC" using x by (simp only: a(2))
  note st = owned_store [OF Cons.prems(1) assms(2) a(1) this m_def]
  from Cons.IH [OF st(3)] Cons.prems(2) obtain m' where
    m': "rfold (\<lambda>(x, w) k. kstore k (v + x) w) xs (k\<lparr>k_mach := m\<rparr>) = Inr (k\<lparr>k_mach := m'\<rparr>)"
      "keeps {p} {} m m'" "owns (k\<lparr>k_mach := m'\<rparr>) P" "m_frames m' = m_frames m"
      "pmem m' = fold (\<lambda>(x, w) mem. store32 mem (p + x) w) xs (pmem m)" by auto
  moreover have "keeps {p} {} (k_mach k) m'" by (rule keeps_trans [OF st(2) m'(2)]) simp_all
  moreover have "pmem m = store32 (pmem (k_mach k)) (p + x) w" "m_frames m = m_frames (k_mach k)"
    by (simp_all add: m_def a(2))
  ultimately show ?case using st(1) by (auto simp: xw)
qed

text \<open>What the first switch to the context takes from its stack page: the registers, and the address it returns to.\<close>

definition stack_words :: "machine \<Rightarrow> addr \<Rightarrow> addr \<Rightarrow> bool" where
  "stack_words m p func_ptr \<longleftrightarrow> load32 (pmem m) (p + 0xFFB) = func_ptr \<and> load32 (pmem m) (p + 0xFF7) = 0 \<and>
     load32 (pmem m) (p + 0xFF3) = 0 \<and> load32 (pmem m) (p + 0xFEF) = 0 \<and> load32 (pmem m) (p + 0xFEB) = TASK_STACK_BASE"

lemma fill_stack_words:
  assumes "owns k P" and "P v = Some p"
  shows "\<exists>m. fill_stack v func_ptr k = Inr (k\<lparr>k_mach := m\<rparr>) \<and> keeps {p} {} (k_mach k) m \<and>
    owns (k\<lparr>k_mach := m\<rparr>) P \<and> m_frames m = m_frames (k_mach k) \<and> stack_words m p func_ptr"
proof -
  let ?xs = "[(0xFFB, func_ptr), (0xFF7, 0), (0xFF3, 0), (0xFEF, 0), (0xFEB, TASK_STACK_BASE)] :: (u32 \<times> u32) list"
  have t: "TASK_STACK_BASE mod PAGE_SIZE = 0xFFF" by (simp add: TASK_STACK_BASE_def PAGE_SIZE_def)
  have o: "v + 0xFFF - 4 = v + 0xFFB" "v + 0xFFF - 8 = v + 0xFF7" "v + 0xFFF - 12 = v + 0xFF3"
    "v + 0xFFF - 16 = v + 0xFEF" "v + 0xFFF - 20 = v + 0xFEB" by simp_all
  have f: "fill_stack v func_ptr k = rfold (\<lambda>(x, w) k. kstore k (v + x) w) ?xs k"
    unfolding fill_stack_def t Let_def o by (simp add: rfold_unfold)
  from owned_stores [OF assms, of ?xs] obtain m where
    m: "rfold (\<lambda>(x, w) k. kstore k (v + x) w) ?xs k = Inr (k\<lparr>k_mach := m\<rparr>)" "keeps {p} {} (k_mach k) m"
      "owns (k\<lparr>k_mach := m\<rparr>) P" "m_frames m = m_frames (k_mach k)"
      "pmem m = fold (\<lambda>(x, w) mem. store32 mem (p + x) w) ?xs (pmem (k_mach k))" by auto
  from m(5) have "stack_words m p func_ptr" by (simp add: stack_words_def apart32_def)
  with m f show ?thesis by auto
qed

lemma stack_words_keeps:
  assumes "keeps W X m m'" and "walk_free m p" and "page_of p = p" and "p \<notin> W"
  shows "stack_words m' p f = stack_words m p f"
proof -
  have b: "pmem m' (p + x + d) = pmem m (p + x + d)" if "x \<le> 0xFFC" "unat d < 4" for x d
  proof -
    have "page_of (p + x + d) = p" by (rule page_bytes [OF assms(3) that])
    moreover from this have "walk_free m (p + x + d)" using assms(2,3) by (simp add: walk_free_def)
    ultimately show ?thesis using assms(1,4) by (simp add: keeps_def)
  qed
  have "load32 (pmem m') (p + x) = load32 (pmem m) (p + x)" if "x \<le> 0xFFC" for x
    using b [OF that, of 0] b [OF that, of 1] b [OF that, of 2] b [OF that, of 3] by (simp add: load32_def)
  then show ?thesis by (simp add: stack_words_def)
qed

definition stack_scroll :: "addr \<Rightarrow> scroll" where
  "stack_scroll p = \<lparr>scr_vaddr = ALIGN_PG_DOWN TASK_STACK_BASE, scr_size = PAGE_SIZE, scr_type = SCROLL_ALIGNED, scr_page = p\<rparr>"

lemma new_stack_result:
  assumes "owns k P" and "supplied kmalloc_aligned (Suc n) (k_heap k)" and "supplied kpage_alloc (Suc n) (m_frames (k_mach k))"
  shows "\<exists>p k'. new_stack func_ptr k = Inr (stack_scroll p, k') \<and> owns k' P \<and> p \<notin> ran P \<and> page_of p = p \<and>
    walk_free (k_mach k') p \<and> frame_status (m_frames (k_mach k)) p = Some False \<and>
    frame_status (m_frames (k_mach k')) p = Some True \<and> stack_words (k_mach k') p func_ptr \<and> grows {} k k' \<and>
    supplied kmalloc_aligned n (k_heap k') \<and> supplied kpage_alloc n (m_frames (k_mach k'))"
proof -
  from owned_new [OF assms] obtain v p k1 where k1:
    "kmalloc_page k = Inr (\<lparr>scr_vaddr = v, scr_size = PAGE_SIZE, scr_type = SCROLL_ALIGNED, scr_page = p\<rparr>, k1)"
    "new_page k P v p k1" "supplied kmalloc_aligned n (k_heap k1)" "supplied kpage_alloc n (m_frames (k_mach k1))" by blast
  then have o1: "owns k1 (P(v \<mapsto> p))" "P v = None" "p \<notin> ran P" "frame_status (m_frames (k_mach k)) p = Some False"
    "grows {} k k1" by (simp_all add: new_page_def)
  note p = ownsD [OF o1(1), of v p, simplified]
  from fill_stack_words [OF o1(1), of v p func_ptr] obtain m where
    m: "fill_stack v func_ptr k1 = Inr (k1\<lparr>k_mach := m\<rparr>)" "keeps {p} {} (k_mach k1) m"
      "owns (k1\<lparr>k_mach := m\<rparr>) (P(v \<mapsto> p))" "m_frames m = m_frames (k_mach k1)" "stack_words m p func_ptr" by auto
  define k2 where "k2 = k1\<lparr>k_mach := m\<rparr>"
  note o2 = m(3) [folded k2_def]
  from owned_unmap [OF o2, of v p] obtain m' where
    m': "kunmap v k2 = Inr (k2\<lparr>k_mach := m'\<rparr>)" "keeps {} {v} (k_mach k2) m'" "m_frames m' = m_frames (k_mach k2)"
      "owns (k2\<lparr>k_mach := m'\<rparr>) (P(v \<mapsto> p, v := None))" by auto
  define k3 where "k3 = k2\<lparr>k_mach := m'\<rparr>"
  have o3: "owns k3 P" using m'(4) o1(2) by (simp add: k3_def fun_upd_idem)
  have h3: "k_heap k3 = k_heap k1" "m_frames (k_mach k3) = m_frames (k_mach k1)"
    using m(4) m'(3) by (simp_all add: k3_def k2_def)
  have "kfree k3 v = Inr k3" using o3 p(1) by (intro kfree_used) (simp_all add: owns_def h3)
  then have r: "new_stack func_ptr k = Inr (stack_scroll p, k3)"
    using k1(1) m(1) m'(1) by (simp add: new_stack_def k2_def [symmetric] k3_def [symmetric] stack_scroll_def)
  have "keeps {p} {v} (k_mach k1) (k_mach k3)"
    using keeps_trans [OF m(2), of "{}" "{v}" m'] m'(2) by (simp add: k3_def k2_def)
  note K = this
  have g: "grows {} k k3"
  proof (rule grows_trans [OF o1(5)])
    have "grows {p} k1 (k1\<lparr>k_mach := k_mach k3\<rparr>)"
      by (rule grows_keeps [OF K h3(2)]) (use heap_page_in [OF p(1)] in auto)
    moreover have "k1\<lparr>k_mach := k_mach k3\<rparr> = k3" by (simp add: k3_def k2_def)
    ultimately show "grows {p} k1 k3" by simp
  qed (use o1(4) in auto)
  have "walk_free (k_mach k2) p" using p(4) keeps_walk_free [OF m(2)] by (simp add: k2_def)
  then have "stack_words m' p func_ptr" using m(5) stack_words_keeps [OF m'(2) _ p(3), of func_ptr] by (simp add: k2_def)
  then have "stack_words (k_mach k3) p func_ptr" by (simp add: k3_def)
  moreover have "walk_free (k_mach k3) p" using p(4) keeps_walk_free [OF K] by simp
  ultimately show ?thesis using r o3 o1(3,4) p(3,5) g k1(3,4) by (auto simp: h3)
qed

section \<open>Entries of a manuscript\<close>

abbreviation user_entry :: "addr \<Rightarrow> u32" where
  "user_entry a \<equiv> create_paging_entry a True True True"

lemma bind_bit: "e AND MANUSCRIPT_BIND = 0 \<longleftrightarrow> \<not> bit e 10"
  using and_exp_eq_0_iff_not_bit [of e 10] by (simp add: MANUSCRIPT_BIND_def)

lemma bit_ADDR_MASK: "bit ADDR_MASK n \<longleftrightarrow> 12 \<le> n \<and> n < 32"
proof -
  have "ADDR_MASK = NOT (mask 12)" by (simp add: ADDR_MASK_def mask_eq_exp_minus_1)
  then have "bit ADDR_MASK n = bit (NOT (mask 12) :: u32) n" by simp
  then show ?thesis by (auto simp: bit_not_iff bit_mask_iff)
qed

lemma create_entry_bind [simp]: "\<not> bit (create_paging_entry a p w u) 10"
  by (simp add: create_paging_entry_def set_user_def set_writeable_def set_present_def set_addr_def
        PAGING_BIT_PRESENT_def PAGING_BIT_WRITEABLE_def PAGING_BIT_USER_def bit_ADDR_MASK bit_simps)

lemma bit_flags: "bit PAGING_BIT_PRESENT n \<longleftrightarrow> n = 0" "bit PAGING_BIT_WRITEABLE n \<longleftrightarrow> n = 1"
  "bit PAGING_BIT_USER n \<longleftrightarrow> n = 2" "bit MANUSCRIPT_BIND n \<longleftrightarrow> n = 10"
proof -
  have e: "bit (2 ^ q :: u32) n \<longleftrightarrow> n = q" if "q < 32" for q using that by (auto simp: bit_exp_iff)
  show "bit PAGING_BIT_PRESENT n \<longleftrightarrow> n = 0" "bit PAGING_BIT_WRITEABLE n \<longleftrightarrow> n = 1"
    "bit PAGING_BIT_USER n \<longleftrightarrow> n = 2" "bit MANUSCRIPT_BIND n \<longleftrightarrow> n = 10"
    using e [of 0] e [of 1] e [of 2] e [of 10]
    by (simp_all add: PAGING_BIT_PRESENT_def PAGING_BIT_WRITEABLE_def PAGING_BIT_USER_def MANUSCRIPT_BIND_def)
qed

lemma user_entry_bits: "bit (user_entry a) n \<longleftrightarrow> bit (page_of a) n \<or> n < 3"
proof -
  have "n < 3 \<longleftrightarrow> n = 0 \<or> n = 1 \<or> n = 2" by auto
  then show ?thesis
    by (auto simp: create_paging_entry_def set_user_def set_writeable_def set_present_def set_addr_def bit_or_iff bit_flags)
qed

lemma manuscript_entry:
  "bit (user_entry u OR MANUSCRIPT_BIND) 10" "page_of (user_entry u OR MANUSCRIPT_BIND) = page_of u"
proof -
  show "bit (user_entry u OR MANUSCRIPT_BIND) 10" by (simp add: bit_or_iff bit_flags)
  have "MANUSCRIPT_BIND AND ADDR_MASK = 0" by (simp add: MANUSCRIPT_BIND_def ADDR_MASK_def)
  then show "page_of (user_entry u OR MANUSCRIPT_BIND) = page_of u" by (simp add: flag_page(1))
qed

text \<open>What the three assignments of \<^verbatim>\<open>bind_manuscript\<close> make of the entry of a table.\<close>

lemma bound_entry:
  assumes "page_of t = t"
  shows "(((user_entry u OR MANUSCRIPT_BIND) AND NOT ADDR_MASK) OR t) AND NOT MANUSCRIPT_BIND = user_entry t"
proof (rule bit_word_eqI)
  fix n assume n: "n < LENGTH(32)"
  have t: "bit t n \<Longrightarrow> 12 \<le> n" for n
    using arg_cong [OF assms, of "\<lambda>x. bit x n"] by (auto simp: bit_and_iff bit_ADDR_MASK)
  then show "bit ((((user_entry u OR MANUSCRIPT_BIND) AND NOT ADDR_MASK) OR t) AND NOT MANUSCRIPT_BIND) n = bit (user_entry t) n"
    using n t [of 10] by (auto simp: bit_and_iff bit_or_iff bit_not_iff user_entry_bits bit_ADDR_MASK bit_flags assms)
qed

text \<open>The entries the scrolls ask for: the last scroll for a page determines its entry.\<close>

definition scroll_word :: "scroll list \<Rightarrow> u32 \<Rightarrow> u32 \<Rightarrow> u32" where
  "scroll_word scrs i j =
     (case find (\<lambda>s. PG_DIR_IDX (scr_vaddr s) = i \<and> PG_TBL_IDX (scr_vaddr s) = j) (rev scrs) of
        None \<Rightarrow> 0 | Some s \<Rightarrow> user_entry (scr_page s))"

lemma scroll_word_Nil [simp]: "scroll_word [] i j = 0"
  by (simp add: scroll_word_def)

lemma scroll_word_snoc: "scroll_word (scrs @ [s]) i j =
  (if PG_DIR_IDX (scr_vaddr s) = i \<and> PG_TBL_IDX (scr_vaddr s) = j then user_entry (scr_page s) else scroll_word scrs i j)"
  by (simp add: scroll_word_def)

text \<open>
  A manuscript at \<open>v\<close> with frame \<open>d\<close>, of which the entries below \<open>n\<close> are bound: \<open>tab\<close> gives the virtual page and the frame
  of the table of an entry, whose contents are those for the scrolls; the other entries are \<open>base\<close>.
\<close>

type_synonym tables = "u32 \<rightharpoonup> addr \<times> addr"

definition leaf_word :: "nat \<Rightarrow> (u32 \<Rightarrow> u32) \<Rightarrow> tables \<Rightarrow> u32 \<Rightarrow> u32" where
  "leaf_word n base tab i = (case tab i of None \<Rightarrow> base i
     | Some (u, t) \<Rightarrow> if unat i < n then user_entry t else user_entry u OR MANUSCRIPT_BIND)"

definition table_ok :: "kernel \<Rightarrow> (addr \<rightharpoonup> addr) \<Rightarrow> addr \<Rightarrow> addr \<Rightarrow> scroll list \<Rightarrow> nat \<Rightarrow> u32 \<Rightarrow> addr \<Rightarrow> addr \<Rightarrow> bool" where
  "table_ok k P v d scrs n i u t \<longleftrightarrow> i < 1023 \<and> u \<noteq> v \<and> t \<noteq> d \<and> page_of u = u \<and> page_of t = t \<and>
     walk_free (k_mach k) t \<and> heap_page (k_heap k) u \<and> (n \<le> unat i \<longrightarrow> P u = Some t) \<and>
     (\<forall>j < 1024. pword (k_mach k) t j = scroll_word scrs i j)"

definition tables_inj :: "tables \<Rightarrow> bool" where
  "tables_inj tab \<longleftrightarrow> (\<forall>i i' u u' t t'. tab i = Some (u, t) \<and> tab i' = Some (u', t') \<and> i \<noteq> i' \<longrightarrow> u \<noteq> u' \<and> t \<noteq> t')"

definition manuscript :: "kernel \<Rightarrow> (addr \<rightharpoonup> addr) \<Rightarrow> addr \<Rightarrow> addr \<Rightarrow> (u32 \<Rightarrow> u32) \<Rightarrow> tables \<Rightarrow> scroll list \<Rightarrow> nat \<Rightarrow> bool" where
  "manuscript k P v d base tab scrs n \<longleftrightarrow> owns k P \<and> P v = Some d \<and> tables_inj tab \<and>
     (\<forall>i u t. tab i = Some (u, t) \<longrightarrow> table_ok k P v d scrs n i u t) \<and>
     (\<forall>i j. tab i = None \<longrightarrow> scroll_word scrs i j = 0) \<and>
     (\<forall>i < 1024. pword (k_mach k) d i = leaf_word n base tab i)"

definition table_frames :: "tables \<Rightarrow> addr set" where
  "table_frames tab = {t. \<exists>i u. tab i = Some (u, t)}"

lemma manuscriptD:
  assumes "manuscript k P v d base tab scrs n"
  shows "owns k P" and "P v = Some d" and "tables_inj tab"
    and "i < 1024 \<Longrightarrow> pword (k_mach k) d i = leaf_word n base tab i" and "tab i = None \<Longrightarrow> scroll_word scrs i j = 0"
  using assms by (simp_all add: manuscript_def)

lemma manuscript_table:
  assumes "manuscript k P v d base tab scrs n" and "tab i = Some (u, t)"
  shows "i < 1023" and "u \<noteq> v" and "t \<noteq> d" and "page_of u = u" and "page_of t = t" and "walk_free (k_mach k) t"
    and "heap_page (k_heap k) u" and "n \<le> unat i \<Longrightarrow> P u = Some t"
    and "j < 1024 \<Longrightarrow> pword (k_mach k) t j = scroll_word scrs i j"
proof -
  have "table_ok k P v d scrs n i u t" using assms by (simp add: manuscript_def)
  then show "i < 1023" "u \<noteq> v" "t \<noteq> d" "page_of u = u" "page_of t = t" "walk_free (k_mach k) t"
    "heap_page (k_heap k) u" "n \<le> unat i \<Longrightarrow> P u = Some t" "j < 1024 \<Longrightarrow> pword (k_mach k) t j = scroll_word scrs i j"
    by (simp_all add: table_ok_def)
qed

section \<open>Entering the scrolls\<close>

lemma table_keeps:
  assumes "table_ok k P v d scrs n i u t" and "keeps W X (k_mach k) (k_mach k')" and "t \<notin> W"
    and "heap_page (k_heap k') u" and "n' \<le> unat i \<Longrightarrow> P' u = Some t"
  shows "table_ok k' P' v d scrs n' i u t"
  using assms keeps_walk_free [OF assms(2)] keeps_pword [OF assms(2), of t] by (simp add: table_ok_def)

lemma place_entry:
  assumes "manuscript k P v d base tab scrs 0" and "tab (PG_DIR_IDX (scr_vaddr s)) = Some (u, t)"
  shows "\<exists>m. kstore k (u + 4 * PG_TBL_IDX (scr_vaddr s)) (user_entry (scr_page s)) = Inr (k\<lparr>k_mach := m\<rparr>) \<and>
    manuscript (k\<lparr>k_mach := m\<rparr>) P v d base tab (scrs @ [s]) 0 \<and> keeps {t} {} (k_mach k) m \<and> m_frames m = m_frames (k_mach k)"
proof -
  note M = manuscriptD [OF assms(1)] and T = manuscript_table [OF assms]
  have pu: "P u = Some t" using T(8) by simp
  from owned_word(2) [OF M(1) pu index_bounds(2)] obtain m where
    m: "kstore k (u + 4 * PG_TBL_IDX (scr_vaddr s)) (user_entry (scr_page s)) = Inr (k\<lparr>k_mach := m\<rparr>)"
      "keeps {t} {} (k_mach k) m" "owns (k\<lparr>k_mach := m\<rparr>) P" "m_frames m = m_frames (k_mach k)"
      "\<forall>j < 1024. pword m t j = (if j = PG_TBL_IDX (scr_vaddr s) then user_entry (scr_page s) else pword (k_mach k) t j)"
    by blast
  have "table_ok (k\<lparr>k_mach := m\<rparr>) P v d (scrs @ [s]) 0 i u' t'" if i: "tab i = Some (u', t')" for i u' t'
  proof -
    note T' = manuscript_table [OF assms(1) i]
    have "pword m t' j = scroll_word (scrs @ [s]) i j" if j: "j < 1024" for j
    proof (cases "i = PG_DIR_IDX (scr_vaddr s)")
      case True
      then show ?thesis using m(5) j i assms(2) T'(9) [OF j] by (auto simp: scroll_word_snoc)
    next
      case False
      then have "t' \<noteq> t" using M(3) i assms(2) unfolding tables_inj_def by blast
      then have "pword m t' j = pword (k_mach k) t' j" using keeps_pword [OF m(2) T'(6) _ j] T'(5) by simp
      then show ?thesis using False T'(9) [OF j] by (simp add: scroll_word_snoc)
    qed
    then show ?thesis using T' keeps_walk_free [OF m(2)] by (simp add: table_ok_def)
  qed
  moreover have "scroll_word (scrs @ [s]) i j = 0" if "tab i = None" for i j
    using that assms(2) M(5) [OF that] by (auto simp: scroll_word_snoc)
  moreover have "pword m d i = leaf_word 0 base tab i" if "i < 1024" for i
    using keeps_pword [OF m(2) ownsD(4) [OF M(1,2)] _ that] ownsD(3) [OF M(1,2)] T(3) M(4) [OF that] by simp
  ultimately have "manuscript (k\<lparr>k_mach := m\<rparr>) P v d base tab (scrs @ [s]) 0"
    using m(3) M(2,3) by (simp add: manuscript_def)
  with m show ?thesis by blast
qed

lemma heap_page_grows: "owns k' (P(v \<mapsto> p)) \<Longrightarrow> P u = Some t \<Longrightarrow> u \<noteq> v \<Longrightarrow> heap_page (k_heap k') u"
  using ownsD(1) [of k' "P(v \<mapsto> p)" u t] by simp

lemma tables_inj_upd:
  assumes "tables_inj tab" and "\<And>i' u' t'. tab i' = Some (u', t') \<Longrightarrow> u' \<noteq> u \<and> t' \<noteq> t"
  shows "tables_inj (tab(i \<mapsto> (u, t)))"
  unfolding tables_inj_def
proof (intro allI impI, elim conjE)
  fix j j' x x' y y'
  assume j: "(tab(i \<mapsto> (u, t))) j = Some (x, y)" "(tab(i \<mapsto> (u, t))) j' = Some (x', y')" "j \<noteq> j'"
  show "x \<noteq> x' \<and> y \<noteq> y'"
  proof (cases "j = i")
    case True
    then have "tab j' = Some (x', y')" "x = u" "y = t" using j by simp_all
    with assms(2) [of j' x' y'] show ?thesis by blast
  next
    case ji: False
    then have t: "tab j = Some (x, y)" using j(1) by simp
    show ?thesis
    proof (cases "j' = i")
      case True
      then have "x' = u" "y' = t" using j(2) by simp_all
      with assms(2) [OF t] show ?thesis by simp
    next
      case False
      then have "tab j' = Some (x', y')" using j(2) by simp
      with assms(1) t j(3) show ?thesis unfolding tables_inj_def by blast
    qed
  qed
qed

text \<open>A new table for an entry that has none: taken, entered in the manuscript and cleared.\<close>

lemma new_table:
  assumes "manuscript k P v d base tab scrs 0" and "tab i = None" and "i < 1023" and "new_page k P u t k1"
  shows "\<exists>k2 m. kstore k1 (v + 4 * i) (user_entry u OR MANUSCRIPT_BIND) = Inr k2 \<and>
    rfold (store_leaf u 0) [0..<1024] k2 = Inr (k1\<lparr>k_mach := m\<rparr>) \<and>
    manuscript (k1\<lparr>k_mach := m\<rparr>) (P(u \<mapsto> t)) v d base (tab(i \<mapsto> (u, t))) scrs 0 \<and>
    keeps {d, t} {} (k_mach k1) m \<and> m_frames m = m_frames (k_mach k1)"
proof -
  note M = manuscriptD [OF assms(1)]
  have i: "i < 1024" by (rule dir_index_bound [OF assms(3)])
  have o1: "owns k1 (P(u \<mapsto> t))" "P u = None" "t \<notin> ran P" and g: "grows {} k k1" and fr: "frame_status (m_frames (k_mach k)) t = Some False"
    using assms(4) by (simp_all add: new_page_def)
  have uv: "u \<noteq> v" using o1(2) M(2) by auto
  have td: "t \<noteq> d" using o1(3) M(2) by (auto simp: ran_def)
  have Pv: "(P(u \<mapsto> t)) v = Some d" and Pu: "(P(u \<mapsto> t)) u = Some t" using M(2) uv by simp_all
  from owned_word(2) [OF o1(1) Pv i] obtain m1 where
    m1: "kstore k1 (v + 4 * i) (user_entry u OR MANUSCRIPT_BIND) = Inr (k1\<lparr>k_mach := m1\<rparr>)" "keeps {d} {} (k_mach k1) m1"
      "owns (k1\<lparr>k_mach := m1\<rparr>) (P(u \<mapsto> t))" "m_frames m1 = m_frames (k_mach k1)"
      "\<forall>j < 1024. pword m1 d j = (if j = i then user_entry u OR MANUSCRIPT_BIND else pword (k_mach k1) d j)" by blast
  define k2 where "k2 = k1\<lparr>k_mach := m1\<rparr>"
  have k2: "k_mach k2 = m1" "k2\<lparr>k_mach := m\<rparr> = k1\<lparr>k_mach := m\<rparr>" for m by (simp_all add: k2_def)
  from clear_words [OF m1(3) [folded k2_def] Pu le0 order_refl, of 0, unfolded k2] obtain m where
    m: "rfold (store_leaf u 0) [0..<1024] k2 = Inr (k1\<lparr>k_mach := m\<rparr>)" "keeps {t} {} m1 m"
      "owns (k1\<lparr>k_mach := m\<rparr>) (P(u \<mapsto> t))" "m_frames m = m_frames m1"
      "\<forall>j < 1024. pword m t j = (if 0 \<le> unat j \<and> unat j < 1024 then 0 else pword m1 t j)" by blast
  let ?F = "{p. frame_status (m_frames (k_mach k)) p = Some False}"
  have K1: "keeps ?F (heap_pages (k_heap k)) (k_mach k) (k_mach k1)" using g by (simp add: grows_def)
  have K2: "keeps {d, t} {} (k_mach k1) m" by (rule keeps_trans [OF m1(2) m(2)]) simp_all
  have K: "keeps (insert d ?F) (heap_pages (k_heap k)) (k_mach k) m"
    by (rule keeps_trans [OF K1 K2]) (use fr in auto)
  note D = ownsD [OF M(1,2)]
  have dF: "d \<notin> ?F" using D(5) by simp
  have "table_ok (k1\<lparr>k_mach := m\<rparr>) (P(u \<mapsto> t)) v d scrs 0 i' u' t'" if "(tab(i \<mapsto> (u, t))) i' = Some (u', t')" for i' u' t'
  proof (cases "i' = i")
    case True
    note U = ownsD [OF m(3) Pu]
    have "scroll_word scrs i j = 0" for j using M(5) [OF assms(2)] .
    moreover have "unat j < 1024" if "j < 1024" for j :: u32 using that by (simp add: word_less_nat_alt)
    ultimately show ?thesis using True that assms(3) uv td U m(5) by (simp add: table_ok_def)
  next
    case False
    then have tb: "tab i' = Some (u', t')" using that by simp
    note T' = manuscript_table [OF assms(1) tb]
    have pu: "P u' = Some t'" using T'(8) by simp
    have tn: "t' \<notin> insert d ?F" using T'(3) ownsD(5) [OF M(1) pu] by simp
    have un: "u' \<noteq> u" using pu o1(2) by auto
    have to: "table_ok k P v d scrs 0 i' u' t'" using assms(1) tb by (simp add: manuscript_def)
    have K': "keeps (insert d ?F) (heap_pages (k_heap k)) (k_mach k) (k_mach (k1\<lparr>k_mach := m\<rparr>))" using K by simp
    show ?thesis by (rule table_keeps [OF to K' tn]) (use heap_page_grows [OF o1(1) pu un] pu un in simp_all)
  qed
  moreover have "tables_inj (tab(i \<mapsto> (u, t)))"
  proof -
    have "u' \<noteq> u \<and> t' \<noteq> t" if "tab i' = Some (u', t')" for i' u' t'
      using manuscript_table(8) [OF assms(1) that] o1(2,3) by (auto simp: ran_def)
    then show ?thesis by (rule tables_inj_upd [OF M(3)])
  qed
  moreover have "pword m d j = leaf_word 0 base (tab(i \<mapsto> (u, t))) j" if j: "j < 1024" for j
  proof -
    have "walk_free m1 d" using D(4) keeps_walk_free [OF K1] keeps_walk_free [OF m1(2)] by simp
    then have "pword m d j = pword m1 d j" using keeps_pword [OF m(2) _ _ j, of d] D(3) td by simp
    moreover have "pword (k_mach k1) d j = pword (k_mach k) d j" using keeps_pword [OF K1 D(4) _ j] D(3) dF by simp
    ultimately show ?thesis using m1(5) M(4) [OF j] j by (simp add: leaf_word_def)
  qed
  ultimately have "manuscript (k1\<lparr>k_mach := m\<rparr>) (P(u \<mapsto> t)) v d base (tab(i \<mapsto> (u, t))) scrs 0"
    using m(3) Pv M(5) by (simp add: manuscript_def)
  with m1(1,4) m(1,4) K2 show ?thesis by (auto simp: k2_def)
qed

abbreviation free_frames :: "kernel \<Rightarrow> addr set" where
  "free_frames k \<equiv> {p. frame_status (m_frames (k_mach k)) p = Some False}"

lemma grows_free: "grows W k k' \<Longrightarrow> free_frames k' \<subseteq> free_frames k"
  unfolding grows_def by (metis (mono_tags, lifting) Collect_mono option.inject)

lemma place_scroll_result:
  assumes "manuscript k P v d base tab scrs 0" and "\<forall>i < 1024. \<not> bit (base i) 10" and "PG_DIR_IDX (scr_vaddr s) < 1023"
    and "supplied kmalloc_aligned (Suc n) (k_heap k)" and "supplied kpage_alloc (Suc n) (m_frames (k_mach k))"
  shows "\<exists>k' P' tab'. place_scroll v s k = Inr k' \<and> manuscript k' P' v d base tab' (scrs @ [s]) 0 \<and>
    dom tab' = insert (PG_DIR_IDX (scr_vaddr s)) (dom tab) \<and> grows (insert d (table_frames tab)) k k' \<and>
    table_frames tab' \<subseteq> table_frames tab \<union> free_frames k \<and>
    supplied kmalloc_aligned n (k_heap k') \<and> supplied kpage_alloc n (m_frames (k_mach k'))"
proof -
  let ?i = "PG_DIR_IDX (scr_vaddr s)"
  note M = manuscriptD [OF assms(1)]
  have i: "?i < 1024" by simp
  have ld: "kload k (v + 4 * ?i) = Inr (leaf_word 0 base tab ?i)" using owned_word(1) [OF M(1,2) i] M(4) [OF i] by simp
  show ?thesis
  proof (cases "tab ?i")
    case (Some ut)
    then obtain u t where ut: "tab ?i = Some (u, t)" by force
    have e: "leaf_word 0 base tab ?i = user_entry u OR MANUSCRIPT_BIND" by (simp add: leaf_word_def ut)
    have e': "page_of (leaf_word 0 base tab ?i) = u" "leaf_word 0 base tab ?i AND MANUSCRIPT_BIND \<noteq> 0"
      using manuscript_entry [of u] manuscript_table(4) [OF assms(1) ut] by (simp_all only: e bind_bit) simp_all
    from place_entry [OF assms(1) ut] obtain m where
      m: "kstore k (u + 4 * PG_TBL_IDX (scr_vaddr s)) (user_entry (scr_page s)) = Inr (k\<lparr>k_mach := m\<rparr>)"
        "manuscript (k\<lparr>k_mach := m\<rparr>) P v d base tab (scrs @ [s]) 0" "keeps {t} {} (k_mach k) m"
        "m_frames m = m_frames (k_mach k)" by blast
    have "t \<in> table_frames tab" using ut by (auto simp: table_frames_def)
    then have "grows (insert d (table_frames tab)) k (k\<lparr>k_mach := m\<rparr>)" by (intro grows_keeps [OF m(3,4)]) auto
    moreover have "place_scroll v s k = Inr (k\<lparr>k_mach := m\<rparr>)" using ld e' m(1) by (simp add: place_scroll_def Let_def)
    moreover have "dom tab = insert ?i (dom tab)" using ut by auto
    ultimately show ?thesis using m(2,4) supplied_le [OF assms(4), of n] supplied_le [OF assms(5), of n]
      by (intro exI [of _ "k\<lparr>k_mach := m\<rparr>"] exI [of _ P] exI [of _ tab]) simp
  next
    case None
    have e: "leaf_word 0 base tab ?i AND MANUSCRIPT_BIND = 0" using assms(2) i by (simp add: leaf_word_def None bind_bit)
    from owned_new [OF M(1) assms(4,5)] obtain u t k1 where k1:
      "kmalloc_page k = Inr (\<lparr>scr_vaddr = u, scr_size = PAGE_SIZE, scr_type = SCROLL_ALIGNED, scr_page = t\<rparr>, k1)"
      "new_page k P u t k1" "supplied kmalloc_aligned n (k_heap k1)" "supplied kpage_alloc n (m_frames (k_mach k1))" by blast
    from new_table [OF assms(1) None assms(3) k1(2)] obtain k2 m where
      m: "kstore k1 (v + 4 * ?i) (user_entry u OR MANUSCRIPT_BIND) = Inr k2"
        "rfold (store_leaf u 0) [0..<1024] k2 = Inr (k1\<lparr>k_mach := m\<rparr>)"
        "manuscript (k1\<lparr>k_mach := m\<rparr>) (P(u \<mapsto> t)) v d base (tab(?i \<mapsto> (u, t))) scrs 0"
        "keeps {d, t} {} (k_mach k1) m" "m_frames m = m_frames (k_mach k1)" by blast
    define k3 where "k3 = k1\<lparr>k_mach := m\<rparr>"
    have "(tab(?i \<mapsto> (u, t))) ?i = Some (u, t)" by simp
    from place_entry [OF m(3) this, folded k3_def] obtain m' where
      m': "kstore k3 (u + 4 * PG_TBL_IDX (scr_vaddr s)) (user_entry (scr_page s)) = Inr (k3\<lparr>k_mach := m'\<rparr>)"
        "manuscript (k3\<lparr>k_mach := m'\<rparr>) (P(u \<mapsto> t)) v d base (tab(?i \<mapsto> (u, t))) (scrs @ [s]) 0"
        "keeps {t} {} (k_mach k3) m'" "m_frames m' = m_frames (k_mach k3)" by blast
    define k4 where "k4 = k3\<lparr>k_mach := m'\<rparr>"
    have r: "place_scroll v s k = Inr k4"
      using ld e k1(1) m(1,2) m'(1) by (simp add: place_scroll_def Let_def k3_def [symmetric] k4_def [symmetric])
    have tf: "t \<in> free_frames k" "grows {} k k1" using k1(2) by (simp_all add: new_page_def)
    have "keeps {d, t} {} (k_mach k1) m'"
      by (rule keeps_trans [OF m(4)]) (use m'(3) in \<open>auto simp: k3_def\<close>)
    then have "grows {d, t} k1 (k1\<lparr>k_mach := m'\<rparr>)"
      by (rule grows_keeps) (use m(5) m'(4) in \<open>simp_all add: k3_def\<close>)
    then have g1: "grows {d, t} k1 k4" by (simp add: k4_def k3_def)
    have g0: "grows (insert d (table_frames tab)) k k1"
      by (rule grows_trans [OF grows_refl tf(2)]) simp
    have g: "grows (insert d (table_frames tab)) k k4"
      by (rule grows_trans [OF g0 g1]) (use tf(1) in auto)
    have "table_frames (tab(?i \<mapsto> (u, t))) \<subseteq> table_frames tab \<union> free_frames k"
      using tf(1) by (auto simp: table_frames_def split: if_splits)
    moreover have "supplied kmalloc_aligned n (k_heap k4)" "supplied kpage_alloc n (m_frames (k_mach k4))"
      using k1(3,4) m(5) m'(4) by (simp_all add: k4_def k3_def)
    ultimately show ?thesis using r g m'(2) unfolding k4_def [symmetric]
      by (intro exI [of _ k4] exI [of _ "P(u \<mapsto> t)"] exI [of _ "tab(?i \<mapsto> (u, t))"]) simp
  qed
qed

lemma place_scrolls:
  assumes "manuscript k P v d base tab scrs 0" and "\<forall>i < 1024. \<not> bit (base i) 10"
    and "\<forall>s \<in> set xs. PG_DIR_IDX (scr_vaddr s) < 1023"
    and "supplied kmalloc_aligned (length xs) (k_heap k)" and "supplied kpage_alloc (length xs) (m_frames (k_mach k))"
  shows "\<exists>k' P' tab'. rfold (place_scroll v) xs k = Inr k' \<and> manuscript k' P' v d base tab' (scrs @ xs) 0 \<and>
    dom tab' = dom tab \<union> (\<lambda>s. PG_DIR_IDX (scr_vaddr s)) ` set xs \<and> grows (insert d (table_frames tab)) k k' \<and>
    table_frames tab' \<subseteq> table_frames tab \<union> free_frames k"
  using assms(1,3-5)
proof (induction xs arbitrary: k P tab scrs)
  case Nil
  then show ?case by auto
next
  case (Cons s xs)
  from place_scroll_result [OF Cons.prems(1) assms(2), of s "length xs"] Cons.prems(2-4) obtain k1 P1 tab1 where
    k1: "place_scroll v s k = Inr k1" "manuscript k1 P1 v d base tab1 (scrs @ [s]) 0"
      "dom tab1 = insert (PG_DIR_IDX (scr_vaddr s)) (dom tab)" "grows (insert d (table_frames tab)) k k1"
      "table_frames tab1 \<subseteq> table_frames tab \<union> free_frames k"
      "supplied kmalloc_aligned (length xs) (k_heap k1)" "supplied kpage_alloc (length xs) (m_frames (k_mach k1))"
    by auto
  from Cons.IH [OF k1(2) _ k1(6,7)] Cons.prems(2) obtain k2 P2 tab2 where
    k2: "rfold (place_scroll v) xs k1 = Inr k2" "manuscript k2 P2 v d base tab2 ((scrs @ [s]) @ xs) 0"
      "dom tab2 = dom tab1 \<union> (\<lambda>s. PG_DIR_IDX (scr_vaddr s)) ` set xs" "grows (insert d (table_frames tab1)) k1 k2"
      "table_frames tab2 \<subseteq> table_frames tab1 \<union> free_frames k1" by auto
  have "grows (insert d (table_frames tab)) k k2"
    by (rule grows_trans [OF k1(4) k2(4)]) (use k1(5) in auto)
  moreover have "table_frames tab2 \<subseteq> table_frames tab \<union> free_frames k" using k1(5) k2(5) grows_free [OF k1(4)] by blast
  moreover have "rfold (place_scroll v) (s # xs) k = Inr k2" using k1(1) k2(1) by simp
  moreover have "dom tab2 = dom tab \<union> (\<lambda>s. PG_DIR_IDX (scr_vaddr s)) ` set (s # xs)" using k1(3) k2(3) by auto
  ultimately show ?case using k2(2) by (intro exI [of _ k2] exI [of _ P2] exI [of _ tab2]) simp
qed

section \<open>Binding the manuscript\<close>

lemma index_eq: "n < 1024 \<Longrightarrow> (i :: u32) = of_nat n \<longleftrightarrow> unat i = n"
  by (auto simp: word_unat_eq_iff unat_of_nat_u32)

lemma leaf_word_Suc: "n < 1024 \<Longrightarrow> leaf_word (Suc n) base tab i =
  (if i = of_nat n then leaf_word (Suc n) base tab i else leaf_word n base tab i)"
  by (auto simp: leaf_word_def index_eq split: option.split)

lemma manuscript_skip:
  assumes "manuscript k P v d base tab scrs n" and "n < 1024" and "tab (of_nat n) = None"
  shows "manuscript k P v d base tab scrs (Suc n)"
proof -
  note M = manuscriptD [OF assms(1)]
  have "leaf_word (Suc n) base tab i = leaf_word n base tab i" for i
    using assms(3) leaf_word_Suc [OF assms(2), of base tab i] by (auto simp: leaf_word_def)
  moreover have "table_ok k P v d scrs (Suc n) i u t" if "tab i = Some (u, t)" for i u t
    using assms(1) that by (simp add: manuscript_def table_ok_def)
  ultimately show ?thesis using assms(1) by (simp add: manuscript_def)
qed

text \<open>The three assignments to the entry and the removal of the table's virtual page.\<close>

lemma bind_table:
  assumes "manuscript k P v d base tab scrs n" and "n < 1024" and "tab (of_nat n) = Some (u, t)"
  shows "\<exists>m. bind_leaf v n k = Inr (k\<lparr>k_mach := m\<rparr>) \<and> owns (k\<lparr>k_mach := m\<rparr>) (P(u := None)) \<and> keeps {d} {u} (k_mach k) m \<and>
    m_frames m = m_frames (k_mach k) \<and>
    (\<forall>j < 1024. pword m d j = (if j = of_nat n then user_entry t else pword (k_mach k) d j))"
proof -
  let ?i = "of_nat n :: u32" and ?e = "user_entry u OR MANUSCRIPT_BIND"
  note M = manuscriptD [OF assms(1)] and T = manuscript_table [OF assms(1,3)]
  have i: "?i < 1024" by (rule of_nat_index [OF assms(2)])
  have ui: "unat ?i = n" using assms(2) by (simp add: unat_of_nat_u32)
  have pu: "P u = Some t" using T(8) ui by simp
  have lk: "loopback (k_mach k)" using M(1) by (simp add: owns_def space_ok_def tables_ok_def)
  have "page_of (t + offset_of u) = t" using page_of_join [of t u] T(5) by simp
  then have gm: "get_page_mapping (k_mach k) u = Inr t"
    using get_page_mapping_translate [OF lk, of u] ownsD(6) [OF M(1) pu T(4)] by simp
  have ld: "kload k (v + 4 * ?i) = Inr ?e"
    using owned_word(1) [OF M(1,2) i] M(4) [OF i] by (simp add: leaf_word_def assms(3) ui)
  from owned_word(2) [OF M(1,2) i, of "?e AND NOT ADDR_MASK"] obtain m1 where
    m1: "kstore k (v + 4 * ?i) (?e AND NOT ADDR_MASK) = Inr (k\<lparr>k_mach := m1\<rparr>)" "keeps {d} {} (k_mach k) m1"
      "owns (k\<lparr>k_mach := m1\<rparr>) P" "m_frames m1 = m_frames (k_mach k)"
      "\<forall>j < 1024. pword m1 d j = (if j = ?i then ?e AND NOT ADDR_MASK else pword (k_mach k) d j)" by blast
  have l1: "kload (k\<lparr>k_mach := m1\<rparr>) (v + 4 * ?i) = Inr (?e AND NOT ADDR_MASK)"
    using owned_word(1) [OF m1(3) M(2) i] m1(5) i by simp
  let ?e2 = "(?e AND NOT ADDR_MASK) OR t"
  from owned_word(2) [OF m1(3) M(2) i, of ?e2] obtain m2 where
    m2: "kstore (k\<lparr>k_mach := m1\<rparr>) (v + 4 * ?i) ?e2 = Inr (k\<lparr>k_mach := m2\<rparr>)" "keeps {d} {} m1 m2"
      "owns (k\<lparr>k_mach := m2\<rparr>) P" "m_frames m2 = m_frames m1"
      "\<forall>j < 1024. pword m2 d j = (if j = ?i then ?e2 else pword m1 d j)" by auto
  have fr: "kfree (k\<lparr>k_mach := m2\<rparr>) u = Inr (k\<lparr>k_mach := m2\<rparr>)"
    using m2(3) T(7) by (intro kfree_used) (simp_all add: owns_def)
  define Q where "Q = P(u := None)"
  from owned_unmap [OF m2(3) pu, folded Q_def] obtain m3 where
    m3: "kunmap u (k\<lparr>k_mach := m2\<rparr>) = Inr (k\<lparr>k_mach := m3\<rparr>)" "keeps {} {u} m2 m3" "m_frames m3 = m_frames m2"
      "owns (k\<lparr>k_mach := m3\<rparr>) Q" by auto
  have Pv: "Q v = Some d" using M(2) T(2) by (simp add: Q_def)
  have K2: "keeps {d} {} (k_mach k) m2" by (rule keeps_trans [OF m1(2) m2(2)]) simp_all
  have wd: "walk_free m2 d" using ownsD(4) [OF m2(3) M(2)] by simp
  have w3: "pword m3 d j = pword m2 d j" if "j < 1024" for j using keeps_pword [OF m3(2) wd _ that] by simp
  have l3: "kload (k\<lparr>k_mach := m3\<rparr>) (v + 4 * ?i) = Inr ?e2"
    using owned_word(1) [OF m3(4) Pv i] w3 [OF i] m2(5) i by simp
  from owned_word(2) [OF m3(4) Pv i, of "?e2 AND NOT MANUSCRIPT_BIND"] obtain m4 where
    m4: "kstore (k\<lparr>k_mach := m3\<rparr>) (v + 4 * ?i) (?e2 AND NOT MANUSCRIPT_BIND) = Inr (k\<lparr>k_mach := m4\<rparr>)" "keeps {d} {} m3 m4"
      "owns (k\<lparr>k_mach := m4\<rparr>) Q" "m_frames m4 = m_frames m3"
      "\<forall>j < 1024. pword m4 d j = (if j = ?i then ?e2 AND NOT MANUSCRIPT_BIND else pword m3 d j)" by auto
  have eb: "?e AND MANUSCRIPT_BIND \<noteq> 0" "page_of ?e = u" using manuscript_entry [of u] T(4) by (simp_all only: bind_bit) simp
  have "bind_leaf v n k = Inr (k\<lparr>k_mach := m4\<rparr>)"
    unfolding bind_leaf_def Let_def using eb gm m1(1) l1 m2(1) fr m3(1) l3 m4(1) by (simp add: ld)
  moreover have "keeps {d} {u} (k_mach k) m4"
    by (rule keeps_trans [OF keeps_trans [OF K2 m3(2), of "{d}" "{u}"] m4(2)]) simp_all
  moreover have "pword m4 d j = (if j = ?i then user_entry t else pword (k_mach k) d j)" if "j < 1024" for j
    using m4(5) w3 m2(5) m1(5) that bound_entry [OF T(5), of u] by simp
  ultimately show ?thesis using m4(3,4) m3(3) m2(4) m1(4) unfolding Q_def by auto
qed

lemma bind_leaf_result:
  assumes "manuscript k P v d base tab scrs n" and "n < 1024" and "\<forall>i < 1024. \<not> bit (base i) 10"
  shows "\<exists>m P'. bind_leaf v n k = Inr (k\<lparr>k_mach := m\<rparr>) \<and> manuscript (k\<lparr>k_mach := m\<rparr>) P' v d base tab scrs (Suc n) \<and>
    keeps {d} (heap_pages (k_heap k)) (k_mach k) m \<and> m_frames m = m_frames (k_mach k)"
proof (cases "tab (of_nat n)")
  case None
  have i: "(of_nat n :: u32) < 1024" by (rule of_nat_index [OF assms(2)])
  note M = manuscriptD [OF assms(1)]
  have "kload k (v + 4 * of_nat n) = Inr (base (of_nat n))"
    using owned_word(1) [OF M(1,2) i] M(4) [OF i] by (simp add: leaf_word_def None)
  then have "bind_leaf v n k = Inr k" using assms(3) i by (simp add: bind_leaf_def bind_bit)
  then show ?thesis using manuscript_skip [OF assms(1,2) None]
    by (intro exI [of _ "k_mach k"] exI [of _ P]) simp
next
  case (Some ut)
  then obtain u t where ut: "tab (of_nat n) = Some (u, t)" by force
  note M = manuscriptD [OF assms(1)] and T = manuscript_table [OF assms(1) ut]
  from bind_table [OF assms(1,2) ut] obtain m where
    m: "bind_leaf v n k = Inr (k\<lparr>k_mach := m\<rparr>)" "owns (k\<lparr>k_mach := m\<rparr>) (P(u := None))" "keeps {d} {u} (k_mach k) m"
      "m_frames m = m_frames (k_mach k)"
      "\<forall>j < 1024. pword m d j = (if j = of_nat n then user_entry t else pword (k_mach k) d j)" by blast
  have "table_ok (k\<lparr>k_mach := m\<rparr>) (P(u := None)) v d scrs (Suc n) i u' t'" if i: "tab i = Some (u', t')" for i u' t'
  proof -
    note T' = manuscript_table [OF assms(1) i]
    have P': "(P(u := None)) u' = Some t'" if n: "Suc n \<le> unat i"
    proof -
      have "i \<noteq> of_nat n" using n by (auto simp: index_eq [OF assms(2)])
      then have "u' \<noteq> u" using M(3) i ut unfolding tables_inj_def by blast
      then show ?thesis using T'(8) n by simp
    qed
    have to: "table_ok k P v d scrs n i u' t'" using assms(1) i by (simp add: manuscript_def)
    have K: "keeps {d} {u} (k_mach k) (k_mach (k\<lparr>k_mach := m\<rparr>))" using m(3) by simp
    show ?thesis by (rule table_keeps [OF to K]) (use T'(3,7) P' in simp_all)
  qed
  moreover have "(P(u := None)) v = Some d" using M(2) T(2) by simp
  moreover have "pword m d i = leaf_word (Suc n) base tab i" if "i < 1024" for i
    using m(5) that M(4) [OF that] leaf_word_Suc [OF assms(2), of base tab i] ut assms(2)
    by (auto simp: leaf_word_def unat_of_nat_u32)
  ultimately have "manuscript (k\<lparr>k_mach := m\<rparr>) (P(u := None)) v d base tab scrs (Suc n)"
    using m(2) M(3,5) by (simp add: manuscript_def)
  moreover have "keeps {d} (heap_pages (k_heap k)) (k_mach k) m"
    by (rule keeps_trans [OF m(3) keeps_refl]) (use heap_page_in [OF T(7)] in auto)
  ultimately show ?thesis using m(1,4) by blast
qed

lemma bind_leaves:
  assumes "manuscript k P v d base tab scrs n" and "n \<le> 1024" and "\<forall>i < 1024. \<not> bit (base i) 10"
  shows "\<exists>m P'. rfold (bind_leaf v) [n..<1024] k = Inr (k\<lparr>k_mach := m\<rparr>) \<and>
    manuscript (k\<lparr>k_mach := m\<rparr>) P' v d base tab scrs 1024 \<and>
    keeps {d} (heap_pages (k_heap k)) (k_mach k) m \<and> m_frames m = m_frames (k_mach k)"
  using assms(1,2)
proof (induction "1024 - n" arbitrary: n k P)
  case 0
  then show ?case by (intro exI [of _ "k_mach k"] exI [of _ P]) simp
next
  case (Suc c)
  then have n: "n < 1024" "c = 1024 - Suc n" "Suc n \<le> 1024" by simp_all
  from bind_leaf_result [OF Suc.prems(1) n(1) assms(3)] obtain m P' where
    m: "bind_leaf v n k = Inr (k\<lparr>k_mach := m\<rparr>)" "manuscript (k\<lparr>k_mach := m\<rparr>) P' v d base tab scrs (Suc n)"
      "keeps {d} (heap_pages (k_heap k)) (k_mach k) m" "m_frames m = m_frames (k_mach k)" by blast
  from Suc.hyps(1) [OF n(2) m(2) n(3)] obtain m' P'' where
    m': "rfold (bind_leaf v) [Suc n..<1024] (k\<lparr>k_mach := m\<rparr>) = Inr (k\<lparr>k_mach := m'\<rparr>)"
      "manuscript (k\<lparr>k_mach := m'\<rparr>) P'' v d base tab scrs 1024" "keeps {d} (heap_pages (k_heap k)) m m'"
      "m_frames m' = m_frames m" by auto
  have "keeps {d} (heap_pages (k_heap k)) (k_mach k) m'" by (rule keeps_trans [OF m(3) m'(3)]) simp_all
  moreover have "rfold (bind_leaf v) [n..<1024] k = Inr (k\<lparr>k_mach := m'\<rparr>)"
    unfolding upt_conv_Cons [OF n(1)] using m(1) m'(1) by simp
  ultimately show ?case using m'(2,4) m(4) by auto
qed

section \<open>The finished directory\<close>

definition directory_ok :: "kernel \<Rightarrow> addr \<Rightarrow> (u32 \<Rightarrow> u32) \<Rightarrow> tables \<Rightarrow> scroll list \<Rightarrow> bool" where
  "directory_ok k d base tab scrs \<longleftrightarrow> space_ok k \<and> page_of d = d \<and> walk_free (k_mach k) d \<and> tables_inj tab \<and>
     (\<forall>i u t. tab i = Some (u, t) \<longrightarrow> i < 1023 \<and> t \<noteq> d \<and> page_of t = t \<and> walk_free (k_mach k) t \<and>
        (\<forall>j < 1024. pword (k_mach k) t j = scroll_word scrs i j)) \<and>
     (\<forall>i j. tab i = None \<longrightarrow> scroll_word scrs i j = 0) \<and>
     (\<forall>i < 1024. pword (k_mach k) d i = (case tab i of None \<Rightarrow> base i | Some (u, t) \<Rightarrow> user_entry t))"

lemma manuscript_directory:
  assumes "manuscript k P v d base tab scrs 1024"
  shows "directory_ok k d base tab scrs"
proof -
  note M = manuscriptD [OF assms] and T = manuscript_table [OF assms]
  have "unat i < 1024" if "i < 1024" for i :: u32 using that by (simp add: word_less_nat_alt)
  then have "pword (k_mach k) d i = (case tab i of None \<Rightarrow> base i | Some (u, t) \<Rightarrow> user_entry t)" if "i < 1024" for i
    using M(4) [OF that] that by (simp add: leaf_word_def split: option.split)
  moreover have "i < 1023 \<and> t \<noteq> d \<and> page_of t = t \<and> walk_free (k_mach k) t \<and>
      (\<forall>j < 1024. pword (k_mach k) t j = scroll_word scrs i j)" if "tab i = Some (u, t)" for i u t
    using T [OF that] by simp
  moreover have "space_ok k" using M(1) by (simp add: owns_def)
  ultimately show ?thesis using M(3,5) ownsD(3,4) [OF M(1,2)] by (simp add: directory_ok_def)
qed

lemma directory_keeps:
  assumes "directory_ok k d base tab scrs" and "keeps {} X (k_mach k) m" and "m_frames m = m_frames (k_mach k)"
  shows "directory_ok (k\<lparr>k_mach := m\<rparr>) d base tab scrs"
proof -
  have "pword m p j = pword (k_mach k) p j" if "walk_free (k_mach k) p" "j < 1024" for p j
    using keeps_pword [OF assms(2) that(1) _ that(2)] by simp
  then show ?thesis
    using assms(1) space_keeps [OF _ assms(2,3)] keeps_walk_free [OF assms(2)] by (simp add: directory_ok_def)
qed

lemma finish_result:
  assumes "manuscript k P v d base Map.empty [] 0" and "\<forall>i < 1024. \<not> bit (base i) 10"
    and "\<forall>s \<in> set xs. PG_DIR_IDX (scr_vaddr s) < 1023" and "PG_DIR_IDX d < 1023"
    and "supplied kmalloc_aligned (length xs) (k_heap k)" and "supplied kpage_alloc (length xs) (m_frames (k_mach k))"
  shows "\<exists>k' tab. finish_directory \<lparr>scr_vaddr = v, scr_size = z, scr_type = SCROLL_ALIGNED, scr_page = d\<rparr> xs k = Inr (d, k') \<and>
    directory_ok k' d base tab xs \<and> dom tab = (\<lambda>s. PG_DIR_IDX (scr_vaddr s)) ` set xs \<and>
    keeps (insert d (free_frames k)) (insert d (heap_pages (k_heap k))) (k_mach k) (k_mach k')"
proof -
  from place_scrolls [OF assms(1-3,5,6)] obtain k1 P1 tab where
    k1: "rfold (place_scroll v) xs k = Inr k1" "manuscript k1 P1 v d base tab xs 0"
      "dom tab = (\<lambda>s. PG_DIR_IDX (scr_vaddr s)) ` set xs" "grows {d} k k1" by (auto simp: table_frames_def)
  from bind_leaves [OF k1(2) _ assms(2)] obtain m2 P2 where
    m2: "rfold (bind_leaf v) [0..<1024] k1 = Inr (k1\<lparr>k_mach := m2\<rparr>)" "manuscript (k1\<lparr>k_mach := m2\<rparr>) P2 v d base tab xs 1024"
      "keeps {d} (heap_pages (k_heap k1)) (k_mach k1) m2" "m_frames m2 = m_frames (k_mach k1)" by auto
  define k2 where "k2 = k1\<lparr>k_mach := m2\<rparr>"
  note M = manuscriptD [OF m2(2) [folded k2_def]]
  from owned_unmap [OF M(1,2)] obtain m3 where
    m3: "kunmap v k2 = Inr (k2\<lparr>k_mach := m3\<rparr>)" "keeps {} {v} (k_mach k2) m3" "m_frames m3 = m_frames (k_mach k2)"
      "owns (k2\<lparr>k_mach := m3\<rparr>) (P2(v := None))" by blast
  define k3 where "k3 = k2\<lparr>k_mach := m3\<rparr>"
  note D = ownsD [OF M(1,2)]
  have d3: "directory_ok k3 d base tab xs"
    unfolding k3_def by (rule directory_keeps [OF manuscript_directory [OF m2(2) [folded k2_def]] m3(2,3)])
  have "space_ok k3" using m3(4) by (simp add: owns_def k3_def)
  then have fr: "kfree k3 v = Inr k3" using D(1) by (intro kfree_used) (simp_all add: k3_def)
  have "tables_ok (k_mach k3)" using \<open>space_ok k3\<close> by (simp add: space_ok_def)
  from kunmap_keeps [OF this assms(4) D(3)] obtain m4 where
    m4: "kunmap d k3 = Inr (k3\<lparr>k_mach := m4\<rparr>)" "keeps {} {d} (k_mach k3) m4" "m_frames m4 = m_frames (k_mach k3)" by blast
  define k4 where "k4 = k3\<lparr>k_mach := m4\<rparr>"
  have "directory_ok k4 d base tab xs" unfolding k4_def by (rule directory_keeps [OF d3 m4(2,3)])
  moreover have "finish_directory \<lparr>scr_vaddr = v, scr_size = z, scr_type = SCROLL_ALIGNED, scr_page = d\<rparr> xs k = Inr (d, k4)"
    using k1(1) m2(1) m3(1) fr m4(1)
    by (simp add: finish_directory_def bind_manuscript_def scroll_unmap_def k2_def [symmetric] k3_def [symmetric] k4_def [symmetric])
  moreover have "keeps (insert d (free_frames k)) (insert d (heap_pages (k_heap k))) (k_mach k) (k_mach k4)"
  proof -
    have hp: "heap_pages (k_heap k1) = heap_pages (k_heap k)" "v \<in> heap_pages (k_heap k1)"
      using k1(4) heap_page_in [OF D(1)] by (simp_all add: grows_def k2_def)
    have K1: "keeps (insert d (free_frames k)) (heap_pages (k_heap k)) (k_mach k) (k_mach k1)" using k1(4) by (simp add: grows_def)
    have K3: "keeps {d} (heap_pages (k_heap k1)) (k_mach k1) m3"
      by (rule keeps_trans [OF m2(3)]) (use m3(2) hp(2) in \<open>auto simp: k2_def\<close>)
    have K4: "keeps {d} (insert d (heap_pages (k_heap k))) (k_mach k1) m4"
      by (rule keeps_trans [OF K3]) (use m4(2) in \<open>auto simp: k3_def hp(1)\<close>)
    have "keeps (insert d (free_frames k)) (insert d (heap_pages (k_heap k))) (k_mach k) m4"
      by (rule keeps_trans [OF K1 K4]) auto
    then show ?thesis by (simp add: k4_def)
  qed
  ultimately show ?thesis using k1(3) by blast
qed

text \<open>The pages of a list of scrolls as an address space: the last scroll for a page counts.\<close>

definition scroll_lookup :: "scroll list \<Rightarrow> addr \<Rightarrow> addr option" where
  "scroll_lookup scrs a =
     (case find (\<lambda>s. page_of (scr_vaddr s) = page_of a) (rev scrs) of
        None \<Rightarrow> None | Some s \<Rightarrow> Some (page_of (scr_page s) + offset_of a))"

lemma scroll_word_lookup:
  "scroll_lookup scrs a = (let e = scroll_word scrs (PG_DIR_IDX a) (PG_TBL_IDX a) in
     if present e then Some (page_of e + offset_of a) else None)"
  by (simp add: scroll_lookup_def scroll_word_def page_eq_indices Let_def split: option.split)

definition self_entry :: "addr \<Rightarrow> u32" where
  "self_entry d = create_paging_entry d True True False"

text \<open>The entries of a new directory before its scrolls: its own recursive entry, and copies of one half.\<close>

definition half_base :: "(u32 \<Rightarrow> bool) \<Rightarrow> machine \<Rightarrow> addr \<Rightarrow> u32 \<Rightarrow> u32" where
  "half_base copied m d i = (if i = 1023 then self_entry d else if copied i then dir_entry m i else 0)"

definition lower_half :: "u32 \<Rightarrow> bool" where "lower_half i \<longleftrightarrow> i < 512"
definition upper_half :: "u32 \<Rightarrow> bool" where "upper_half i \<longleftrightarrow> 512 \<le> i"

lemma directory_entries:
  assumes "directory_ok k d (half_base c (k_mach k) d) tab scrs" and "n = (k_mach k)\<lparr>cr3 := d\<rparr>" and "i < 1024"
  shows "dir_entry n i = (case tab i of None \<Rightarrow> half_base c (k_mach k) d i | Some (u, t) \<Rightarrow> user_entry t)"
    and "tab i = Some (u, t) \<Longrightarrow> j < 1024 \<Longrightarrow> tbl_entry n i j = scroll_word scrs i j"
    and "tab i = None \<Longrightarrow> c i \<Longrightarrow> i \<noteq> 1023 \<Longrightarrow> tbl_entry n i j = tbl_entry (k_mach k) i j"
proof -
  show e: "dir_entry n i = (case tab i of None \<Rightarrow> half_base c (k_mach k) d i | Some (u, t) \<Rightarrow> user_entry t)"
    using assms(1,3) by (simp add: directory_ok_def pword_def) (simp add: dir_entry_def assms(2))
  show "tbl_entry n i j = scroll_word scrs i j" if "tab i = Some (u, t)" "j < 1024"
  proof -
    have "slot (user_entry t) j = slot t j" using slot_page [of "user_entry t" j] slot_page [of t j] by simp
    moreover have "pword (k_mach k) t j = scroll_word scrs i j" using assms(1) that unfolding directory_ok_def by blast
    ultimately show ?thesis using e that(1) by (simp add: tbl_entry_def pword_def assms(2))
  qed
  show "tbl_entry n i j = tbl_entry (k_mach k) i j" if "tab i = None" "c i" "i \<noteq> 1023"
    using e that by (simp add: tbl_entry_def half_base_def assms(2))
qed

lemma directory_translate:
  assumes "directory_ok k d (half_base c (k_mach k) d) tab scrs" and "n = (k_mach k)\<lparr>cr3 := d\<rparr>" and "PG_DIR_IDX a \<noteq> 1023"
  shows "translate n a = (if \<not> c (PG_DIR_IDX a) \<or> PG_DIR_IDX a \<in> dom tab then scroll_lookup scrs a else translate (k_mach k) a)"
proof -
  let ?i = "PG_DIR_IDX a"
  have on: "paging_on (k_mach k)" using assms(1) by (auto simp: directory_ok_def space_ok_def intro: tables_paging)
  then have onn: "paging_on n" by (simp add: assms(2) paging_on_def)
  note E = directory_entries [OF assms(1,2), of ?i, simplified]
  show ?thesis
  proof (cases "tab ?i")
    case None
    then have "scroll_word scrs ?i (PG_TBL_IDX a) = 0" using assms(1) by (simp add: directory_ok_def)
    then show ?thesis using None E assms(3) on onn by (auto simp: translate_def half_base_def scroll_word_lookup Let_def)
  next
    case (Some ut)
    then obtain u t where "tab ?i = Some (u, t)" by force
    then show ?thesis using E onn by (auto simp: translate_def scroll_word_lookup Let_def)
  qed
qed

text \<open>The entries that are not copied from the current directory, and the frames they name.\<close>

definition own_entry :: "tables \<Rightarrow> u32 \<Rightarrow> bool" where
  "own_entry tab i \<longleftrightarrow> tab i \<noteq> None \<or> i = 1023"

definition own_frame :: "tables \<Rightarrow> addr \<Rightarrow> u32 \<Rightarrow> addr" where
  "own_frame tab d i = (case tab i of None \<Rightarrow> d | Some (u, t) \<Rightarrow> t)"

lemma own_frames:
  assumes "directory_ok k d base tab scrs"
  shows "page_of (own_frame tab d i) = own_frame tab d i" and "walk_free (k_mach k) (own_frame tab d i)"
    and "own_entry tab i \<Longrightarrow> own_entry tab j \<Longrightarrow> own_frame tab d i = own_frame tab d j \<Longrightarrow> i = j"
proof -
  have T: "i < 1023 \<and> t \<noteq> d \<and> page_of t = t \<and> walk_free (k_mach k) t" if "tab i = Some (u, t)" for i u t
    using assms that unfolding directory_ok_def by blast
  have d: "page_of d = d" "walk_free (k_mach k) d" "tables_inj tab" using assms by (simp_all add: directory_ok_def)
  show "page_of (own_frame tab d i) = own_frame tab d i" "walk_free (k_mach k) (own_frame tab d i)"
    using d T [of i] by (simp_all add: own_frame_def split: option.split)
  assume o: "own_entry tab i" "own_entry tab j" "own_frame tab d i = own_frame tab d j"
  show "i = j"
  proof (cases "tab i = None \<or> tab j = None")
    case True
    then show ?thesis using o T [of i] T [of j] by (auto simp: own_entry_def own_frame_def split: option.splits)
  next
    case False
    then obtain u t u' where "tab i = Some (u, t)" "tab j = Some (u', t)"
      using o(3) by (auto simp: own_frame_def)
    then show ?thesis using d(3) unfolding tables_inj_def by blast
  qed
qed

lemma directory_pages:
  assumes "directory_ok k d (half_base c (k_mach k) d) tab scrs" and "n = (k_mach k)\<lparr>cr3 := d\<rparr>" and "i < 1024"
  shows "own_entry tab i \<Longrightarrow> page_of (dir_entry n i) = own_frame tab d i"
    and "\<not> own_entry tab i \<Longrightarrow> present (dir_entry n i) \<Longrightarrow> dir_entry n i = dir_entry (k_mach k) i"
proof -
  note E = directory_entries(1) [OF assms] and f = own_frames(1) [OF assms(1), of i]
  show "page_of (dir_entry n i) = own_frame tab d i" if "own_entry tab i"
    using that E f by (cases "tab i") (auto simp: own_entry_def own_frame_def half_base_def self_entry_def)
  show "dir_entry n i = dir_entry (k_mach k) i" if "\<not> own_entry tab i" "present (dir_entry n i)"
    using that E by (cases "tab i") (auto simp: own_entry_def half_base_def split: if_splits)
qed

lemma directory_tables_ok:
  assumes "directory_ok k d (half_base c (k_mach k) d) tab scrs" and "n = (k_mach k)\<lparr>cr3 := d\<rparr>"
  shows "tables_ok n"
proof -
  have ok: "tables_ok (k_mach k)" and d: "page_of d = d" using assms(1) by (simp_all add: directory_ok_def space_ok_def)
  have none: "tab 1023 = None" using assms(1) unfolding directory_ok_def by (cases "tab 1023") fastforce+
  then have "dir_entry n 1023 = self_entry d" using directory_entries(1) [OF assms, of 1023] by (simp add: half_base_def)
  then have "loopback n" using ok d
    by (simp add: loopback_def self_entry_def tables_ok_def) (simp add: assms(2) paging_on_def)
  moreover have "i = j" if ij: "i < 1024" "j < 1024" "present (dir_entry n i)" "present (dir_entry n j)"
      "page_of (dir_entry n i) = page_of (dir_entry n j)" for i j
  proof -
    note pi = directory_pages [OF assms ij(1)] and pj = directory_pages [OF assms ij(2)]
    have "page_of (dir_entry (k_mach k) x) \<noteq> own_frame tab d y" if "x < 1024" "present (dir_entry (k_mach k) x)" for x y
      using own_frames(1,2) [OF assms(1), of y] that by (auto simp: walk_free_def)
    then have iff: "own_entry tab i \<longleftrightarrow> own_entry tab j" using pi pj ij by metis
    show ?thesis
    proof (cases "own_entry tab i")
      case True
      with iff own_frames(3) [OF assms(1)] pi(1) pj(1) ij(5) show ?thesis by auto
    next
      case False
      with iff pi(2) pj(2) ij ok show ?thesis unfolding tables_ok_def tables_apart_def by metis
    qed
  qed
  ultimately show ?thesis by (simp add: tables_ok_def tables_apart_def)
qed

section \<open>Filling a directory\<close>

lemma manuscript_empty:
  "manuscript k P v d base Map.empty [] 0 \<longleftrightarrow>
    owns k P \<and> P v = Some d \<and> (\<forall>i < 1024. pword (k_mach k) d i = base i)"
  by (simp add: manuscript_def tables_inj_def leaf_word_def)

lemma manuscript_grows:
  assumes "manuscript k P v d base Map.empty [] 0" and "owns k' P" and "grows {} k k'"
  shows "manuscript k' P v d base Map.empty [] 0"
proof -
  note M = assms(1) [unfolded manuscript_empty]
  then have d: "walk_free (k_mach k) d" "page_of d = d" "d \<notin> free_frames k" using ownsD [of k P v d] by simp_all
  have "keeps (free_frames k) (heap_pages (k_heap k)) (k_mach k) (k_mach k')" using assms(3) by (simp add: grows_def)
  from keeps_pword [OF this d(1)] d(2,3) M assms(2) show ?thesis by (simp add: manuscript_empty)
qed

lemma directory_cong:
  "(\<And>i. i < 1024 \<Longrightarrow> base i = base' i) \<Longrightarrow> directory_ok k d base tab scrs \<Longrightarrow> directory_ok k d base' tab scrs"
  by (simp add: directory_ok_def split: option.split)

text \<open>The directory with the words \<open>w\<close>, in a state that differs from \<open>k1\<close> only in them.\<close>

definition filled :: "kernel \<Rightarrow> addr \<Rightarrow> addr \<Rightarrow> (u32 \<Rightarrow> u32) \<Rightarrow> kernel \<Rightarrow> bool" where
  "filled k1 v d w k \<longleftrightarrow> k = k1\<lparr>k_mach := k_mach k\<rparr> \<and> keeps {d} {} (k_mach k1) (k_mach k) \<and> owns k [v \<mapsto> d] \<and>
     m_frames (k_mach k) = m_frames (k_mach k1) \<and> (\<forall>j < 1024. pword (k_mach k) d j = w j)"

lemma filled_step:
  assumes "filled k1 v d w k" and "keeps {d} {} (k_mach k) m" and "owns (k\<lparr>k_mach := m\<rparr>) [v \<mapsto> d]"
    and "m_frames m = m_frames (k_mach k)" and "\<And>j. j < 1024 \<Longrightarrow> pword m d j = w' j"
  shows "filled k1 v d w' (k\<lparr>k_mach := m\<rparr>)"
proof -
  have k: "k = k1\<lparr>k_mach := k_mach k\<rparr>" and K: "keeps {d} {} (k_mach k1) (k_mach k)" and f: "m_frames (k_mach k) = m_frames (k_mach k1)"
    using assms(1) by (simp_all add: filled_def)
  have "k\<lparr>k_mach := m\<rparr> = k1\<lparr>k_mach := m\<rparr>" by (subst k) simp
  moreover have "keeps {d} {} (k_mach k1) m" by (rule keeps_trans [OF K assms(2)]) simp_all
  ultimately show ?thesis using assms(3-5) f by (simp add: filled_def)
qed

lemma filled_clear:
  assumes "filled k1 v d w k" and "a \<le> b" and "b \<le> 1024"
  shows "\<exists>k'. rfold (store_leaf v 0) [a..<b] k = Inr k' \<and>
    filled k1 v d (\<lambda>j. if a \<le> unat j \<and> unat j < b then 0 else w j) k'"
proof -
  have "owns k [v \<mapsto> d]" using assms(1) unfolding filled_def by blast
  from clear_words [OF this fun_upd_same assms(2,3), of 0] obtain m where m: "rfold (store_leaf v 0) [a..<b] k = Inr (k\<lparr>k_mach := m\<rparr>)"
    "keeps {d} {} (k_mach k) m" "owns (k\<lparr>k_mach := m\<rparr>) [v \<mapsto> d]" "m_frames m = m_frames (k_mach k)"
    "\<forall>j < 1024. pword m d j = (if a \<le> unat j \<and> unat j < b then 0 else pword (k_mach k) d j)" by blast
  have "filled k1 v d (\<lambda>j. if a \<le> unat j \<and> unat j < b then 0 else w j) (k\<lparr>k_mach := m\<rparr>)"
    by (rule filled_step [OF assms(1) m(2-4)]) (use assms(1) m(5) in \<open>simp add: filled_def\<close>)
  with m(1) show ?thesis by blast
qed

lemma filled_copy:
  assumes "filled k1 v d w k" and "a \<le> b" and "b \<le> 1024"
  shows "\<exists>k'. rfold (copy_leaf v) [a..<b] k = Inr k' \<and>
    filled k1 v d (\<lambda>j. if a \<le> unat j \<and> unat j < b then dir_entry (k_mach k1) j else w j) k'"
proof -
  have "owns k [v \<mapsto> d]" using assms(1) unfolding filled_def by blast
  from copy_words [OF this fun_upd_same assms(2,3)] obtain m where m: "rfold (copy_leaf v) [a..<b] k = Inr (k\<lparr>k_mach := m\<rparr>)"
    "keeps {d} {} (k_mach k) m" "owns (k\<lparr>k_mach := m\<rparr>) [v \<mapsto> d]" "m_frames m = m_frames (k_mach k)"
    "\<forall>j < 1024. pword m d j = (if a \<le> unat j \<and> unat j < b then dir_entry (k_mach k) j else pword (k_mach k) d j)"
    by blast
  have "dir_entry (k_mach k) j = dir_entry (k_mach k1) j" "pword (k_mach k) d j = w j" if "j < 1024" for j
    using assms(1) that by (simp_all add: filled_def keeps_def)
  then have "filled k1 v d (\<lambda>j. if a \<le> unat j \<and> unat j < b then dir_entry (k_mach k1) j else w j) (k\<lparr>k_mach := m\<rparr>)"
    by (intro filled_step [OF assms(1) m(2-4)]) (use m(5) in simp)
  with m(1) show ?thesis by blast
qed

text \<open>The recursive entry completes the directory.\<close>

lemma filled_self:
  assumes "filled k1 v d w k" and "new_page k0 Map.empty v d k1"
    and "\<And>j. j < 1024 \<Longrightarrow> half_base c (k_mach k1) d j = (if j = 1023 then self_entry d else w j)"
  shows "\<exists>k'. kstore k (v + 4 * 1023) (self_entry d) = Inr k' \<and> grows {} k0 k' \<and> k_heap k' = k_heap k1 \<and>
    m_frames (k_mach k') = m_frames (k_mach k1) \<and>
    manuscript k' [v \<mapsto> d] v d (half_base c (k_mach k0) d) Map.empty [] 0"
proof -
  have o: "owns k [v \<mapsto> d]" using assms(1) unfolding filled_def by blast
  have "(1023 :: u32) < 1024" by simp
  from owned_word(2) [OF o fun_upd_same this, of "self_entry d"] obtain m where
    m: "kstore k (v + 4 * 1023) (self_entry d) = Inr (k\<lparr>k_mach := m\<rparr>)" "keeps {d} {} (k_mach k) m"
      "owns (k\<lparr>k_mach := m\<rparr>) [v \<mapsto> d]" "m_frames m = m_frames (k_mach k)"
      "\<forall>j < 1024. pword m d j = (if j = 1023 then self_entry d else pword (k_mach k) d j)" by blast
  define k' where "k' = k\<lparr>k_mach := m\<rparr>"
  have F: "filled k1 v d (half_base c (k_mach k1) d) k'" unfolding k'_def
    by (rule filled_step [OF assms(1) m(2-4)]) (use m(5) assms(1,3) in \<open>simp add: filled_def\<close>)
  then have k': "k' = k1\<lparr>k_mach := k_mach k'\<rparr>" "keeps {d} {} (k_mach k1) (k_mach k')"
    "m_frames (k_mach k') = m_frames (k_mach k1)" unfolding filled_def by blast+
  have g: "grows {} k0 k1" and f: "d \<in> free_frames k0" using assms(2) by (simp_all add: new_page_def)
  have "grows {d} k1 k'" by (subst k'(1), rule grows_keeps [OF k'(2,3)]) simp_all
  then have "grows {} k0 k'" by (rule grows_trans [OF g]) (use f in simp)
  moreover have "k_heap k' = k_heap k1" by (subst k'(1)) simp
  moreover have "half_base c (k_mach k1) d j = half_base c (k_mach k0) d j" if "j < 1024" for j
    using g that by (simp add: grows_def keeps_def half_base_def)
  then have "manuscript k' [v \<mapsto> d] v d (half_base c (k_mach k0) d) Map.empty [] 0"
    using F by (simp add: manuscript_empty filled_def)
  ultimately show ?thesis using m(1) k'(3) unfolding k'_def [symmetric] by blast
qed

lemma filled_start: "new_page k0 Map.empty v d k1 \<Longrightarrow> filled k1 v d (pword (k_mach k1) d) k1"
  by (simp add: filled_def new_page_def)

text \<open>The two ways the code fills a directory.\<close>

lemma task_filled:
  assumes "new_page k Map.empty v d k1"
  shows "\<exists>k2 k3 k4. rfold (store_leaf v 0) [0..<512] k1 = Inr k2 \<and> rfold (copy_leaf v) [512..<1024] k2 = Inr k3 \<and>
    kstore k3 (v + 4 * 1023) (self_entry d) = Inr k4 \<and> grows {} k k4 \<and> k_heap k4 = k_heap k1 \<and>
    m_frames (k_mach k4) = m_frames (k_mach k1) \<and>
    manuscript k4 [v \<mapsto> d] v d (half_base upper_half (k_mach k) d) Map.empty [] 0"
proof -
  from filled_clear [OF filled_start [OF assms], of 0 512] obtain k2 w where k2: "rfold (store_leaf v 0) [0..<512] k1 = Inr k2"
    "filled k1 v d (\<lambda>j. if 0 \<le> unat j \<and> unat j < 512 then 0 else w j) k2" by auto
  from filled_copy [OF k2(2), of 512 1024] obtain k3 where k3: "rfold (copy_leaf v) [512..<1024] k2 = Inr k3"
    "filled k1 v d (\<lambda>j. if 512 \<le> unat j \<and> unat j < 1024 then dir_entry (k_mach k1) j
       else if 0 \<le> unat j \<and> unat j < 512 then 0 else w j) k3" by auto
  have "half_base upper_half (k_mach k1) d j = (if j = 1023 then self_entry d else
      if 512 \<le> unat j \<and> unat j < 1024 then dir_entry (k_mach k1) j else if 0 \<le> unat j \<and> unat j < 512 then 0 else w j)"
    if "j < 1024" for j
    using that by (auto simp: half_base_def upper_half_def word_le_nat_alt word_less_nat_alt)
  from filled_self [OF k3(2) assms this] k2(1) k3(1) show ?thesis by blast
qed

lemma kernel_filled:
  assumes "new_page k Map.empty v d k1"
  shows "\<exists>k2 k3 k4. rfold (copy_leaf v) [0..<512] k1 = Inr k2 \<and> rfold (store_leaf v 0) [512..<1023] k2 = Inr k3 \<and>
    kstore k3 (v + 4 * 1023) (self_entry d) = Inr k4 \<and> grows {} k k4 \<and> k_heap k4 = k_heap k1 \<and>
    m_frames (k_mach k4) = m_frames (k_mach k1) \<and>
    manuscript k4 [v \<mapsto> d] v d (half_base lower_half (k_mach k) d) Map.empty [] 0"
proof -
  from filled_copy [OF filled_start [OF assms], of 0 512] obtain k2 w where k2: "rfold (copy_leaf v) [0..<512] k1 = Inr k2"
    "filled k1 v d (\<lambda>j. if 0 \<le> unat j \<and> unat j < 512 then dir_entry (k_mach k1) j else w j) k2" by auto
  from filled_clear [OF k2(2), of 512 1023] obtain k3 where k3: "rfold (store_leaf v 0) [512..<1023] k2 = Inr k3"
    "filled k1 v d (\<lambda>j. if 512 \<le> unat j \<and> unat j < 1023 then 0
       else if 0 \<le> unat j \<and> unat j < 512 then dir_entry (k_mach k1) j else w j) k3" by auto
  have "half_base lower_half (k_mach k1) d j = (if j = 1023 then self_entry d else
      if 512 \<le> unat j \<and> unat j < 1023 then 0 else if 0 \<le> unat j \<and> unat j < 512 then dir_entry (k_mach k1) j else w j)"
    if "j < 1024" for j
    using that by (auto simp: half_base_def lower_half_def word_less_nat_alt word_unat_eq_iff)
  from filled_self [OF k3(2) assms this] k2(1) k3(1) show ?thesis by blast
qed

section \<open>The directories of new contexts\<close>

text \<open>The address space of a new context: the halves of its directory, its stacks and the scrolls of its caller.\<close>

definition user_scroll :: "addr \<Rightarrow> scroll" where
  "user_scroll p = \<lparr>scr_vaddr = ALIGN_PG_DOWN USER_STACK_BASE, scr_size = PAGE_SIZE, scr_type = SCROLL_ALIGNED, scr_page = p\<rparr>"

definition task_scrolls :: "bool \<Rightarrow> addr \<Rightarrow> addr \<Rightarrow> scroll list \<Rightarrow> scroll list" where
  "task_scrolls user us stack scrs = (if user then [user_scroll us] else []) @ stack_scroll stack # scrs"

definition space_of :: "(u32 \<Rightarrow> bool) \<Rightarrow> machine \<Rightarrow> scroll list \<Rightarrow> addr \<Rightarrow> addr option" where
  "space_of copied m scrs a =
     (if \<not> copied (PG_DIR_IDX a) \<or> (\<exists>s \<in> set scrs. PG_DIR_IDX (scr_vaddr s) = PG_DIR_IDX a)
      then scroll_lookup scrs a else translate m a)"

lemma task_scroll_indices:
  assumes "\<forall>s \<in> set scrs. PG_DIR_IDX (scr_vaddr s) < 1023"
  shows "\<forall>s \<in> set (task_scrolls user us stack scrs). PG_DIR_IDX (scr_vaddr s) < 1023"
  using assms by (auto simp: task_scrolls_def user_scroll_def stack_scroll_def ALIGN_PG_DOWN_def TASK_STACK_BASE_def
      USER_STACK_BASE_def PAGE_SIZE_def PG_DIR_IDX_def)

text \<open>A stack that the rest of the construction leaves alone.\<close>

definition stack_ready :: "kernel \<Rightarrow> addr \<Rightarrow> addr \<Rightarrow> addr \<Rightarrow> bool" where
  "stack_ready k d stack func_ptr \<longleftrightarrow> page_of stack = stack \<and> stack \<notin> free_frames k \<and> stack \<noteq> d \<and>
     walk_free (k_mach k) stack \<and> stack_words (k_mach k) stack func_ptr"

lemma stack_ready_grows:
  assumes "stack_ready k d stack f" and "grows {} k k'"
  shows "stack_ready k' d stack f"
proof -
  have K: "keeps (free_frames k) (heap_pages (k_heap k)) (k_mach k) (k_mach k')" using assms(2) by (simp add: grows_def)
  show ?thesis
    using assms(1) keeps_walk_free [OF K] stack_words_keeps [OF K, of stack f] grows_free [OF assms(2)]
    by (auto simp: stack_ready_def)
qed

lemma stack_result:
  assumes "manuscript k [v \<mapsto> d] v d base Map.empty [] 0"
    and "supplied kmalloc_aligned (Suc n) (k_heap k)" and "supplied kpage_alloc (Suc n) (m_frames (k_mach k))"
  shows "\<exists>stack k'. new_stack func_ptr k = Inr (stack_scroll stack, k') \<and>
    manuscript k' [v \<mapsto> d] v d base Map.empty [] 0 \<and> grows {} k k' \<and> stack_ready k' d stack func_ptr \<and> stack \<in> free_frames k \<and>
    supplied kmalloc_aligned n (k_heap k') \<and> supplied kpage_alloc n (m_frames (k_mach k'))"
proof -
  have "owns k [v \<mapsto> d]" using assms(1) by (simp only: manuscript_empty)
  from new_stack_result [OF this assms(2,3), of func_ptr] obtain stack k' where
    r: "new_stack func_ptr k = Inr (stack_scroll stack, k')" "owns k' [v \<mapsto> d]" "stack \<notin> ran [v \<mapsto> d]"
      "page_of stack = stack" "walk_free (k_mach k') stack" "frame_status (m_frames (k_mach k)) stack = Some False"
      "frame_status (m_frames (k_mach k')) stack = Some True" "stack_words (k_mach k') stack func_ptr" "grows {} k k'"
      "supplied kmalloc_aligned n (k_heap k')" "supplied kpage_alloc n (m_frames (k_mach k'))" by blast
  moreover have "stack_ready k' d stack func_ptr" using r(3-5,7,8) by (simp add: stack_ready_def)
  ultimately show ?thesis using manuscript_grows [OF assms(1) r(2,9)] by blast
qed

lemma user_stack_result:
  assumes "manuscript k P v d base Map.empty [] 0" and "supplied kpage_alloc (Suc n) (m_frames (k_mach k))"
  shows "\<exists>us k'. (if user
            then rbind (kpage_alloc (m_frames (k_mach k))) (\<lambda>(page, f).
                 Inr ([\<lparr>scr_vaddr = ALIGN_PG_DOWN USER_STACK_BASE, scr_size = PAGE_SIZE, scr_type = SCROLL_ALIGNED, scr_page = page\<rparr>],
                   k\<lparr>k_mach := (k_mach k)\<lparr>m_frames := f\<rparr>\<rparr>))
            else Inr ([], k)) = Inr (if user then [user_scroll us] else [], k') \<and>
    (user \<longrightarrow> us \<in> free_frames k) \<and> manuscript k' P v d base Map.empty [] 0 \<and> grows {} k k' \<and> k_heap k' = k_heap k \<and>
    supplied kpage_alloc n (m_frames (k_mach k'))"
proof (cases user)
  case True
  from assms(2) obtain p f where p: "kpage_alloc (m_frames (k_mach k)) = Inr (p, f)" "supplied kpage_alloc n f"
    by (rule supplied_SucE)
  define k' where "k' = k\<lparr>k_mach := (k_mach k)\<lparr>m_frames := f\<rparr>\<rparr>"
  have "owns k P" using assms(1) by (simp add: manuscript_empty)
  note o = owned_frame [OF this p(1) k'_def]
  from manuscript_grows [OF assms(1) o(1,9)] o(3,9) p True show ?thesis
    by (intro exI [of _ p] exI [of _ k']) (simp add: user_scroll_def k'_def)
next
  case False
  with assms(1) supplied_le [OF assms(2), of n] show ?thesis by auto
qed

text \<open>
  A directory \<open>d\<close> that was built in state \<open>k\<close>, with result \<open>k'\<close>: with \<open>d\<close> in \<^verbatim>\<open>cr3\<close> the page tables are well-formed and
  translate to the address space; the construction wrote only frames that were free and page tables of the current address
  space, of which only pages of the heap and the virtual page with the number of the directory's frame have changed.
\<close>

definition space_built :: "(u32 \<Rightarrow> bool) \<Rightarrow> kernel \<Rightarrow> scroll list \<Rightarrow> addr \<Rightarrow> kernel \<Rightarrow> bool" where
  "space_built copied k scrs d k' \<longleftrightarrow> d \<in> free_frames k \<and>
     tables_ok ((k_mach k')\<lparr>cr3 := d\<rparr>) \<and>
     (\<forall>a. PG_DIR_IDX a \<noteq> 1023 \<longrightarrow> translate ((k_mach k')\<lparr>cr3 := d\<rparr>) a = space_of copied (k_mach k') scrs a) \<and>
     (\<forall>a. walk_free (k_mach k) a \<and> page_of a \<notin> free_frames k \<longrightarrow> pmem (k_mach k') a = pmem (k_mach k) a) \<and>
     (\<forall>a. page_of a \<notin> insert d (heap_pages (k_heap k)) \<longrightarrow> translate (k_mach k') a = translate (k_mach k) a)"

lemma half_base_unbound:
  assumes "\<forall>i < 1023. copied i \<longrightarrow> \<not> bit (dir_entry m i) 10"
  shows "\<forall>i < 1024. \<not> bit (half_base copied m d i) 10"
proof (intro allI impI)
  fix i :: u32 assume "i < 1024"
  then have "i \<noteq> 1023 \<Longrightarrow> i < 1023" by (simp add: word_less_nat_alt word_unat_eq_iff)
  then show "\<not> bit (half_base copied m d i) 10" using assms by (auto simp: half_base_def self_entry_def)
qed

lemma space_result:
  assumes "manuscript k1 [v \<mapsto> d] v d (half_base copied (k_mach k) d) Map.empty [] 0" and "grows {} k k1"
    and "d \<in> free_frames k" and "PG_DIR_IDX d < 1023" and "stack_ready k1 d stack func_ptr"
    and "\<forall>i < 1023. copied i \<longrightarrow> \<not> bit (dir_entry (k_mach k) i) 10" and "\<forall>s \<in> set xs. PG_DIR_IDX (scr_vaddr s) < 1023"
    and "supplied kmalloc_aligned n (k_heap k1)" and "supplied kpage_alloc n (m_frames (k_mach k1))" and "length xs \<le> n"
  shows "\<exists>k'. finish_directory \<lparr>scr_vaddr = v, scr_size = PAGE_SIZE, scr_type = SCROLL_ALIGNED, scr_page = d\<rparr> xs k1 = Inr (d, k') \<and>
    space_built copied k xs d k' \<and> stack_words (k_mach k') stack func_ptr"
proof -
  from finish_result [OF assms(1) half_base_unbound [OF assms(6)] assms(7,4) supplied_le [OF assms(8,10)]
      supplied_le [OF assms(9,10)], of PAGE_SIZE] obtain k' tab where
    R: "finish_directory \<lparr>scr_vaddr = v, scr_size = PAGE_SIZE, scr_type = SCROLL_ALIGNED, scr_page = d\<rparr> xs k1 = Inr (d, k')"
      "directory_ok k' d (half_base copied (k_mach k) d) tab xs" "dom tab = (\<lambda>s. PG_DIR_IDX (scr_vaddr s)) ` set xs"
      "keeps (insert d (free_frames k1)) (insert d (heap_pages (k_heap k1))) (k_mach k1) (k_mach k')" by blast
  have K1: "keeps (free_frames k) (heap_pages (k_heap k)) (k_mach k) (k_mach k1)" "heap_pages (k_heap k1) = heap_pages (k_heap k)"
    using assms(2) by (simp_all add: grows_def)
  have K: "keeps (free_frames k) (insert d (heap_pages (k_heap k))) (k_mach k) (k_mach k')"
    by (rule keeps_trans [OF K1(1) R(4)]) (use assms(3) grows_free [OF assms(2)] K1(2) in auto)
  have dk: "directory_ok k' d (half_base copied (k_mach k') d) tab xs"
    by (rule directory_cong [OF _ R(2)]) (use K in \<open>simp add: half_base_def keeps_def\<close>)
  have "translate ((k_mach k')\<lparr>cr3 := d\<rparr>) a = space_of copied (k_mach k') xs a" if "PG_DIR_IDX a \<noteq> 1023" for a
    using directory_translate [OF dk refl that] R(3) by (auto simp: space_of_def image_iff)
  moreover have "stack_words (k_mach k') stack func_ptr"
    using stack_words_keeps [OF R(4), of stack func_ptr] assms(5) by (simp add: stack_ready_def)
  ultimately show ?thesis using R(1) directory_tables_ok [OF dk refl] assms(3) K by (auto simp: space_built_def keeps_def)
qed

text \<open>The small machine with a heap of 32 pages at 64 KiB.\<close>

definition small_kernel :: kernel where
  "small_kernel = \<lparr>k_mach = small_machine, k_heap = small_heap 0\<lparr>hp_aligned_start := 0x10000\<rparr>\<rparr>"

lemma small_frames:
  assumes "frame_status (m_frames small_machine) p = Some False"
  shows "page_of p = p \<and> p \<noteq> 0 \<and> PG_DIR_IDX p < 1023 \<and> walk_free small_machine p"
proof -
  define q where "q = p - 0x100000"
  from assms have q: "unat q < 32768 \<and> unat q mod 4096 = 0"
    by (simp add: small_machine_def frame_status_def one_region_def region_status_def q_def Let_def split: if_splits)
  have "p = 0x100000 + q" by (simp add: q_def)
  then have "unat p = 4096 * 256 + unat q" using q by (simp add: unat_add_u32)
  moreover have "(4096 * 256 + unat q) mod 4096 = 0" using q by (simp only: mod_mult_self4)
  ultimately have b: "unat p \<ge> 0x100000" "unat p < 0x108000" "unat p mod 4096 = 0" using q by simp_all
  have "page_of p = p" using b(3) by (simp only: word_unat_eq_iff unat_page)
  moreover have "unat p \<noteq> 0" using b(1) by simp
  then have "p \<noteq> 0" by auto
  moreover have "unat (PG_DIR_IDX p) = 0" using b(2) by simp
  then have "PG_DIR_IDX p < 1023" by (simp add: word_less_nat_alt)
  moreover have "p \<noteq> 0x1000" "p \<noteq> 0x2000" using b(1) by auto
  ultimately show ?thesis by (auto simp: walk_free_def small_dir small_cr3)
qed

lemma small_heap_mapped: "heap_mapped small_machine (small_heap 0\<lparr>hp_aligned_start := 0x10000\<rparr>)"
proof -
  have "mappable small_machine (0x10000 + n * PAGE_SIZE)" if "unat n < 32" for n
  proof -
    have "unat (n * PAGE_SIZE) = 4096 * unat n" using that by (simp add: unat_word_ariths)
    then have "unat (0x10000 + n * PAGE_SIZE) = 65536 + 4096 * unat n" using that by (simp add: unat_add_u32)
    then have "unat (PG_DIR_IDX (0x10000 + n * PAGE_SIZE)) = 0" using that unfolding unat_DIR by simp
    then have "PG_DIR_IDX (0x10000 + n * PAGE_SIZE) = 0" by (simp only: unat_eq_zero)
    then show ?thesis using small_dir [of 0] by (simp add: mappable_def)
  qed
  then show ?thesis by (simp add: heap_mapped_def page_cnt_def small_heap_def)
qed

lemma small_space: "space_ok small_kernel"
  using small_frames small_heap_mapped small_ok
  by (auto simp: space_ok_def small_kernel_def frames_apart_def heap_fits_def wf_pages_def page_cnt_def)
    (simp_all add: small_heap_def small_machine_def ADDR_MASK_def)

lemma small_unbound: "\<forall>i < 1023. \<not> bit (dir_entry (k_mach small_kernel) i) 10"
proof (intro allI impI)
  fix i :: u32 assume "i < 1023"
  then have "i < 1024" "i \<noteq> 1023" by (auto simp: word_less_nat_alt)
  then show "\<not> bit (dir_entry (k_mach small_kernel) i) 10" by (simp add: small_kernel_def small_dir bit_numeral_rec)
qed

lemma small_supplied:
  "supplied kmalloc_aligned 6 (k_heap small_kernel)" "supplied kpage_alloc 6 (m_frames (k_mach small_kernel))"
proof -
  show "supplied kmalloc_aligned 6 (k_heap small_kernel)" by code_simp
  have "supplied kpage_alloc 6 (one_region 0)" by code_simp
  then show "supplied kpage_alloc 6 (m_frames (k_mach small_kernel))" by (simp add: small_kernel_def small_machine_def)
qed

lemma task_directory_built:
  assumes "space_ok k" and "\<forall>i < 1023. upper_half i \<longrightarrow> \<not> bit (dir_entry (k_mach k) i) 10"
    and "\<forall>s \<in> set scrs. PG_DIR_IDX (scr_vaddr s) < 1023"
    and "supplied kmalloc_aligned (5 + length scrs) (k_heap k)"
    and "supplied kpage_alloc (5 + length scrs) (m_frames (k_mach k))"
  shows "\<exists>d stack us k'. create_task_directory func_ptr user scrs k = Inr (d, k') \<and>
    space_built upper_half k (task_scrolls user us stack scrs) d k' \<and> stack_words (k_mach k') stack func_ptr \<and>
    stack \<in> free_frames k - {d} \<and> (user \<longrightarrow> us \<in> free_frames k - {d, stack})"
proof -
  let ?c = "length scrs"
  have n: "5 + ?c = Suc (4 + ?c)" "4 + ?c = Suc (3 + ?c)" "3 + ?c = Suc (2 + ?c)" by simp_all
  have "owns k Map.empty" using assms(1) by (simp add: owns_def)
  from owned_new [OF this assms(4,5) [unfolded n(1)]] obtain v d k1 where k1:
    "kmalloc_page k = Inr (\<lparr>scr_vaddr = v, scr_size = PAGE_SIZE, scr_type = SCROLL_ALIGNED, scr_page = d\<rparr>, k1)"
    "new_page k Map.empty v d k1" "supplied kmalloc_aligned (4 + ?c) (k_heap k1)"
    "supplied kpage_alloc (4 + ?c) (m_frames (k_mach k1))" by blast
  from task_filled [OF k1(2)] obtain k2 k3 k4 where k4: "rfold (store_leaf v 0) [0..<512] k1 = Inr k2"
    "rfold (copy_leaf v) [512..<1024] k2 = Inr k3" "kstore k3 (v + 4 * 1023) (self_entry d) = Inr k4" "grows {} k k4"
    "k_heap k4 = k_heap k1" "m_frames (k_mach k4) = m_frames (k_mach k1)"
    "manuscript k4 [v \<mapsto> d] v d (half_base upper_half (k_mach k) d) Map.empty [] 0" by blast
  from stack_result [OF k4(7) k1(3,4) [unfolded n(2), folded k4(5,6)], of func_ptr] obtain stack k5 where
    k5: "new_stack func_ptr k4 = Inr (stack_scroll stack, k5)" "manuscript k5 [v \<mapsto> d] v d (half_base upper_half (k_mach k) d) Map.empty [] 0"
      "grows {} k4 k5" "stack_ready k5 d stack func_ptr" "stack \<in> free_frames k4"
      "supplied kmalloc_aligned (3 + ?c) (k_heap k5)" "supplied kpage_alloc (3 + ?c) (m_frames (k_mach k5))" by blast
  from user_stack_result [OF k5(2,7) [unfolded n(3)], of user] obtain us k6 where
    k6: "(if user
            then rbind (kpage_alloc (m_frames (k_mach k5))) (\<lambda>(page, f).
                 Inr ([\<lparr>scr_vaddr = ALIGN_PG_DOWN USER_STACK_BASE, scr_size = PAGE_SIZE, scr_type = SCROLL_ALIGNED, scr_page = page\<rparr>],
                   k5\<lparr>k_mach := (k_mach k5)\<lparr>m_frames := f\<rparr>\<rparr>))
            else Inr ([], k5)) = Inr (if user then [user_scroll us] else [], k6)"
      "user \<longrightarrow> us \<in> free_frames k5" "manuscript k6 [v \<mapsto> d] v d (half_base upper_half (k_mach k) d) Map.empty [] 0" "grows {} k5 k6"
      "k_heap k6 = k_heap k5" "supplied kpage_alloc (2 + ?c) (m_frames (k_mach k6))" by blast
  have g5: "grows {} k k5" by (rule grows_trans [OF k4(4) k5(3)]) simp
  have g6: "grows {} k k6" by (rule grows_trans [OF g5 k6(4)]) simp
  have d: "d \<in> free_frames k" "PG_DIR_IDX d < 1023" using k1(2) by (simp_all add: new_page_def)
  have s6: "supplied kmalloc_aligned (2 + ?c) (k_heap k6)" unfolding k6(5) by (rule supplied_le [OF k5(6)]) simp
  have len: "length (task_scrolls user us stack scrs) \<le> 2 + ?c" by (simp add: task_scrolls_def)
  from space_result [OF k6(3) g6 d stack_ready_grows [OF k5(4) k6(4)] assms(2) task_scroll_indices [OF assms(3)] s6 k6(6) len]
  obtain k' where k': "finish_directory \<lparr>scr_vaddr = v, scr_size = PAGE_SIZE, scr_type = SCROLL_ALIGNED, scr_page = d\<rparr>
      (task_scrolls user us stack scrs) k6 = Inr (d, k')" "space_built upper_half k (task_scrolls user us stack scrs) d k'"
    "stack_words (k_mach k') stack func_ptr" by blast
  have "create_task_directory func_ptr user scrs k = Inr (d, k')"
    using k1(1) k4(1-3) k5(1) k6(1) k'(1) by (simp add: create_task_directory_def self_entry_def task_scrolls_def Let_def)
  moreover have "stack \<in> free_frames k - {d}" using grows_free [OF k4(4)] k5(4,5) by (auto simp: stack_ready_def)
  moreover have "d \<notin> free_frames k5" using ownsD(5) [of k5 "[v \<mapsto> d]" v d] k5(2) by (simp add: manuscript_empty)
  then have "user \<longrightarrow> us \<in> free_frames k - {d, stack}" using k6(2) k5(4) grows_free [OF g5] by (auto simp: stack_ready_def)
  ultimately show ?thesis using k'(2,3) by blast
qed

text \<open>
  C3: \<^verbatim>\<open>create_task_directory\<close> returns the directory of a well-formed address space, if the heap and the frame allocator can
  supply the pages it takes. With the new directory in \<^verbatim>\<open>cr3\<close> the lower half, and each 4 MiB of the upper half that a
  scroll lies in, translate exactly to the pages of the stacks and of the caller's scrolls (the last one for a page counts);
  the rest of the upper half is the kernel's. The stack page holds the entry point and the registers the first switch pops.
  Nothing but frames that were free is written, besides the page tables of the current address space, in which only pages of
  the heap and the virtual page with the number of the directory's frame have changed. The entries of the upper half must not
  have bit 10 set, which marks the entries of a manuscript, and no scroll may lie in the window of the recursive entry.
\<close>
theorem create_task_directory_correct:
  assumes "space_ok k" and "\<forall>i < 1023. upper_half i \<longrightarrow> \<not> bit (dir_entry (k_mach k) i) 10"
    and "\<forall>s \<in> set scrs. PG_DIR_IDX (scr_vaddr s) < 1023"
    and "supplied kmalloc_aligned (5 + length scrs) (k_heap k)"
    and "supplied kpage_alloc (5 + length scrs) (m_frames (k_mach k))"
  shows "\<exists>d stack us k'. create_task_directory func_ptr user scrs k = Inr (d, k') \<and>
    space_built upper_half k (task_scrolls user us stack scrs) d k' \<and> stack_words (k_mach k') stack func_ptr \<and>
    stack \<in> free_frames k - {d} \<and> (user \<longrightarrow> us \<in> free_frames k - {d, stack})"
  using assms by (rule task_directory_built)

theorem create_task_directory_correct_witness:
  "\<exists>d k' us. create_task_directory 0xC0100000 True
       [\<lparr>scr_vaddr = 0x400000, scr_size = 0x1000, scr_type = SCROLL_ALIGNED, scr_page = 0x9000\<rparr>] small_kernel = Inr (d, k') \<and>
     translate ((k_mach k')\<lparr>cr3 := d\<rparr>) 0x400123 = Some 0x9123 \<and>
     translate ((k_mach k')\<lparr>cr3 := d\<rparr>) 0x401000 = None \<and>
     translate ((k_mach k')\<lparr>cr3 := d\<rparr>) 0x1FF004 = Some (page_of us + 4)"
proof -
  let ?s = "\<lparr>scr_vaddr = 0x400000, scr_size = 0x1000, scr_type = SCROLL_ALIGNED, scr_page = 0x9000\<rparr> :: scroll"
  have "\<forall>i < 1023. upper_half i \<longrightarrow> \<not> bit (dir_entry (k_mach small_kernel) i) 10" using small_unbound by blast
  moreover have "\<forall>s \<in> set [?s]. PG_DIR_IDX (scr_vaddr s) < 1023" by (simp add: PG_DIR_IDX_def)
  moreover have "supplied kmalloc_aligned (5 + length [?s]) (k_heap small_kernel)"
    "supplied kpage_alloc (5 + length [?s]) (m_frames (k_mach small_kernel))" using small_supplied by simp_all
  ultimately obtain d stack us k' where r: "create_task_directory 0xC0100000 True [?s] small_kernel = Inr (d, k')"
    "space_built upper_half small_kernel (task_scrolls True us stack [?s]) d k'"
    using create_task_directory_correct [OF small_space, of "[?s]" "0xC0100000" True] by blast
  let ?n = "(k_mach k')\<lparr>cr3 := d\<rparr>"
  have t: "\<forall>a. PG_DIR_IDX a \<noteq> 1023 \<longrightarrow> translate ?n a = space_of upper_half (k_mach k') (task_scrolls True us stack [?s]) a"
    using r(2) unfolding space_built_def by blast
  have i: "PG_DIR_IDX 0x400123 = 1" "PG_DIR_IDX 0x401000 = 1" "PG_DIR_IDX 0x1FF004 = 0" by (simp_all add: PG_DIR_IDX_def)
  have v: "ALIGN_PG_DOWN TASK_STACK_BASE = 0xFF8FF000" "ALIGN_PG_DOWN USER_STACK_BASE = 0x1FF000"
    by (simp_all add: ALIGN_PG_DOWN_def TASK_STACK_BASE_def USER_STACK_BASE_def PAGE_SIZE_def)
  have "scroll_lookup (task_scrolls True us stack [?s]) 0x400123 = Some 0x9123"
    "scroll_lookup (task_scrolls True us stack [?s]) 0x401000 = None"
    "scroll_lookup (task_scrolls True us stack [?s]) 0x1FF004 = Some (page_of us + 4)"
    by (simp_all add: scroll_lookup_def task_scrolls_def user_scroll_def stack_scroll_def v ADDR_MASK_def)
  moreover have "\<not> upper_half 1" "\<not> upper_half 0" by (simp_all add: upper_half_def word_le_nat_alt)
  ultimately have "translate ?n 0x400123 = Some 0x9123" "translate ?n 0x401000 = None" "translate ?n 0x1FF004 = Some (page_of us + 4)"
    using t i by (simp_all add: space_of_def)
  with r(1) show ?thesis by blast
qed

text \<open>
  \<^verbatim>\<open>create_kernel_directory\<close> likewise builds an address space with a copy of the lower half of the current one and an
  upper half that holds its stack and the caller's scrolls only.
\<close>
theorem create_kernel_directory_correct:
  assumes "space_ok k" and "\<forall>i < 1023. lower_half i \<longrightarrow> \<not> bit (dir_entry (k_mach k) i) 10"
    and "\<forall>s \<in> set scrs. PG_DIR_IDX (scr_vaddr s) < 1023"
    and "supplied kmalloc_aligned (4 + length scrs) (k_heap k)"
    and "supplied kpage_alloc (4 + length scrs) (m_frames (k_mach k))"
  shows "\<exists>d stack k'. create_kernel_directory func_ptr scrs k = Inr (d, k') \<and>
    space_built lower_half k (task_scrolls False 0 stack scrs) d k' \<and> stack_words (k_mach k') stack func_ptr \<and>
    stack \<in> free_frames k - {d}"
proof -
  let ?c = "length scrs"
  have n: "4 + ?c = Suc (3 + ?c)" "3 + ?c = Suc (2 + ?c)" by simp_all
  have "owns k Map.empty" using assms(1) by (simp add: owns_def)
  from owned_new [OF this assms(4,5) [unfolded n(1)]] obtain v d k1 where k1:
    "kmalloc_page k = Inr (\<lparr>scr_vaddr = v, scr_size = PAGE_SIZE, scr_type = SCROLL_ALIGNED, scr_page = d\<rparr>, k1)"
    "new_page k Map.empty v d k1" "supplied kmalloc_aligned (3 + ?c) (k_heap k1)"
    "supplied kpage_alloc (3 + ?c) (m_frames (k_mach k1))" by blast
  from kernel_filled [OF k1(2)] obtain k2 k3 k4 where k4: "rfold (copy_leaf v) [0..<512] k1 = Inr k2"
    "rfold (store_leaf v 0) [512..<1023] k2 = Inr k3" "kstore k3 (v + 4 * 1023) (self_entry d) = Inr k4" "grows {} k k4"
    "k_heap k4 = k_heap k1" "m_frames (k_mach k4) = m_frames (k_mach k1)"
    "manuscript k4 [v \<mapsto> d] v d (half_base lower_half (k_mach k) d) Map.empty [] 0" by blast
  from stack_result [OF k4(7) k1(3,4) [unfolded n(2), folded k4(5,6)], of func_ptr] obtain stack k5 where
    k5: "new_stack func_ptr k4 = Inr (stack_scroll stack, k5)" "manuscript k5 [v \<mapsto> d] v d (half_base lower_half (k_mach k) d) Map.empty [] 0"
      "grows {} k4 k5" "stack_ready k5 d stack func_ptr" "stack \<in> free_frames k4"
      "supplied kmalloc_aligned (2 + ?c) (k_heap k5)" "supplied kpage_alloc (2 + ?c) (m_frames (k_mach k5))" by blast
  have g5: "grows {} k k5" by (rule grows_trans [OF k4(4) k5(3)]) simp
  have d: "d \<in> free_frames k" "PG_DIR_IDX d < 1023" using k1(2) by (simp_all add: new_page_def)
  have len: "length (task_scrolls False 0 stack scrs) \<le> 2 + ?c" by (simp add: task_scrolls_def)
  from space_result [OF k5(2) g5 d k5(4) assms(2) task_scroll_indices [OF assms(3)] k5(6,7) len]
  obtain k' where k': "finish_directory \<lparr>scr_vaddr = v, scr_size = PAGE_SIZE, scr_type = SCROLL_ALIGNED, scr_page = d\<rparr>
      (task_scrolls False 0 stack scrs) k5 = Inr (d, k')" "space_built lower_half k (task_scrolls False 0 stack scrs) d k'"
    "stack_words (k_mach k') stack func_ptr" by blast
  have "create_kernel_directory func_ptr scrs k = Inr (d, k')"
    using k1(1) k4(1-3) k5(1) k'(1) by (simp add: create_kernel_directory_def self_entry_def task_scrolls_def Let_def)
  moreover have "stack \<in> free_frames k - {d}" using grows_free [OF k4(4)] k5(4,5) by (auto simp: stack_ready_def)
  ultimately show ?thesis using k'(2,3) by blast
qed

theorem create_kernel_directory_correct_witness:
  "\<exists>d k'. create_kernel_directory 0xC0100000 [] small_kernel = Inr (d, k') \<and>
     tables_ok ((k_mach k')\<lparr>cr3 := d\<rparr>) \<and> translate ((k_mach k')\<lparr>cr3 := d\<rparr>) 0xC0000000 = None"
proof -
  have "\<forall>i < 1023. lower_half i \<longrightarrow> \<not> bit (dir_entry (k_mach small_kernel) i) 10" using small_unbound by blast
  moreover have "\<forall>s \<in> set ([] :: scroll list). PG_DIR_IDX (scr_vaddr s) < 1023" by simp
  moreover have "supplied kmalloc_aligned (4 + length ([] :: scroll list)) (k_heap small_kernel)"
    "supplied kpage_alloc (4 + length ([] :: scroll list)) (m_frames (k_mach small_kernel))"
    by (rule supplied_le [OF small_supplied(1)], simp, rule supplied_le [OF small_supplied(2)], simp)
  ultimately obtain d stack k' where r: "create_kernel_directory 0xC0100000 [] small_kernel = Inr (d, k')"
    "space_built lower_half small_kernel (task_scrolls False 0 stack []) d k'"
    using create_kernel_directory_correct [OF small_space, of "[]" "0xC0100000"] by blast
  let ?n = "(k_mach k')\<lparr>cr3 := d\<rparr>"
  have i: "PG_DIR_IDX 0xC0000000 = 768" by (simp add: PG_DIR_IDX_def)
  have v: "ALIGN_PG_DOWN TASK_STACK_BASE = 0xFF8FF000" by (simp add: ALIGN_PG_DOWN_def TASK_STACK_BASE_def PAGE_SIZE_def)
  have "translate ?n 0xC0000000 = space_of lower_half (k_mach k') (task_scrolls False 0 stack []) 0xC0000000"
    using r(2) i by (simp add: space_built_def)
  moreover have "scroll_lookup (task_scrolls False 0 stack []) 0xC0000000 = None"
    by (simp add: scroll_lookup_def task_scrolls_def stack_scroll_def v ADDR_MASK_def)
  ultimately have "translate ?n 0xC0000000 = None" by (simp add: space_of_def lower_half_def i)
  moreover have "tables_ok ?n" using r(2) by (simp add: space_built_def)
  ultimately show ?thesis using r(1) by blast
qed

end
