(* ===== verification/Program_Image.thy ===== *)
theory Program_Image
  imports Elf Task_Space
begin

unbundle bit_operations_syntax

text \<open>
  What a program finds in its memory: the pages \<^verbatim>\<open>load_elf_data\<close> of \<^verbatim>\<open>src/common/elf.c\<close> fills, seen through the directory that
  \<^verbatim>\<open>create_task_directory\<close> makes of the executable's scrolls. The kernel's page through which the frames are filled is an
  owned page that is mapped to one frame after the other.
\<close>

section \<open>Bytes of an owned page\<close>

lemma page_byte:
  assumes "page_of v = v" and "x < 4096"
  shows "page_of (v + of_nat x) = v" and "offset_of (v + of_nat x) = of_nat x" and "unat (v + of_nat x) = unat v + x"
proof -
  have m: "unat v = 4096 * (unat v div 4096)" using arg_cong [OF assms(1), of unat] by (simp add: minus_mod_eq_mult_div)
  have q: "unat v div 4096 < 1048576" by (simp add: less_mult_imp_div_less)
  have "unat v + x < 4294967296" using m q assms(2) by linarith
  then show u: "unat (v + of_nat x) = unat v + x" using assms(2) by (simp add: unat_add_u32 unat_of_nat_u32)
  have "unat (v + of_nat x) div 4096 = unat v div 4096" using u m assms(2) by (metis page_nat_parts(1))
  then show "page_of (v + of_nat x) = v" using assms(1) by (metis page_eq_iff)
  have "unat (v + of_nat x) mod 4096 = x" using u m assms(2) by (metis page_nat_parts(2))
  then show "offset_of (v + of_nat x) = of_nat x" using assms(2) by (simp add: word_unat_eq_iff unat_of_nat_u32)
qed

lemma page_byte_inj:
  assumes "page_of v = v" and "x < 4096" and "y < 4096"
  shows "v + of_nat x = v + of_nat y \<longleftrightarrow> x = y"
  using page_byte(3) [OF assms(1,2)] page_byte(3) [OF assms(1,3)] by (auto simp: word_unat_eq_iff)

definition page_bytes_of :: "machine \<Rightarrow> addr \<Rightarrow> nat \<Rightarrow> u8" where
  "page_bytes_of m p x = pmem m (p + of_nat x)"

lemma keeps_page_byte:
  assumes "keeps W X m m'" and "walk_free m p" and "page_of p = p" and "p \<notin> W" and "x < 4096"
  shows "page_bytes_of m' p x = page_bytes_of m p x"
proof -
  note b = page_byte(1) [OF assms(3,5)]
  have "walk_free m (p + of_nat x)" using assms(2,3) b by (simp add: walk_free_def)
  then show ?thesis using assms(1,4) b by (simp add: keeps_def page_bytes_of_def)
qed

lemma owned_byte:
  assumes "owns k P" and "P v = Some p" and "x < 4096"
  shows "\<exists>m. vstore8 (k_mach k) (v + of_nat x) b = Inr m \<and> keeps {p} {} (k_mach k) m \<and> owns (k\<lparr>k_mach := m\<rparr>) P \<and>
    m_frames m = m_frames (k_mach k) \<and>
    (\<forall>y < 4096. page_bytes_of m p y = (if y = x then b else page_bytes_of (k_mach k) p y))"
proof -
  note p = ownsD [OF assms(1,2)] and a = page_byte [OF ownsD(2) [OF assms(1,2)] assms(3)]
  let ?m = "(k_mach k)\<lparr>pmem := (pmem (k_mach k))(p + of_nat x := b)\<rparr>"
  have st: "vstore8 (k_mach k) (v + of_nat x) b = Inr ?m" using p(6) [OF a(1)] by (simp add: vstore8_def a(2))
  have "same_outside p (k_mach k) ?m" using page_byte(1) [OF p(3) assms(3)] p(3) by (auto simp: same_outside_def)
  then have K: "keeps {p} {} (k_mach k) ?m" using p(3,4) by (intro keeps_outside)
  have "owns (k\<lparr>k_mach := ?m\<rparr>) P" by (rule owns_keeps [OF assms(1) K]) simp_all
  moreover have "page_bytes_of ?m p y = (if y = x then b else page_bytes_of (k_mach k) p y)" if "y < 4096" for y
    using page_byte_inj [OF p(3) that assms(3)] by (simp add: page_bytes_of_def)
  ultimately show ?thesis using st K by (intro exI [of _ ?m]) simp
qed

section \<open>The two loops over a page\<close>

lemma copy_loop_step:
  "fo - ph_offset h < ph_filesz h \<Longrightarrow> d < PAGE_SIZE \<Longrightarrow> unat fo < length bs \<Longrightarrow>
    copy_loop h bs data fo d m = rbind (vstore8 m (data + d) (bs ! unat fo)) (copy_loop h bs data (fo + 1) (d + 1))"
  by (subst copy_loop.simps) simp

lemma copy_loop_done: "\<not> (fo - ph_offset h < ph_filesz h \<and> d < PAGE_SIZE) \<Longrightarrow> copy_loop h bs data fo d m = Inr (fo, d, m)"
  by (subst copy_loop.simps) auto

text \<open>The part of the file a segment is loaded from lies in the file.\<close>

definition in_file :: "elf_program_header \<Rightarrow> u8 list \<Rightarrow> bool" where
  "in_file h bs \<longleftrightarrow> unat (ph_offset h) + unat (ph_filesz h) \<le> length bs \<and> length bs < 2 ^ 32"

lemma file_position:
  assumes "in_file h bs" and "c \<le> unat (ph_filesz h)"
  shows "unat (ph_offset h + of_nat c) = unat (ph_offset h) + c" and "unat (ph_offset h + of_nat c - ph_offset h) = c"
proof -
  have "c < 4294967296" using assms(2) unat_u32_lt [of "ph_filesz h"] by linarith
  then have c: "unat (of_nat c :: u32) = c" by (simp add: unat_of_nat_u32)
  then show "unat (ph_offset h + of_nat c) = unat (ph_offset h) + c"
    using assms by (simp add: in_file_def unat_add_u32)
  show "unat (ph_offset h + of_nat c - ph_offset h) = c" using c by simp
qed

lemma copy_loop_result:
  assumes "in_file h bs" and "P v = Some p" and "owns k P" and "c \<le> unat (ph_filesz h)" and "d \<le> 4096"
    and "n = min (unat (ph_filesz h) - c) (4096 - d)"
  shows "\<exists>m. copy_loop h bs v (ph_offset h + of_nat c) (of_nat d) (k_mach k) =
      Inr (ph_offset h + of_nat (c + n), of_nat (d + n), m) \<and> keeps {p} {} (k_mach k) m \<and> owns (k\<lparr>k_mach := m\<rparr>) P \<and>
    m_frames m = m_frames (k_mach k) \<and>
    (\<forall>x < 4096. page_bytes_of m p x =
      (if d \<le> x \<and> x < d + n then bs ! (unat (ph_offset h) + (c + (x - d))) else page_bytes_of (k_mach k) p x))"
  using assms(3-)
proof (induction n arbitrary: k c d)
  case 0
  then have "\<not> (c < unat (ph_filesz h) \<and> d < 4096)" by auto
  then have "\<not> (ph_offset h + of_nat c - ph_offset h < ph_filesz h \<and> (of_nat d :: u32) < PAGE_SIZE)"
    using file_position(2) [OF assms(1) 0(2)] 0(3) by (auto simp: word_less_nat_alt unat_of_nat_u32)
  then show ?case using 0(1) by (intro exI [of _ "k_mach k"]) (auto simp: copy_loop_done)
next
  case (Suc n)
  then have c: "c < unat (ph_filesz h)" "d < 4096" and n: "n = min (unat (ph_filesz h) - Suc c) (4096 - Suc d)" by auto
  note f = file_position [OF assms(1) Suc.prems(2)]
  have ud: "unat (of_nat d :: u32) = d" using c(2) by (simp add: unat_of_nat_u32)
  from owned_byte [OF Suc.prems(1) assms(2) c(2), of "bs ! (unat (ph_offset h) + c)"] obtain m where
    m: "vstore8 (k_mach k) (v + of_nat d) (bs ! (unat (ph_offset h) + c)) = Inr m" "keeps {p} {} (k_mach k) m"
      "owns (k\<lparr>k_mach := m\<rparr>) P" "m_frames m = m_frames (k_mach k)"
      "\<forall>y < 4096. page_bytes_of m p y = (if y = d then bs ! (unat (ph_offset h) + c) else page_bytes_of (k_mach k) p y)" by blast
  from Suc.IH [OF m(3) _ _ n] c obtain m' where
    m': "copy_loop h bs v (ph_offset h + of_nat (Suc c)) (of_nat (Suc d)) m =
        Inr (ph_offset h + of_nat (Suc c + n), of_nat (Suc d + n), m')" "keeps {p} {} m m'" "owns (k\<lparr>k_mach := m'\<rparr>) P"
      "m_frames m' = m_frames m" "\<forall>x < 4096. page_bytes_of m' p x =
      (if Suc d \<le> x \<and> x < Suc d + n then bs ! (unat (ph_offset h) + (Suc c + (x - Suc d))) else page_bytes_of m p x)" by auto
  have "unat (ph_offset h + of_nat c) < length bs" using f(1) c(1) assms(1) by (simp add: in_file_def)
  then have "copy_loop h bs v (ph_offset h + of_nat c) (of_nat d) (k_mach k) =
      rbind (vstore8 (k_mach k) (v + of_nat d) (bs ! (unat (ph_offset h) + c)))
        (copy_loop h bs v (ph_offset h + of_nat c + 1) (of_nat d + 1))"
    using copy_loop_step [of "ph_offset h + of_nat c" h "of_nat d" bs v "k_mach k"] f c ud by (simp add: word_less_nat_alt)
  moreover have "ph_offset h + of_nat c + 1 = ph_offset h + of_nat (Suc c)" "(of_nat d + 1 :: u32) = of_nat (Suc d)"
    by simp_all
  ultimately have "copy_loop h bs v (ph_offset h + of_nat c) (of_nat d) (k_mach k) =
      Inr (ph_offset h + of_nat (c + Suc n), of_nat (d + Suc n), m')" using m(1) m'(1) by simp
  moreover have "keeps {p} {} (k_mach k) m'" by (rule keeps_trans [OF m(2) m'(2)]) simp_all
  moreover have "page_bytes_of m' p x = (if d \<le> x \<and> x < d + Suc n then bs ! (unat (ph_offset h) + (c + (x - d)))
      else page_bytes_of (k_mach k) p x)" if "x < 4096" for x
  proof -
    have "c + (x - d) = Suc c + (x - Suc d)" if "Suc d \<le> x" using that by simp
    then show ?thesis using m(5) m'(5) \<open>x < 4096\<close> by (cases "x = d"; cases "Suc d \<le> x") simp_all
  qed
  ultimately show ?case using m'(3,4) m(4) by auto
qed

text \<open>The second loop clears bytes as long as its condition holds.\<close>

definition clears :: "elf_program_header \<Rightarrow> nat \<Rightarrow> bool" where
  "clears h x \<longleftrightarrow> of_nat x - ph_offset h < ph_memsz h"

lemma zero_loop_step:
  "d - ph_offset h < ph_memsz h \<Longrightarrow> d < PAGE_SIZE \<Longrightarrow>
    zero_loop h data d m = rbind (vstore8 m (data + d) 0) (zero_loop h data (d + 1))"
  by (subst zero_loop.simps) simp

lemma zero_loop_done: "\<not> (d - ph_offset h < ph_memsz h \<and> d < PAGE_SIZE) \<Longrightarrow> zero_loop h data d m = Inr (d, m)"
  by (subst zero_loop.simps) auto

lemma zero_loop_result:
  assumes "P v = Some p" and "owns k P" and "d \<le> 4096"
  shows "\<exists>m e. zero_loop h v (of_nat d) (k_mach k) = Inr (of_nat e, m) \<and> d \<le> e \<and> e \<le> 4096 \<and>
    (\<forall>x. d \<le> x \<and> x < e \<longrightarrow> clears h x) \<and> (e < 4096 \<longrightarrow> \<not> clears h e) \<and>
    keeps {p} {} (k_mach k) m \<and> owns (k\<lparr>k_mach := m\<rparr>) P \<and> m_frames m = m_frames (k_mach k) \<and>
    (\<forall>x < 4096. page_bytes_of m p x = (if d \<le> x \<and> x < e then 0 else page_bytes_of (k_mach k) p x))"
  using assms(2,3)
proof (induction "4096 - d" arbitrary: k d)
  case 0
  then have "d = 4096" by simp
  moreover have "zero_loop h v 4096 (k_mach k) = Inr (4096, k_mach k)" by (rule zero_loop_done) (simp add: PAGE_SIZE_def)
  ultimately show ?case using 0(2) by (intro exI [of _ "k_mach k"] exI [of _ 4096]) auto
next
  case (Suc r)
  then have d: "d < 4096" by simp
  then have ud: "(of_nat d :: u32) < PAGE_SIZE" by (simp add: word_less_nat_alt unat_of_nat_u32)
  show ?case
  proof (cases "clears h d")
    case False
    then show ?thesis using Suc.prems by (intro exI [of _ "k_mach k"] exI [of _ d]) (auto simp: zero_loop_done clears_def)
  next
    case True
    from owned_byte [OF Suc.prems(1) assms(1) d, of 0] obtain m where
      m: "vstore8 (k_mach k) (v + of_nat d) 0 = Inr m" "keeps {p} {} (k_mach k) m" "owns (k\<lparr>k_mach := m\<rparr>) P"
        "m_frames m = m_frames (k_mach k)" "\<forall>y < 4096. page_bytes_of m p y = (if y = d then 0 else page_bytes_of (k_mach k) p y)" by blast
    have "r = 4096 - Suc d" using Suc.hyps(2) by simp
    from Suc.hyps(1) [OF this m(3)] d obtain m' e where
      m': "zero_loop h v (of_nat (Suc d)) m = Inr (of_nat e, m')" "Suc d \<le> e" "e \<le> 4096" "\<forall>x. Suc d \<le> x \<and> x < e \<longrightarrow> clears h x"
        "e < 4096 \<longrightarrow> \<not> clears h e" "keeps {p} {} m m'" "owns (k\<lparr>k_mach := m'\<rparr>) P" "m_frames m' = m_frames m"
        "\<forall>x < 4096. page_bytes_of m' p x = (if Suc d \<le> x \<and> x < e then 0 else page_bytes_of m p x)" by auto
    have "(of_nat (Suc d) :: u32) = of_nat d + 1" by simp
    from m'(1) [unfolded this] have "zero_loop h v (of_nat d) (k_mach k) = Inr (of_nat e, m')"
      using zero_loop_step [of "of_nat d" h v "k_mach k"] True ud m(1) by (simp add: clears_def)
    moreover have "clears h x" if "d \<le> x" "x < e" for x using that True m'(4) by (cases "x = d") auto
    moreover have "keeps {p} {} (k_mach k) m'" by (rule keeps_trans [OF m(2) m'(6)]) simp_all
    moreover have "page_bytes_of m' p x = (if d \<le> x \<and> x < e then 0 else page_bytes_of (k_mach k) p x)" if "x < 4096" for x
      using m(5) m'(2,9) that by (cases "x = d") auto
    ultimately show ?thesis using m'(2,3,5,7,8) m(4) by (intro exI [of _ m'] exI [of _ e]) auto
  qed
qed

section \<open>Filling the pages of a segment\<close>

text \<open>Frames reserved for a program: in use, distinct, and read by no page walk.\<close>

definition frame_reserved :: "machine \<Rightarrow> addr \<Rightarrow> bool" where
  "frame_reserved m p \<longleftrightarrow> page_of p = p \<and> walk_free m p \<and> frame_status (m_frames m) p = Some True"

lemma reserved_keeps: "keeps W X m m' \<Longrightarrow> m_frames m' = m_frames m \<Longrightarrow> frame_reserved m' = frame_reserved m"
  by (simp add: fun_eq_iff frame_reserved_def keeps_walk_free)

text \<open>One page: the window is mapped to its frame, which receives \<open>n\<close> bytes of the file and then zeros up to \<open>e\<close>.\<close>

lemma fill_page_result:
  assumes "in_file h bs" and "owns k P" and "dom P \<subseteq> {v}" and "heap_page (k_heap k) v" and "frame_reserved (k_mach k) p"
    and "c \<le> unat (ph_filesz h)" and "d < 4096" and "n = min (unat (ph_filesz h) - c) (4096 - d)"
  shows "\<exists>m1 m2 m e e'. map_page (k_mach k) v p = Inr m1 \<and>
    copy_loop h bs v (ph_offset h + of_nat c) (of_nat d) m1 = Inr (ph_offset h + of_nat (c + n), of_nat (d + n), m2) \<and>
    zero_loop h v (of_nat (d + n)) m2 = Inr (e', m) \<and>
    owns (k\<lparr>k_mach := m\<rparr>) [v \<mapsto> p] \<and> keeps {p} {v} (k_mach k) m \<and> m_frames m = m_frames (k_mach k) \<and>
    d + n \<le> e \<and> (\<forall>x. d + n \<le> x \<and> x < e \<longrightarrow> clears h x) \<and> (e < 4096 \<longrightarrow> \<not> clears h e) \<and>
    (\<forall>x < 4096. page_bytes_of m p x = (if d \<le> x \<and> x < d + n then bs ! (unat (ph_offset h) + (c + (x - d)))
      else if d + n \<le> x \<and> x < e then 0 else page_bytes_of (k_mach k) p x))"
proof -
  note r = assms(5) [unfolded frame_reserved_def]
  have o: "owns k Map.empty" using owns_keeps [OF assms(2) keeps_refl, of Map.empty] by simp
  from map_new [OF o assms(4)] r obtain m1 where m1: "map_page (k_mach k) v p = Inr m1" "m_frames m1 = m_frames (k_mach k)"
    "owns (k\<lparr>k_mach := m1\<rparr>) [v \<mapsto> p]" "keeps {} {v} (k_mach k) m1" by auto
  from copy_loop_result [OF assms(1) fun_upd_same m1(3) assms(6) less_imp_le [OF assms(7)] assms(8)] obtain m2 where
    m2: "copy_loop h bs v (ph_offset h + of_nat c) (of_nat d) m1 = Inr (ph_offset h + of_nat (c + n), of_nat (d + n), m2)"
      "keeps {p} {} m1 m2" "owns (k\<lparr>k_mach := m2\<rparr>) [v \<mapsto> p]" "m_frames m2 = m_frames m1"
      "\<forall>x < 4096. page_bytes_of m2 p x = (if d \<le> x \<and> x < d + n then bs ! (unat (ph_offset h) + (c + (x - d)))
        else page_bytes_of m1 p x)" by (auto simp del: fun_upd_apply)
  have "d + n \<le> 4096" using assms(7,8) by simp
  moreover have u: "k_mach (k\<lparr>k_mach := x\<rparr>) = x" "k\<lparr>k_mach := x, k_mach := y\<rparr> = k\<lparr>k_mach := y\<rparr>" for x y by simp_all
  ultimately obtain m e where
    m: "zero_loop h v (of_nat (d + n)) m2 = Inr (of_nat e, m)" "d + n \<le> e" "\<forall>x. d + n \<le> x \<and> x < e \<longrightarrow> clears h x"
      "e < 4096 \<longrightarrow> \<not> clears h e" "keeps {p} {} m2 m" "owns (k\<lparr>k_mach := m\<rparr>) [v \<mapsto> p]" "m_frames m = m_frames m2"
      "\<forall>x < 4096. page_bytes_of m p x = (if d + n \<le> x \<and> x < e then 0 else page_bytes_of m2 p x)"
    using zero_loop_result [OF fun_upd_same m2(3), of "d + n" h, unfolded u] by blast
  have K2: "keeps {p} {v} (k_mach k) m2" by (rule keeps_trans [OF m1(4) m2(2)]) simp_all
  have "keeps {p} {v} (k_mach k) m" by (rule keeps_trans [OF K2 m(5)]) simp_all
  moreover have "page_bytes_of m1 p x = page_bytes_of (k_mach k) p x" if "x < 4096" for x
    using keeps_page_byte [OF m1(4) _ _ _ that] r by simp
  ultimately have K: "keeps {p} {v} (k_mach k) m" and
    B: "\<forall>x < 4096. page_bytes_of m p x = (if d \<le> x \<and> x < d + n then bs ! (unat (ph_offset h) + (c + (x - d)))
      else if d + n \<le> x \<and> x < e then 0 else page_bytes_of (k_mach k) p x)" using m2(5) m(8) by auto
  have F: "m_frames m = m_frames (k_mach k)" using m(7) m2(4) m1(2) by simp
  show ?thesis using m1(1) m2(1) m(1-4,6) K B F by blast
qed

text \<open>The position of byte \<open>b\<close> of a segment whose bytes from \<open>c\<close> on are placed from offset \<open>d\<close> of the first page on.\<close>

definition at_page :: "nat \<Rightarrow> nat \<Rightarrow> nat \<Rightarrow> nat" where
  "at_page c d b = (d + (b - c)) div 4096"

definition at_offset :: "nat \<Rightarrow> nat \<Rightarrow> nat \<Rightarrow> nat" where
  "at_offset c d b = (d + (b - c)) mod 4096"

lemma position_first:
  assumes "c \<le> b" and "d + (b - c) < 4096"
  shows "at_page c d b = 0" and "at_offset c d b = d + (b - c)"
  using assms by (simp_all add: at_page_def at_offset_def)

lemma position_next:
  assumes "c \<le> b" and "4096 \<le> d + (b - c)" and "d \<le> 4096" and "n = 4096 - d"
  shows "c + n \<le> b" and "at_page c d b = Suc (at_page (c + n) 0 b)" and "at_offset c d b = at_offset (c + n) 0 b"
proof -
  show "c + n \<le> b" using assms by linarith
  have "d + (b - c) = 4096 + (b - (c + n))" using assms by linarith
  then show "at_page c d b = Suc (at_page (c + n) 0 b)" "at_offset c d b = at_offset (c + n) 0 b"
    by (simp_all add: at_page_def at_offset_def)
qed

definition segment_bytes :: "elf_program_header \<Rightarrow> u8 list \<Rightarrow> nat \<Rightarrow> nat \<Rightarrow> nat \<Rightarrow> scroll list \<Rightarrow> machine \<Rightarrow> bool" where
  "segment_bytes h bs n c d scrs m \<longleftrightarrow> (\<forall>b. c \<le> b \<and> b < unat (ph_filesz h) \<and> at_page c d b < n \<longrightarrow>
     page_bytes_of m (scr_page (scrs ! at_page c d b)) (at_offset c d b) = bs ! (unat (ph_offset h) + b))"

lemma segment_bytes_keeps:
  assumes "segment_bytes h bs n c d scrs m" and "keeps W X m m'" and "\<forall>s \<in> set (take n scrs). frame_reserved m (scr_page s) \<and> scr_page s \<notin> W"
    and "n \<le> length scrs"
  shows "segment_bytes h bs n c d scrs m'"
  unfolding segment_bytes_def
proof (intro allI impI, elim conjE)
  fix b assume b: "c \<le> b" "b < unat (ph_filesz h)" "at_page c d b < n"
  then have "scrs ! at_page c d b \<in> set (take n scrs)" using assms(4) by (force simp: in_set_conv_nth)
  with assms(3) have "frame_reserved m (scr_page (scrs ! at_page c d b))" "scr_page (scrs ! at_page c d b) \<notin> W" by blast+
  with keeps_page_byte [OF assms(2), of "scr_page (scrs ! at_page c d b)" "at_offset c d b"] assms(1) b
  show "page_bytes_of m' (scr_page (scrs ! at_page c d b)) (at_offset c d b) = bs ! (unat (ph_offset h) + b)"
    by (simp add: segment_bytes_def frame_reserved_def at_offset_def)
qed

lemma fill_pages_result:
  assumes "in_file h bs"
  shows "owns k P \<Longrightarrow> dom P \<subseteq> {v} \<Longrightarrow> heap_page (k_heap k) v \<Longrightarrow> c \<le> unat (ph_filesz h) \<Longrightarrow> d < 4096 \<Longrightarrow> n \<le> length scrs \<Longrightarrow>
    distinct (map scr_page (take n scrs)) \<Longrightarrow> \<forall>s \<in> set (take n scrs). frame_reserved (k_mach k) (scr_page s) \<Longrightarrow>
    \<exists>m P'. fill_pages h bs v n (ph_offset h + of_nat c) (of_nat d) scrs (k_mach k) = Inr (drop n scrs, m) \<and>
      owns (k\<lparr>k_mach := m\<rparr>) P' \<and> dom P' \<subseteq> {v} \<and> keeps (scr_page ` set (take n scrs)) {v} (k_mach k) m \<and>
      m_frames m = m_frames (k_mach k) \<and> segment_bytes h bs n c d scrs m"
proof (induction n arbitrary: k P c d scrs)
  case 0
  then show ?case by (intro exI [of _ "k_mach k"] exI [of _ P]) (simp add: segment_bytes_def)
next
  case (Suc n)
  from Suc.prems(6) obtain s ss where scrs: "scrs = s # ss" by (cases scrs) auto
  let ?p = "scr_page s"
  have r: "frame_reserved (k_mach k) ?p" "n \<le> length ss" "distinct (map scr_page (take n ss))" "?p \<notin> scr_page ` set (take n ss)"
    "\<forall>s \<in> set (take n ss). frame_reserved (k_mach k) (scr_page s)" using Suc.prems(6-8) by (auto simp: scrs)
  define i where "i = min (unat (ph_filesz h) - c) (4096 - d)"
  from fill_page_result [OF assms Suc.prems(1-3) r(1) Suc.prems(4,5) i_def] obtain m1 m2 m e e' where
    m: "map_page (k_mach k) v ?p = Inr m1"
      "copy_loop h bs v (ph_offset h + of_nat c) (of_nat d) m1 = Inr (ph_offset h + of_nat (c + i), of_nat (d + i), m2)"
      "zero_loop h v (of_nat (d + i)) m2 = Inr (e', m)" "owns (k\<lparr>k_mach := m\<rparr>) [v \<mapsto> ?p]" "keeps {?p} {v} (k_mach k) m"
      "m_frames m = m_frames (k_mach k)"
      "\<forall>x < 4096. page_bytes_of m ?p x = (if d \<le> x \<and> x < d + i then bs ! (unat (ph_offset h) + (c + (x - d)))
        else if d + i \<le> x \<and> x < e then 0 else page_bytes_of (k_mach k) ?p x)" by blast
  define k1 where "k1 = k\<lparr>k_mach := m\<rparr>"
  have k1: "k_mach k1 = m" "k_heap k1 = k_heap k" "k1\<lparr>k_mach := x\<rparr> = k\<lparr>k_mach := x\<rparr>" for x by (simp_all add: k1_def)
  have R: "frame_reserved m = frame_reserved (k_mach k)" by (rule reserved_keeps [OF m(5,6)])
  have ih: "dom [v \<mapsto> ?p] \<subseteq> {v}" "c + i \<le> unat (ph_filesz h)" "(0 :: nat) < 4096" using Suc.prems(4) by (auto simp: i_def)
  from Suc.IH [of k1 "[v \<mapsto> ?p]" "c + i" 0 ss, unfolded k1 R semiring_1_class.of_nat_0, OF m(4) [folded k1_def] ih(1) Suc.prems(3) ih(2,3) r(2,3,5)] obtain m' P' where
    m': "fill_pages h bs v n (ph_offset h + of_nat (c + i)) 0 ss m = Inr (drop n ss, m')" "owns (k\<lparr>k_mach := m'\<rparr>) P'" "dom P' \<subseteq> {v}"
      "keeps (scr_page ` set (take n ss)) {v} m m'" "m_frames m' = m_frames m" "segment_bytes h bs n (c + i) 0 ss m'" by blast
  have "fill_pages h bs v (Suc n) (ph_offset h + of_nat c) (of_nat d) scrs (k_mach k) = Inr (drop (Suc n) scrs, m')"
    using m(1,2,3) m'(1) by (simp add: scrs)
  moreover have "keeps (scr_page ` set (take (Suc n) scrs)) {v} (k_mach k) m'" by (rule keeps_trans [OF m(5) m'(4)]) (auto simp: scrs)
  moreover have "page_bytes_of m' (scr_page (scrs ! at_page c d b)) (at_offset c d b) = bs ! (unat (ph_offset h) + b)"
    if b: "c \<le> b" "b < unat (ph_filesz h)" "at_page c d b < Suc n" for b
  proof (cases "d + (b - c) < 4096")
    case True
    note pos = position_first [OF b(1) True]
    have "d \<le> d + (b - c) \<and> d + (b - c) < d + i" "c + (d + (b - c) - d) = b" using True b by (auto simp: i_def)
    then have "page_bytes_of m ?p (d + (b - c)) = bs ! (unat (ph_offset h) + b)" using m(7) True by simp
    moreover have "page_bytes_of m' ?p (d + (b - c)) = page_bytes_of m ?p (d + (b - c))"
      by (rule keeps_page_byte [OF m'(4) _ _ r(4) True]) (use r(1) in \<open>simp_all add: R [symmetric] frame_reserved_def\<close>)
    ultimately show ?thesis by (simp add: pos scrs)
  next
    case False
    have "i = 4096 - d" using False b by (simp add: i_def)
    note pos = position_next [OF b(1) _ _ this]
    show ?thesis using m'(6) False b Suc.prems(5) pos by (simp add: segment_bytes_def scrs)
  qed
  ultimately show ?case using m'(2,3,5) m(6) unfolding segment_bytes_def by metis
qed

text \<open>
  The rest of the page is cleared only as far as the condition of the second loop holds, which compares a position in the page
  with the segment's offset in the file: for a segment that starts behind the first 4096 bytes of the file it never holds.
\<close>

lemma clears_never:
  assumes "4096 \<le> unat (ph_offset h)" and "unat (ph_offset h) + unat (ph_memsz h) \<le> 2 ^ 32" and "x < 4096"
  shows "\<not> clears h x"
proof -
  have "unat (of_nat x - ph_offset h) = 2 ^ 32 + x - unat (ph_offset h)"
    using assms(1,3) unat_u32_lt [of "ph_offset h"] by (simp add: unat_sub_u32 unat_of_nat_u32 word_le_nat_alt)
  then show ?thesis using assms unfolding clears_def word_less_nat_alt by linarith
qed

theorem segment_rest_not_cleared:
  assumes "in_file h bs" and "owns k P" and "dom P \<subseteq> {v}" and "heap_page (k_heap k) v" and "frame_reserved (k_mach k) (scr_page s)"
    and "d + unat (ph_filesz h) < 4096" and "4096 \<le> unat (ph_offset h)" and "unat (ph_offset h) + unat (ph_memsz h) \<le> 2 ^ 32"
  shows "\<exists>m. fill_pages h bs v 1 (ph_offset h) (of_nat d) (s # ss) (k_mach k) = Inr (ss, m) \<and>
    (\<forall>x < 4096. d + unat (ph_filesz h) \<le> x \<longrightarrow> page_bytes_of m (scr_page s) x = page_bytes_of (k_mach k) (scr_page s) x)"
proof -
  define n where "n = min (unat (ph_filesz h) - 0) (4096 - d)"
  have n: "n = unat (ph_filesz h)" "d < 4096" using assms(6) by (simp_all add: n_def)
  from fill_page_result [OF assms(1-5) _ n(2) n_def] obtain m1 m2 m e e' where
    m: "map_page (k_mach k) v (scr_page s) = Inr m1"
      "copy_loop h bs v (ph_offset h) (of_nat d) m1 = Inr (ph_offset h + of_nat n, of_nat (d + n), m2)"
      "zero_loop h v (of_nat (d + n)) m2 = Inr (e', m)" "\<forall>x. d + n \<le> x \<and> x < e \<longrightarrow> clears h x"
      "\<forall>x < 4096. page_bytes_of m (scr_page s) x = (if d \<le> x \<and> x < d + n then bs ! (unat (ph_offset h) + (0 + (x - d)))
        else if d + n \<le> x \<and> x < e then 0 else page_bytes_of (k_mach k) (scr_page s) x)" by auto
  have "e \<le> d + n" using m(4) clears_never [OF assms(7,8), of "d + n"] assms(6) n(1) by force
  then have "\<forall>x < 4096. d + unat (ph_filesz h) \<le> x \<longrightarrow> page_bytes_of m (scr_page s) x = page_bytes_of (k_mach k) (scr_page s) x"
    using m(5) n(1) by simp
  then show ?thesis using m(1-3) by (intro exI [of _ m]) (simp add: numeral_eq_Suc)
qed

section \<open>Loading all segments\<close>

text \<open>
  A segment that is loaded as it should: it lies in the address space and its contents in the file, and it does not end at a
  page boundary, where the pages reserved and the pages filled are counted differently.
\<close>

definition segment_ok :: "u8 list \<Rightarrow> elf_program_header \<Rightarrow> bool" where
  "segment_ok bs h \<longleftrightarrow> in_file h bs \<and> ph_filesz h \<le> ph_memsz h \<and> unat (ph_vaddr h) + unat (ph_memsz h) + 4096 < 0x100000000 \<and>
     (ph_vaddr h + ph_memsz h) mod PAGE_SIZE \<noteq> 0"

text \<open>Every byte of the segment's contents is in the frame of the scroll for its page.\<close>

definition segment_in :: "machine \<Rightarrow> u8 list \<Rightarrow> scroll list \<Rightarrow> elf_program_header \<Rightarrow> bool" where
  "segment_in m bs scrs h \<longleftrightarrow> (\<forall>b < unat (ph_filesz h). let a = ph_vaddr h + of_nat b in
     \<exists>s \<in> set scrs. scr_vaddr s = page_of a \<and> pmem m (scr_page s + offset_of a) = bs ! (unat (ph_offset h) + b))"

lemma segment_address:
  assumes "segment_ok bs h" and "b < unat (ph_filesz h)"
  shows "unat (ph_vaddr h + of_nat b) = unat (ph_vaddr h) + b"
proof -
  have b: "unat (ph_vaddr h) + b < 4294967296" using assms by (simp add: segment_ok_def word_le_nat_alt)
  then have "unat (of_nat b :: u32) = b" by (simp add: unat_of_nat_u32)
  then show ?thesis using b by (simp add: unat_add_u32)
qed

lemma page_parts:
  fixes a b :: nat
  shows "(a + b) div 4096 = a div 4096 + (a mod 4096 + b) div 4096" and "(a mod 4096 + b) mod 4096 = (a + b) mod 4096"
proof -
  have "a + b = (a mod 4096 + b) + 4096 * (a div 4096)" by simp
  then have "(a + b) div 4096 = ((a mod 4096 + b) + 4096 * (a div 4096)) div 4096" by (rule arg_cong)
  also have "\<dots> = a div 4096 + (a mod 4096 + b) div 4096" by (subst div_mult_self2) simp_all
  finally show "(a + b) div 4096 = a div 4096 + (a mod 4096 + b) div 4096" .
  show "(a mod 4096 + b) mod 4096 = (a + b) mod 4096" by (rule mod_add_left_eq)
qed

lemma segment_byte_page:
  assumes "segment_ok bs h" and "b < unat (ph_filesz h)" and "d = unat (ph_vaddr h) mod 4096"
  shows "at_page 0 d b < length (segment_pages h)" and "segment_pages h ! at_page 0 d b = page_of (ph_vaddr h + of_nat b)"
    and "of_nat (at_offset 0 d b) = offset_of (ph_vaddr h + of_nat b)"
proof -
  define a e where "a = unat (ph_vaddr h)" and "e = unat (ph_vaddr h) + unat (ph_memsz h)"
  have s: "unat (ph_vaddr h) + unat (ph_memsz h) + 4096 < 0x100000000" "b < unat (ph_memsz h)"
    using assms(1,2) by (auto simp: segment_ok_def word_le_nat_alt)
  note pages = segment_pages_nat [OF s(1), folded a_def e_def]
  have at: "at_page 0 d b = (a + b) div 4096 - a div 4096" "a div 4096 \<le> (a + b) div 4096"
    using page_parts(1) [of a b] by (simp_all add: at_page_def assms(3) a_def)
  have le: "(a + b) div 4096 \<le> e div 4096" by (rule div_le_mono) (use s(2) in \<open>simp add: a_def e_def\<close>)
  have len: "length (segment_pages h) = e div 4096 + 1 - a div 4096" using arg_cong [OF pages, of length] by (simp del: upt_Suc)
  show lt: "at_page 0 d b < length (segment_pages h)" unfolding len at(1) using at(2) le by linarith
  have "unat (segment_pages h ! at_page 0 d b) = map unat (segment_pages h) ! at_page 0 d b" using lt by simp
  also have "\<dots> = (a div 4096 + at_page 0 d b) * 4096" unfolding pages using lt len by (simp del: upt_Suc)
  also have "\<dots> = (a + b) div 4096 * 4096" using at by simp
  also have "\<dots> = unat (page_of (ph_vaddr h + of_nat b))"
    using segment_address [OF assms(1,2)] by (simp add: minus_mod_eq_div_mult a_def)
  finally show "segment_pages h ! at_page 0 d b = page_of (ph_vaddr h + of_nat b)" by (simp add: word_unat_eq_iff)
  have "at_offset 0 d b = (a + b) mod 4096" using page_parts(2) [of a b] by (simp add: at_offset_def assms(3) a_def)
  then show "of_nat (at_offset 0 d b) = offset_of (ph_vaddr h + of_nat b)"
    using segment_address [OF assms(1,2)] by (simp add: word_unat_eq_iff unat_of_nat_u32 a_def)
qed

lemma segment_bytes_in:
  assumes "segment_ok bs h" and "segment_bytes h bs (length (segment_pages h)) 0 (unat (ph_vaddr h) mod 4096) scrs m"
    and "map scr_vaddr scrs = segment_pages h @ ps"
  shows "segment_in m bs (take (length (segment_pages h)) scrs) h"
  unfolding segment_in_def Let_def
proof (intro allI impI)
  fix b assume b: "b < unat (ph_filesz h)"
  define d where "d = unat (ph_vaddr h) mod 4096"
  note p = segment_byte_page [OF assms(1) b d_def]
  have l: "length (segment_pages h) \<le> length scrs" using arg_cong [OF assms(3), of length] by simp
  have v: "scr_vaddr (scrs ! at_page 0 d b) = segment_pages h ! at_page 0 d b"
    using arg_cong [OF assms(3), of "\<lambda>xs. xs ! at_page 0 d b"] p(1) l by (simp add: nth_append)
  have "scrs ! at_page 0 d b \<in> set (take (length (segment_pages h)) scrs)" using p(1) l by (force simp: in_set_conv_nth)
  moreover have "page_bytes_of m (scr_page (scrs ! at_page 0 d b)) (at_offset 0 d b) = bs ! (unat (ph_offset h) + b)"
    using assms(2) b p(1) by (simp add: segment_bytes_def d_def)
  ultimately show "\<exists>s \<in> set (take (length (segment_pages h)) scrs). scr_vaddr s = page_of (ph_vaddr h + of_nat b) \<and>
      pmem m (scr_page s + offset_of (ph_vaddr h + of_nat b)) = bs ! (unat (ph_offset h) + b)"
    using v p(2,3) by (intro bexI [of _ "scrs ! at_page 0 d b"]) (simp_all add: page_bytes_of_def)
qed

lemma segment_in_keeps:
  assumes "segment_in m bs scrs h" and "keeps W X m m'" and "\<forall>s \<in> set scrs. frame_reserved m (scr_page s) \<and> scr_page s \<notin> W"
  shows "segment_in m' bs scrs h"
proof -
  have "pmem m' (scr_page s + offset_of a) = pmem m (scr_page s + offset_of a)" if "s \<in> set scrs" for s a
  proof -
    have r: "page_of (scr_page s) = scr_page s" "walk_free m (scr_page s)" "scr_page s \<notin> W"
      using assms(3) that by (simp_all add: frame_reserved_def)
    have "offset_of a = of_nat (unat a mod 4096)" by (simp add: word_unat_eq_iff unat_of_nat_u32)
    then show ?thesis using keeps_page_byte [OF assms(2) r(2,1,3), of "unat a mod 4096"] by (simp add: page_bytes_of_def)
  qed
  with assms(1) show ?thesis unfolding segment_in_def Let_def by metis
qed

lemma segment_in_mono: "segment_in m bs scrs h \<Longrightarrow> set scrs \<subseteq> set scrs' \<Longrightarrow> segment_in m bs scrs' h"
  unfolding segment_in_def Let_def by blast

lemma segment_start: "ph_vaddr h - first_page h = of_nat (unat (ph_vaddr h) mod 4096)"
  by (simp add: first_page_def word_unat_eq_iff unat_mod unat_of_nat_u32)

lemma fill_segments_result:
  shows "owns k P \<Longrightarrow> dom P \<subseteq> {v} \<Longrightarrow> heap_page (k_heap k) v \<Longrightarrow> \<forall>h \<in> set hs. segment_ok bs h \<Longrightarrow>
    map scr_vaddr scrs = concat (map segment_pages hs) \<Longrightarrow> distinct (map scr_page scrs) \<Longrightarrow>
    \<forall>s \<in> set scrs. frame_reserved (k_mach k) (scr_page s) \<Longrightarrow>
    \<exists>m P'. fill_segments bs v hs scrs (k_mach k) = Inr ([], m) \<and> owns (k\<lparr>k_mach := m\<rparr>) P' \<and> dom P' \<subseteq> {v} \<and>
      keeps (scr_page ` set scrs) {v} (k_mach k) m \<and> m_frames m = m_frames (k_mach k) \<and>
      (\<forall>h \<in> set hs. segment_in m bs scrs h)"
proof (induction hs arbitrary: k P scrs)
  case Nil
  then show ?case by (intro exI [of _ "k_mach k"] exI [of _ P]) simp
next
  case (Cons h hs)
  define n xs ys where "n = length (segment_pages h)" and "xs = take n scrs" and "ys = drop n scrs"
  have ok: "segment_ok bs h" "in_file h bs" "unat (ph_vaddr h) + unat (ph_memsz h) + 4096 < 0x100000000"
    "(ph_vaddr h + ph_memsz h) mod PAGE_SIZE \<noteq> 0" using Cons.prems(4) by (simp_all add: segment_ok_def)
  have n: "n = unat (page_count h)" using page_count_mismatch [OF ok(3)] ok(4) by (simp add: n_def)
  have nl: "n \<le> length scrs" using arg_cong [OF Cons.prems(5), of length] by (simp add: n_def)
  have xy: "scrs = xs @ ys" by (simp add: xs_def ys_def)
  have d: "distinct (map scr_page xs)" "distinct (map scr_page ys)" "scr_page ` set xs \<inter> scr_page ` set ys = {}"
    "\<forall>s \<in> set xs. frame_reserved (k_mach k) (scr_page s)" using Cons.prems(6,7) unfolding xy by auto
  from fill_pages_result [OF ok(2) Cons.prems(1-3) _ _ nl d(1) [unfolded xs_def] d(4) [unfolded xs_def], of 0 "unat (ph_vaddr h) mod 4096"]
  obtain m Q where
    m: "fill_pages h bs v n (ph_offset h) (of_nat (unat (ph_vaddr h) mod 4096)) scrs (k_mach k) = Inr (ys, m)" "owns (k\<lparr>k_mach := m\<rparr>) Q"
      "dom Q \<subseteq> {v}" "keeps (scr_page ` set xs) {v} (k_mach k) m" "m_frames m = m_frames (k_mach k)"
      "segment_bytes h bs n 0 (unat (ph_vaddr h) mod 4096) scrs m" by (auto simp: xs_def ys_def)
  define k1 where "k1 = k\<lparr>k_mach := m\<rparr>"
  have k1: "k_mach k1 = m" "k_heap k1 = k_heap k" "k1\<lparr>k_mach := x\<rparr> = k\<lparr>k_mach := x\<rparr>" for x by (simp_all add: k1_def)
  have R: "frame_reserved m = frame_reserved (k_mach k)" by (rule reserved_keeps [OF m(4,5)])
  have ys: "map scr_vaddr ys = concat (map segment_pages hs)" using Cons.prems(5) by (simp add: ys_def n_def drop_map [symmetric])
  have ry: "\<forall>s \<in> set ys. frame_reserved (k_mach k) (scr_page s)" "\<forall>h \<in> set hs. segment_ok bs h"
    using Cons.prems(4,7) by (auto simp: xy)
  from Cons.IH [of k1 Q ys, unfolded k1 R, OF m(2) [folded k1_def] m(3) Cons.prems(3) ry(2) ys d(2) ry(1)] obtain m' P' where
    m': "fill_segments bs v hs ys m = Inr ([], m')" "owns (k\<lparr>k_mach := m'\<rparr>) P'" "dom P' \<subseteq> {v}" "keeps (scr_page ` set ys) {v} m m'"
      "m_frames m' = m_frames m" "\<forall>h \<in> set hs. segment_in m' bs ys h" by blast
  have "fill_segments bs v (h # hs) scrs (k_mach k) = Inr ([], m')" using m(1) m'(1) by (simp add: segment_start n)
  moreover have "keeps (scr_page ` set scrs) {v} (k_mach k) m'" by (rule keeps_trans [OF m(4) m'(4)]) (auto simp: xy)
  moreover have "segment_in m bs xs h" unfolding xs_def n_def
    by (rule segment_bytes_in [OF ok(1) m(6) [unfolded n_def]]) (use Cons.prems(5) in simp)
  then have "segment_in m' bs xs h" by (rule segment_in_keeps [OF _ m'(4)]) (use d(3,4) R in auto)
  then have "\<forall>h \<in> set (h # hs). segment_in m' bs scrs h" using m'(6) by (auto simp: xy intro: segment_in_mono)
  ultimately show ?case using m'(2,3,5) m(5) by metis
qed

section \<open>The data of an executable\<close>

text \<open>
  Freeing the buffer with the file. In the kernel the area of pages covers that of the chunks, so the pointer counts as one to
  a page and its bit is set.
\<close>

definition page_number :: "heap \<Rightarrow> addr \<Rightarrow> u32" where
  "page_number h ptr = (ptr - hp_aligned_start h) div PAGE_SIZE"

lemma kfree_in_range:
  assumes "space_ok k" and "in_aligned_range (k_heap k) ptr" and "set_page_bit (k_heap k) (page_number (k_heap k) ptr) = Inr h"
  shows "kfree k ptr = Inr (k\<lparr>k_heap := h\<rparr>)" and "space_ok (k\<lparr>k_heap := h\<rparr>)" and "heap_pages h = heap_pages (k_heap k)"
    and "heap_page (k_heap k) v \<Longrightarrow> heap_page h v"
proof -
  define n where "n = page_number (k_heap k) ptr"
  have fits: "heap_fits (k_heap k)" and wf: "wf_pages (k_heap k)" using assms(1) by (simp_all add: space_ok_def heap_fits_def)
  have "unat (hp_bitmap_cnt (k_heap k) * 32 * PAGE_SIZE) = page_cnt (k_heap k) * 4096"
    using fits by (simp add: heap_fits_def unat_word_ariths wf_pages_def page_cnt_def)
  then have "unat (ptr - hp_aligned_start (k_heap k)) < page_cnt (k_heap k) * 4096"
    using assms(2) by (simp only: in_aligned_range_def word_less_nat_alt)
  then have "unat n < page_cnt (k_heap k)" by (simp add: n_def page_number_def unat_div less_mult_imp_div_less)
  from set_page_bit_result [OF this] assms(3) have h: "page_cnt h = page_cnt (k_heap k)"
    "\<forall>q. page_used h q = (page_used (k_heap k) q \<or> q = unat n)" "h = k_heap k\<lparr>hp_page_bitmap := hp_page_bitmap h\<rparr>" by (auto simp: n_def)
  have s: "hp_aligned_start h = hp_aligned_start (k_heap k)" "hp_bitmap_cnt h = hp_bitmap_cnt (k_heap k)" by (subst h(3), simp)+
  then have "wf_pages h" using wf h(1) by (simp add: wf_pages_def page_cnt_def)
  then show "space_ok (k\<lparr>k_heap := h\<rparr>)" using assms(1) by (simp add: space_ok_def heap_fits_def heap_mapped_def s h(1))
  show "kfree k ptr = Inr (k\<lparr>k_heap := h\<rparr>)" using assms(2,3) by (simp add: kfree_def page_number_def)
  show "heap_pages h = heap_pages (k_heap k)" "heap_page (k_heap k) v \<Longrightarrow> heap_page h v"
    using h(1,2) s by (auto simp: heap_pages_def heap_page_def)
qed

lemma release_window:
  assumes "space_ok k" and "heap_page (k_heap k) v" and "in_aligned_range (k_heap k) ptr"
    and "set_page_bit (k_heap k) (page_number (k_heap k) ptr) = Inr h"
  shows "\<exists>m. unmap_page (k_mach k) v = Inr m \<and>
    rbind (kfree \<lparr>k_mach = m, k_heap = k_heap k\<rparr> ptr) (\<lambda>k. kfree k v) = Inr \<lparr>k_mach = m, k_heap = h\<rparr> \<and>
    space_ok \<lparr>k_mach = m, k_heap = h\<rparr> \<and> keeps {} {v} (k_mach k) m \<and> m_frames m = m_frames (k_mach k) \<and>
    heap_pages h = heap_pages (k_heap k)"
proof -
  have "mappable (k_mach k) v" "page_of v = v" "tables_ok (k_mach k)"
    using assms(1,2) heap_page_mappable heap_pageD by (auto simp: space_ok_def)
  with kunmap_keeps [of k v] obtain m where
    m: "unmap_page (k_mach k) v = Inr m" "keeps {} {v} (k_mach k) m" "m_frames m = m_frames (k_mach k)"
    by (auto simp: mappable_def kunmap_def rbind_def dest: arg_cong [of _ _ k_mach] split: sum.splits)
  define k1 where "k1 = k\<lparr>k_mach := m\<rparr>"
  have "space_ok k1" unfolding k1_def by (rule space_keeps [OF assms(1) m(2,3)])
  note h = kfree_in_range [OF this, unfolded k1_def, simplified, OF assms(3,4), folded k1_def]
  have k1: "\<lparr>k_mach = m, k_heap = k_heap k\<rparr> = k1" "k1\<lparr>k_heap := h\<rparr> = \<lparr>k_mach = m, k_heap = h\<rparr>" by (simp_all add: k1_def)
  have "kfree (k1\<lparr>k_heap := h\<rparr>) v = Inr (k1\<lparr>k_heap := h\<rparr>)"
    by (rule kfree_used) (use h(2,4) assms(2) in \<open>simp_all add: k1_def\<close>)
  then have "rbind (kfree \<lparr>k_mach = m, k_heap = k_heap k\<rparr> ptr) (\<lambda>k. kfree k v) = Inr \<lparr>k_mach = m, k_heap = h\<rparr>"
    using h(1) by (simp only: k1 rbind_simps)
  then show ?thesis using m h(2,3) by (intro exI [of _ m]) (simp add: k1(2))
qed

lemma load_elf_data_result:
  assumes "space_ok k" and "kmalloc_aligned (k_heap k) = Inr (v, hp)" and "program_offsets (ei_header elf) = Some os"
    and "program_headers (ei_contents elf) os = Inr hs" and "\<forall>h \<in> set (load_headers hs). segment_ok (ei_contents elf) h"
    and "map scr_vaddr (ei_first_scr elf) = concat (map segment_pages (load_headers hs))"
    and "distinct (map scr_page (ei_first_scr elf))" and "\<forall>s \<in> set (ei_first_scr elf). frame_reserved (k_mach k) (scr_page s)"
    and "in_aligned_range (k_heap k) (ei_contents_ptr elf)" and "set_page_bit hp (page_number hp (ei_contents_ptr elf)) = Inr h'"
  shows "\<exists>k'. load_elf_data elf k = Some (Inr k') \<and> space_ok k' \<and> k_heap k' = h' \<and>
    keeps (scr_page ` set (ei_first_scr elf)) {v} (k_mach k) (k_mach k') \<and> grows (scr_page ` set (ei_first_scr elf)) k k' \<and>
    m_frames (k_mach k') = m_frames (k_mach k) \<and>
    (\<forall>h \<in> set (load_headers hs). segment_in (k_mach k') (ei_contents elf) (ei_first_scr elf) h)"
proof -
  let ?scrs = "ei_first_scr elf" and ?bs = "ei_contents elf" and ?W = "scr_page ` set (ei_first_scr elf)"
  have o: "owns k Map.empty" and fits: "heap_fits (k_heap k)" using assms(1) by (simp_all add: owns_def space_ok_def)
  from kmalloc_aligned_marks [OF fits assms(2)] obtain i where i: "v = hp_aligned_start (k_heap k) + i * PAGE_SIZE"
    "marks_page (k_heap k) i hp" by blast
  define k1 where "k1 = k\<lparr>k_heap := hp\<rparr>"
  note o1 = owns_marks [OF o i(2), folded i(1) k1_def]
  have k1: "k_mach k1 = k_mach k" "k_heap k1 = hp" by (simp_all add: k1_def)
  note ms = marks_same [OF i(2) fits [unfolded heap_fits_def, THEN conjunct1]]
  from fill_segments_result [OF o1(1) _ o1(3) [folded k1(2)] assms(5,6,7), unfolded k1, OF _ assms(8)] obtain m P where
    m: "fill_segments ?bs v (load_headers hs) ?scrs (k_mach k) = Inr ([], m)" "owns (k1\<lparr>k_mach := m\<rparr>) P"
      "keeps ?W {v} (k_mach k) m" "m_frames m = m_frames (k_mach k)" "\<forall>h \<in> set (load_headers hs). segment_in m ?bs ?scrs h" by auto
  define k2 where "k2 = k1\<lparr>k_mach := m\<rparr>"
  have k2: "k_mach k2 = m" "k_heap k2 = hp" "space_ok k2" using m(2) by (simp_all add: k2_def k1_def owns_def)
  have "hp = k_heap k\<lparr>hp_page_bitmap := hp_page_bitmap hp\<rparr>" using i(2) by (simp add: marks_page_def)
  then have "hp_bitmap_cnt hp = hp_bitmap_cnt (k_heap k)" by (rule ssubst) simp
  then have "in_aligned_range hp (ei_contents_ptr elf)" using assms(9) ms(1) by (simp add: in_aligned_range_def)
  from release_window [OF k2(3), unfolded k2, OF o1(3) this assms(10)] obtain m' where
    m': "unmap_page m v = Inr m'"
      "rbind (kfree \<lparr>k_mach = m', k_heap = hp\<rparr> (ei_contents_ptr elf)) (\<lambda>k. kfree k v) = Inr \<lparr>k_mach = m', k_heap = h'\<rparr>"
      "space_ok \<lparr>k_mach = m', k_heap = h'\<rparr>" "keeps {} {v} m m'" "m_frames m' = m_frames m" "heap_pages h' = heap_pages hp"
    by (elim exE conjE) (rule that)
  have "load_elf_data elf k = Some (Inr \<lparr>k_mach = m', k_heap = h'\<rparr>)"
    using assms(2-4) m(1) m'(1,2) by (simp add: load_elf_data_def)
  moreover have "keeps ?W {v} (k_mach k) m'" by (rule keeps_trans [OF m(3) m'(4)]) simp_all
  moreover from this have "keeps (?W \<union> free_frames k) (heap_pages (k_heap k)) (k_mach k) m'"
    by (rule keeps_trans [OF _ keeps_refl]) (use heap_page_in [OF o1(3)] ms(3) in auto)
  then have "grows ?W k \<lparr>k_mach = m', k_heap = h'\<rparr>" using m(4) m'(5,6) ms(3) by (simp add: grows_def)
  moreover have "segment_in m' ?bs ?scrs h" if "h \<in> set (load_headers hs)" for h
    by (rule segment_in_keeps [OF _ m'(4)]) (use m(5) that assms(8) reserved_keeps [OF m(3,4)] in auto)
  ultimately show ?thesis using m'(3,5) m(4) by (intro exI [of _ "\<lparr>k_mach = m', k_heap = h'\<rparr>"]) simp
qed

section \<open>The memory of a program\<close>

text \<open>The scrolls of a parsed executable, in the state that has their frames in use.\<close>

lemma parsed_scrolls:
  assumes "space_ok k" and "parse_contents bs ptr (m_frames (k_mach k)) = Some (Inr (elf, f))"
    and "program_offsets (elf_header_of bs) = Some os" and "program_headers bs os = Inr hs"
    and "k1 = k\<lparr>k_mach := (k_mach k)\<lparr>m_frames := f\<rparr>\<rparr>"
  shows "space_ok k1" and "map scr_vaddr (ei_first_scr elf) = concat (map segment_pages (load_headers hs))"
    and "distinct (map scr_page (ei_first_scr elf))" and "\<forall>s \<in> set (ei_first_scr elf). frame_reserved (k_mach k1) (scr_page s)"
    and "ei_header elf = elf_header_of bs" and "ei_contents elf = bs" and "ei_contents_ptr elf = ptr"
    and "\<forall>s \<in> set (ei_first_scr elf). frame_status (m_frames (k_mach k)) (scr_page s) = Some False"
proof -
  define ps where "ps = concat (map segment_pages (load_headers hs))"
  obtain scrs where r: "reserve_pages ps (m_frames (k_mach k)) = Inr (scrs, f)" "ei_first_scr elf = scrs"
    and e: "ei_header elf = elf_header_of bs" "ei_contents elf = bs" "ei_contents_ptr elf = ptr"
    using assms(2-4) by (auto simp: parse_contents_def Let_def ps_def split: if_splits)
  have wf: "wf_frames (m_frames (k_mach k))" and ap: "frames_apart (k_mach k)" using assms(1) by (simp_all add: space_ok_def)
  from kpages.alloc_seq_fresh [OF wf, of "length ps" "map scr_page scrs" f] reserve_pages_alloc [OF r(1)]
  have fr: "distinct (map scr_page scrs)" "\<forall>x \<in> set (map scr_page scrs). frame_status (m_frames (k_mach k)) x = Some False"
    "frame_status f = (\<lambda>x. if x \<in> set (map scr_page scrs) then Some True else frame_status (m_frames (k_mach k)) x)" "wf_frames f" by auto
  show "map scr_vaddr (ei_first_scr elf) = concat (map segment_pages (load_headers hs))"
    using reserve_pages_alloc [OF r(1)] by (simp add: r(2) ps_def)
  show "distinct (map scr_page (ei_first_scr elf))" using fr(1) by (simp add: r(2))
  have w: "walk_free (k_mach k1) = walk_free (k_mach k)" by (simp add: assms(5) keeps_walk_free [OF keeps_frames])
  have "frames_apart (k_mach k1)" using ap fr(3) by (simp add: frames_apart_def w) (simp add: assms(5))
  then show "space_ok k1" using assms(1) fr(4) by (simp add: space_ok_def heap_mapped_def assms(5)
      keeps_tables_ok [OF keeps_frames] keeps_mappable [OF keeps_frames])
  show "\<forall>s \<in> set (ei_first_scr elf). frame_reserved (k_mach k1) (scr_page s)"
    using fr(2,3) ap w by (auto simp: r(2) frame_reserved_def frames_apart_def) (simp add: assms(5))
  show "ei_header elf = elf_header_of bs" "ei_contents elf = bs" "ei_contents_ptr elf = ptr" by (rule e)+
  show "\<forall>s \<in> set (ei_first_scr elf). frame_status (m_frames (k_mach k)) (scr_page s) = Some False" using fr(2) by (simp add: r(2))
qed

text \<open>A segment that ends below the window of the recursive entry has its pages below it.\<close>

lemma segment_page_index:
  assumes "segment_ok bs h" and "unat (ph_vaddr h) + unat (ph_memsz h) < 0xFFC00000" and "p \<in> set (segment_pages h)"
  shows "PG_DIR_IDX p < 1023" and "page_of p = p"
proof -
  have "unat (ph_vaddr h) + unat (ph_memsz h) + 4096 < 0x100000000" using assms(1) by (simp add: segment_ok_def)
  note pages = segment_pages_nat [OF this]
  have "unat p \<in> set (map unat (segment_pages h))" using assms(3) by simp
  then obtain i where i: "unat p = i * 4096" "i \<le> (unat (ph_vaddr h) + unat (ph_memsz h)) div 4096"
    unfolding pages by (auto simp del: upt_Suc)
  have "i * 4096 \<le> (unat (ph_vaddr h) + unat (ph_memsz h)) div 4096 * 4096" using i(2) by simp
  also have "\<dots> \<le> unat (ph_vaddr h) + unat (ph_memsz h)" by (rule div_times_less_eq_dividend)
  finally have "unat p < 0xFFC00000" using i(1) assms(2) by linarith
  then show "PG_DIR_IDX p < 1023" by (simp add: word_less_nat_alt less_mult_imp_div_less)
  have "unat p mod 4096 = 0" by (simp add: i(1))
  then show "page_of p = p" by (simp only: word_unat_eq_iff unat_page)
qed

text \<open>With distinct pages a scroll is found by its address; the stacks come before the program's own pages.\<close>

lemma find_after: "find P xs = None \<Longrightarrow> find P (xs @ ys) = find P ys"
  by (induction xs) (auto split: if_splits)

lemma scroll_lookup_task:
  assumes "distinct (map scr_vaddr scrs)" and "\<forall>s \<in> set scrs. page_of (scr_vaddr s) = scr_vaddr s" and "s \<in> set scrs"
    and "scr_vaddr s = page_of a" and "page_of (scr_page s) = scr_page s"
  shows "scroll_lookup (task_scrolls user us stack scrs) a = Some (scr_page s + offset_of a)"
proof -
  let ?P = "\<lambda>s. page_of (scr_vaddr s) = page_of a"
  obtain xs ys where xy: "scrs = xs @ s # ys" using assms(3) by (metis in_set_conv_decomp)
  have "find ?P (rev ys) = None" using assms(1,2,4) by (force simp: find_None_iff xy)
  then have "find ?P (rev ys @ s # zs) = Some s" for zs using assms(2,3,4) by (simp add: find_after)
  then show ?thesis using assms(5) by (simp add: scroll_lookup_def task_scrolls_def xy)
qed

text \<open>
  A byte of a segment in the address space of the new context: its scroll is found by the page walk through the new
  directory, and building the directory has not touched the scroll's frame.
\<close>

lemma segment_byte_read:
  assumes "space_built upper_half k (task_scrolls user us stack scrs) d k'" and "distinct (map scr_vaddr scrs)"
    and "\<forall>s \<in> set scrs. frame_reserved (k_mach k) (scr_page s) \<and> PG_DIR_IDX (scr_vaddr s) < 1023 \<and> page_of (scr_vaddr s) = scr_vaddr s"
    and "segment_in (k_mach k) bs scrs h" and "b < unat (ph_filesz h)"
  shows "vload8 ((k_mach k')\<lparr>cr3 := d\<rparr>) (ph_vaddr h + of_nat b) = Inr (bs ! (unat (ph_offset h) + b))"
proof -
  define a where "a = ph_vaddr h + of_nat b"
  obtain s where s: "s \<in> set scrs" "scr_vaddr s = page_of a" "pmem (k_mach k) (scr_page s + offset_of a) = bs ! (unat (ph_offset h) + b)"
    using assms(4,5) by (auto simp: segment_in_def a_def Let_def)
  have r: "page_of (scr_page s) = scr_page s" "walk_free (k_mach k) (scr_page s)" "scr_page s \<notin> free_frames k"
    "PG_DIR_IDX (scr_vaddr s) < 1023" using assms(3) s(1) by (auto simp: frame_reserved_def)
  have i: "PG_DIR_IDX (scr_vaddr s) = PG_DIR_IDX a" using page_eq_indices [of "scr_vaddr s" a] s(2) by simp
  then have "PG_DIR_IDX a \<noteq> 1023" using r(4) by auto
  then have "translate ((k_mach k')\<lparr>cr3 := d\<rparr>) a = space_of upper_half (k_mach k') (task_scrolls user us stack scrs) a"
    using assms(1) by (simp add: space_built_def)
  also have "\<dots> = scroll_lookup (task_scrolls user us stack scrs) a" using s(1) i by (auto simp: space_of_def task_scrolls_def)
  also have "\<dots> = Some (scr_page s + offset_of a)" using assms(2,3) s(1,2) r(1) by (intro scroll_lookup_task) auto
  finally have t: "translate ((k_mach k')\<lparr>cr3 := d\<rparr>) a = Some (scr_page s + offset_of a)" .
  have o: "offset_of a = of_nat (unat a mod 4096)" by (simp add: word_unat_eq_iff unat_of_nat_u32)
  have p: "page_of (scr_page s + offset_of a) = scr_page s" unfolding o by (rule page_byte(1) [OF r(1)]) simp
  then have "walk_free (k_mach k) (scr_page s + offset_of a)" using r(1,2) by (simp add: walk_free_def)
  then have "pmem (k_mach k') (scr_page s + offset_of a) = bs ! (unat (ph_offset h) + b)"
    using assms(1) r(3) s(3) by (simp add: space_built_def p)
  then show ?thesis using t by (simp add: vload8_def a_def)
qed

text \<open>The state after the data of a parsed executable has been loaded: its segments are in the frames of its scrolls.\<close>

definition image_loaded :: "kernel \<Rightarrow> u8 list \<Rightarrow> elf_program_header list \<Rightarrow> scroll list \<Rightarrow> bool" where
  "image_loaded k bs hs scrs \<longleftrightarrow> space_ok k \<and> distinct (map scr_vaddr scrs) \<and>
     (\<forall>s \<in> set scrs. frame_reserved (k_mach k) (scr_page s) \<and> PG_DIR_IDX (scr_vaddr s) < 1023 \<and> page_of (scr_vaddr s) = scr_vaddr s) \<and>
     (\<forall>h \<in> set hs. segment_in (k_mach k) bs scrs h)"

lemma parsed_loaded:
  assumes "space_ok k" and "parse_contents bs ptr (m_frames (k_mach k)) = Some (Inr (elf, f))"
    and "program_offsets (elf_header_of bs) = Some os" and "program_headers bs os = Inr hs"
    and "\<forall>h \<in> set (load_headers hs). segment_ok bs h \<and> unat (ph_vaddr h) + unat (ph_memsz h) < 0xFFC00000"
    and "distinct (concat (map segment_pages (load_headers hs)))"
    and "kmalloc_aligned (k_heap k) = Inr (v, hp)"
    and "in_aligned_range (k_heap k) ptr" and "set_page_bit hp (page_number hp ptr) = Inr h'"
  shows "\<exists>k2. load_elf_data elf (k\<lparr>k_mach := (k_mach k)\<lparr>m_frames := f\<rparr>\<rparr>) = Some (Inr k2) \<and> k_heap k2 = h' \<and>
    m_frames (k_mach k2) = f \<and> keeps (scr_page ` set (ei_first_scr elf)) {v} (k_mach k) (k_mach k2) \<and>
    image_loaded k2 bs (load_headers hs) (ei_first_scr elf) \<and>
    (\<forall>s \<in> set (ei_first_scr elf). frame_status (m_frames (k_mach k)) (scr_page s) = Some False) \<and> ei_header elf = elf_header_of bs"
proof -
  define k1 where "k1 = k\<lparr>k_mach := (k_mach k)\<lparr>m_frames := f\<rparr>\<rparr>"
  note p = parsed_scrolls [OF assms(1-4) k1_def]
  have k1: "k_heap k1 = k_heap k" "m_frames (k_mach k1) = f" by (simp_all add: k1_def)
  have seg: "\<forall>h \<in> set (load_headers hs). segment_ok bs h" using assms(5) by blast
  from load_elf_data_result [OF p(1) _ _ _ _ p(2-4), unfolded k1 p(5-7), OF assms(7,3,4) seg assms(8,9)] obtain k2 where
    k2: "load_elf_data elf k1 = Some (Inr k2)" "space_ok k2" "k_heap k2 = h'"
      "keeps (scr_page ` set (ei_first_scr elf)) {v} (k_mach k1) (k_mach k2)"
      "m_frames (k_mach k2) = f" "\<forall>h \<in> set (load_headers hs). segment_in (k_mach k2) bs (ei_first_scr elf) h" by blast
  have R: "frame_reserved (k_mach k2) = frame_reserved (k_mach k1)" by (rule reserved_keeps [OF k2(4)]) (simp add: k2(5) k1(2))
  have "keeps {} {} (k_mach k) (k_mach k1)" by (simp add: k1_def)
  then have K: "keeps (scr_page ` set (ei_first_scr elf)) {v} (k_mach k) (k_mach k2)" by (rule keeps_trans [OF _ k2(4)]) simp_all
  have "PG_DIR_IDX (scr_vaddr s) < 1023 \<and> page_of (scr_vaddr s) = scr_vaddr s" if "s \<in> set (ei_first_scr elf)" for s
  proof -
    have "scr_vaddr s \<in> set (map scr_vaddr (ei_first_scr elf))" using that by simp
    then obtain h where "h \<in> set (load_headers hs)" "scr_vaddr s \<in> set (segment_pages h)" unfolding p(2) by auto
    then show ?thesis using segment_page_index assms(5) by blast
  qed
  then have "image_loaded k2 bs (load_headers hs) (ei_first_scr elf)"
    using k2(2,6) p(2,4) R assms(6) by (simp add: image_loaded_def)
  then show ?thesis using k2(1,3,5) K p(5,8) unfolding k1_def by blast
qed

lemma image_kept:
  assumes "image_loaded k bs hs scrs" and "space_ok k'" and "keeps W X (k_mach k) (k_mach k')"
    and "m_frames (k_mach k') = m_frames (k_mach k)" and "W \<inter> scr_page ` set scrs = {}"
  shows "image_loaded k' bs hs scrs"
proof -
  have "segment_in (k_mach k') bs scrs h" if "segment_in (k_mach k) bs scrs h" for h
    by (rule segment_in_keeps [OF that assms(3)]) (use assms(1,5) in \<open>auto simp: image_loaded_def\<close>)
  then show ?thesis using assms(1,2) reserved_keeps [OF assms(3,4)] by (simp add: image_loaded_def)
qed

text \<open>The entries of the upper half of the directory, which no step changes.\<close>

lemma keeps_unbound:
  assumes "keeps W X m m'" and "\<forall>i < 1023. upper_half i \<longrightarrow> \<not> bit (dir_entry m i) 10"
  shows "\<forall>i < 1023. upper_half i \<longrightarrow> \<not> bit (dir_entry m' i) 10"
proof -
  have "(i :: u32) < 1024" if "i < 1023" for i using that by (simp add: word_less_nat_alt)
  then show ?thesis using assms by (simp add: keeps_def)
qed

text \<open>The directory made from the scrolls shows the program its segments.\<close>

lemma image_directory:
  assumes "image_loaded k bs hs scrs" and "\<forall>i < 1023. upper_half i \<longrightarrow> \<not> bit (dir_entry (k_mach k) i) 10"
    and "supplied kmalloc_aligned (5 + length scrs) (k_heap k)" and "supplied kpage_alloc (5 + length scrs) (m_frames (k_mach k))"
  shows "\<exists>d k'. create_task_directory enter user scrs k = Inr (d, k') \<and>
    (\<forall>h \<in> set hs. \<forall>b < unat (ph_filesz h).
      vload8 ((k_mach k')\<lparr>cr3 := d\<rparr>) (ph_vaddr h + of_nat b) = Inr (bs ! (unat (ph_offset h) + b)))"
proof -
  note l = assms(1) [unfolded image_loaded_def]
  have "\<forall>s \<in> set scrs. PG_DIR_IDX (scr_vaddr s) < 1023" "space_ok k" using l by blast+
  from task_directory_built [OF this(2) assms(2) this(1) assms(3,4), of enter user] obtain d stack us k' where
    k': "create_task_directory enter user scrs k = Inr (d, k')" "space_built upper_half k (task_scrolls user us stack scrs) d k'" by blast
  have "vload8 ((k_mach k')\<lparr>cr3 := d\<rparr>) (ph_vaddr h + of_nat b) = Inr (bs ! (unat (ph_offset h) + b))"
    if "h \<in> set hs" "b < unat (ph_filesz h)" for h b
    by (rule segment_byte_read [OF k'(2) _ _ _ that(2)]) (use l that(1) in auto)
  then show ?thesis using k'(1) by blast
qed


text \<open>An executable with one segment of 16 bytes at \<open>0x400000\<close>, four of them in the file.\<close>

definition tiny_elf :: "u8 list" where
  "tiny_elf = replicate 28 0 @ [52, 0, 0, 0] @ replicate 10 0 @ [32, 0, 1, 0] @ replicate 6 0 @
     [1, 0, 0, 0, 84, 0, 0, 0, 0, 0, 0x40, 0] @ replicate 4 0 @ [4, 0, 0, 0, 0x10, 0, 0, 0] @ replicate 8 0 @ [0xDE, 0xAD, 0xBE, 0xEF]"

definition tiny_segment :: elf_program_header where
  "tiny_segment = elf_program_header_of (drop 52 tiny_elf)"

lemma tiny_elf_headers:
  "length tiny_elf = 88" "program_offsets (elf_header_of tiny_elf) = Some [52]" "program_headers tiny_elf [52] = Inr [tiny_segment]"
  "load_headers [tiny_segment] = [tiny_segment]" "segment_pages tiny_segment = [0x400000]" "ph_vaddr tiny_segment = 0x400000"
  "ph_memsz tiny_segment = 0x10" "ph_filesz tiny_segment = 4" "ph_offset tiny_segment = 84"
proof -
  have h: "eh_program_table_offset (elf_header_of tiny_elf) = 52" "eh_program_table_length (elf_header_of tiny_elf) = 1"
    "eh_program_table_entry_size (elf_header_of tiny_elf) = 32"
    by (simp_all add: elf_header_of_def le32_def le16_def tiny_elf_def nth_append)
  show "program_offsets (elf_header_of tiny_elf) = Some [52]" by (simp add: program_offsets_def h table_offsets.simps)
  show l: "length tiny_elf = 88" by (simp add: tiny_elf_def)
  show "program_headers tiny_elf [52] = Inr [tiny_segment]" by (simp add: l tiny_segment_def)
  show p: "ph_vaddr tiny_segment = 0x400000" "ph_memsz tiny_segment = 0x10" "ph_filesz tiny_segment = 4" "ph_offset tiny_segment = 84"
    by (simp_all add: tiny_segment_def elf_program_header_of_def le32_def tiny_elf_def nth_append)
  have "ph_type tiny_segment = 1" by (simp add: tiny_segment_def elf_program_header_of_def le32_def tiny_elf_def nth_append)
  then show "load_headers [tiny_segment] = [tiny_segment]" by (simp add: load_headers_def PT_LOAD_def)
  show "segment_pages tiny_segment = [0x400000]"
    by (simp add: segment_pages_def first_page_def limit_page_def p PAGE_SIZE_def)
qed

lemma tiny_segment_ok: "segment_ok tiny_elf tiny_segment"
  by (simp add: segment_ok_def in_file_def tiny_elf_headers word_le_nat_alt PAGE_SIZE_def)

lemma tiny_supplied:
  "\<exists>v hp h'. kmalloc_aligned (k_heap small_kernel) = Inr (v, hp) \<and> set_page_bit hp (page_number hp 0x12008) = Inr h' \<and>
     supplied kmalloc_aligned 6 h'"
  "supplied kpage_alloc 7 (m_frames (k_mach small_kernel))"
proof -
  have "case kmalloc_aligned (k_heap small_kernel) of Inl e \<Rightarrow> False | Inr (v, hp) \<Rightarrow>
      (case set_page_bit hp (page_number hp 0x12008) of Inl e \<Rightarrow> False | Inr h' \<Rightarrow> supplied kmalloc_aligned 6 h')" by code_simp
  then show "\<exists>v hp h'. kmalloc_aligned (k_heap small_kernel) = Inr (v, hp) \<and> set_page_bit hp (page_number hp 0x12008) = Inr h' \<and>
     supplied kmalloc_aligned 6 h'" by (auto split: sum.splits prod.splits) (metis sum.exhaust)
  have "supplied kpage_alloc 7 (one_region 0)" by code_simp
  then show "supplied kpage_alloc 7 (m_frames (k_mach small_kernel))" by (simp add: small_kernel_def small_machine_def)
qed


end
