(* ===== verification/Programs.thy ===== *)
theory Programs
  imports Program_Image
begin

unbundle bit_operations_syntax

text \<open>
  \<^verbatim>\<open>src/kernel/elf_user.c\<close> and \<^verbatim>\<open>src/trampoline/elf_kernel.c\<close>: starting programs. The creation of a context is the one of
  \<^verbatim>\<open>src/common/context.c\<close> with its memory from the kernel's heap and its page directory; the fields of the new structure are
  those of the scheduler's store at the address of that memory.
\<close>

section \<open>Contexts with their memory\<close>

text \<open>The size of the structure: sixteen files of twelve bytes and 44 bytes of other fields with their padding.\<close>

definition CONTEXT_BYTES :: u32 where "CONTEXT_BYTES = 236"

definition new_context ::
  "addr \<Rightarrow> u8 \<Rightarrow> bool \<Rightarrow> scroll list \<Rightarrow> addr \<Rightarrow> addr \<Rightarrow> addr \<Rightarrow> addr \<Rightarrow> os \<Rightarrow> os result" where
  "new_context func_ptr priority user scrs limit stdin stdout stderr os =
     rbind (kmalloc (o_kern os) CONTEXT_BYTES) (\<lambda>(ctx_new, k).
     rbind (create_task_directory func_ptr user scrs k) (\<lambda>(directory, k).
     rbind (create_context ctx_new directory priority user limit stdin stdout stderr (o_sched os)) (\<lambda>s.
     Inr (os\<lparr>o_kern := k, o_sched := s\<rparr>))))"

definition new_kernel_context :: "addr \<Rightarrow> scroll list \<Rightarrow> os \<Rightarrow> os result" where
  "new_kernel_context func_ptr scrs os =
     rbind (kmalloc (o_kern os) CONTEXT_BYTES) (\<lambda>(ctx_new, k).
     rbind (create_kernel_directory func_ptr scrs k) (\<lambda>(directory, k).
     rbind (create_kernel_context ctx_new directory (o_sched os)) (\<lambda>s.
     Inr (os\<lparr>o_kern := k, o_sched := s\<rparr>))))"

section \<open>Starting programs\<close>

text \<open>\<open>enter\<close> is the address of \<^verbatim>\<open>enter_ring3\<close>, where the context of a program starts.\<close>

definition load_elf_user ::
  "drivers \<Rightarrow> addr \<Rightarrow> u8 list \<Rightarrow> u32 \<Rightarrow> addr \<Rightarrow> addr \<Rightarrow> addr \<Rightarrow> addr \<Rightarrow> os \<Rightarrow> runway \<Rightarrow> (os \<times> runway) result option" where
  "load_elf_user D enter path argc argv stdin stdout stderr os r =
     (case parse_elf D path os of
        None \<Rightarrow> None
      | Some (Inl e) \<Rightarrow> Some (Inl e)
      | Some (Inr (None, os)) \<Rightarrow> Some (Inr (os, r))
      | Some (Inr (Some elf, os)) \<Rightarrow>
          (let os = os\<lparr>o_sched := lock_scheduler (o_sched os)\<rparr> in
           case load_user_call_info (eh_entry_point (ei_header elf)) argc argv r of
             Inl e \<Rightarrow> Some (Inl e)
           | Inr r \<Rightarrow>
               Option.bind (load_elf_data elf (o_kern os)) (\<lambda>res.
               Some (rbind res (\<lambda>k.
                 rbind (new_context enter 1 True (ei_first_scr elf) (ei_limit elf) stdin stdout stderr (os\<lparr>o_kern := k\<rparr>)) (\<lambda>os.
                 Inr (os\<lparr>o_sched := unlock_scheduler (o_sched os)\<rparr>, r)))))))"

text \<open>\<^verbatim>\<open>load_elf_kernel\<close> returns the limit it stores in the information for the kernel.\<close>

definition load_elf_kernel :: "drivers \<Rightarrow> u8 list \<Rightarrow> os \<Rightarrow> (addr option \<times> os) result option" where
  "load_elf_kernel D path os =
     (case parse_elf D path os of
        None \<Rightarrow> None
      | Some (Inl e) \<Rightarrow> Some (Inl e)
      | Some (Inr (None, os)) \<Rightarrow> Some (Inr (None, os))
      | Some (Inr (Some elf, os)) \<Rightarrow>
          Option.bind (load_elf_data elf (o_kern os)) (\<lambda>res.
          Some (rbind res (\<lambda>k.
            rbind (new_kernel_context (eh_entry_point (ei_header elf)) (ei_first_scr elf) (os\<lparr>o_kern := k\<rparr>)) (\<lambda>os.
            Inr (Some (ei_limit elf), os))))))"

section \<open>An allocation in the last page of the heap\<close>

text \<open>
  The ordinary case of \<^verbatim>\<open>kmalloc\<close>: no chunk of the tier is free, and the page in which the heap ends, with frame \<open>p\<close>, has
  room for the new chunk.
\<close>

definition heap_room :: "u32 \<Rightarrow> kernel \<Rightarrow> addr \<Rightarrow> bool" where
  "heap_room sz k p \<longleftrightarrow> (let l = hp_limit (k_heap k); need = chunk_size_for sz in
     tier_get k (TIER_IDX need) = Inr 0 \<and> unat l mod 4096 + unat need < 4096 \<and> 4 \<le> unat need \<and>
     l + need \<le> hp_max_limit (k_heap k) \<and> p \<noteq> 0 \<and> page_of p = p \<and> walk_free (k_mach k) p \<and> PG_DIR_IDX l < 1023 \<and>
     (\<forall>a. page_of a = page_of l \<longrightarrow> translate (k_mach k) a = Some (p + offset_of a)))"

definition extend_heap :: "u32 \<Rightarrow> heap \<Rightarrow> heap" where
  "extend_heap sz h = h\<lparr>hp_limit := hp_limit h + chunk_size_for sz, hp_size := hp_size h + sz\<rparr>"

lemma page_room:
  assumes "unat l mod 4096 + unat n < 4096"
  shows "page_of (l + n) = page_of l"
proof -
  have p: "page_of (page_of l) = page_of l" by simp
  have "l + n = page_of l + (offset_of l + n)" using page_offset_join [of l] by (metis add.assoc)
  moreover have "offset_of l + n = of_nat (unat l mod 4096 + unat n)"
    using assms by (simp add: word_unat_eq_iff unat_add_u32 unat_of_nat_u32)
  ultimately have e: "l + n = page_of l + of_nat (unat l mod 4096 + unat n)" by (simp only:)
  show ?thesis unfolding e by (rule page_byte(1) [OF p assms])
qed

lemma sbrk_mapped:
  assumes "loopback (k_mach k)" and "PG_DIR_IDX l < 1023" and "translate (k_mach k) (page_of l) = Some p" and "page_of p \<noteq> 0"
  shows "sbrk_loop k (ALIGN_PG_DOWN l) (ALIGN_PG_DOWN l) = Some (Inr k)"
proof -
  have a: "ALIGN_PG_DOWN l = page_of l" by (simp add: word_unat_eq_iff)
  have "unat l div 4194304 < 1023" using assms(2) by (simp add: word_less_nat_alt)
  then have "unat (page_of l) + 4096 < 4294967296" by (simp add: div_less_iff_less_mult)
  then have "\<not> page_of l + PAGE_SIZE \<le> page_of l" by (simp add: word_le_nat_alt unat_add_u32 del: unat_page)
  then show ?thesis using get_page_mapping_translate [OF assms(1), of "page_of l"] assms(3,4)
    by (simp add: a sbrk_loop.simps [of k] sbrk_loop.simps [of k "page_of l + PAGE_SIZE"])
qed

lemma kmalloc_in_page:
  assumes "space_ok k" and "heap_room sz k p"
  shows "\<exists>m. kmalloc k sz = Inr (hp_limit (k_heap k) + 4, \<lparr>k_mach = m, k_heap = extend_heap sz (k_heap k)\<rparr>) \<and>
    keeps {p} {} (k_mach k) m \<and> m_frames m = m_frames (k_mach k)"
proof -
  define l need where "l = hp_limit (k_heap k)" and "need = chunk_size_for sz"
  note r = assms(2) [unfolded heap_room_def Let_def, folded l_def need_def]
  have lb: "loopback (k_mach k)" using assms(1) by (simp add: space_ok_def tables_ok_def)
  have pl: "page_of (l + need) = page_of l" using r page_room by blast
  have al: "ALIGN_PG_DOWN (l + need) = ALIGN_PG_DOWN l" using pl by (simp add: word_unat_eq_iff)
  have "translate (k_mach k) (page_of l) = Some (p + offset_of (page_of l))" using r by simp
  moreover have "offset_of (page_of l) = 0" by (simp add: word_unat_eq_iff minus_mod_eq_mult_div)
  ultimately have "sbrk_loop k (ALIGN_PG_DOWN l) (ALIGN_PG_DOWN l) = Some (Inr k)" using r by (intro sbrk_mapped [OF lb]) auto
  then have sb: "heap_sbrk k need = Inr (l, k\<lparr>k_heap := (k_heap k)\<lparr>hp_limit := l + need\<rparr>\<rparr>)"
    using r by (simp add: heap_sbrk_def Let_def al loop_result_def l_def [symmetric] not_less)
  let ?m = "(k_mach k)\<lparr>pmem := store32 (pmem (k_mach k)) (p + offset_of l) need\<rparr>"
  have o: "offset_of l \<le> 0xFFC" using r by (simp add: word_le_nat_alt)
  have st: "kstore (k\<lparr>k_heap := h\<rparr>) l need = Inr (k\<lparr>k_mach := ?m, k_heap := h\<rparr>)" for h
    using r o by (simp add: kstore_def vstore32_def)
  have "find_chunk k need 0 0 = Some (Inr (0, 0))" by (simp add: find_chunk.simps)
  then have "kmalloc k sz = Inr (l + 4, \<lparr>k_mach = ?m, k_heap = extend_heap sz (k_heap k)\<rparr>)"
    using r sb st by (simp add: kmalloc_def need_def [symmetric] l_def [symmetric] loop_result_def chunk_fields
        CHUNK_OVERHEAD_def extend_heap_def)
  moreover have "keeps {p} {} (k_mach k) ?m" using r o by (intro keeps_outside store_in_page) auto
  ultimately show ?thesis by (simp add: l_def)
qed

text \<open>The room is still there after the data of an executable has been loaded through another page.\<close>

lemma heap_room_kept:
  assumes "heap_room sz k p" and "keeps W {v} (k_mach k) (k_mach k')" and "page_of (hp_limit (k_heap k)) \<noteq> v"
    and "k_heap k' = (k_heap k)\<lparr>hp_page_bitmap := b\<rparr>"
  shows "heap_room sz k' p"
  using assms keeps_walk_free [OF assms(2)] by (simp add: heap_room_def Let_def keeps_def tier_get_def split: if_splits)

lemma extended_space:
  assumes "space_ok k" and "keeps W X (k_mach k) m" and "m_frames m = m_frames (k_mach k)"
  shows "space_ok \<lparr>k_mach = m, k_heap = extend_heap sz (k_heap k)\<rparr>"
proof -
  have "space_ok (k\<lparr>k_mach := m\<rparr>)" by (rule space_keeps [OF assms])
  moreover have "hp_aligned_start (extend_heap sz h) = hp_aligned_start h" "page_cnt (extend_heap sz h) = page_cnt h"
    "wf_pages (extend_heap sz h) = wf_pages h" for h by (simp_all add: extend_heap_def page_cnt_def wf_pages_def)
  ultimately show ?thesis by (simp add: space_ok_def heap_fits_def heap_mapped_def)
qed

lemma page_bit_heap: "set_page_bit h n = Inr h' \<Longrightarrow> \<exists>b. h' = h\<lparr>hp_page_bitmap := b\<rparr>"
  by (auto simp: set_page_bit_def Let_def split: if_splits)

lemma loaded_heap:
  assumes "heap_fits h" and "kmalloc_aligned h = Inr (v, hp)" and "set_page_bit hp n = Inr h'"
  shows "\<exists>b. h' = h\<lparr>hp_page_bitmap := b\<rparr>"
proof -
  from kmalloc_aligned_marks [OF assms(1,2)] have "hp = h\<lparr>hp_page_bitmap := hp_page_bitmap hp\<rparr>" by (auto simp: marks_page_def)
  moreover obtain b where "h' = hp\<lparr>hp_page_bitmap := b\<rparr>" using page_bit_heap [OF assms(3)] by blast
  ultimately have "h' = (h\<lparr>hp_page_bitmap := hp_page_bitmap hp\<rparr>)\<lparr>hp_page_bitmap := b\<rparr>" by metis
  then show ?thesis by auto
qed

section \<open>A program is started\<close>

text \<open>The part of \<^verbatim>\<open>load_elf_user\<close> behind the lock of the scheduler, for an executable that is loaded.\<close>

lemma new_context_image:
  assumes "image_loaded k bs hs scrs" and "heap_room CONTEXT_BYTES k p" and "p \<notin> scr_page ` set scrs"
    and "\<forall>i < 1023. upper_half i \<longrightarrow> \<not> bit (dir_entry (k_mach k) i) 10"
    and "supplied kmalloc_aligned (5 + length scrs) (extend_heap CONTEXT_BYTES (k_heap k))"
    and "supplied kpage_alloc (5 + length scrs) (m_frames (k_mach k))"
    and "c = hp_limit (k_heap k) + 4" and "run_ok s q" and "c \<notin> set (active_ctx s # q)" and "c \<noteq> 0"
  shows "\<exists>d k' s'. new_context enter prio user scrs limit i o' e \<lparr>o_kern = k, o_sched = s, o_vfs = v\<rparr> =
      Inr \<lparr>o_kern = k', o_sched = s', o_vfs = v\<rparr> \<and> run_ok s' (q @ [c]) \<and> active_ctx s' = active_ctx s \<and>
    cx_page_directory (ctxs s' c) = d \<and> cx_esp (ctxs s' c) = 0xFF8FFFEB \<and> irq_disable_counter s' = irq_disable_counter s \<and>
    (\<forall>h \<in> set hs. \<forall>b < unat (ph_filesz h).
      vload8 ((k_mach k')\<lparr>cr3 := d\<rparr>) (ph_vaddr h + of_nat b) = Inr (bs ! (unat (ph_offset h) + b)))"
proof -
  have ok: "space_ok k" using assms(1) by (simp add: image_loaded_def)
  from kmalloc_in_page [OF ok assms(2)] obtain m where
    m: "kmalloc k CONTEXT_BYTES = Inr (c, \<lparr>k_mach = m, k_heap = extend_heap CONTEXT_BYTES (k_heap k)\<rparr>)"
      "keeps {p} {} (k_mach k) m" "m_frames m = m_frames (k_mach k)" unfolding assms(7) by blast
  define k1 where "k1 = \<lparr>k_mach = m, k_heap = extend_heap CONTEXT_BYTES (k_heap k)\<rparr>"
  have k1: "k_mach k1 = m" "k_heap k1 = extend_heap CONTEXT_BYTES (k_heap k)" "space_ok k1"
    unfolding k1_def using extended_space [OF ok m(2,3)] by simp_all
  have "image_loaded k1 bs hs scrs" by (rule image_kept [OF assms(1) k1(3), unfolded k1, OF m(2,3)]) (use assms(3) in auto)
  from image_directory [OF this, unfolded k1, OF keeps_unbound [OF m(2) assms(4)] assms(5), unfolded m(3), OF assms(6), of enter user]
  obtain d k' where d: "create_task_directory enter user scrs k1 = Inr (d, k')"
    "\<forall>h \<in> set hs. \<forall>b < unat (ph_filesz h). vload8 ((k_mach k')\<lparr>cr3 := d\<rparr>) (ph_vaddr h + of_nat b) = Inr (bs ! (unat (ph_offset h) + b))"
    by blast
  from create_context_appends [OF assms(8-10), of d prio user limit i o' e] obtain s' where
    s': "create_context c d prio user limit i o' e s = Inr s'" "run_ok s' (q @ [c])" "active_ctx s' = active_ctx s"
      "cx_page_directory (ctxs s' c) = d" "cx_esp (ctxs s' c) = 0xFF8FFFEB" "irq_disable_counter s' = irq_disable_counter s" by blast
  have "new_context enter prio user scrs limit i o' e \<lparr>o_kern = k, o_sched = s, o_vfs = v\<rparr> =
      Inr \<lparr>o_kern = k', o_sched = s', o_vfs = v\<rparr>"
    using m(1) d(1) s'(1) by (simp add: new_context_def k1_def [symmetric])
  then show ?thesis using d(2) s'(2-6) by blast
qed


section \<open>An example\<close>

text \<open>
  The small machine with the page \<open>0x10000\<close> of the heap mapped to the frame \<open>0x100000\<close>. The heap ends in that page, which
  also holds the bytes of an executable that has been read.
\<close>

lemma owns_heap_limit:
  assumes "owns k P"
  shows "owns (k\<lparr>k_heap := (k_heap k)\<lparr>hp_limit := l\<rparr>\<rparr>) P"
proof -
  have "heap_page (h\<lparr>hp_limit := l\<rparr>) = heap_page h" "heap_fits (h\<lparr>hp_limit := l\<rparr>) = heap_fits h"
    "heap_mapped m (h\<lparr>hp_limit := l\<rparr>) = heap_mapped m h" for h m
    by (simp_all add: fun_eq_iff heap_page_def heap_fits_def heap_mapped_def page_cnt_def page_used_def wf_pages_def)
  then show ?thesis using assms by (simp add: owns_def space_ok_def)
qed

definition example_heap :: "addr \<Rightarrow> heap" where
  "example_heap l = (small_heap 1)\<lparr>hp_aligned_start := 0x10000, hp_limit := l\<rparr>"

lemma example_mapped:
  "\<exists>m. owns \<lparr>k_mach = m, k_heap = example_heap l\<rparr> [0x10000 \<mapsto> 0x100000] \<and> m_frames m = one_region 1 \<and>
     (\<forall>i < 1024. dir_entry m i = dir_entry small_machine i)"
proof -
  let ?h = "(small_heap 1)\<lparr>hp_aligned_start := 0x10000\<rparr>"
  have al: "kmalloc_aligned (k_heap small_kernel) = Inr (0x10000, ?h)" by code_simp
  have "kpage_alloc (one_region 0) = Inr (0x100000, one_region 1)" by code_simp
  then have pa: "kpage_alloc (m_frames (k_mach small_kernel)) = Inr (0x100000, one_region 1)"
    by (simp add: small_kernel_def small_machine_def)
  have o: "owns small_kernel Map.empty" "heap_fits (k_heap small_kernel)"
    using small_space by (simp_all add: owns_def space_ok_def)
  from kmalloc_aligned_marks [OF o(2) al] obtain n where n: "0x10000 = hp_aligned_start (k_heap small_kernel) + n * PAGE_SIZE"
    "marks_page (k_heap small_kernel) n ?h" by blast
  define kA where "kA = small_kernel\<lparr>k_heap := ?h\<rparr>"
  note A = owns_marks [OF o(1) n(2), folded n(1) kA_def]
  define kB where "kB = kA\<lparr>k_mach := (k_mach kA)\<lparr>m_frames := one_region 1\<rparr>\<rparr>"
  have "kpage_alloc (m_frames (k_mach kA)) = Inr (0x100000, one_region 1)" using pa by (simp add: kA_def)
  note B = owned_frame [OF A(1) this kB_def]
  have "heap_page (k_heap kB) 0x10000" "frame_status (m_frames (k_mach kB)) 0x100000 = Some True"
    using A(3) B(4) by (simp_all add: kB_def kA_def)
  from map_new [OF B(1) this(1) _ _ B(5,8) this(2)] obtain m where
    m: "m_frames m = m_frames (k_mach kB)" "owns (kB\<lparr>k_mach := m\<rparr>) [0x10000 \<mapsto> 0x100000]" "keeps {} {0x10000} (k_mach kB) m"
    by auto
  have "(kB\<lparr>k_mach := m\<rparr>)\<lparr>k_heap := (k_heap (kB\<lparr>k_mach := m\<rparr>))\<lparr>hp_limit := l\<rparr>\<rparr> = \<lparr>k_mach = m, k_heap = example_heap l\<rparr>"
    by (simp add: kB_def kA_def example_heap_def)
  with owns_heap_limit [OF m(2), of l] have "owns \<lparr>k_mach = m, k_heap = example_heap l\<rparr> [0x10000 \<mapsto> 0x100000]" by simp
  moreover have "dir_entry (k_mach kB) i = dir_entry small_machine i" for i
    by (simp add: kB_def kA_def small_kernel_def dir_entry_def)
  ultimately show ?thesis using m(1,3) by (intro exI [of _ m]) (simp add: keeps_def kB_def)
qed

text \<open>The executable in the page, from offset \<open>0x104\<close> on.\<close>

definition with_elf :: "machine \<Rightarrow> machine" where
  "with_elf m = m\<lparr>pmem := (\<lambda>a. if unat (a - 0x100104) < 88 then tiny_elf ! unat (a - 0x100104) else pmem m a)\<rparr>"

lemma with_elf_owns:
  assumes "owns \<lparr>k_mach = m, k_heap = h\<rparr> [0x10000 \<mapsto> 0x100000]"
  shows "owns \<lparr>k_mach = with_elf m, k_heap = h\<rparr> [0x10000 \<mapsto> 0x100000]" and "keeps {0x100000} {} m (with_elf m)"
proof -
  note o = ownsD [OF assms fun_upd_same, unfolded kernel.select_convs]
  have "page_of a = 0x100000" if "unat (a - 0x100104) < 88" for a
  proof -
    have "a = 0x100000 + of_nat (0x104 + unat (a - 0x100104))" by simp
    moreover have "0x104 + unat (a - 0x100104) < 4096" using that by simp
    ultimately show ?thesis using page_byte(1) [OF o(3)] by metis
  qed
  then have "same_outside 0x100000 m (with_elf m)" using o(3) by (auto simp: same_outside_def with_elf_def)
  then show K: "keeps {0x100000} {} m (with_elf m)" using o(3,4) by (intro keeps_outside)
  from owns_keeps [OF assms, of "{0x100000}" "{}" "with_elf m" "[0x10000 \<mapsto> 0x100000]"] K
  show "owns \<lparr>k_mach = with_elf m, k_heap = h\<rparr> [0x10000 \<mapsto> 0x100000]" by (simp add: with_elf_def)
qed

lemma read_bytes_all:
  "\<forall>i < length bs. vload8 m (a + of_nat i) = Inr (bs ! i) \<Longrightarrow> read_bytes m a (length bs) = Inr bs"
proof (induction bs arbitrary: a)
  case (Cons b bs)
  have "vload8 m (a + 1 + of_nat i) = Inr (bs ! i)" if "i < length bs" for i
    using Cons.prems [rule_format, of "Suc i"] that by (simp add: add.assoc)
  then have "read_bytes m (a + 1) (length bs) = Inr bs" by (intro Cons.IH) simp
  moreover have "vload8 m a = Inr b" using Cons.prems [rule_format, of 0] by simp
  ultimately show ?case by simp
qed simp

lemma example_read:
  assumes "owns \<lparr>k_mach = with_elf m, k_heap = h\<rparr> [0x10000 \<mapsto> 0x100000]"
  shows "read_bytes (with_elf m) 0x10104 88 = Inr tiny_elf"
proof -
  note o = ownsD [OF assms fun_upd_same, unfolded kernel.select_convs]
  have "vload8 (with_elf m) (0x10104 + of_nat i) = Inr (tiny_elf ! i)" if "i < 88" for i
  proof -
    have i: "0x104 + i < 4096" using that by simp
    have a: "0x10104 + of_nat i = (0x10000 :: u32) + of_nat (0x104 + i)" by simp
    have "translate (with_elf m) (0x10104 + of_nat i) = Some (0x100000 + of_nat (0x104 + i))"
      unfolding a using o(6) [OF page_byte(1) [OF o(2) i]] page_byte(2) [OF o(2) i] by simp
    moreover have "unat (of_nat i :: u32) = i" using that by (simp add: unat_of_nat_u32)
    ultimately show ?thesis using that by (simp add: vload8_def) (simp add: with_elf_def)
  qed
  then show ?thesis using read_bytes_all [of tiny_elf "with_elf m" "0x10104"] by (simp add: tiny_elf_headers(1))
qed

definition example_vfs :: vfs where
  "example_vfs = vfs_example\<lparr>inodes := (inodes vfs_example)(0x30 := blank_inode\<lparr>in_size := 88\<rparr>)\<rparr>"

lemma example_open: "vfs_open (\<lambda>_ _ v. v) [0x2F, 0x6D, 0x2F, 0x66] example_vfs = Some (Inr (0x30, example_vfs))"
proof -
  have "entry example_vfs 0x10 [0x66] (Some 0x20)"
    by (auto simp: entry_def example_vfs_def vfs_example_def blank_inode_def intro!: exI [of _ "[0x20]"])
  moreover have "in_present (inodes example_vfs (tn_inode (tnodes example_vfs 0x20)))"
    by (simp add: example_vfs_def vfs_example_def blank_inode_def)
  ultimately have "resolves example_vfs 0x10 [[0x66]] (tn_inode (tnodes example_vfs 0x20))" by (rule resolves.found)
  then have r: "resolves example_vfs 0x10 [[0x66]] 0x30" by (simp add: example_vfs_def vfs_example_def)
  have "mp_chain (mounts example_vfs) (first_mount_point example_vfs) [0x8]" by (simp add: example_vfs_def vfs_example_def)
  from vfs_open_single_mount(1) [OF this, of "\<lambda>_ _ v. v" "0x2F" "[0x66]"] open_loop_resolves [OF r, of "\<lambda>_ _ v. v"]
  show ?thesis by (simp add: example_vfs_def vfs_example_def SLASH_def)
qed

definition example_os :: "machine \<Rightarrow> addr \<Rightarrow> os" where
  "example_os m l = \<lparr>o_kern = \<lparr>k_mach = with_elf m, k_heap = example_heap l\<rparr>, o_sched = sched_example, o_vfs = example_vfs\<rparr>"

text \<open>A driver that reads the executable into the buffer, and leaves the heap with room for another chunk.\<close>

definition example_drivers :: "machine \<Rightarrow> drivers" where
  "example_drivers m = \<lparr>dr_transfer = (\<lambda>_ _ _ _ _ _. Inr (88, example_os m 0x10200)), dr_truncate = (\<lambda>_. Inr), dr_register = (\<lambda>_ _ v. v)\<rparr>"

lemma example_room:
  assumes "owns \<lparr>k_mach = with_elf m, k_heap = example_heap l\<rparr> [0x10000 \<mapsto> 0x100000]"
    and "l = 0x10100 \<and> sz = 88 \<or> l = 0x10200 \<and> sz = CONTEXT_BYTES"
  shows "heap_room sz \<lparr>k_mach = with_elf m, k_heap = example_heap l\<rparr> 0x100000"
proof -
  note o = ownsD [OF assms(1) fun_upd_same, unfolded kernel.select_convs]
  have "page_of l = 0x10000" "PG_DIR_IDX l < 1023" using assms(2) by (auto simp: ADDR_MASK_def PG_DIR_IDX_def)
  moreover have "chunk_size_for 88 = 96" "chunk_size_for CONTEXT_BYTES = 244" "TIER_IDX 96 < 21" "TIER_IDX 244 < 21"
    by (simp_all add: chunk_size_for_def chunk_consts CONTEXT_BYTES_def TIER_IDX_def bit_length.simps)
  ultimately show ?thesis using o(3,4,6) assms(2)
    by (auto simp: heap_room_def Let_def tier_get_def example_heap_def small_heap_def TIER_CNT_def MIN_CHUNK_SIZE_LOG_def
        word_less_nat_alt)
qed

lemma example_parse:
  assumes "owns \<lparr>k_mach = with_elf m, k_heap = example_heap 0x10100\<rparr> [0x10000 \<mapsto> 0x100000]"
    and "m_frames m = one_region 1"
  shows "\<exists>elf. parse_elf (example_drivers m) [0x2F, 0x6D, 0x2F, 0x66] (example_os m 0x10100) =
      Some (Inr (Some elf, set_frames (one_region 3) (example_os m 0x10200))) \<and>
    parse_contents tiny_elf 0x10104 (one_region 1) = Some (Inr (elf, one_region 3)) \<and> length (ei_first_scr elf) = 1"
proof -
  obtain elf where e: "parse_contents tiny_elf 0x10104 (one_region 1) = Some (Inr (elf, one_region 3))" "length (ei_first_scr elf) = 1"
    by (simp add: parse_contents_def tiny_elf_headers Let_def kpage_alloc_one_region del: program_headers.simps)
  have "space_ok \<lparr>k_mach = with_elf m, k_heap = example_heap 0x10100\<rparr>" using assms(1) by (simp add: owns_def)
  from kmalloc_in_page [OF this example_room [OF assms(1), of 88]] obtain k where
    k: "kmalloc \<lparr>k_mach = with_elf m, k_heap = example_heap 0x10100\<rparr> 88 = Inr (0x10104, k)" by (auto simp: example_heap_def)
  have sz: "in_size (inodes example_vfs 0x30) = 88" by (simp add: example_vfs_def)
  have "m_frames (with_elf m) = one_region 1" using assms(2) by (simp add: with_elf_def)
  then have "parse_elf (example_drivers m) [0x2F, 0x6D, 0x2F, 0x66] (example_os m 0x10100) =
      Some (Inr (Some elf, set_frames (one_region 3) (example_os m 0x10200)))"
    using example_open k example_read [OF assms(1)] e(1)
    by (simp add: parse_elf_def example_drivers_def example_os_def o_mach_def Let_def sz)
  then show ?thesis using e by blast
qed

lemma example_supplied:
  "\<exists>hp h'. kmalloc_aligned (example_heap 0x10200) = Inr (0x11000, hp) \<and> set_page_bit hp (page_number hp 0x10104) = Inr h' \<and>
     supplied kmalloc_aligned 6 (extend_heap CONTEXT_BYTES h')"
  "supplied kpage_alloc 6 (one_region 3)"
proof -
  have "case kmalloc_aligned (example_heap 0x10200) of Inl e \<Rightarrow> False | Inr (v, hp) \<Rightarrow> v = 0x11000 \<and>
      (case set_page_bit hp (page_number hp 0x10104) of Inl e \<Rightarrow> False
       | Inr h' \<Rightarrow> supplied kmalloc_aligned 6 (extend_heap CONTEXT_BYTES h'))" by code_simp
  then show "\<exists>hp h'. kmalloc_aligned (example_heap 0x10200) = Inr (0x11000, hp) \<and> set_page_bit hp (page_number hp 0x10104) = Inr h' \<and>
     supplied kmalloc_aligned 6 (extend_heap CONTEXT_BYTES h')" by (auto split: sum.splits prod.splits) (metis sum.exhaust)+
  show "supplied kpage_alloc 6 (one_region 3)" by code_simp
qed

lemma example_machine:
  "\<exists>m. (\<forall>l. owns \<lparr>k_mach = with_elf m, k_heap = example_heap l\<rparr> [0x10000 \<mapsto> 0x100000]) \<and> m_frames m = one_region 1 \<and>
     (\<forall>i < 1024. dir_entry (with_elf m) i = dir_entry small_machine i)"
proof -
  from example_mapped [of 0] obtain m where m: "owns \<lparr>k_mach = m, k_heap = example_heap 0\<rparr> [0x10000 \<mapsto> 0x100000]"
    "m_frames m = one_region 1" "\<forall>i < 1024. dir_entry m i = dir_entry small_machine i" by blast
  have "owns \<lparr>k_mach = with_elf m, k_heap = example_heap l\<rparr> [0x10000 \<mapsto> 0x100000]" for l
    using owns_heap_limit [OF with_elf_owns(1) [OF m(1)], of l] by (simp add: example_heap_def)
  then show ?thesis using m(2,3) with_elf_owns(2) [OF m(1)] by (intro exI [of _ m]) (simp add: keeps_def)
qed


end
