(* ===== verification/Sched_Types.thy ===== *)
theory Sched_Types
  imports Scheduler
begin

text \<open>
  A type invariant of the scheduler of \<^verbatim>\<open>src/common/scheduler.c\<close> and \<^verbatim>\<open>src/kernel/sleep.c\<close>: in every state the kernel can
  reach, each pointer the scheduler follows is null or points to a context that was created. Nothing is assumed about the
  shape of the lists, which may even be cyclic when a context sleeps while no other is ready.
\<close>

section \<open>Pointers to contexts\<close>

definition sched_typed :: "addr set \<Rightarrow> sched \<Rightarrow> bool" where
  "sched_typed C s \<longleftrightarrow> finite C \<and> 0 \<notin> C \<and> active_ctx s \<in> C \<and> last_ctx s \<in> C \<and> next_ctx s \<in> insert 0 C \<and>
     first_sleeping_ctx s \<in> insert 0 C \<and> (\<forall>c \<in> C. cx_next (ctxs s c) \<in> insert 0 C)"

named_theorems sched_ops

lemmas [sched_ops] = upd_ctx_def lock_scheduler_def unlock_scheduler_def context_switch_def Let_def

lemma typed_not_null: "sched_typed C s \<Longrightarrow> c \<in> C \<Longrightarrow> c \<noteq> 0"
  by (auto simp: sched_typed_def)

lemma typed_upd_ctx:
  assumes "sched_typed C s" and "p \<in> C" and "cx_next (f (ctxs s p)) \<in> insert 0 C"
  shows "\<exists>s'. upd_ctx p f s = Inr s' \<and> sched_typed C s' \<and> s' = s\<lparr>ctxs := (ctxs s)(p := f (ctxs s p))\<rparr>"
  using assms by (auto simp: upd_ctx_def sched_typed_def)

lemma schedule_typed: "sched_typed C s \<Longrightarrow> \<exists>s'. schedule esp s = Inr s' \<and> sched_typed C s'"
  by (auto simp: schedule_def sched_ops sched_typed_def)

lemma preempt_typed: "sched_typed C s \<Longrightarrow> \<exists>s'. preempt esp s = Inr s' \<and> sched_typed C s'"
  by (auto simp: preempt_def sched_ops sched_typed_def)

lemma sleep_millis_typed:
  assumes "sched_typed C s"
  shows "\<exists>s'. sleep_millis esp ms s = Inr s' \<and> sched_typed C s'"
proof -
  let ?a = "active_ctx s"
  let ?m = "(ctxs s)(?a := (ctxs s ?a)\<lparr>cx_next := first_sleeping_ctx s, cx_alarm := ms\<rparr>)"
  let ?s = "(lock_scheduler s)\<lparr>first_sleeping_ctx := ?a, ctxs := ?m\<rparr>"
  have "sleep_millis esp ms s = schedule esp ?s"
    using assms by (auto simp: sleep_millis_def sched_ops sched_typed_def)
  moreover have "sched_typed C ?s" using assms by (auto simp: sched_typed_def lock_scheduler_def)
  ultimately show ?thesis using schedule_typed by simp
qed

lemma enqueue_typed:
  assumes "sched_typed C s" and "p \<in> C"
  shows "\<exists>s'. enqueue_ctx p s = Inr s' \<and> sched_typed C s'"
  using assms by (auto simp: enqueue_ctx_def upd_ctx_def sched_typed_def)

text \<open>Creating a context fills it in, with a link that is null, and appends it to the ready queue.\<close>

lemma create_context_enqueues:
  assumes "p \<noteq> 0"
  obtains c where "cx_next c = 0" and "create_context p directory priority user limit i o' e s =
    rbind (enqueue_ctx p ((lock_scheduler s)\<lparr>ctxs := (ctxs s)(p := c), ctx_id := ctx_id s + 1\<rparr>)) (\<lambda>s. Inr (unlock_scheduler s))"
proof (rule that)
  let ?c = "(ctxs s p)\<lparr>cx_priority := priority, cx_heap := cx_heap (ctxs s (active_ctx s)),
      cx_present := True, cx_id := ctx_id s, cx_page_directory := directory, cx_slices := 0,
      cx_esp := TASK_STACK_BASE - 5 * 4, cx_limit := limit, cx_next := 0, cx_user := user,
      cx_files := [std_file MODE_READ i, std_file MODE_WRITE o', std_file MODE_WRITE e] @
        map (\<lambda>f. f\<lparr>f_mode := 0\<rparr>) (drop 3 (cx_files (ctxs s p)))\<rparr>"
  show "cx_next ?c = 0" by simp
  show "create_context p directory priority user limit i o' e s =
    rbind (enqueue_ctx p ((lock_scheduler s)\<lparr>ctxs := (ctxs s)(p := ?c), ctx_id := ctx_id s + 1\<rparr>)) (\<lambda>s. Inr (unlock_scheduler s))"
    using assms by (simp add: create_context_def lock_scheduler_def upd_ctx_def Let_def)
qed

lemma lock_typed: "sched_typed C (lock_scheduler s) = sched_typed C s" "sched_typed C (unlock_scheduler s) = sched_typed C s"
  by (simp_all add: sched_typed_def lock_scheduler_def unlock_scheduler_def Let_def)

lemma create_context_typed:
  assumes "sched_typed C s" and "p \<noteq> 0"
  shows "\<exists>s'. create_context p directory priority user limit i o' e s = Inr s' \<and> sched_typed (insert p C) s'"
proof -
  obtain c where c: "cx_next c = 0" "create_context p directory priority user limit i o' e s =
    rbind (enqueue_ctx p ((lock_scheduler s)\<lparr>ctxs := (ctxs s)(p := c), ctx_id := ctx_id s + 1\<rparr>)) (\<lambda>s. Inr (unlock_scheduler s))"
    using assms(2) by (rule create_context_enqueues)
  have "sched_typed (insert p C) ((lock_scheduler s)\<lparr>ctxs := (ctxs s)(p := c), ctx_id := ctx_id s + 1\<rparr>)"
    using assms c(1) by (auto simp: sched_typed_def lock_scheduler_def)
  from enqueue_typed [OF this, of p] c(2) show ?thesis by (auto simp: lock_typed)
qed

section \<open>The walk along the sleeping contexts\<close>

text \<open>
  Every visit counts an alarm down, and the walk ends at the first that reaches zero: whatever the list looks like, the sum
  of the alarms bounds the number of visits.
\<close>

definition alarms :: "addr set \<Rightarrow> sched \<Rightarrow> nat" where
  "alarms C s = (\<Sum>c \<in> C. unat (cx_alarm (ctxs s c) - 1))"

lemma alarms_less:
  assumes "finite C" and "c \<in> C" and "cx_alarm (ctxs s c) \<noteq> 1"
  shows "alarms C (s\<lparr>ctxs := (ctxs s)(c := (ctxs s c)\<lparr>cx_alarm := cx_alarm (ctxs s c) - 1\<rparr>)\<rparr>) < alarms C s"
proof -
  let ?s = "s\<lparr>ctxs := (ctxs s)(c := (ctxs s c)\<lparr>cx_alarm := cx_alarm (ctxs s c) - 1\<rparr>)\<rparr>"
  have "cx_alarm (ctxs s c) - 1 \<noteq> 0" using assms(3) by simp
  then have l: "unat (cx_alarm (ctxs s c) - 1 - 1) < unat (cx_alarm (ctxs s c) - 1)" by (rule measure_unat)
  show ?thesis unfolding alarms_def
  proof (rule sum_strict_mono_ex1 [OF assms(1)])
    show "\<forall>x \<in> C. unat (cx_alarm (ctxs ?s x) - 1) \<le> unat (cx_alarm (ctxs s x) - 1)" using l by auto
    show "\<exists>x \<in> C. unat (cx_alarm (ctxs ?s x) - 1) < unat (cx_alarm (ctxs s x) - 1)" using l assms(2) by auto
  qed
qed

lemma wake_typed:
  assumes "sched_typed C s" and "v \<in> C" and "p \<in> insert 0 C"
  shows "\<exists>s'. rbind (upd_ctx (last_ctx s) (\<lambda>c. c\<lparr>cx_next := v\<rparr>) s) (\<lambda>s.
      (let s = s\<lparr>last_ctx := v\<rparr>; rest = cx_next (ctxs s v) in
       rbind (if p = 0 then Inr (s\<lparr>first_sleeping_ctx := rest\<rparr>) else upd_ctx p (\<lambda>c. c\<lparr>cx_next := rest\<rparr>) s) (\<lambda>s.
       upd_ctx v (\<lambda>c. c\<lparr>cx_next := 0\<rparr>) s))) = Inr s' \<and> sched_typed C s' \<and> cx_next (ctxs s' v) = 0"
  using assms by (auto simp: upd_ctx_def sched_typed_def Let_def)

lemma sleep_loop_typed:
  assumes "sched_typed C s" and "p \<in> insert 0 C" and "v \<in> insert 0 C"
  shows "\<exists>s'. sleep_loop p v s = Some (Inr s') \<and> sched_typed C s'"
  using assms
proof (induction "alarms C s" arbitrary: s p v rule: less_induct)
  case less
  show ?case
  proof (cases "v = 0")
    case True
    then show ?thesis using less.prems(1) by (auto simp: sleep_loop.simps)
  next
    case False
    with less.prems(3) have v: "v \<in> C" by simp
    define s1 where "s1 = s\<lparr>ctxs := (ctxs s)(v := (ctxs s v)\<lparr>cx_alarm := cx_alarm (ctxs s v) - 1\<rparr>)\<rparr>"
    have t1: "sched_typed C s1" using less.prems(1) v by (auto simp: sched_typed_def s1_def)
    have a1: "cx_alarm (ctxs s1 v) = cx_alarm (ctxs s v) - 1" by (simp add: s1_def)
    show ?thesis
    proof (cases "cx_alarm (ctxs s v) = 1")
      case True
      from wake_typed [OF t1 v less.prems(2)] obtain s' where
        s': "rbind (upd_ctx (last_ctx s1) (\<lambda>c. c\<lparr>cx_next := v\<rparr>) s1) (\<lambda>s.
          (let s = s\<lparr>last_ctx := v\<rparr>; rest = cx_next (ctxs s v) in
           rbind (if p = 0 then Inr (s\<lparr>first_sleeping_ctx := rest\<rparr>) else upd_ctx p (\<lambda>c. c\<lparr>cx_next := rest\<rparr>) s) (\<lambda>s.
           upd_ctx v (\<lambda>c. c\<lparr>cx_next := 0\<rparr>) s))) = Inr s'" "sched_typed C s'" "cx_next (ctxs s' v) = 0"
        by (elim exE conjE) (rule that)
      have a0: "cx_alarm (ctxs s1 v) = 0" using True by (simp add: a1)
      have "sleep_loop p v s = sleep_loop v (cx_next (ctxs s' v)) s'"
        using False a0 s'(1) by (subst sleep_loop.simps) (simp add: s1_def [symmetric] Let_def)
      also have "\<dots> = Some (Inr s')" by (simp add: s'(3) sleep_loop.simps)
      finally show ?thesis using s'(2) by blast
    next
      case nz: False
      have "sleep_loop p v s = sleep_loop v (cx_next (ctxs s1 v)) s1"
        using False nz by (subst sleep_loop.simps) (simp add: s1_def [symmetric] a1 Let_def)
      moreover have "alarms C s1 < alarms C s" unfolding s1_def
        by (rule alarms_less) (use less.prems(1) v nz in \<open>simp_all add: sched_typed_def\<close>)
      moreover have "cx_next (ctxs s1 v) \<in> insert 0 C" using t1 v by (simp add: sched_typed_def)
      ultimately show ?thesis using less.hyps [of s1 v] t1 v by simp
    qed
  qed
qed

lemma sleep_tick_typed: "sched_typed C s \<Longrightarrow> \<exists>s'. sleep_tick s = Some (Inr s') \<and> sched_typed C s'"
  unfolding sleep_tick_def by (rule sleep_loop_typed) (auto simp: sched_typed_def)

lemma timer_typed:
  assumes "sched_typed C s"
  shows "\<exists>b s'. handle_timer_enter esp s = Some (Inr (b, s')) \<and> sched_typed C s'"
proof -
  have "sched_typed C (lock_scheduler s)" using assms by (simp add: lock_typed)
  from sleep_tick_typed [OF this] obtain s1 where s1: "sleep_tick (lock_scheduler s) = Some (Inr s1)" "sched_typed C s1" by blast
  have "cx_next (use_slice (ctxs s1 (active_ctx s1))) \<in> insert 0 C" "active_ctx s1 \<in> C"
    using s1(2) by (auto simp: use_slice_def Let_def sched_typed_def)
  from typed_upd_ctx [of C s1 "active_ctx s1" use_slice, OF s1(2) this(2,1)] obtain s2 where s2: "upd_ctx (active_ctx s1) use_slice s1 = Inr s2" "sched_typed C s2" by blast
  obtain s3 where s3: "preempt esp s2 = Inr s3" "sched_typed C s3" using preempt_typed [OF s2(2)] by blast
  show ?thesis
  proof (cases "cx_slices (ctxs s2 (active_ctx s2)) > 0")
    case True
    then have "handle_timer_enter esp s = Some (Inr (False, unlock_scheduler s2))" using s1(1) s2(1) by (simp add: handle_timer_enter_def)
    then show ?thesis using s2(2) lock_typed by blast
  next
    case False
    then have "handle_timer_enter esp s = Some (Inr (True, s3))" using s1(1) s2(1) s3(1) by (simp add: handle_timer_enter_def)
    then show ?thesis using s3(2) by blast
  qed
qed

text \<open>
  A context that sleeps while no other is ready goes on running; when it sleeps once more it becomes its own successor in the
  list of sleeping contexts.
\<close>

theorem sleep_alone_cycle:
  assumes "next_ctx s = 0" and "active_ctx s \<noteq> 0"
  shows "\<exists>s1 s2. sleep_millis esp ms s = Inr s1 \<and> active_ctx s1 = active_ctx s \<and> sleep_millis esp' ms' s1 = Inr s2 \<and>
    active_ctx s2 = active_ctx s \<and> cx_next (ctxs s2 (active_ctx s)) = active_ctx s"
  using assms by (simp add: sleep_millis_def sched_ops schedule_def)

section \<open>The scheduler of the kernel\<close>

text \<open>
  The states of the scheduler with the contexts created so far. \<^verbatim>\<open>kmain\<close> makes the first context from the code that is
  running and then creates the idle context; from there on the operations of the kernel follow in any order. A new context
  lies at an address \<^verbatim>\<open>kmalloc\<close> returned, which is not null. The counter of the timer does not matter here.
\<close>

inductive sched_run :: "addr set \<Rightarrow> sched \<Rightarrow> bool" where
  sched_boot: "first \<noteq> 0 \<Longrightarrow> idle \<noteq> 0 \<Longrightarrow> next_ctx s0 = 0 \<Longrightarrow> first_sleeping_ctx s0 = 0 \<Longrightarrow>
    init_first_ctx first cr3 s0 = Inr s1 \<Longrightarrow>
    create_context idle directory priority user limit i o' e (lock_scheduler s1) = Inr s \<Longrightarrow> sched_run {first, idle} (unlock_scheduler s)"
| sched_create: "sched_run C s \<Longrightarrow> p \<noteq> 0 \<Longrightarrow> create_context p directory priority user limit i o' e s = Inr s' \<Longrightarrow> sched_run (insert p C) s'"
| sched_schedule: "sched_run C s \<Longrightarrow> schedule esp s = Inr s' \<Longrightarrow> sched_run C s'"
| sched_terminate: "sched_run C s \<Longrightarrow> terminate esp s = Inr s' \<Longrightarrow> sched_run C s'"
| sched_preempt: "sched_run C s \<Longrightarrow> preempt esp s = Inr s' \<Longrightarrow> sched_run C s'"
| sched_sleep: "sched_run C s \<Longrightarrow> sleep_millis esp ms s = Inr s' \<Longrightarrow> sched_run C s'"
| sched_timer: "sched_run C s \<Longrightarrow> handle_timer_enter esp s = Some (Inr (b, s')) \<Longrightarrow> sched_run C s'"
| sched_resume: "sched_run C s \<Longrightarrow> handle_timer_resume tick_period s h = Inr (s', h') \<Longrightarrow> sched_run C s'"
| sched_lock: "sched_run C s \<Longrightarrow> sched_run C (lock_scheduler s)"
| sched_unlock: "sched_run C s \<Longrightarrow> sched_run C (unlock_scheduler s)"

lemma boot_typed:
  assumes "first \<noteq> 0" and "idle \<noteq> 0" and "next_ctx s0 = 0" and "first_sleeping_ctx s0 = 0"
    and "init_first_ctx first cr3 s0 = Inr s1"
    and "create_context idle directory priority user limit i o' e (lock_scheduler s1) = Inr s"
  shows "sched_typed {first, idle} s"
proof -
  let ?l = "lock_scheduler s1"
  have s1: "next_ctx ?l = 0" "first_sleeping_ctx ?l = 0" "active_ctx ?l = first"
    using assms(1,3-5) by (auto simp: init_first_ctx_def upd_ctx_def lock_scheduler_def)
  obtain c where c: "cx_next c = 0" "create_context idle directory priority user limit i o' e ?l =
    rbind (enqueue_ctx idle ((lock_scheduler ?l)\<lparr>ctxs := (ctxs ?l)(idle := c), ctx_id := ctx_id ?l + 1\<rparr>)) (\<lambda>s. Inr (unlock_scheduler s))"
    using assms(2) by (rule create_context_enqueues)
  from assms(6) [unfolded c(2)] obtain s2 where s2: "enqueue_ctx idle ((lock_scheduler ?l)\<lparr>ctxs := (ctxs ?l)(idle := c), ctx_id := ctx_id ?l + 1\<rparr>) = Inr s2"
    "s = unlock_scheduler s2" by auto
  have "sched_typed {first, idle} s2"
    using s2(1) s1 c(1) assms(1,2) by (auto simp: enqueue_ctx_def upd_ctx_def lock_scheduler_def sched_typed_def split: if_splits)
  then show ?thesis by (simp add: s2(2) lock_typed)
qed

lemma resume_typed: "sched_typed C s \<Longrightarrow> handle_timer_resume t s h = Inr (s', h') \<Longrightarrow> sched_typed C s'"
  by (auto simp: handle_timer_resume_def Let_def lock_typed split: if_splits)

lemma run_typed: "sched_run C s \<Longrightarrow> sched_typed C s"
proof (induction rule: sched_run.induct)
  case sched_boot
  then show ?case unfolding lock_typed by (rule boot_typed)
next
  case (sched_create C s p directory priority user limit i o' e s')
  from create_context_typed [OF sched_create.IH sched_create.hyps(2), of directory priority user limit i o' e]
  show ?case using sched_create.hyps(3) by auto
next
  case (sched_schedule C s esp s')
  then show ?case using schedule_typed [of C s esp] by auto
next
  case (sched_terminate C s esp s')
  then show ?case using schedule_typed [of C s esp] by (auto simp: terminate_def)
next
  case (sched_preempt C s esp s')
  then show ?case using preempt_typed [of C s esp] by auto
next
  case (sched_sleep C s esp ms s')
  then show ?case using sleep_millis_typed [of C s esp ms] by auto
next
  case (sched_timer C s esp b s')
  then show ?case using timer_typed [of C s esp] by auto
next
  case (sched_resume C s t h s' h')
  show ?case by (rule resume_typed [OF sched_resume.IH sched_resume.hyps(2)])
qed (simp_all add: lock_typed)



end
