(* ===== verification/Kernel_Main.thy ===== *)
theory Kernel_Main
  imports Boot Console Programs Sched_Types
begin

unbundle bit_operations_syntax

text \<open>
  The main functions of the two stages, \<^verbatim>\<open>trampoline_main\<close> of \<^verbatim>\<open>src/trampoline/trampoline.c\<close> and \<^verbatim>\<open>kmain\<close> of
  \<^verbatim>\<open>src/kernel/kernel.c\<close>, composed of the models of the parts they call, in the order of the calls. Arguments stand for
  the hardware, the addresses the linker determines, what uninitialised structures hold, and the drivers behind the
  callbacks; \<open>vfs_of\<close> is the virtual file system with the mount points the disk driver has made. Log messages are left out.
\<close>

section \<open>The trampoline\<close>

text \<open>The part of \<^verbatim>\<open>init_vga\<close> that does not draw: the description of the framebuffer and the scroll it reserves.\<close>

definition read_fb_tag :: "machine \<Rightarrow> addr \<Rightarrow> vga_framebuffer result" where
  "read_fb_tag m tag_fb =
     rbind (vload32 m (tag_fb + 8)) (\<lambda>bfr. rbind (vload32 m (tag_fb + 16)) (\<lambda>pitch.
     rbind (vload32 m (tag_fb + 20)) (\<lambda>width. rbind (vload32 m (tag_fb + 24)) (\<lambda>height.
     Inr \<lparr>fb_bfr = bfr, fb_width = width, fb_height = height, fb_pitch = pitch\<rparr>))))"

definition fb_scr :: "vga_framebuffer \<Rightarrow> scroll" where
  "fb_scr fb = \<lparr>scr_vaddr = fb_bfr fb, scr_size = ALIGN_PG_UP (fb_pitch fb * fb_width fb), scr_type = SCROLL_ALIGNED, scr_page = fb_bfr fb\<rparr>"

text \<open>The section headers in the tag, which follow its 20 bytes of fields.\<close>

definition read_section :: "machine \<Rightarrow> addr \<Rightarrow> elf_section_header result" where
  "read_section m a =
     rbind (vload32 m a) (\<lambda>n. rbind (vload32 m (a + 4)) (\<lambda>t. rbind (vload32 m (a + 8)) (\<lambda>f.
     rbind (vload32 m (a + 12)) (\<lambda>ad. rbind (vload32 m (a + 16)) (\<lambda>offs. rbind (vload32 m (a + 20)) (\<lambda>sz.
     rbind (vload32 m (a + 24)) (\<lambda>l. rbind (vload32 m (a + 28)) (\<lambda>i. rbind (vload32 m (a + 32)) (\<lambda>al.
     rbind (vload32 m (a + 36)) (\<lambda>e.
     Inr \<lparr>sh_name = n, sh_type = t, sh_flags = f, sh_addr = ad, sh_offset = offs, sh_size = sz, sh_link = l, sh_info = i,
       sh_addralign = al, sh_entsize = e\<rparr>))))))))))"

fun read_section_table :: "machine \<Rightarrow> addr \<Rightarrow> nat \<Rightarrow> elf_section_header list result" where
  "read_section_table m a 0 = Inr []"
| "read_section_table m a (Suc n) =
     rbind (read_section m a) (\<lambda>s. rbind (read_section_table m (a + 40) n) (\<lambda>ss. Inr (s # ss)))"

definition read_sections :: "machine \<Rightarrow> addr \<Rightarrow> elf_section_header list result" where
  "read_sections m tag_elf = rbind (vload32 m (tag_elf + 8)) (\<lambda>num. read_section_table m (tag_elf + 20) (unat num))"

text \<open>\<^verbatim>\<open>"/ext2/bin/muse"\<close> and \<^verbatim>\<open>"/ext2/bin/test.o"\<close>.\<close>

definition path_of :: "string \<Rightarrow> u8 list" where
  "path_of s = map of_char s"

definition KERNEL_PATH :: "u8 list" where "KERNEL_PATH = path_of ''/ext2/bin/muse''"
definition PROGRAM_PATH :: "u8 list" where "PROGRAM_PATH = path_of ''/ext2/bin/test.o''"

text \<open>
  \<^verbatim>\<open>trampoline_main\<close> up to its \<^verbatim>\<open>hlt\<close> loop. The result is what it leaves for the kernel, the system and the state of the
  devices. Without a kernel the last call finds no context to switch to.
\<close>

definition trampoline_main ::
  "'h ports \<Rightarrow> addr \<Rightarrow> u32 \<Rightarrow> pci_func \<Rightarrow> nat \<Rightarrow> ata_dev \<Rightarrow> (ata_dev \<Rightarrow> 'h \<Rightarrow> 'h) \<Rightarrow> drivers \<Rightarrow> ('h \<Rightarrow> vfs) \<Rightarrow> heap \<Rightarrow>
     addr \<Rightarrow> u32 \<Rightarrow> trampoline_info \<Rightarrow> sched \<Rightarrow> 'h pci \<Rightarrow> (vga_framebuffer \<times> trampoline_info \<times> addr option \<times> os \<times> 'h pci) result" where
  "trampoline_main P first esp fn0 n dev0 gpt D vfs_of h0 multiboot magic ti s w =
     (let m = k_mach (pc_kernel w) in
      rbind (check_boot m multiboot magic first (cr3 m) s) (\<lambda>(tag_fb, s).
      rbind (read_fb_tag m tag_fb) (\<lambda>fb.
      rbind (collect_boot_info m multiboot ti) (\<lambda>(tag_elf, ti).
      rbind (read_sections m tag_elf) (\<lambda>sections.
      rbind (init_memory sections (reserve_scroll (fb_scr fb) []) h0 ti (pc_kernel w)) (\<lambda>(directory, ti, k).
      rbind (upd_ctx (active_ctx s) (\<lambda>c. c\<lparr>cx_page_directory := directory\<rparr>) s) (\<lambda>s.
      rbind (register_ata P dev0 gpt (w\<lparr>pc_kernel := k\<rparr>)) (\<lambda>w.
      rbind (init_pci P fn0 n w) (\<lambda>w.
      rbind (loop_result (load_elf_kernel D KERNEL_PATH \<lparr>o_kern = pc_kernel w, o_sched = s, o_vfs = vfs_of (pc_hw w)\<rparr>)) (\<lambda>(limit, os).
      rbind (terminate esp (o_sched os)) (\<lambda>s.
      Inr (fb, ti, limit, os\<lparr>o_sched := s\<rparr>, w\<lparr>pc_kernel := o_kern os\<rparr>))))))))))))"

section \<open>The kernel\<close>

text \<open>
  The console of the kernel: the framebuffer gets an address in the kernel's half, where the screen is cleared. Its contents
  are a store of their own, so that mapping it does not change them.
\<close>

definition kmain_console :: "vga_framebuffer \<Rightarrow> console \<Rightarrow> kernel \<Rightarrow> (console \<times> kernel) result" where
  "kmain_console fb con k =
     rbind (map_phys_obj (fb_bfr fb) (fb_pitch fb * fb_height fb) k) (\<lambda>(bfr, k).
     let con = reinit_console (con\<lparr>con_v := (con_v con)\<lparr>v_fb := fb\<lparr>fb_bfr := bfr\<rparr>\<rparr>\<rparr>) in
     rbind (fill_rect 0 0 (fb_width fb) (fb_height fb) 0 (con_v con)) (\<lambda>v.
     Inr (con\<lparr>con_v := v\<rparr>, k)))"

text \<open>
  \<^verbatim>\<open>init_root_term\<close>: the buffer, its lock and the mount point are three allocations; the inode is the first field of the
  mount point. \<open>i0\<close> holds the fields of the inode that are not set, \<open>mem\<close> and \<open>lock\<close> what the memory of the buffer held.
\<close>

definition STDIN_BYTES :: u32 where "STDIN_BYTES = 556"
definition LOCK_MULTI_BYTES :: u32 where "LOCK_MULTI_BYTES = 8"
definition MOUNT_POINT_BYTES :: u32 where "MOUNT_POINT_BYTES = 48"

definition init_root_term :: "vfs_inode \<Rightarrow> u8 list list \<Rightarrow> lock_multi \<Rightarrow> os \<Rightarrow> (addr \<times> stdin \<times> os) result" where
  "init_root_term i0 mem lock os =
     rbind (kmalloc (o_kern os) STDIN_BYTES) (\<lambda>(inp, k).
     rbind (kmalloc k LOCK_MULTI_BYTES) (\<lambda>(_, k).
     rbind (kmalloc k MOUNT_POINT_BYTES) (\<lambda>(mnt, k).
     let inode = i0\<lparr>in_size := 0, in_present := True, in_first_child := 0, in_backend_data := inp\<rparr>;
         (_, v) = mount mnt mnt inode (path_of ''/dev/term'') (o_vfs os) in
     Inr (mnt, init_stdin mem lock, os\<lparr>o_kern := k, o_vfs := v\<rparr>))))"

text \<open>
  The last part of \<^verbatim>\<open>kmain\<close>, from \<^verbatim>\<open>init_userspace\<close> on. \<open>first\<close> is the address of \<^verbatim>\<open>first_ctx\<close>, \<open>idle\<close> and \<open>enter\<close> are those
  of the functions the two contexts start in.
\<close>

definition kmain_start ::
  "drivers \<Rightarrow> addr \<Rightarrow> addr \<Rightarrow> addr \<Rightarrow> vfs_inode \<Rightarrow> u8 list list \<Rightarrow> lock_multi \<Rightarrow> os \<Rightarrow> runway \<Rightarrow>
     (addr \<times> stdin \<times> syscall option list \<times> os \<times> runway) result" where
  "kmain_start D first idle enter i0 mem lock os r =
     (let r = init_userspace r in
      rbind (init_first_ctx first (cr3 (o_mach os)) (o_sched os)) (\<lambda>s.
      let table = init_syscalls in
      rbind (init_root_term i0 mem lock (os\<lparr>o_sched := s\<rparr>)) (\<lambda>(root_term, inp, os).
      let os = os\<lparr>o_sched := lock_scheduler (o_sched os)\<rparr> in
      rbind (new_context idle 1 False [] 0 root_term root_term root_term os) (\<lambda>os.
      let os = os\<lparr>o_sched := unlock_scheduler (o_sched os)\<rparr> in
      rbind (loop_result (load_elf_user D enter PROGRAM_PATH 0 0 root_term root_term root_term os r)) (\<lambda>(os, r).
      Inr (root_term, inp, table, os, r))))))"

text \<open>What the trampoline leaves: the framebuffer, the tables of the firmware and the end of the kernel.\<close>

record boot_info =
  bi_fb :: vga_framebuffer
  bi_acpi_rsdt :: addr
  bi_rsdt_len :: u32
  bi_kernel_limit :: addr

record 'h kmain_state =
  km_boot :: "'h boot"
  km_console :: console
  km_gdt :: addr
  km_tss :: addr
  km_task_register :: u32
  km_root_term :: addr
  km_stdin :: stdin
  km_syscalls :: "syscall option list"
  km_runway :: runway
  km_vfs :: vfs

definition kmain ::
  "'h ports \<Rightarrow> 'h mmio \<Rightarrow> addr \<times> addr \<times> addr \<times> addr \<times> addr \<Rightarrow> pci_func \<Rightarrow> nat \<Rightarrow> ata_dev \<Rightarrow> (ata_dev \<Rightarrow> 'h \<Rightarrow> 'h) \<Rightarrow> drivers \<Rightarrow> ('h \<Rightarrow> vfs) \<Rightarrow>
     addr \<times> addr \<times> addr \<Rightarrow> heap \<Rightarrow> u16 \<times> addr \<Rightarrow> vfs_inode \<Rightarrow> u8 list list \<Rightarrow> lock_multi \<Rightarrow> boot_info \<Rightarrow>
     'h kmain_state \<Rightarrow> 'h kmain_state result" where
  "kmain P M isrs fn0 n dev0 gpt D vfs_of funcs h0 gdtr i0 mem lock bi st =
     (let (first, idle, enter) = funcs; (size_dec, start) = gdtr; b = km_boot st; k = pc_kernel (bt_pci b) in
      rbind (init_first_ctx first (cr3 (k_mach k)) (bt_sched b)) (\<lambda>s.
      rbind (kmain_memory (bi_kernel_limit bi) h0 k) (\<lambda>k.
      rbind (kmain_console (bi_fb bi) (km_console st) k) (\<lambda>(con, k).
      rbind (move_gdt size_dec start k) (\<lambda>(gdt, tss, task_register, k).
      rbind (free_lower_half k) (\<lambda>k.
      let b = with_machine k (pc_hw (bt_pci b)) (b\<lparr>bt_sched := s\<rparr>) in
      rbind (init_devices P M isrs (bi_acpi_rsdt bi, bi_rsdt_len bi) fn0 n dev0 gpt b) (\<lambda>b.
      rbind (kmain_start D first idle enter i0 mem lock
               \<lparr>o_kern = pc_kernel (bt_pci b), o_sched = bt_sched b, o_vfs = vfs_of (pc_hw (bt_pci b))\<rparr> (km_runway st))
        (\<lambda>(root_term, inp, table, os, r).
      Inr (st\<lparr>km_boot := with_machine (o_kern os) (pc_hw (bt_pci b)) (b\<lparr>bt_sched := o_sched os\<rparr>), km_console := con, km_gdt := gdt,
        km_tss := tss, km_task_register := task_register, km_root_term := root_term, km_stdin := inp, km_syscalls := table,
        km_runway := r, km_vfs := o_vfs os\<rparr>)))))))))"

section \<open>The scheduler after the boot\<close>

text \<open>Reading a file leaves the scheduler alone.\<close>

definition transfer_unscheduled :: "drivers \<Rightarrow> bool" where
  "transfer_unscheduled D \<longleftrightarrow>
     (\<forall>f p n a d os n' os'. dr_transfer D f p n a d os = Inr (n', os') \<longrightarrow> o_sched os' = o_sched os)"

lemma parse_elf_sched:
  assumes "transfer_unscheduled D" and "parse_elf D path os = Some (Inr (x, os'))"
  shows "o_sched os' = o_sched os"
  using assms by (auto simp: parse_elf_def transfer_unscheduled_def set_frames_def Let_def bind_eq_Some_conv
      split: option.splits sum.splits if_splits prod.splits)

lemma new_context_run:
  assumes "sched_run C (o_sched os)" and "new_context f prio user scrs limit i o' e os = Inr os'"
  shows "\<exists>C'. sched_run C' (o_sched os')"
proof -
  from assms(2) obtain p d k s where s: "create_context p d prio user limit i o' e (o_sched os) = Inr s" "o_sched os' = s"
    by (auto simp: new_context_def)
  then have "p \<noteq> 0" by (auto simp: create_context_def upd_ctx_def Let_def split: if_splits)
  then show ?thesis using sched_create [OF assms(1) _ s(1)] s(2) by blast
qed

lemma load_elf_user_run:
  assumes "transfer_unscheduled D" and "sched_run C (o_sched os)" and "load_elf_user D enter path argc argv i o' e os r = Some (Inr (os', r'))"
  shows "\<exists>C'. sched_run C' (o_sched os')"
proof -
  obtain x os1 where p: "parse_elf D path os = Some (Inr (x, os1))"
    using assms(3) by (auto simp: load_elf_user_def split: option.splits sum.splits)
  note s1 = parse_elf_sched [OF assms(1) p]
  show ?thesis
  proof (cases x)
    case None
    then show ?thesis using assms(2,3) p s1 by (auto simp: load_elf_user_def)
  next
    case (Some elf)
    with assms(3) p obtain k os2 where n: "new_context enter 1 True (ei_first_scr elf) (ei_limit elf) i o' e
        (os1\<lparr>o_sched := lock_scheduler (o_sched os1), o_kern := k\<rparr>) = Inr os2" "os' = os2\<lparr>o_sched := unlock_scheduler (o_sched os2)\<rparr>"
      by (auto simp: load_elf_user_def Let_def bind_eq_Some_conv split: sum.splits)
    have "sched_run C (o_sched (os1\<lparr>o_sched := lock_scheduler (o_sched os1), o_kern := k\<rparr>))" using assms(2) s1 by (simp add: sched_lock)
    from new_context_run [OF this n(1)] n(2) sched_unlock show ?thesis by auto
  qed
qed

text \<open>
  When \<^verbatim>\<open>kmain\<close> has started the first programs the scheduler is in a state of its step relation, so that the type invariant
  holds from then on. Before, the ready queue and the list of sleeping contexts are empty.
\<close>

theorem kmain_start_run:
  assumes "transfer_unscheduled D" and "first \<noteq> 0" and "next_ctx (o_sched os) = 0" and "first_sleeping_ctx (o_sched os) = 0"
    and "kmain_start D first idle enter i0 mem lock os r = Inr (root_term, inp, table, os', r')"
  shows "\<exists>C. sched_run C (o_sched os')"
proof -
  from assms(5) obtain s os1 os2 where s: "init_first_ctx first (cr3 (o_mach os)) (o_sched os) = Inr s"
    and t: "init_root_term i0 mem lock (os\<lparr>o_sched := s\<rparr>) = Inr (root_term, inp, os1)"
    and n: "new_context idle 1 False [] 0 root_term root_term root_term (os1\<lparr>o_sched := lock_scheduler (o_sched os1)\<rparr>) = Inr os2"
    and l: "load_elf_user D enter PROGRAM_PATH 0 0 root_term root_term root_term (os2\<lparr>o_sched := unlock_scheduler (o_sched os2)\<rparr>)
      (init_userspace r) = Some (Inr (os', r'))"
    by (auto simp: kmain_start_def Let_def loop_result_def split: option.splits)
  have "o_sched os1 = s" using t by (auto simp: init_root_term_def Let_def mount_def)
  with n obtain p d where c: "create_context p d 1 False 0 root_term root_term root_term (lock_scheduler s) = Inr (o_sched os2)"
    by (auto simp: new_context_def)
  then have "p \<noteq> 0" by (auto simp: create_context_def upd_ctx_def Let_def split: if_splits)
  from sched_boot [OF assms(2) this assms(3,4) s c] have "sched_run {first, p} (unlock_scheduler (o_sched os2))" .
  then show ?thesis using load_elf_user_run [OF assms(1) _ l] by simp
qed

text \<open>
  When the trampoline has found the kernel's executable it ends by switching to a context that is not one of user mode, in
  the directory made for that executable.
\<close>

lemma create_kernel_context_next:
  assumes "create_kernel_context q d s = Inr s'" and "next_ctx s = 0"
  shows "next_ctx s' = q" "q \<noteq> 0" "active_ctx s' = active_ctx s" "cx_page_directory (ctxs s' q) = d" "\<not> cx_user (ctxs s' q)"
  using assms by (auto simp: create_kernel_context_def enqueue_ctx_def upd_ctx_def split: if_splits)

lemma terminate_enters_next:
  assumes "terminate esp s = Inr s'" and "next_ctx s \<noteq> 0"
  shows "active_ctx s' = next_ctx s" "cx_page_directory (ctxs s' c) = cx_page_directory (ctxs s c)" "cx_user (ctxs s' c) = cx_user (ctxs s c)"
  using assms by (auto simp: terminate_def schedule_def context_switch_def upd_ctx_def Let_def split: if_splits)

lemma load_elf_kernel_context:
  assumes "load_elf_kernel D path os = Some (Inr (Some limit, os'))" and "transfer_unscheduled D" and "next_ctx (o_sched os) = 0"
  shows "\<exists>elf os1 p d k k'. parse_elf D path os = Some (Inr (Some elf, os1)) \<and> limit = ei_limit elf \<and>
    create_kernel_directory (eh_entry_point (ei_header elf)) (ei_first_scr elf) k = Inr (d, k') \<and> next_ctx (o_sched os') = p \<and> p \<noteq> 0 \<and> active_ctx (o_sched os') = active_ctx (o_sched os) \<and>
    cx_page_directory (ctxs (o_sched os') p) = d \<and> \<not> cx_user (ctxs (o_sched os') p)"
proof -
  from assms(1) obtain elf os1 k where p: "parse_elf D path os = Some (Inr (Some elf, os1))" "limit = ei_limit elf"
    and n: "new_kernel_context (eh_entry_point (ei_header elf)) (ei_first_scr elf) (os1\<lparr>o_kern := k\<rparr>) = Inr os'"
    by (auto simp: load_elf_kernel_def bind_eq_Some_conv split: option.splits sum.splits prod.splits)
  have s1: "o_sched os1 = o_sched os" by (rule parse_elf_sched [OF assms(2) p(1)])
  from n obtain q k1 d k2 where c: "create_kernel_directory (eh_entry_point (ei_header elf)) (ei_first_scr elf) k1 = Inr (d, k2)"
    "create_kernel_context q d (o_sched os) = Inr (o_sched os')" by (auto simp: new_kernel_context_def s1)
  from c(1) p create_kernel_context_next [OF c(2) assms(3)] show ?thesis by (intro exI conjI)
qed

theorem trampoline_enters_kernel:
  assumes "transfer_unscheduled D" and "next_ctx s = 0"
    and "trampoline_main P first esp fn0 n dev0 gpt D vfs_of h0 multiboot magic ti s w = Inr (fb, ti', Some limit, os', w')"
  shows "\<exists>os elf os1 d k k'. parse_elf D KERNEL_PATH os = Some (Inr (Some elf, os1)) \<and> limit = ei_limit elf \<and>
    create_kernel_directory (eh_entry_point (ei_header elf)) (ei_first_scr elf) k = Inr (d, k') \<and>
    cx_page_directory (ctxs (o_sched os') (active_ctx (o_sched os'))) = d \<and> \<not> cx_user (ctxs (o_sched os') (active_ctx (o_sched os')))"
proof -
  from assms(3) obtain os v where l: "load_elf_kernel D KERNEL_PATH os = Some (Inr (Some limit, v))"
    and t: "terminate esp (o_sched v) = Inr (o_sched os')" and s1: "next_ctx (o_sched os) = 0"
    using assms(2) by (auto simp: trampoline_main_def Let_def loop_result_def check_boot_def init_first_ctx_def upd_ctx_def
        split: option.splits if_splits)
  from load_elf_kernel_context [OF l assms(1) s1] obtain elf os1 d k k' where
    e: "parse_elf D KERNEL_PATH os = Some (Inr (Some elf, os1))" "create_kernel_directory (eh_entry_point (ei_header elf)) (ei_first_scr elf) k = Inr (d, k')" "limit = ei_limit elf"
      "next_ctx (o_sched v) \<noteq> 0" "cx_page_directory (ctxs (o_sched v) (next_ctx (o_sched v))) = d"
      "\<not> cx_user (ctxs (o_sched v) (next_ctx (o_sched v)))" by blast
  from e(1,3,2) show ?thesis unfolding terminate_enters_next [OF t e(4)] using e(5,6) by (intro exI conjI)
qed

end
