(* ===== verification/Spec2Isabelle.thy ===== *)
theory Spec2Isabelle
  imports Libc_String Libc_Exit Ext2_Files Terminal_Read Kernel_Main
begin

text \<open>
  A verification development of the Muse kernel, a 32-bit x86 kernel with paging, a heap, preemptive
  contexts, a virtual file system with an ext2 driver, a terminal and system calls.

  \<^bold>\<open>The program and its models.\<close> Every theory models one part of \<^verbatim>\<open>src/\<close>; definitions carry the names of the
  C functions, structures become records with the fields in the order of the C declaration, enums become
  datatypes. Loops that end are recursive functions, loops that may not end are
  \<^verbatim>\<open>partial_function (option)\<close>, so that \<open>None\<close> is not returning. A function that can stop otherwise
  returns a \<open>result\<close>: \<open>Inl Halted\<close> is \<^verbatim>\<open>cli; hlt\<close>, \<open>Inl (PageFault a)\<close> an access the MMU refuses,
  \<open>Inl OutOfBounds\<close> an access outside a C object, \<open>Inl DivideError\<close> a division by zero, \<open>Inl Spins\<close> a
  lock that is never released. Machine integers are words of their width and wrap around.

  \<^item> \<open>Muse_Prelude\<close>: words, byte stores, results, page arithmetic, \<^verbatim>\<open>include/muse/utils.h\<close>.
  \<^item> \<open>Libc_String\<close>: \<^verbatim>\<open>libc/lib/string.c\<close>, every function, over a byte store.
  \<^item> \<open>Sync\<close>: \<^verbatim>\<open>src/common/sync.c\<close>; each lock operation is a step, and a transition relation interleaves
    the steps of any number of contexts.
  \<^item> \<open>Page_Frames\<close>: \<^verbatim>\<open>src/common/memory.c\<close>, the allocator of page frames over the bitmaps of the regions.
  \<^item> \<open>Mmu\<close>, \<open>Paging\<close>: \<^verbatim>\<open>src/common/paging.c\<close> on a machine with physical memory, page directory register
    and hardware page walk; tables are reached through the recursive entry as in the code.
  \<^item> \<open>Address_Space\<close>: the rest of \<^verbatim>\<open>paging.c\<close>, which needs the heap (objects in physical memory, page directories of
    contexts), and \<^verbatim>\<open>src/common/scroll.c\<close>. \<open>Owned_Pages\<close> and \<open>Task_Space\<close> show what the construction of a directory
    leaves behind: pages it owns for a while, and a new address space.
  \<^item> \<open>Kheap\<close>, \<open>Kheap_Chunks\<close>: \<^verbatim>\<open>src/common/alloc.c\<close> on that machine, chunks in virtual memory.
  \<^item> \<open>Scheduler\<close>: \<^verbatim>\<open>scheduler.c\<close>, \<^verbatim>\<open>context.c\<close>, \<^verbatim>\<open>sleep.c\<close>, \<^verbatim>\<open>hpet.c\<close>; contexts in a store indexed by address.
    The end-of-interrupt signal of the timer handler is not part of the state.
  \<^item> \<open>Vfs\<close>: \<^verbatim>\<open>src/common/vfs.c\<close>; the function pointers of inodes are arguments.
  \<^item> \<open>Terminal\<close>, \<open>Terminal_Read\<close>: \<^verbatim>\<open>src/kernel/keyboard.c\<close> and \<^verbatim>\<open>src/kernel/term.c\<close>; what is typed while a reader waits is an argument.
  \<^item> \<open>Framebuffer\<close>, \<open>Console\<close>: \<^verbatim>\<open>vga.c\<close>, \<^verbatim>\<open>psf.c\<close>, \<^verbatim>\<open>text.c\<close>, \<^verbatim>\<open>logging.c\<close>; the font is an argument.
  \<^item> \<open>Syscalls\<close>: \<^verbatim>\<open>src/kernel/syscall.c\<close> and \<^verbatim>\<open>src/kernel/userspace.c\<close>, the composition of heap, scheduler and
    file system; the transfer functions of the drivers are arguments.
  \<^item> \<open>Sched_Types\<close>: the invariant of the scheduler's pointers along every sequence of its operations.
  \<^item> \<open>Elf\<close>: \<^verbatim>\<open>elf.c\<close>. \<open>Program_Image\<close> follows the bytes of a file through parsing, loading and the new directory.
  \<^item> \<open>Programs\<close>: \<^verbatim>\<open>elf_user.c\<close> and \<^verbatim>\<open>elf_kernel.c\<close>, with contexts whose memory is taken from the heap and whose
    directory is built by \<^verbatim>\<open>create_task_directory\<close> and \<^verbatim>\<open>create_kernel_directory\<close>.
  \<^item> \<open>Libc_Heap\<close>, \<open>Libc_Stdio\<close>, \<open>Libc_Exit\<close>: \<^verbatim>\<open>libc/lib/heap.c\<close>, \<^verbatim>\<open>stdio.c\<close>, \<^verbatim>\<open>init.c\<close> and \<^verbatim>\<open>stdlib.c\<close>; the system calls are
    arguments.
  \<^item> \<open>Ata\<close>, \<open>Gpt\<close>, \<open>Ext2\<close>, \<open>Ext2_Files\<close>: \<^verbatim>\<open>io.c\<close>, \<^verbatim>\<open>ata.c\<close>, \<^verbatim>\<open>gpt.c\<close>, \<^verbatim>\<open>ext2.c\<close>. Port instructions are an argument;
    a drive that follows the ATA protocol without errors shows that the assumptions of the theorems
    hold somewhere.
  \<^item> \<open>Pci\<close>, \<open>Acpi\<close>: \<^verbatim>\<open>pci.c\<close> with \<^verbatim>\<open>register_ata\<close>, and \<^verbatim>\<open>acpi.c\<close>; configuration space behind the port instructions, tables in
    virtual memory.
  \<^item> \<open>Interrupts\<close>, \<open>Ps2\<close>: \<^verbatim>\<open>interrupts.c\<close>, \<^verbatim>\<open>apic.c\<close>, \<^verbatim>\<open>pic.c\<close>, \<^verbatim>\<open>msr.c\<close>, \<^verbatim>\<open>init_hpet\<close>, \<^verbatim>\<open>ps2.c\<close>, \<^verbatim>\<open>init_keyboard\<close>; ports and registers in
    memory are arguments, and models of the controllers that follow their protocols show what is achieved.
  \<^item> \<open>Multiboot\<close>, \<open>Boot\<close>, \<open>Kernel_Main\<close>: \<^verbatim>\<open>multiboot.c\<close>, \<^verbatim>\<open>trampoline.c\<close>, \<^verbatim>\<open>init_memory\<close> and \<^verbatim>\<open>kernel.c\<close>; the main functions of
    both stages are composed of the parts, in the order of their calls.

  \<^bold>\<open>How the parts interact.\<close> \<^verbatim>\<open>map_page\<close> takes frames from the allocator, the heap maps its pages with it, and
  \<^verbatim>\<open>sbrk\<close> and the pointer checks of the system calls use both; the console draws through the framebuffer
  under its lock; \<^verbatim>\<open>ext2_transfer\<close> calls the transfer of a partition, which calls the driver. The interfaces
  are locales interpreted on the models: the queue of contexts in \<open>Scheduler\<close>, the byte stream
  in \<open>Terminal\<close>, the block device in \<open>Gpt\<close>, with the lemmas of \<open>Ext2_Files\<close> proved once for it.

  \<^bold>\<open>What is shown.\<close>
  \<^item> Memory: frames are handed out at most once; \<^verbatim>\<open>map_page\<close> and \<^verbatim>\<open>unmap_page\<close> change exactly one
    translation; lookups agree with the page walk; the heap returns disjoint memory it has mapped. The directory
    made for a new context is a well-formed address space with its stacks and scrolls and one half of the current one.
  \<^item> Concurrency: mutual exclusion of the locks over all interleavings, and the interleaving that
    breaks the reader-writer lock; fairness of preemption; the accounting of time slices and alarms. The scheduler's
    pointers are null or contexts in every state it reaches, and its walks end.
  \<^item> Files: path resolution refines resolution in a tree; reading and writing an ext2 file through all
    three layers acts on its content as on a list of bytes; allocation, inodes and directories.
  \<^item> Input and output: the terminal is a byte stream, also for readers that wait for lines not yet typed; text stays on the screen; formats render as they
    are read.
  \<^item> Programs: starting an executable appends a context to the ready queue in whose address space every byte of
    its segments reads as in the file; the C library's heap returns disjoint blocks and its buffered output is a byte
    stream.
  \<^item> System calls: growth of a task's memory, soundness of the pointer checks, descriptors.
  \<^item> Start: the boot information is searched to its end, available memory becomes regions up to the capacity,
    tables and devices are found and enumerated, and the interrupts of keyboard and timer reach their handlers. The
    trampoline ends in a context of the kernel's executable; the kernel's main function leaves the scheduler in a state of
    its invariant.
  \<^item> Errors: for code that does not do what it is meant to, the theorem states what it does.

  \<^bold>\<open>Bounds.\<close> The only bound on recursion is the depth of nested scans of PCI buses, which stands for the size of the
  stack; any depth above the rank of a bus gives the same scan. Reads and writes of files are shown for block sizes up to 64 KiB (a transfer of
  fewer than 256 sectors) and files within the singly indirect block, which is all the code handles.
  Contexts are at most as many as there are addresses; identifiers of contexts wrap around at their width.

  \<^bold>\<open>Not modelled.\<close> Assembly (\<^verbatim>\<open>boot.S\<close>, context switch, interrupt stubs) beyond its effect on the modelled state; in the
  composition of the main functions, log messages and the drawing of \<^verbatim>\<open>init_console\<close>, whose models are in \<open>Console\<close> and
  \<open>Framebuffer\<close>; the pixels of the screen are a store of their own, not part of physical memory; the structures of
  \<^verbatim>\<open>multiboot.h\<close> that no code uses; the font data and the build files; headers that only declare.
\<close>

end
